(* ===== verification/Kcp_Prelude.thy ===== *)
theory Kcp_Prelude
  imports Main "HOL-Library.Word" "HOL-Library.Signed_Division" "HOL-Library.Multiset"
begin

text \<open>
  The prelude of the development: the widths of the C integer types, the conversions between
  them that the sources rely on, the byte order of the wire format
  (\<^verbatim>\<open>kcp/internal/kcp_endian.h\<close>), the result codes (\<^verbatim>\<open>kcp/include/kcp_error.h\<close>), the
  numeric parameters (\<^verbatim>\<open>kcp/include/kcp_config.h\<close>), and the lemmas on words, byte
  strings and lists that the component theories share.
\<close>

unbundle bit_operations_syntax

named_theorems kcp_const \<open>the numeric parameters of kcp_config.h\<close>
named_theorems kcp_wire \<open>lengths and inversions of the byte encodings\<close>

section \<open>C integer types\<close>

type_synonym u4 = "4 word"
type_synonym u8 = "8 word"
type_synonym u16 = "16 word"
type_synonym u32 = "32 word"
type_synonym u64 = "64 word"
type_synonym bytes = "u8 list"

text \<open>
  An \<open>int32_t\<close> is an \<open>int\<close>; \<open>s32\<close> is the conversion to \<open>int32_t\<close> (two's complement), which is
  also applied to the results of signed arithmetic that can leave the range. \<open>i32_of_u64\<close> and
  \<open>i32_of_u32\<close> are the implicit conversions of unsigned values to \<open>int32_t\<close>, \<open>u32_of_i32\<close> and
  \<open>u64_of_i32\<close> the ones back.
\<close>

definition s32 :: "int \<Rightarrow> int" where
  "s32 x = signed_take_bit 31 x"

definition i32_of_u32 :: "u32 \<Rightarrow> int" where
  "i32_of_u32 w = sint w"

definition i32_of_u64 :: "u64 \<Rightarrow> int" where
  "i32_of_u64 w = sint (ucast w :: u32)"

definition u32_of_i32 :: "int \<Rightarrow> u32" where
  "u32_of_i32 x = word_of_int x"

definition u64_of_i32 :: "int \<Rightarrow> u64" where
  "u64_of_i32 x = word_of_int x"

section \<open>Byte order\<close>

text \<open>
  The wire format is little-endian: \<open>htole16\<close>, \<open>htole32\<close> and \<open>htole64\<close> followed by a store of
  the value through a pointer write \<open>le_bytes n\<close>, and a load followed by \<open>le16toh\<close>,
  \<open>le32toh\<close> or \<open>le64toh\<close> reads \<open>le_word\<close>.
\<close>

primrec le_bytes :: "nat \<Rightarrow> 'a::len word \<Rightarrow> bytes" where
  "le_bytes 0 w = []"
| "le_bytes (Suc n) w = ucast w # le_bytes n (drop_bit 8 w)"

primrec le_word :: "bytes \<Rightarrow> 'a::len word" where
  "le_word [] = 0"
| "le_word (b # bs) = ucast b OR push_bit 8 (le_word bs)"

text \<open>A load of \<open>n\<close> bytes at the front of a byte string: \<open>None\<close> when the bytes are not there.\<close>

definition rd :: "nat \<Rightarrow> bytes \<Rightarrow> (bytes \<times> bytes) option" where
  "rd n bs = (if n \<le> length bs then Some (take n bs, drop n bs) else None)"

text \<open>
  A store of \<open>bs\<close> at offset \<open>i\<close> of a buffer. A store past the end of the buffer makes the list
  longer, so an overrun is visible as a length.
\<close>

definition store_bytes :: "nat \<Rightarrow> bytes \<Rightarrow> bytes \<Rightarrow> bytes" where
  "store_bytes i bs buf = take i buf @ bs @ drop (i + length bs) buf"

section \<open>Result codes\<close>

text \<open>The enumeration \<open>KcpError\<close>; functions that return a count or a code return a sum.\<close>

datatype kcp_error =
    NO_ERROR | UNKNOWN_ERROR | NO_MEMORY | OP_TRY_AGAIN | INVALID_OPERATION | INVALID_PARAM
  | NOT_FOUND | OPT_NOT_PERMITTED | PERMISSION_DENIED | NO_INIT | ALREADY_EXISTS | DEAD_OBJECT
  | BAD_INDEX | NOT_ENOUGH_DATA | WOULD_BLOCK | TIMED_OUT | NOT_SUPPORT | NO_MORE_ITEM
  | IN_PROGRESS | ALREADY_DONE | CANCELED | INVALID_STATE | BUFFER_TOO_SMALL | PACKET_TOO_LARGE
  | CONNECTION_ID_CONFLICT | NO_MORE_CONV | READ_ERROR | WRITE_ERROR | CLOSE_ERROR
  | ADD_EVENT_ERROR | CREATE_SOCKET_ERROR | BIND_ERROR | SOCKET_INUSE | SOCKET_CLOSED
  | LISTEN_ERROR | ACCEPT_ERROR | NO_PENDING_CONNECTION | CONNECT_ERROR | UNKNOWN_PROTO
  | PROTO_ERROR | IOCTL_ERROR | CONNECTION_CLOSED | CONNECTION_RESET | CONNECTION_ABORTED
  | CONNECTION_REFUSED | UDP_UNREACH | ICMP_ERROR | MTU_REDUCTION | KEEPALIVE_ERROR
  | TOO_MANY_RETRANS | INVALID_KCP_HEADER

text \<open>Their values, with the errno numbers of Linux.\<close>

fun error_code :: "kcp_error \<Rightarrow> int" where
  "error_code NO_ERROR = 0"
| "error_code UNKNOWN_ERROR = - 0x7FFFFFFF"
| "error_code NO_MEMORY = - 12"
| "error_code OP_TRY_AGAIN = - 11"
| "error_code INVALID_OPERATION = - 38"
| "error_code INVALID_PARAM = - 22"
| "error_code NOT_FOUND = - 2"
| "error_code OPT_NOT_PERMITTED = - 1"
| "error_code PERMISSION_DENIED = - 13"
| "error_code NO_INIT = - 19"
| "error_code ALREADY_EXISTS = - 17"
| "error_code DEAD_OBJECT = - 32"
| "error_code BAD_INDEX = - 75"
| "error_code NOT_ENOUGH_DATA = - 61"
| "error_code WOULD_BLOCK = - 11"
| "error_code TIMED_OUT = - 110"
| "error_code NOT_SUPPORT = - 95"
| "error_code NO_MORE_ITEM = - 105"
| "error_code IN_PROGRESS = - 115"
| "error_code ALREADY_DONE = - 114"
| "error_code CANCELED = - 125"
| "error_code INVALID_STATE = - 84"
| "error_code BUFFER_TOO_SMALL = - 28"
| "error_code PACKET_TOO_LARGE = - 90"
| "error_code CONNECTION_ID_CONFLICT = - 89"
| "error_code NO_MORE_CONV = - 88"
| "error_code READ_ERROR = - 11000"
| "error_code WRITE_ERROR = - 10999"
| "error_code CLOSE_ERROR = - 10998"
| "error_code ADD_EVENT_ERROR = - 10997"
| "error_code CREATE_SOCKET_ERROR = - 110000"
| "error_code BIND_ERROR = - 109999"
| "error_code SOCKET_INUSE = - 109998"
| "error_code SOCKET_CLOSED = - 109997"
| "error_code LISTEN_ERROR = - 109996"
| "error_code ACCEPT_ERROR = - 109995"
| "error_code NO_PENDING_CONNECTION = - 109994"
| "error_code CONNECT_ERROR = - 109993"
| "error_code UNKNOWN_PROTO = - 109992"
| "error_code PROTO_ERROR = - 109991"
| "error_code IOCTL_ERROR = - 109990"
| "error_code CONNECTION_CLOSED = - 109989"
| "error_code CONNECTION_RESET = - 109988"
| "error_code CONNECTION_ABORTED = - 109987"
| "error_code CONNECTION_REFUSED = - 109986"
| "error_code UDP_UNREACH = - 109985"
| "error_code ICMP_ERROR = - 109984"
| "error_code MTU_REDUCTION = - 109983"
| "error_code KEEPALIVE_ERROR = - 109982"
| "error_code TOO_MANY_RETRANS = - 109981"
| "error_code INVALID_KCP_HEADER = - 120000"

section \<open>Parameters\<close>

definition KCP_BITMAP_SIZE :: u32 where [kcp_const]: "KCP_BITMAP_SIZE = 65535"
definition KCP_BBR_BW_FILTER_LEN :: nat where [kcp_const]: "KCP_BBR_BW_FILTER_LEN = 10"
definition KCP_HEADER_SIZE :: nat where [kcp_const]: "KCP_HEADER_SIZE = 32"
definition KCP_PACKET_COUNT :: nat where [kcp_const]: "KCP_PACKET_COUNT = 32"
definition KCP_MAX_PACKET_SIZE :: nat where
  [kcp_const]: "KCP_MAX_PACKET_SIZE = (576 - 20 - 8 - KCP_HEADER_SIZE) * KCP_PACKET_COUNT"
definition DEFAULT_RECEIVE_TIMEOUT :: u32 where [kcp_const]: "DEFAULT_RECEIVE_TIMEOUT = 1000"
definition DEFAULT_KEEPALIVE_TIMEOUT :: u32 where [kcp_const]: "DEFAULT_KEEPALIVE_TIMEOUT = 5000"
definition DEFAULT_KEEPALIVE_INTERVAL :: u32 where [kcp_const]: "DEFAULT_KEEPALIVE_INTERVAL = 10000000"
definition DEFAULT_KEEPALIVE_RETRIES :: u16 where [kcp_const]: "DEFAULT_KEEPALIVE_RETRIES = 5"
definition DEFAULT_SYN_FIN_RETRIES :: nat where [kcp_const]: "DEFAULT_SYN_FIN_RETRIES = 2"
definition DEFAULT_MTU_PROBE_TIMEOUT :: u32 where [kcp_const]: "DEFAULT_MTU_PROBE_TIMEOUT = 1500"
definition KCP_RTO_MAX :: int where [kcp_const]: "KCP_RTO_MAX = 6000"
definition KCP_ASK_SEND :: u32 where [kcp_const]: "KCP_ASK_SEND = 1"
definition KCP_ASK_TELL :: u32 where [kcp_const]: "KCP_ASK_TELL = 2"
definition KCP_PING_RECV :: u32 where [kcp_const]: "KCP_PING_RECV = 4"
definition KCP_RTO_NDL :: int where [kcp_const]: "KCP_RTO_NDL = 30"
definition KCP_RTO_DEF :: int where [kcp_const]: "KCP_RTO_DEF = 200"
definition KCP_RTO_MIN :: int where [kcp_const]: "KCP_RTO_MIN = 100"
definition KCP_WND_SND :: int where [kcp_const]: "KCP_WND_SND = 128"
definition KCP_WND_RCV :: int where [kcp_const]: "KCP_WND_RCV = 256"
definition KCP_PACKET_SIZE :: int where [kcp_const]: "KCP_PACKET_SIZE = 64"
definition KCP_INTERVAL_MAX :: int where [kcp_const]: "KCP_INTERVAL_MAX = 500"
definition KCP_INTERVAL_MIN :: int where [kcp_const]: "KCP_INTERVAL_MIN = 10"
definition KCP_FASTACK_LIMIT :: int where [kcp_const]: "KCP_FASTACK_LIMIT = 5"
definition KCP_RETRANSMISSION_MAX :: u32 where [kcp_const]: "KCP_RETRANSMISSION_MAX = 10"
definition KCP_PROBE_INIT :: u32 where [kcp_const]: "KCP_PROBE_INIT = 7000"
definition KCP_PROBE_LIMIT :: u32 where [kcp_const]: "KCP_PROBE_LIMIT = 120000"
definition KCP_BBR_STARTUP_GAIN_NUM :: u32 where [kcp_const]: "KCP_BBR_STARTUP_GAIN_NUM = 2885"
definition KCP_BBR_GAIN_DEN :: u32 where [kcp_const]: "KCP_BBR_GAIN_DEN = 1000"
definition KCP_BBR_CWND_GAIN_NUM :: u32 where [kcp_const]: "KCP_BBR_CWND_GAIN_NUM = 2000"
definition KCP_BBR_MIN_CWND_PKTS :: u32 where [kcp_const]: "KCP_BBR_MIN_CWND_PKTS = 4"
definition KCP_BBR_MIN_RTT_WIN_US :: u32 where [kcp_const]: "KCP_BBR_MIN_RTT_WIN_US = 10000000"
definition KCP_BBR_PROBE_RTT_US :: u32 where [kcp_const]: "KCP_BBR_PROBE_RTT_US = 200000"
definition ETHERNET_MTU :: nat where [kcp_const]: "ETHERNET_MTU = 1500"
definition ETHERNET_MTU_V4_MIN :: int where [kcp_const]: "ETHERNET_MTU_V4_MIN = 576"
definition ETHERNET_MTU_V6_MIN :: int where [kcp_const]: "ETHERNET_MTU_V6_MIN = 1280"
definition IPV4_HEADER_SIZE :: int where [kcp_const]: "IPV4_HEADER_SIZE = 20"
definition IPV6_HEADER_SIZE :: int where [kcp_const]: "IPV6_HEADER_SIZE = 40"
definition UDP_HEADER_SIZE :: int where [kcp_const]: "UDP_HEADER_SIZE = 8"

section \<open>Lemmas\<close>

subsection \<open>Conversions\<close>

lemma s32_range: "- (2 ^ 31) \<le> s32 x \<and> s32 x < 2 ^ 31"
  unfolding s32_def using signed_take_bit_int_greater_eq_minus_exp [of 31 x]
    signed_take_bit_int_less_exp [of 31 x] by simp

lemma s32_id [simp]: "- (2 ^ 31) \<le> x \<Longrightarrow> x < 2 ^ 31 \<Longrightarrow> s32 x = x"
  unfolding s32_def by (rule signed_take_bit_int_eq_self) auto

text \<open>Of a sum or a difference only the result has to be wrapped.\<close>

lemma s32_s32 [simp]: "s32 (s32 x) = s32 x"
  using s32_range [of x] by simp

lemma s32_diff: "s32 (s32 x - y) = s32 (x - y)"
  unfolding s32_def using signed_take_bit_diff [of 31 "signed_take_bit 31 x" y] signed_take_bit_diff [of 31 x y] by simp

lemma s32_add: "s32 (s32 x + y) = s32 (x + y)"
  unfolding s32_def using signed_take_bit_add [of 31 "signed_take_bit 31 x" y] signed_take_bit_add [of 31 x y] by simp

lemma s32_add_right: "s32 (x + s32 y) = s32 (x + y)"
  using s32_add [of y x] by (simp add: add.commute)

lemma u32_of_i32_small: "0 \<le> x \<Longrightarrow> x < 2 ^ 32 \<Longrightarrow> unat (u32_of_i32 x) = nat x"
  by (simp add: u32_of_i32_def unat_eq_nat_uint take_bit_int_eq_self uint_word_of_int_eq)

lemma unat_u32_less: "unat (w :: u32) < 4294967296"
  by (rule order_less_le_trans [OF unsigned_less]) simp

lemma unat_ucast_u32_u64 [simp]: "unat (ucast (x :: u32) :: u64) = unat x"
proof -
  have "unat x < 2 ^ 64" by (rule order_less_le_trans [OF unat_u32_less]) simp
  then show ?thesis by (simp add: unsigned_ucast_eq take_bit_nat_eq_self)
qed

lemma i32_of_u32_of_nat: "k < 2 ^ 31 \<Longrightarrow> i32_of_u32 (of_nat k) = int k"
  by (simp add: i32_of_u32_def signed_of_nat signed_take_bit_int_eq_self)

subsection \<open>Byte strings\<close>

lemma length_le_bytes [simp, kcp_wire]: "length (le_bytes n w) = n"
  by (induction n arbitrary: w) simp_all

lemma le_word_le_bytes_take_bit:
  fixes w :: "'a::len word"
  shows "le_word (le_bytes n w) = take_bit (8 * n) w"
proof (induction n arbitrary: w)
  case 0
  then show ?case by simp
next
  case (Suc n)
  show ?case
  proof (rule bit_word_eqI)
    fix m assume "m < LENGTH('a)"
    then show "bit (le_word (le_bytes (Suc n) w) :: 'a word) m = bit (take_bit (8 * Suc n) w) m"
      by (cases "m < 8") (auto simp: Suc bit_simps)
  qed
qed

lemma le_word_le_bytes [simp, kcp_wire]:
  fixes w :: "'a::len word"
  assumes "LENGTH('a) \<le> 8 * n"
  shows "le_word (le_bytes n w) = w"
  using assms by (simp add: le_word_le_bytes_take_bit take_bit_word_eq_self)

lemma bit_le_word_iff:
  "bit (le_word bs :: 'a::len word) m \<longleftrightarrow>
     m < LENGTH('a) \<and> m div 8 < length bs \<and> bit (bs ! (m div 8)) (m mod 8)"
proof (induction bs arbitrary: m)
  case Nil
  then show ?case by simp
next
  case (Cons b bs)
  show ?case
  proof (cases "m < 8")
    case True
    then show ?thesis by (auto simp: bit_simps)
  next
    case False
    then obtain k where "m = k + 8"
      by (metis add.commute le_Suc_ex linorder_not_less)
    moreover have "(k + 8) div 8 = Suc (k div 8)" by simp
    ultimately show ?thesis by (auto simp: bit_simps Cons dest: bit_imp_le_length)
  qed
qed

lemma rd_append [simp]: "length xs = n \<Longrightarrow> rd n (xs @ ys) = Some (xs, ys)"
  by (simp add: rd_def)

lemma rd_Some_iff: "rd n bs = Some (xs, ys) \<longleftrightarrow> length xs = n \<and> bs = xs @ ys"
  by (auto simp: rd_def append_eq_conv_conj)

lemma rd_None_iff [simp]: "rd n bs = None \<longleftrightarrow> length bs < n"
  by (auto simp: rd_def)

lemma rd_length: "rd n bs = Some (xs, ys) \<Longrightarrow> length bs = n + length ys"
  by (auto simp: rd_Some_iff)

lemma length_store_bytes:
  "i \<le> length buf \<Longrightarrow> length (store_bytes i bs buf) = max (length buf) (i + length bs)"
  by (auto simp: store_bytes_def)

lemma store_bytes_0: "store_bytes 0 bs buf = bs @ drop (length bs) buf"
  by (simp add: store_bytes_def)

subsection \<open>Lists\<close>

lemma sum_list_map_filter_le:
  fixes f :: "'a \<Rightarrow> nat"
  shows "sum_list (map f (filter P xs)) \<le> sum_list (map f xs)"
  by (induction xs) auto

end
