(* ===== verification/Kcp_Bbr.thy ===== *)
theory Kcp_Bbr
  imports Kcp_Prelude
begin

text \<open>
  The BBR congestion control of \<^verbatim>\<open>kcp/src/kcp_protocol.c\<close> (the \<open>bbr_*\<close> functions): the
  bandwidth filter, the mode machine, the congestion window and the pacing rate.

  \<open>kcp_cc\<close> holds the fields of \<open>struct KcpConnection\<close> these functions read and write; the rest of
  the connection extends it (\<open>Kcp_Connection\<close>), so the operations apply to whole connections.
  Arithmetic is on words of the C widths; \<open>cwnd\<close> and \<open>nsnd_buf\<close> are \<open>int32_t\<close>.
\<close>

section \<open>Model\<close>

datatype kcp_bbr_mode = KCP_BBR_STARTUP | KCP_BBR_DRAIN | KCP_BBR_PROBE_BW | KCP_BBR_PROBE_RTT

record kcp_cc =
  mss :: u32
  cwnd :: int
  incr :: u32
  nsnd_buf :: int
  bbr_mode :: kcp_bbr_mode
  bbr_cycle_idx :: u8
  bbr_full_bw_cnt :: u8
  bbr_filled_pipe :: bool
  bbr_bw_filter :: "u64 list"
  bbr_bw_filter_idx :: u8
  bbr_btlbw :: u64
  bbr_full_bw :: u64
  bbr_min_rtt_us :: u32
  bbr_min_rtt_stamp :: u64
  bbr_probe_rtt_done_stamp :: u64
  bbr_cycle_stamp :: u64
  bbr_delivered :: u64
  bbr_delivered_ts :: u64
  bbr_pacing_gain_num :: u32
  bbr_cwnd_gain_num :: u32
  bbr_target_cwnd :: u32
  bbr_pacing_rate :: u64
  bbr_pacing_credit :: u64
  bbr_last_send_ts :: u64

definition kcp_bbr_probe_bw_gain_cycle :: "u32 list" where
  "kcp_bbr_probe_bw_gain_cycle = [1250, 750, 1000, 1000, 1000, 1000, 1000, 1000]"

definition bbr_apply_gain_u64 :: "u64 \<Rightarrow> u32 \<Rightarrow> u64" where
  "bbr_apply_gain_u64 value gain_num = (value * ucast gain_num) div ucast KCP_BBR_GAIN_DEN"

definition bbr_min_cwnd_pkts :: "'a kcp_cc_scheme \<Rightarrow> u32" where
  "bbr_min_cwnd_pkts c = KCP_BBR_MIN_CWND_PKTS"

definition bbr_bdp_bytes :: "'a kcp_cc_scheme \<Rightarrow> u32 \<Rightarrow> u64" where
  "bbr_bdp_bytes c gain_num =
     (if bbr_btlbw c = 0 \<or> bbr_min_rtt_us c = 0 then ucast (mss c) * ucast (bbr_min_cwnd_pkts c)
      else
        let bdp = (bbr_btlbw c * ucast (bbr_min_rtt_us c)) div 1000000
        in bbr_apply_gain_u64 bdp gain_num)"

text \<open>Bytes to packets, rounding up: the computation shared by the target and the acked count.\<close>

definition bytes_to_pkts :: "'a kcp_cc_scheme \<Rightarrow> u64 \<Rightarrow> u32" where
  "bytes_to_pkts c n = ucast ((n + ucast (mss c) - 1) div ucast (mss c))"

definition bbr_target_cwnd_pkts :: "'a kcp_cc_scheme \<Rightarrow> u32 \<Rightarrow> u32" where
  "bbr_target_cwnd_pkts c gain_num =
     max (bytes_to_pkts c (bbr_bdp_bytes c gain_num)) (bbr_min_cwnd_pkts c)"

definition bbr_set_mode :: "'a kcp_cc_scheme \<Rightarrow> kcp_bbr_mode \<Rightarrow> u64 \<Rightarrow> 'a kcp_cc_scheme" where
  "bbr_set_mode c mode now_us =
     (case mode of
        KCP_BBR_STARTUP \<Rightarrow>
          c\<lparr>bbr_mode := mode, bbr_pacing_gain_num := KCP_BBR_STARTUP_GAIN_NUM,
            bbr_cwnd_gain_num := KCP_BBR_CWND_GAIN_NUM\<rparr>
      | KCP_BBR_DRAIN \<Rightarrow>
          c\<lparr>bbr_mode := mode, bbr_pacing_gain_num := 347, bbr_cwnd_gain_num := KCP_BBR_CWND_GAIN_NUM\<rparr>
      | KCP_BBR_PROBE_BW \<Rightarrow>
          c\<lparr>bbr_mode := mode, bbr_cycle_idx := 0, bbr_cycle_stamp := now_us,
            bbr_pacing_gain_num := kcp_bbr_probe_bw_gain_cycle ! 0,
            bbr_cwnd_gain_num := KCP_BBR_CWND_GAIN_NUM\<rparr>
      | KCP_BBR_PROBE_RTT \<Rightarrow>
          c\<lparr>bbr_mode := mode, bbr_probe_rtt_done_stamp := 0, bbr_pacing_gain_num := KCP_BBR_GAIN_DEN,
            bbr_cwnd_gain_num := KCP_BBR_GAIN_DEN\<rparr>)"

definition bbr_update_bw_filter :: "'a kcp_cc_scheme \<Rightarrow> u64 \<Rightarrow> 'a kcp_cc_scheme" where
  "bbr_update_bw_filter c sample_bw =
     (if sample_bw = 0 then c
      else
        let flt = (bbr_bw_filter c)[unat (bbr_bw_filter_idx c) := sample_bw];
            idx = of_nat ((unat (bbr_bw_filter_idx c) + 1) mod KCP_BBR_BW_FILTER_LEN);
            max_bw = foldl max 0 (take KCP_BBR_BW_FILTER_LEN flt)
        in c\<lparr>bbr_bw_filter := flt, bbr_bw_filter_idx := idx, bbr_btlbw := max_bw\<rparr>)"

definition bbr_check_full_pipe :: "'a kcp_cc_scheme \<Rightarrow> 'a kcp_cc_scheme" where
  "bbr_check_full_pipe c =
     (if bbr_filled_pipe c \<or> bbr_btlbw c = 0 then c
      else if bbr_btlbw c \<ge> (bbr_full_bw c * 125) div 100
      then c\<lparr>bbr_full_bw := bbr_btlbw c, bbr_full_bw_cnt := 0\<rparr>
      else
        let cnt = bbr_full_bw_cnt c + 1
        in c\<lparr>bbr_full_bw_cnt := cnt,
             bbr_filled_pipe := (if cnt \<ge> 3 then True else bbr_filled_pipe c)\<rparr>)"

definition bbr_update_cycle_phase :: "'a kcp_cc_scheme \<Rightarrow> u64 \<Rightarrow> 'a kcp_cc_scheme" where
  "bbr_update_cycle_phase c now_us =
     (if bbr_mode c \<noteq> KCP_BBR_PROBE_BW then c
      else if now_us - bbr_cycle_stamp c < max (ucast (bbr_min_rtt_us c)) 1000 then c
      else
        let idx = (bbr_cycle_idx c + 1) AND 0x7
        in c\<lparr>bbr_cycle_idx := idx, bbr_cycle_stamp := now_us,
             bbr_pacing_gain_num := kcp_bbr_probe_bw_gain_cycle ! unat idx\<rparr>)"

definition bbr_update_cwnd :: "'a kcp_cc_scheme \<Rightarrow> u64 \<Rightarrow> 'a kcp_cc_scheme" where
  "bbr_update_cwnd c acked_bytes =
     (let min_cwnd = bbr_min_cwnd_pkts c;
          acked_pkts = bytes_to_pkts c acked_bytes;
          target = (if bbr_mode c = KCP_BBR_PROBE_RTT then min_cwnd
                    else bbr_target_cwnd_pkts c (bbr_cwnd_gain_num c));
          cwnd1 = (if u32_of_i32 (cwnd c) < target
                   then i32_of_u32 (min (u32_of_i32 (cwnd c) + max acked_pkts 1) target)
                   else i32_of_u32 target);
          cwnd2 = max cwnd1 (i32_of_u32 min_cwnd)
      in c\<lparr>bbr_target_cwnd := target, cwnd := cwnd2, incr := u32_of_i32 cwnd2 * mss c\<rparr>)"

definition bbr_update_pacing_rate :: "'a kcp_cc_scheme \<Rightarrow> 'a kcp_cc_scheme" where
  "bbr_update_pacing_rate c =
     (let rate = (if bbr_btlbw c > 0 then bbr_apply_gain_u64 (bbr_btlbw c) (bbr_pacing_gain_num c)
                  else ucast (mss c) * 1000);
          min_rate = ucast (mss c) * 100
      in c\<lparr>bbr_pacing_rate := (if rate < min_rate then min_rate else rate)\<rparr>)"

definition bbr_maybe_enter_probe_rtt :: "'a kcp_cc_scheme \<Rightarrow> u64 \<Rightarrow> 'a kcp_cc_scheme" where
  "bbr_maybe_enter_probe_rtt c now_us =
     (if bbr_min_rtt_us c = 0 \<or> bbr_mode c = KCP_BBR_PROBE_RTT then c
      else if now_us - bbr_min_rtt_stamp c > ucast KCP_BBR_MIN_RTT_WIN_US
      then bbr_set_mode c KCP_BBR_PROBE_RTT now_us
      else c)"

text \<open>The parts of \<open>bbr_on_ack\<close>: the new minimum RTT, leaving startup, draining, probing the RTT.\<close>

definition bbr_update_min_rtt :: "'a kcp_cc_scheme \<Rightarrow> u64 \<Rightarrow> int \<Rightarrow> 'a kcp_cc_scheme" where
  "bbr_update_min_rtt c now_us rtt_sample_us =
     (if rtt_sample_us > 0 \<and> (u32_of_i32 rtt_sample_us < bbr_min_rtt_us c \<or> bbr_min_rtt_us c = 0)
      then c\<lparr>bbr_min_rtt_us := u32_of_i32 rtt_sample_us, bbr_min_rtt_stamp := now_us\<rparr>
      else c)"

definition bbr_leave_startup :: "'a kcp_cc_scheme \<Rightarrow> u64 \<Rightarrow> 'a kcp_cc_scheme" where
  "bbr_leave_startup c now_us =
     (if bbr_mode c = KCP_BBR_STARTUP \<and> bbr_filled_pipe c then bbr_set_mode c KCP_BBR_DRAIN now_us else c)"

definition bbr_drain :: "'a kcp_cc_scheme \<Rightarrow> u64 \<Rightarrow> 'a kcp_cc_scheme" where
  "bbr_drain c now_us =
     (if bbr_mode c = KCP_BBR_DRAIN \<and> u32_of_i32 (nsnd_buf c) \<le> bbr_target_cwnd_pkts c KCP_BBR_GAIN_DEN
      then bbr_set_mode c KCP_BBR_PROBE_BW now_us else c)"

definition bbr_probe_rtt :: "'a kcp_cc_scheme \<Rightarrow> u64 \<Rightarrow> 'a kcp_cc_scheme" where
  "bbr_probe_rtt c now_us =
     (if bbr_mode c \<noteq> KCP_BBR_PROBE_RTT then c
      else
        let c1 = (if bbr_probe_rtt_done_stamp c = 0 \<and> u32_of_i32 (nsnd_buf c) \<le> bbr_min_cwnd_pkts c
                  then c\<lparr>bbr_probe_rtt_done_stamp := now_us + ucast KCP_BBR_PROBE_RTT_US\<rparr> else c)
        in if bbr_probe_rtt_done_stamp c1 > 0 \<and> now_us \<ge> bbr_probe_rtt_done_stamp c1
           then bbr_set_mode (c1\<lparr>bbr_min_rtt_stamp := now_us\<rparr>)
                  (if bbr_filled_pipe c1 then KCP_BBR_PROBE_BW else KCP_BBR_STARTUP) now_us
           else c1)"

definition bbr_on_ack :: "'a kcp_cc_scheme \<Rightarrow> u64 \<Rightarrow> u64 \<Rightarrow> u64 \<Rightarrow> int \<Rightarrow> 'a kcp_cc_scheme" where
  "bbr_on_ack c now_us acked_bytes sample_bw rtt_sample_us =
     (if acked_bytes = 0 then c
      else
        let c1 = (if sample_bw > 0 then bbr_update_bw_filter c sample_bw else c);
            c2 = bbr_update_min_rtt c1 now_us rtt_sample_us;
            c3 = bbr_check_full_pipe (bbr_maybe_enter_probe_rtt c2 now_us);
            c4 = bbr_leave_startup c3 now_us;
            c5 = bbr_probe_rtt (bbr_drain c4 now_us) now_us;
            c6 = bbr_update_pacing_rate (bbr_update_cycle_phase c5 now_us)
        in bbr_update_cwnd c6 acked_bytes)"

definition bbr_on_loss :: "'a kcp_cc_scheme \<Rightarrow> 'a kcp_cc_scheme" where
  "bbr_on_loss c =
     (let min_cwnd = i32_of_u32 (bbr_min_cwnd_pkts c)
      in if cwnd c < min_cwnd then c\<lparr>cwnd := min_cwnd, incr := u32_of_i32 min_cwnd * mss c\<rparr> else c)"

text \<open>The bandwidth sample of an acknowledged segment, from the fields stored when it was sent.\<close>

definition bbr_rate_sample :: "'a kcp_cc_scheme \<Rightarrow> u64 \<Rightarrow> u64 \<Rightarrow> u32 \<Rightarrow> u64 \<Rightarrow> u64 \<Rightarrow> u64" where
  "bbr_rate_sample c tx_delivered tx_delivered_ts len now_us acked_before =
     (if tx_delivered_ts = 0 \<or> now_us \<le> tx_delivered_ts then 0
      else
        let delivered = bbr_delivered c + acked_before + ucast len
        in if delivered \<le> tx_delivered then 0
           else ((delivered - tx_delivered) * 1000000) div (now_us - tx_delivered_ts))"

section \<open>Invariant\<close>

text \<open>The gains and the pipe flag that go with a mode.\<close>

fun bbr_gains_ok :: "kcp_bbr_mode \<Rightarrow> u8 \<Rightarrow> u32 \<Rightarrow> u32 \<Rightarrow> bool" where
  "bbr_gains_ok KCP_BBR_STARTUP idx pg cg \<longleftrightarrow> pg = KCP_BBR_STARTUP_GAIN_NUM \<and> cg = KCP_BBR_CWND_GAIN_NUM"
| "bbr_gains_ok KCP_BBR_DRAIN idx pg cg \<longleftrightarrow> pg = 347 \<and> cg = KCP_BBR_CWND_GAIN_NUM"
| "bbr_gains_ok KCP_BBR_PROBE_BW idx pg cg \<longleftrightarrow>
     pg = kcp_bbr_probe_bw_gain_cycle ! unat idx \<and> cg = KCP_BBR_CWND_GAIN_NUM"
| "bbr_gains_ok KCP_BBR_PROBE_RTT idx pg cg \<longleftrightarrow> pg = KCP_BBR_GAIN_DEN \<and> cg = KCP_BBR_GAIN_DEN"

definition bbr_filter_ok :: "'a kcp_cc_scheme \<Rightarrow> bool" where
  "bbr_filter_ok c \<longleftrightarrow> length (bbr_bw_filter c) = KCP_BBR_BW_FILTER_LEN \<and>
     unat (bbr_bw_filter_idx c) < KCP_BBR_BW_FILTER_LEN \<and> bbr_btlbw c = foldl max 0 (bbr_bw_filter c)"

definition bbr_mode_ok :: "'a kcp_cc_scheme \<Rightarrow> bool" where
  "bbr_mode_ok c \<longleftrightarrow> unat (bbr_cycle_idx c) < 8 \<and>
     bbr_gains_ok (bbr_mode c) (bbr_cycle_idx c) (bbr_pacing_gain_num c) (bbr_cwnd_gain_num c) \<and>
     (\<not> bbr_filled_pipe c \<longrightarrow> bbr_full_bw_cnt c < 3 \<and> bbr_mode c \<noteq> KCP_BBR_DRAIN \<and> bbr_mode c \<noteq> KCP_BBR_PROBE_BW)"

definition bbr_cwnd_ok :: "'a kcp_cc_scheme \<Rightarrow> bool" where
  "bbr_cwnd_ok c \<longleftrightarrow> 4 \<le> cwnd c \<and> cwnd c < 2 ^ 31 \<and> incr c = u32_of_i32 (cwnd c) * mss c"

definition bbr_wf :: "'a kcp_cc_scheme \<Rightarrow> bool" where
  "bbr_wf c \<longleftrightarrow> bbr_filter_ok c \<and> bbr_mode_ok c \<and> bbr_cwnd_ok c \<and>
     (bbr_filled_pipe c \<longrightarrow> bbr_mode c \<noteq> KCP_BBR_STARTUP)"

section \<open>Lemmas\<close>

subsection \<open>What the mode machine leaves alone\<close>

lemma bbr_set_mode_frame [simp]:
  "bbr_mode (bbr_set_mode c m now) = m"
  "mss (bbr_set_mode c m now) = mss c"
  "cwnd (bbr_set_mode c m now) = cwnd c"
  "incr (bbr_set_mode c m now) = incr c"
  "nsnd_buf (bbr_set_mode c m now) = nsnd_buf c"
  "bbr_filled_pipe (bbr_set_mode c m now) = bbr_filled_pipe c"
  "bbr_full_bw_cnt (bbr_set_mode c m now) = bbr_full_bw_cnt c"
  "bbr_bw_filter (bbr_set_mode c m now) = bbr_bw_filter c"
  "bbr_bw_filter_idx (bbr_set_mode c m now) = bbr_bw_filter_idx c"
  "bbr_btlbw (bbr_set_mode c m now) = bbr_btlbw c"
  by (cases m; simp add: bbr_set_mode_def)+

lemma bbr_set_mode_gains:
  "unat (bbr_cycle_idx c) < 8 \<Longrightarrow> unat (bbr_cycle_idx (bbr_set_mode c m now)) < 8 \<and>
     bbr_gains_ok m (bbr_cycle_idx (bbr_set_mode c m now)) (bbr_pacing_gain_num (bbr_set_mode c m now))
       (bbr_cwnd_gain_num (bbr_set_mode c m now))"
  by (cases m) (simp_all add: bbr_set_mode_def)

lemma bbr_mode_ok_set_mode:
  "bbr_mode_ok c \<Longrightarrow> (\<not> bbr_filled_pipe c \<longrightarrow> m \<noteq> KCP_BBR_DRAIN \<and> m \<noteq> KCP_BBR_PROBE_BW) \<Longrightarrow>
     bbr_mode_ok (bbr_set_mode c m now)"
  using bbr_set_mode_gains [of c m now] by (simp add: bbr_mode_ok_def)

lemma bbr_filter_ok_set_mode [simp]: "bbr_filter_ok (bbr_set_mode c m now) = bbr_filter_ok c"
  by (simp add: bbr_filter_ok_def)

subsection \<open>The steps of \<open>bbr_on_ack\<close> keep the invariant\<close>

lemma bbr_update_bw_filter_mode_ok: "bbr_mode_ok c \<Longrightarrow> bbr_mode_ok (bbr_update_bw_filter c bw)"
  by (simp add: bbr_mode_ok_def bbr_update_bw_filter_def Let_def)

lemma unat_of_nat_u8: "n < 256 \<Longrightarrow> unat (of_nat n :: u8) = n"
  by (simp add: unat_of_nat)

lemma bbr_update_bw_filter_ok: "bbr_filter_ok c \<Longrightarrow> bbr_filter_ok (bbr_update_bw_filter c bw)"
  by (simp add: bbr_filter_ok_def bbr_update_bw_filter_def Let_def kcp_const unat_of_nat_u8)

lemma bbr_update_min_rtt_ok:
  "bbr_mode_ok c \<Longrightarrow> bbr_mode_ok (bbr_update_min_rtt c now rtt)"
  "bbr_filter_ok c \<Longrightarrow> bbr_filter_ok (bbr_update_min_rtt c now rtt)"
  by (simp_all add: bbr_mode_ok_def bbr_filter_ok_def bbr_update_min_rtt_def)

lemma bbr_maybe_enter_probe_rtt_ok:
  "bbr_mode_ok c \<Longrightarrow> bbr_mode_ok (bbr_maybe_enter_probe_rtt c now)"
  "bbr_filter_ok c \<Longrightarrow> bbr_filter_ok (bbr_maybe_enter_probe_rtt c now)"
  by (auto simp: bbr_maybe_enter_probe_rtt_def intro!: bbr_mode_ok_set_mode)

lemma bbr_check_full_pipe_ok:
  "bbr_mode_ok c \<Longrightarrow> bbr_mode_ok (bbr_check_full_pipe c)"
  "bbr_filter_ok c \<Longrightarrow> bbr_filter_ok (bbr_check_full_pipe c)"
  by (auto simp: bbr_mode_ok_def bbr_filter_ok_def bbr_check_full_pipe_def Let_def not_le)

lemma bbr_leave_startup_ok:
  "bbr_mode_ok c \<Longrightarrow> bbr_mode_ok (bbr_leave_startup c now)"
  "bbr_filter_ok c \<Longrightarrow> bbr_filter_ok (bbr_leave_startup c now)"
  "bbr_filled_pipe (bbr_leave_startup c now) \<longrightarrow> bbr_mode (bbr_leave_startup c now) \<noteq> KCP_BBR_STARTUP"
  by (auto simp: bbr_leave_startup_def intro!: bbr_mode_ok_set_mode)

lemma bbr_mode_ok_drain: "bbr_mode_ok c \<Longrightarrow> bbr_mode c = KCP_BBR_DRAIN \<Longrightarrow> bbr_filled_pipe c"
  by (auto simp: bbr_mode_ok_def)

lemma bbr_drain_ok:
  "bbr_mode_ok c \<Longrightarrow> bbr_mode_ok (bbr_drain c now)"
  "bbr_filter_ok c \<Longrightarrow> bbr_filter_ok (bbr_drain c now)"
  "bbr_filled_pipe (bbr_drain c now) = bbr_filled_pipe c"
  "bbr_mode c \<noteq> KCP_BBR_STARTUP \<Longrightarrow> bbr_mode (bbr_drain c now) \<noteq> KCP_BBR_STARTUP"
  by (auto simp: bbr_drain_def intro!: bbr_mode_ok_set_mode dest: bbr_mode_ok_drain)

lemma bbr_mode_ok_stamps [simp]:
  "bbr_mode_ok (c\<lparr>bbr_min_rtt_stamp := x\<rparr>) = bbr_mode_ok c"
  "bbr_mode_ok (c\<lparr>bbr_probe_rtt_done_stamp := y\<rparr>) = bbr_mode_ok c"
  "bbr_filter_ok (c\<lparr>bbr_min_rtt_stamp := x\<rparr>) = bbr_filter_ok c"
  "bbr_filter_ok (c\<lparr>bbr_probe_rtt_done_stamp := y\<rparr>) = bbr_filter_ok c"
  by (simp_all add: bbr_mode_ok_def bbr_filter_ok_def)

lemma bbr_probe_rtt_ok:
  "bbr_mode_ok c \<Longrightarrow> bbr_mode_ok (bbr_probe_rtt c now)"
  "bbr_filter_ok c \<Longrightarrow> bbr_filter_ok (bbr_probe_rtt c now)"
  "bbr_filled_pipe (bbr_probe_rtt c now) = bbr_filled_pipe c"
  "(bbr_filled_pipe c \<longrightarrow> bbr_mode c \<noteq> KCP_BBR_STARTUP) \<Longrightarrow>
     bbr_filled_pipe c \<longrightarrow> bbr_mode (bbr_probe_rtt c now) \<noteq> KCP_BBR_STARTUP"
  by (auto simp: bbr_probe_rtt_def Let_def intro!: bbr_mode_ok_set_mode)

lemma word_and_7_less: "unat ((x :: u8) AND 0x7) < 8"
proof -
  have "x AND 0x7 = take_bit 3 x" by (simp add: take_bit_eq_mask mask_eq_exp_minus_1)
  then show ?thesis
    by (simp add: unsigned_take_bit_eq) (rule order_less_le_trans [OF take_bit_nat_less_exp], simp)
qed

lemma bbr_update_cycle_phase_ok:
  "bbr_mode_ok c \<Longrightarrow> bbr_mode_ok (bbr_update_cycle_phase c now)"
  "bbr_filter_ok c \<Longrightarrow> bbr_filter_ok (bbr_update_cycle_phase c now)"
  "bbr_filled_pipe (bbr_update_cycle_phase c now) = bbr_filled_pipe c"
  "bbr_mode (bbr_update_cycle_phase c now) = bbr_mode c"
  by (auto simp: bbr_update_cycle_phase_def bbr_mode_ok_def bbr_filter_ok_def Let_def word_and_7_less)

lemma bbr_update_pacing_rate_ok:
  "bbr_mode_ok (bbr_update_pacing_rate c) = bbr_mode_ok c"
  "bbr_filter_ok (bbr_update_pacing_rate c) = bbr_filter_ok c"
  "bbr_filled_pipe (bbr_update_pacing_rate c) = bbr_filled_pipe c"
  "bbr_mode (bbr_update_pacing_rate c) = bbr_mode c"
  by (simp_all add: bbr_update_pacing_rate_def bbr_mode_ok_def bbr_filter_ok_def Let_def)

lemma i32_of_u32_range: "- (2 ^ 31) \<le> i32_of_u32 w \<and> i32_of_u32 w < 2 ^ 31"
  using sint_ge [of w] sint_less [of w] by (simp add: i32_of_u32_def)

lemma bbr_update_cwnd_ok:
  "bbr_mode_ok (bbr_update_cwnd c n) = bbr_mode_ok c"
  "bbr_filter_ok (bbr_update_cwnd c n) = bbr_filter_ok c"
  "bbr_filled_pipe (bbr_update_cwnd c n) = bbr_filled_pipe c"
  "bbr_mode (bbr_update_cwnd c n) = bbr_mode c"
  "bbr_cwnd_ok (bbr_update_cwnd c n)"
proof -
  have "i32_of_u32 (4 :: u32) = 4" by (simp add: i32_of_u32_def)
  then show "bbr_cwnd_ok (bbr_update_cwnd c n)"
    using i32_of_u32_range
    by (simp add: bbr_update_cwnd_def bbr_cwnd_ok_def Let_def bbr_min_cwnd_pkts_def kcp_const)
qed (simp_all add: bbr_update_cwnd_def bbr_mode_ok_def bbr_filter_ok_def Let_def)

lemmas bbr_step_ok =
  bbr_update_bw_filter_mode_ok bbr_update_bw_filter_ok bbr_update_min_rtt_ok
  bbr_maybe_enter_probe_rtt_ok bbr_check_full_pipe_ok bbr_leave_startup_ok(1,2) bbr_drain_ok(1,2)
  bbr_probe_rtt_ok(1,2) bbr_update_cycle_phase_ok(1,2)

lemma bbr_on_ack_wf:
  assumes "bbr_wf c"
  shows "bbr_wf (bbr_on_ack c now acked bw rtt)"
proof (cases "acked = 0")
  case True
  with assms show ?thesis by (simp add: bbr_on_ack_def)
next
  case False
  define c3 where "c3 = bbr_check_full_pipe (bbr_maybe_enter_probe_rtt
    (bbr_update_min_rtt (if bw > 0 then bbr_update_bw_filter c bw else c) now rtt) now)"
  have ok: "bbr_mode_ok c3" "bbr_filter_ok c3"
    using assms by (auto simp: c3_def bbr_wf_def intro!: bbr_step_ok)
  have "bbr_filled_pipe (bbr_leave_startup c3 now) \<longrightarrow>
      bbr_mode (bbr_drain (bbr_leave_startup c3 now) now) \<noteq> KCP_BBR_STARTUP"
    using bbr_leave_startup_ok(3) bbr_drain_ok(4) by blast
  then have "bbr_filled_pipe (bbr_leave_startup c3 now) \<longrightarrow>
      bbr_mode (bbr_probe_rtt (bbr_drain (bbr_leave_startup c3 now) now) now) \<noteq> KCP_BBR_STARTUP"
    using bbr_probe_rtt_ok(4) [of "bbr_drain (bbr_leave_startup c3 now) now" now]
    by (simp add: bbr_drain_ok(3))
  with ok False show ?thesis
    by (auto simp: bbr_on_ack_def Let_def bbr_wf_def c3_def [symmetric] bbr_update_cwnd_ok
        bbr_update_pacing_rate_ok bbr_update_cycle_phase_ok(3,4) bbr_probe_rtt_ok(3) bbr_drain_ok(3)
        intro!: bbr_step_ok)
qed

lemma bbr_on_loss_wf: "bbr_wf c \<Longrightarrow> bbr_on_loss c = c"
  by (simp add: bbr_wf_def bbr_cwnd_ok_def bbr_on_loss_def Let_def bbr_min_cwnd_pkts_def kcp_const
      i32_of_u32_def)

section \<open>Properties\<close>

text \<open>
  C34. The congestion-control invariant is kept by every acknowledgement and every loss: the
  bandwidth estimate is the maximum of the filter, the cycle and filter indexes are in range, the
  gains are those of the mode, \<open>PROBE_BW\<close> and \<open>DRAIN\<close> are only entered with the pipe filled and
  \<open>STARTUP\<close> only without, the window is at least four packets and \<open>incr\<close> is the window in bytes.
\<close>

theorem bbr_invariant:
  assumes "bbr_wf c"
  shows "bbr_wf (bbr_on_ack c now acked bw rtt) \<and> bbr_wf (bbr_on_loss c)"
  using assms by (simp add: bbr_on_ack_wf bbr_on_loss_wf)

definition sample_cc :: kcp_cc where
  "sample_cc = \<lparr>mss = 1000, cwnd = 4, incr = 4000, nsnd_buf = 3, bbr_mode = KCP_BBR_STARTUP,
     bbr_cycle_idx = 0, bbr_full_bw_cnt = 2, bbr_filled_pipe = False,
     bbr_bw_filter = [50000, 0, 0, 0, 0, 0, 0, 0, 0, 0], bbr_bw_filter_idx = 1, bbr_btlbw = 50000,
     bbr_full_bw = 50000, bbr_min_rtt_us = 20000, bbr_min_rtt_stamp = 1000000,
     bbr_probe_rtt_done_stamp = 0, bbr_cycle_stamp = 0, bbr_delivered = 7000,
     bbr_delivered_ts = 1500000, bbr_pacing_gain_num = 2885, bbr_cwnd_gain_num = 2000,
     bbr_target_cwnd = 4, bbr_pacing_rate = 144250, bbr_pacing_credit = 4000, bbr_last_send_ts = 1500000\<rparr>"

lemma sample_cc_wf: "bbr_wf sample_cc"
  by (simp add: sample_cc_def bbr_wf_def bbr_filter_ok_def bbr_mode_ok_def bbr_cwnd_ok_def kcp_const
      u32_of_i32_def)

theorem bbr_invariant_witness:
  "bbr_wf (bbr_on_ack sample_cc 2000000 1000 40000 25000) \<and> bbr_wf (bbr_on_loss sample_cc)"
  by (rule bbr_invariant [OF sample_cc_wf])

lemma bbr_mode_after:
  assumes "acked \<noteq> 0"
  shows "bbr_mode (bbr_on_ack c now acked bw rtt) =
    bbr_mode (bbr_probe_rtt (bbr_drain (bbr_leave_startup (bbr_check_full_pipe (bbr_maybe_enter_probe_rtt
      (bbr_update_min_rtt (if bw > 0 then bbr_update_bw_filter c bw else c) now rtt) now)) now) now) now)"
  using assms
  by (simp add: bbr_on_ack_def Let_def bbr_update_cwnd_ok bbr_update_pacing_rate_ok bbr_update_cycle_phase_ok(4))

lemma bbr_early_frame:
  "bbr_mode (bbr_update_min_rtt (if bw > 0 then bbr_update_bw_filter c bw else c) now rtt) = bbr_mode c"
  "bbr_filled_pipe (bbr_update_min_rtt (if bw > 0 then bbr_update_bw_filter c bw else c) now rtt) = bbr_filled_pipe c"
  by (simp_all add: bbr_update_min_rtt_def bbr_update_bw_filter_def Let_def)

lemma bbr_filled_after:
  assumes "acked \<noteq> 0"
  shows "bbr_filled_pipe (bbr_on_ack c now acked bw rtt) =
    bbr_filled_pipe (bbr_check_full_pipe (bbr_maybe_enter_probe_rtt
      (bbr_update_min_rtt (if bw > 0 then bbr_update_bw_filter c bw else c) now rtt) now))"
  using assms
  by (simp add: bbr_on_ack_def Let_def bbr_update_cwnd_ok bbr_update_pacing_rate_ok
      bbr_update_cycle_phase_ok(3) bbr_probe_rtt_ok(3) bbr_drain_ok(3) bbr_leave_startup_def)

lemma bbr_check_full_pipe_frame:
  "bbr_mode (bbr_check_full_pipe c) = bbr_mode c"
  "bbr_filled_pipe c \<Longrightarrow> bbr_filled_pipe (bbr_check_full_pipe c)"
  by (simp_all add: bbr_check_full_pipe_def Let_def)

text \<open>
  The mode machine: a filled pipe stays filled; \<open>STARTUP\<close> is reached only from \<open>STARTUP\<close> or
  \<open>PROBE_RTT\<close> with the pipe not filled, \<open>DRAIN\<close> only from \<open>STARTUP\<close> or \<open>DRAIN\<close>, and from
  \<open>PROBE_BW\<close> the only ways on are \<open>PROBE_BW\<close> and \<open>PROBE_RTT\<close>.
\<close>

lemma bbr_mode_machine:
  assumes "bbr_wf c" and "acked \<noteq> 0"
  shows "(bbr_filled_pipe c \<longrightarrow> bbr_filled_pipe (bbr_on_ack c now acked bw rtt)) \<and>
    (case bbr_mode (bbr_on_ack c now acked bw rtt) of
       KCP_BBR_STARTUP \<Rightarrow> bbr_mode c \<in> {KCP_BBR_STARTUP, KCP_BBR_PROBE_RTT} \<and> \<not> bbr_filled_pipe c
     | KCP_BBR_DRAIN \<Rightarrow> bbr_mode c \<in> {KCP_BBR_STARTUP, KCP_BBR_DRAIN}
     | KCP_BBR_PROBE_BW \<Rightarrow> bbr_filled_pipe (bbr_on_ack c now acked bw rtt)
     | KCP_BBR_PROBE_RTT \<Rightarrow> bbr_cwnd_gain_num (bbr_on_ack c now acked bw rtt) = KCP_BBR_GAIN_DEN)"
proof -
  let ?c = "bbr_on_ack c now acked bw rtt"
  define c1 where "c1 = bbr_update_min_rtt (if bw > 0 then bbr_update_bw_filter c bw else c) now rtt"
  have c1: "bbr_mode c1 = bbr_mode c" "bbr_filled_pipe c1 = bbr_filled_pipe c"
    unfolding c1_def by (rule bbr_early_frame)+
  define c2 where "c2 = bbr_check_full_pipe (bbr_maybe_enter_probe_rtt c1 now)"
  have c2: "bbr_mode c2 \<in> {bbr_mode c, KCP_BBR_PROBE_RTT}" "bbr_filled_pipe c \<longrightarrow> bbr_filled_pipe c2"
    by (auto simp: c2_def bbr_maybe_enter_probe_rtt_def bbr_check_full_pipe_frame c1)
  have mode: "bbr_mode ?c = bbr_mode (bbr_probe_rtt (bbr_drain (bbr_leave_startup c2 now) now) now)"
    using assms(2) by (simp add: bbr_mode_after c2_def c1_def)
  have filled: "bbr_filled_pipe ?c = bbr_filled_pipe c2"
    using assms(2) by (simp add: bbr_filled_after c2_def c1_def)
  have wf: "bbr_wf ?c" using assms(1) by (rule bbr_on_ack_wf)
  have startup: "bbr_mode ?c = KCP_BBR_STARTUP \<Longrightarrow> bbr_mode c \<in> {KCP_BBR_STARTUP, KCP_BBR_PROBE_RTT}"
    using wf assms(1) c2(2) filled by (cases "bbr_mode c") (auto simp: bbr_wf_def bbr_mode_ok_def)
  have drain: "bbr_mode ?c = KCP_BBR_DRAIN \<Longrightarrow> bbr_mode c \<in> {KCP_BBR_STARTUP, KCP_BBR_DRAIN}"
    using c2 by (auto simp: mode bbr_probe_rtt_def bbr_drain_def bbr_leave_startup_def Let_def split: if_splits)
  show ?thesis
    using wf startup drain c2(2) filled
    by (cases "bbr_mode ?c") (auto simp: bbr_wf_def bbr_mode_ok_def)
qed

subsection \<open>The bandwidth filter\<close>

text \<open>The ring buffer after the samples \<open>xs\<close>: slot \<open>j mod 10\<close> holds sample \<open>j\<close>, for the last ten.\<close>

definition ring_holds :: "u64 list \<Rightarrow> nat \<Rightarrow> u64 list \<Rightarrow> bool" where
  "ring_holds flt idx xs \<longleftrightarrow> length flt = 10 \<and> idx = length xs mod 10 \<and>
     (\<forall>j. length xs - 10 \<le> j \<longrightarrow> j < length xs \<longrightarrow> flt ! (j mod 10) = xs ! j) \<and>
     (\<forall>k. length xs \<le> k \<longrightarrow> k < 10 \<longrightarrow> flt ! k = 0)"

lemma mod_10_neq:
  assumes "j < n" and "n < j + 10"
  shows "n mod 10 \<noteq> j mod (10 :: nat)"
proof
  assume "n mod 10 = j mod 10"
  then have "10 dvd n - j" using assms(1) by (simp add: mod_eq_dvd_iff_nat)
  then show False using assms by (auto dest: dvd_imp_le)
qed

lemma ring_holds_snoc:
  assumes "ring_holds flt idx xs"
  shows "ring_holds (flt[idx := x]) (Suc idx mod 10) (xs @ [x])"
  unfolding ring_holds_def
proof (intro conjI allI impI)
  have len: "length flt = 10" and idx: "idx = length xs mod 10"
    using assms by (auto simp: ring_holds_def)
  show "length (flt[idx := x]) = 10" by (simp add: len)
  show "Suc idx mod 10 = length (xs @ [x]) mod 10" by (simp add: idx mod_Suc_eq)
  fix j assume j: "length (xs @ [x]) - 10 \<le> j" "j < length (xs @ [x])"
  show "flt[idx := x] ! (j mod 10) = (xs @ [x]) ! j"
  proof (cases "j = length xs")
    case True
    then show ?thesis by (simp add: len idx)
  next
    case False
    with j have "length xs - 10 \<le> j" "j < length xs" "length xs < j + 10" by auto
    then show ?thesis
      using assms mod_10_neq [of j "length xs"] by (simp add: ring_holds_def nth_append)
  qed
next
  fix k assume "length (xs @ [x]) \<le> k" "k < 10"
  then show "flt[idx := x] ! k = 0" using assms by (auto simp: ring_holds_def nth_list_update)
qed

lemma ring_holds_set:
  assumes "ring_holds flt idx xs"
  shows "insert 0 (set flt) = insert 0 (set (drop (length xs - 10) xs))"
proof -
  let ?n = "length xs"
  have len: "length flt = 10" using assms by (simp add: ring_holds_def)
  have "flt ! k \<in> insert 0 (set (drop (?n - 10) xs))" if "k < 10" for k
  proof (cases "?n \<le> k")
    case True
    with assms that show ?thesis by (simp add: ring_holds_def)
  next
    case False
    define j where "j = k + 10 * ((?n - 1 - k) div 10)"
    have "j < ?n" "?n - 10 \<le> j" "j mod 10 = k" using False that by (auto simp: j_def)
    then show ?thesis
      using assms by (auto simp: ring_holds_def in_set_conv_nth intro!: exI [where x = "j - (?n - 10)"])
  qed
  then have "set flt \<subseteq> insert 0 (set (drop (?n - 10) xs))"
    unfolding set_conv_nth [of flt] len by blast
  moreover have "xs ! j \<in> set flt" if "?n - 10 \<le> j" "j < ?n" for j
    using assms that nth_mem [of "j mod 10" flt] by (simp add: ring_holds_def)
  then have "set (drop (?n - 10) xs) \<subseteq> set flt"
    by (auto simp: in_set_conv_nth [of _ "drop (?n - 10) xs"])
  ultimately show ?thesis by auto
qed

lemma foldl_max_Max: "foldl max a xs = Max (insert a (set xs))" for a :: "'a::linorder"
proof (induction xs arbitrary: a)
  case (Cons x xs)
  have "Max (insert (max a x) (set xs)) = Max (insert a (insert x (set xs)))"
    by (cases "set xs = {}") (simp_all add: max.assoc)
  with Cons show ?case by simp
qed simp

lemma bbr_update_ring:
  assumes ring: "ring_holds (bbr_bw_filter c) (unat (bbr_bw_filter_idx c)) xs" and "x \<noteq> 0"
  shows "ring_holds (bbr_bw_filter (bbr_update_bw_filter c x)) (unat (bbr_bw_filter_idx (bbr_update_bw_filter c x))) (xs @ [x])"
    "bbr_btlbw (bbr_update_bw_filter c x) = foldl max 0 (bbr_bw_filter (bbr_update_bw_filter c x))"
proof -
  have len: "length (bbr_bw_filter c) = 10" using ring by (simp add: ring_holds_def)
  have "Suc (unat (bbr_bw_filter_idx c)) mod 10 < 256" by (rule order_less_trans [of _ 10]) simp_all
  then show "ring_holds (bbr_bw_filter (bbr_update_bw_filter c x)) (unat (bbr_bw_filter_idx (bbr_update_bw_filter c x))) (xs @ [x])"
    using ring_holds_snoc [OF ring, of x] assms(2)
    by (simp add: bbr_update_bw_filter_def Let_def kcp_const unat_of_nat_u8)
  show "bbr_btlbw (bbr_update_bw_filter c x) = foldl max 0 (bbr_bw_filter (bbr_update_bw_filter c x))"
    using assms(2) by (simp add: bbr_update_bw_filter_def Let_def kcp_const len)
qed

lemma bbr_filter_ring:
  assumes "bbr_bw_filter c = replicate 10 0" and "bbr_bw_filter_idx c = 0" and "bbr_btlbw c = 0"
    and "0 \<notin> set xs"
  shows "ring_holds (bbr_bw_filter (foldl bbr_update_bw_filter c xs))
      (unat (bbr_bw_filter_idx (foldl bbr_update_bw_filter c xs))) xs \<and>
    bbr_btlbw (foldl bbr_update_bw_filter c xs) =
      foldl max 0 (bbr_bw_filter (foldl bbr_update_bw_filter c xs))"
  using assms(4)
proof (induction xs rule: rev_induct)
  case Nil
  with assms show ?case by (simp add: ring_holds_def foldl_max_Max)
next
  case (snoc x xs)
  then show ?case using bbr_update_ring [of "foldl bbr_update_bw_filter c xs" xs x] by simp
qed

text \<open>
  The bottleneck bandwidth after any sequence of samples is the maximum of the last ten of
  them (of all of them when there are fewer): the ring buffer implements the windowed maximum.
\<close>

lemma bbr_filter_windowed_max:
  assumes "bbr_bw_filter c = replicate 10 0" and "bbr_bw_filter_idx c = 0" and "bbr_btlbw c = 0"
    and "0 \<notin> set xs"
  shows "bbr_btlbw (foldl bbr_update_bw_filter c xs) = foldl max 0 (drop (length xs - 10) xs)"
  using bbr_filter_ring [OF assms] ring_holds_set by (metis foldl_max_Max)

subsection \<open>The congestion window\<close>

lemma bbr_early_cwnd:
  "cwnd (bbr_update_pacing_rate (bbr_update_cycle_phase (bbr_probe_rtt (bbr_drain (bbr_leave_startup
     (bbr_check_full_pipe (bbr_maybe_enter_probe_rtt (bbr_update_min_rtt
       (if bw > 0 then bbr_update_bw_filter c bw else c) now rtt) now)) now) now) now) now)) = cwnd c"
  "mss (bbr_update_pacing_rate (bbr_update_cycle_phase (bbr_probe_rtt (bbr_drain (bbr_leave_startup
     (bbr_check_full_pipe (bbr_maybe_enter_probe_rtt (bbr_update_min_rtt
       (if bw > 0 then bbr_update_bw_filter c bw else c) now rtt) now)) now) now) now) now)) = mss c"
proof -
  have "cwnd (bbr_update_pacing_rate c) = cwnd c \<and> mss (bbr_update_pacing_rate c) = mss c"
    "cwnd (bbr_update_cycle_phase c now) = cwnd c \<and> mss (bbr_update_cycle_phase c now) = mss c"
    "cwnd (bbr_probe_rtt c now) = cwnd c \<and> mss (bbr_probe_rtt c now) = mss c"
    "cwnd (bbr_drain c now) = cwnd c \<and> mss (bbr_drain c now) = mss c"
    "cwnd (bbr_leave_startup c now) = cwnd c \<and> mss (bbr_leave_startup c now) = mss c"
    "cwnd (bbr_check_full_pipe c) = cwnd c \<and> mss (bbr_check_full_pipe c) = mss c"
    "cwnd (bbr_maybe_enter_probe_rtt c now) = cwnd c \<and> mss (bbr_maybe_enter_probe_rtt c now) = mss c"
    "cwnd (bbr_update_min_rtt c now rtt) = cwnd c \<and> mss (bbr_update_min_rtt c now rtt) = mss c"
    "cwnd (bbr_update_bw_filter c bw) = cwnd c \<and> mss (bbr_update_bw_filter c bw) = mss c"
    for c :: "'a kcp_cc_scheme"
    by (simp_all add: bbr_update_pacing_rate_def bbr_update_cycle_phase_def bbr_probe_rtt_def bbr_drain_def
        bbr_leave_startup_def bbr_check_full_pipe_def bbr_maybe_enter_probe_rtt_def bbr_update_min_rtt_def
        bbr_update_bw_filter_def Let_def)
  then show "cwnd (bbr_update_pacing_rate (bbr_update_cycle_phase (bbr_probe_rtt (bbr_drain (bbr_leave_startup
     (bbr_check_full_pipe (bbr_maybe_enter_probe_rtt (bbr_update_min_rtt
       (if bw > 0 then bbr_update_bw_filter c bw else c) now rtt) now)) now) now) now) now)) = cwnd c"
    and "mss (bbr_update_pacing_rate (bbr_update_cycle_phase (bbr_probe_rtt (bbr_drain (bbr_leave_startup
     (bbr_check_full_pipe (bbr_maybe_enter_probe_rtt (bbr_update_min_rtt
       (if bw > 0 then bbr_update_bw_filter c bw else c) now rtt) now)) now) now) now) now)) = mss c"
    by simp_all
qed

lemma i32_of_u32_small: "unat w < 2 ^ 31 \<Longrightarrow> i32_of_u32 w = int (unat w)"
  using i32_of_u32_of_nat [of "unat w"] by simp

lemma unat_plus_le: "unat (a + b :: u32) \<le> unat a + unat b"
  by (simp add: unat_word_ariths)

lemma bbr_update_cwnd_eq:
  fixes c :: "'a kcp_cc_scheme"
  defines "t \<equiv> if bbr_mode c = KCP_BBR_PROBE_RTT then bbr_min_cwnd_pkts c else bbr_target_cwnd_pkts c (bbr_cwnd_gain_num c)"
  shows "bbr_target_cwnd (bbr_update_cwnd c n) = t"
    "cwnd (bbr_update_cwnd c n) = max (if u32_of_i32 (cwnd c) < t
       then i32_of_u32 (min (u32_of_i32 (cwnd c) + max (bytes_to_pkts c n) 1) t) else i32_of_u32 t) 4"
    "bbr_pacing_rate (bbr_update_cwnd c n) = bbr_pacing_rate c"
proof -
  have four: "i32_of_u32 (bbr_min_cwnd_pkts c) = 4" by (simp add: i32_of_u32_def bbr_min_cwnd_pkts_def kcp_const)
  have sel: "bbr_target_cwnd (c\<lparr>bbr_target_cwnd := a, cwnd := b, incr := d\<rparr>) = a" "cwnd (c\<lparr>bbr_target_cwnd := a, cwnd := b, incr := d\<rparr>) = b"
    "bbr_pacing_rate (c\<lparr>bbr_target_cwnd := a, cwnd := b, incr := d\<rparr>) = bbr_pacing_rate c" for a b d by simp_all
  show "bbr_target_cwnd (bbr_update_cwnd c n) = t"
    unfolding bbr_update_cwnd_def Let_def t_def [symmetric] by (rule sel)
  show "cwnd (bbr_update_cwnd c n) = max (if u32_of_i32 (cwnd c) < t
       then i32_of_u32 (min (u32_of_i32 (cwnd c) + max (bytes_to_pkts c n) 1) t) else i32_of_u32 t) 4"
    unfolding bbr_update_cwnd_def Let_def t_def [symmetric] four by (rule sel)
  show "bbr_pacing_rate (bbr_update_cwnd c n) = bbr_pacing_rate c" unfolding bbr_update_cwnd_def Let_def by (rule sel)
qed

lemma bbr_update_cwnd_bounds:
  assumes "4 \<le> cwnd c" and "cwnd c < 2 ^ 31" and "unat (bbr_target_cwnd (bbr_update_cwnd c n)) < 2 ^ 31"
  shows "cwnd (bbr_update_cwnd c n) \<le> int (unat (bbr_target_cwnd (bbr_update_cwnd c n)))"
    "cwnd (bbr_update_cwnd c n) \<le> cwnd c + max 1 (int (unat (bytes_to_pkts c n)))"
    "bbr_mode c = KCP_BBR_PROBE_RTT \<Longrightarrow> cwnd (bbr_update_cwnd c n) = 4"
proof -
  define t where "t = bbr_target_cwnd (bbr_update_cwnd c n)"
  define a where "a = max (bytes_to_pkts c n) 1"
  have t: "t = (if bbr_mode c = KCP_BBR_PROBE_RTT then 4 else bbr_target_cwnd_pkts c (bbr_cwnd_gain_num c))"
    unfolding t_def bbr_update_cwnd_eq by (simp add: bbr_min_cwnd_pkts_def kcp_const)
  have t4: "4 \<le> unat t"
    using t by (auto simp: bbr_target_cwnd_pkts_def bbr_min_cwnd_pkts_def kcp_const max_def word_le_nat_alt
        split: if_splits)
  have w: "unat (u32_of_i32 (cwnd c)) = nat (cwnd c)"
    using assms(1,2) by (simp add: u32_of_i32_small)
  have small: "i32_of_u32 t = int (unat t)" using assms(3) by (simp add: t_def i32_of_u32_small)
  have cw: "cwnd (bbr_update_cwnd c n) =
      max (if nat (cwnd c) < unat t then i32_of_u32 (min (u32_of_i32 (cwnd c) + a) t) else int (unat t)) 4"
    unfolding bbr_update_cwnd_eq(2) bbr_update_cwnd_eq(1) [symmetric, of c n] t_def [symmetric] a_def [symmetric] word_less_nat_alt w small ..
  have m: "i32_of_u32 (min (u32_of_i32 (cwnd c) + a) t) \<le> int (unat t) \<and>
      i32_of_u32 (min (u32_of_i32 (cwnd c) + a) t) \<le> cwnd c + int (unat a)"
    using assms(1,3) t_def w unat_plus_le [of "u32_of_i32 (cwnd c)" a]
    by (auto simp: min_def i32_of_u32_small word_le_nat_alt simp del: of_nat_unat)
  have ua: "int (unat a) = max 1 (int (unat (bytes_to_pkts c n)))"
    by (auto simp: a_def max_def word_le_nat_alt simp del: of_nat_unat)
  show "cwnd (bbr_update_cwnd c n) \<le> int (unat (bbr_target_cwnd (bbr_update_cwnd c n)))"
    unfolding cw t_def [symmetric] using t4 m by (auto simp del: of_nat_unat)
  show "cwnd (bbr_update_cwnd c n) \<le> cwnd c + max 1 (int (unat (bytes_to_pkts c n)))"
    unfolding cw ua [symmetric] using assms(1) m by (auto simp del: of_nat_unat)
  show "bbr_mode c = KCP_BBR_PROBE_RTT \<Longrightarrow> cwnd (bbr_update_cwnd c n) = 4"
    unfolding cw using assms(1) t by auto
qed

lemma bbr_target_probe_rtt:
  "bbr_mode (bbr_on_ack c now acked bw rtt) = KCP_BBR_PROBE_RTT \<Longrightarrow> acked \<noteq> 0 \<Longrightarrow>
     bbr_target_cwnd (bbr_on_ack c now acked bw rtt) = 4"
  unfolding bbr_on_ack_def Let_def by (simp only: if_False bbr_update_cwnd_eq(1) bbr_update_cwnd_ok(4) if_True) (simp add: bbr_min_cwnd_pkts_def kcp_const)

text \<open>
  Bounds of the congestion window: after an acknowledgement of some bytes the window is
  between four packets and the target, grows by at most the number of packets acknowledged (at
  least one), and is exactly four packets while the RTT is probed; the pacing rate is at least a
  hundred segments per second.
\<close>

lemma bbr_cwnd_bounds:
  assumes "4 \<le> cwnd c" and "cwnd c < 2 ^ 31" and "acked \<noteq> 0"
    and "unat (bbr_target_cwnd (bbr_on_ack c now acked bw rtt)) < 2 ^ 31"
  shows "4 \<le> cwnd (bbr_on_ack c now acked bw rtt) \<and>
    cwnd (bbr_on_ack c now acked bw rtt) \<le> int (unat (bbr_target_cwnd (bbr_on_ack c now acked bw rtt))) \<and>
    cwnd (bbr_on_ack c now acked bw rtt) \<le> cwnd c + max 1 (int (unat (bytes_to_pkts c acked))) \<and>
    (bbr_mode (bbr_on_ack c now acked bw rtt) = KCP_BBR_PROBE_RTT \<longrightarrow> cwnd (bbr_on_ack c now acked bw rtt) = 4) \<and>
    ucast (mss c) * 100 \<le> bbr_pacing_rate (bbr_on_ack c now acked bw rtt)"
proof -
  define c5 where "c5 = bbr_update_cycle_phase (bbr_probe_rtt (bbr_drain (bbr_leave_startup
     (bbr_check_full_pipe (bbr_maybe_enter_probe_rtt (bbr_update_min_rtt
       (if bw > 0 then bbr_update_bw_filter c bw else c) now rtt) now)) now) now) now) now"
  define c6 where "c6 = bbr_update_pacing_rate c5"
  have eq: "bbr_on_ack c now acked bw rtt = bbr_update_cwnd c6 acked"
    using assms(3) by (simp only: bbr_on_ack_def Let_def c5_def c6_def if_False)
  have fr: "cwnd c6 = cwnd c" "mss c6 = mss c" unfolding c6_def c5_def by (rule bbr_early_cwnd)+
  then have "mss c5 = mss c" by (simp add: c6_def bbr_update_pacing_rate_def Let_def)
  then have rate: "ucast (mss c) * 100 \<le> bbr_pacing_rate (bbr_update_cwnd c6 acked)"
    unfolding bbr_update_cwnd_eq by (simp add: c6_def bbr_update_pacing_rate_def Let_def linorder_not_less)
  have b: "bytes_to_pkts c6 acked = bytes_to_pkts c acked" by (simp add: bytes_to_pkts_def fr)
  have 4: "4 \<le> cwnd (bbr_update_cwnd c6 acked)" using bbr_update_cwnd_ok(5) [of c6 acked] unfolding bbr_cwnd_ok_def by blast
  show ?thesis
    using bbr_update_cwnd_bounds [of c6 acked, unfolded fr b] assms(1,2,4) rate 4 unfolding eq bbr_update_cwnd_ok(4) by blast
qed

end
