(* ===== verification/Kcp_Codec.thy ===== *)
theory Kcp_Codec
  imports Kcp_Prelude
begin

text \<open>
  The wire format: packet headers (\<^verbatim>\<open>kcp/internal/kcp_protocol.h\<close>), the parser
  \<open>kcp_proto_parse\<close> and the encoders \<open>kcp_proto_header_encode\<close> and \<open>kcp_segment_encode\<close> of
  \<^verbatim>\<open>kcp/src/kcp_protocol.c\<close>.

  The parser gets the bytes that are readable from \<open>*data\<close> on, and \<open>data_size\<close> as a separate
  argument, as in the code; a load outside the readable bytes is the result \<open>Parse_fault\<close>. The
  encoders get the old contents of the buffer and return its new contents, also on the paths that
  return an error after a partial write; a store outside the buffer makes the list longer.
\<close>

section \<open>Commands, options and headers\<close>

definition KCP_CMD_SYN :: u4 where "KCP_CMD_SYN = 1"
definition KCP_CMD_ACK :: u4 where "KCP_CMD_ACK = 2"
definition KCP_CMD_PUSH :: u4 where "KCP_CMD_PUSH = 3"
definition KCP_CMD_WASK :: u4 where "KCP_CMD_WASK = 4"
definition KCP_CMD_WINS :: u4 where "KCP_CMD_WINS = 5"
definition KCP_CMD_PING :: u4 where "KCP_CMD_PING = 6"
definition KCP_CMD_PONG :: u4 where "KCP_CMD_PONG = 7"
definition KCP_CMD_MTU_PROBE :: u4 where "KCP_CMD_MTU_PROBE = 8"
definition KCP_CMD_MTU_ACK :: u4 where "KCP_CMD_MTU_ACK = 9"
definition KCP_CMD_FIN :: u4 where "KCP_CMD_FIN = 10"
definition KCP_CMD_RST :: u4 where "KCP_CMD_RST = 11"
definition KCP_CMD_OPT :: u4 where "KCP_CMD_OPT = 1"
definition KCP_OPTION_TAG_MTU :: u8 where "KCP_OPTION_TAG_MTU = 1"
definition KCP_OPTION_TAG_MTU_LEN :: nat where "KCP_OPTION_TAG_MTU_LEN = 6"

lemmas kcp_cmd_defs =
  KCP_CMD_SYN_def KCP_CMD_ACK_def KCP_CMD_PUSH_def KCP_CMD_WASK_def KCP_CMD_WINS_def
  KCP_CMD_PING_def KCP_CMD_PONG_def KCP_CMD_MTU_PROBE_def KCP_CMD_MTU_ACK_def KCP_CMD_FIN_def
  KCP_CMD_RST_def KCP_CMD_OPT_def KCP_OPTION_TAG_MTU_def

text \<open>\<open>tag\<close> and \<open>length\<close> hold the bits of an \<open>int8_t\<close>.\<close>

record kcp_option =
  opt_tag :: u8
  opt_length :: u8
  u64_value :: u64

text \<open>The union of the header: all views are 24 bytes; the payload pointer is a byte string.\<close>

datatype kcp_body =
    Packet_data u64 u32 u32 u32 u32 bytes \<comment> \<open>\<open>ts\<close>, \<open>sn\<close>, \<open>psn\<close>, \<open>una\<close>, \<open>len\<close>, \<open>data\<close>\<close>
  | Syn_fin_data u64 u64 u32 u32 \<comment> \<open>\<open>packet_ts\<close>, \<open>ts\<close>, \<open>packet_sn\<close>, \<open>rand_sn\<close>\<close>
  | Ack_data u64 u64 u32 u32 \<comment> \<open>\<open>packet_ts\<close>, \<open>ack_ts\<close>, \<open>sn\<close>, \<open>una\<close>\<close>
  | Ping_data u64 u64 u64 \<comment> \<open>\<open>packet_ts\<close>, \<open>ts\<close>, \<open>sn\<close>\<close>

record kcp_proto_header =
  hd_scid :: u16
  hd_dcid :: u16
  hd_cmd :: u4
  hd_opt :: u4
  hd_frg :: u8
  hd_wnd :: u16
  hd_body :: kcp_body
  hd_options :: "kcp_option list"

text \<open>
  The union read through another member: the three 64-bit words it overlays (on a
  little-endian machine) and the views of them. No payload pointer is stored by the members
  other than \<open>packet_data\<close>.
\<close>

definition lo32 :: "u64 \<Rightarrow> u32" where "lo32 w = ucast w"
definition hi32 :: "u64 \<Rightarrow> u32" where "hi32 w = ucast (drop_bit 32 w)"
definition word64 :: "u32 \<Rightarrow> u32 \<Rightarrow> u64" where "word64 lo hi = ucast lo OR push_bit 32 (ucast hi)"

fun body_words :: "kcp_body \<Rightarrow> u64 \<times> u64 \<times> u64 \<times> bytes" where
  "body_words (Packet_data ts sn psn una len dat) = (ts, word64 sn psn, word64 una len, dat)"
| "body_words (Syn_fin_data pts ts psn rsn) = (pts, ts, word64 psn rsn, [])"
| "body_words (Ack_data pts ats sn una) = (pts, ats, word64 sn una, [])"
| "body_words (Ping_data pts ts sn) = (pts, ts, sn, [])"

definition as_packet_data :: "kcp_body \<Rightarrow> u64 \<times> u32 \<times> u32 \<times> u32 \<times> u32 \<times> bytes" where
  "as_packet_data b = (case body_words b of (w0, w1, w2, dat) \<Rightarrow>
     (w0, lo32 w1, hi32 w1, lo32 w2, hi32 w2, dat))"

definition as_syn_fin_data :: "kcp_body \<Rightarrow> u64 \<times> u64 \<times> u32 \<times> u32" where
  "as_syn_fin_data b = (case body_words b of (w0, w1, w2, dat) \<Rightarrow> (w0, w1, lo32 w2, hi32 w2))"

definition as_ack_data :: "kcp_body \<Rightarrow> u64 \<times> u64 \<times> u32 \<times> u32" where
  "as_ack_data b = (case body_words b of (w0, w1, w2, dat) \<Rightarrow> (w0, w1, lo32 w2, hi32 w2))"

definition as_ping_data :: "kcp_body \<Rightarrow> u64 \<times> u64 \<times> u64" where
  "as_ping_data b = (case body_words b of (w0, w1, w2, dat) \<Rightarrow> (w0, w1, w2))"

section \<open>Parsing\<close>

text \<open>The header with the new value of \<open>*data\<close> as an offset, an error code, or a bad load.\<close>

datatype parse_result =
    Parse_ok kcp_proto_header nat
  | Parse_error kcp_error
  | Parse_fault

text \<open>The loads of 16, 32 and 64 bits at an offset of the readable bytes.\<close>

definition load_le :: "nat \<Rightarrow> nat \<Rightarrow> bytes \<Rightarrow> 'a::len word" where
  "load_le n off mem = le_word (take n (drop off mem))"

fun kcp_parse_body :: "u4 \<Rightarrow> bytes \<Rightarrow> kcp_body" where
  "kcp_parse_body cmd mem =
     (if cmd = KCP_CMD_ACK
      then Ack_data (load_le 8 8 mem) (load_le 8 16 mem) (load_le 4 24 mem) (load_le 4 28 mem)
      else if cmd = KCP_CMD_SYN \<or> cmd = KCP_CMD_FIN
      then Syn_fin_data (load_le 8 8 mem) (load_le 8 16 mem) (load_le 4 24 mem) (load_le 4 28 mem)
      else if cmd = KCP_CMD_PING \<or> cmd = KCP_CMD_PONG
      then Ping_data (load_le 8 8 mem) (load_le 8 16 mem) (load_le 8 24 mem)
      else
        let len = load_le 4 28 mem
        in Packet_data (load_le 8 8 mem) (load_le 4 16 mem) (load_le 4 20 mem) (load_le 4 24 mem)
             len (take (unat len) (drop 32 mem)))"

text \<open>The option loop: \<open>data_offset\<close> is the offset, \<open>acc\<close> the list \<open>options\<close> built so far.\<close>

function kcp_parse_options ::
    "bytes \<Rightarrow> nat \<Rightarrow> nat \<Rightarrow> kcp_option list \<Rightarrow> (kcp_option list \<times> nat, kcp_error option) sum" where
  "kcp_parse_options mem data_size data_offset acc =
     (if \<not> data_offset < data_size then Inl (acc, data_offset)
      else if data_size - data_offset < 2 then Inr (Some INVALID_KCP_HEADER)
      else if length mem < data_offset + 2 then Inr None
      else
        let tag = mem ! data_offset; len = mem ! (data_offset + 1); off = data_offset + 2
        in if unat len > data_size - off then Inr (Some INVALID_KCP_HEADER)
           else if tag = KCP_OPTION_TAG_MTU
           then if length mem < off + 4 then Inr None
                else kcp_parse_options mem data_size (off + unat len)
                       (acc @ [\<lparr>opt_tag = tag, opt_length = len,
                                u64_value = ucast (load_le 4 off mem :: u32)\<rparr>])
           else Inr (Some INVALID_KCP_HEADER))"
  by pat_completeness auto
termination
  by (relation "measure (\<lambda>(mem, data_size, data_offset, acc). data_size - data_offset)") auto

declare kcp_parse_options.simps [simp del]

text \<open>
  \<open>kcp_proto_parse\<close>; \<open>opts\<close> is the list \<open>kcp_header->options\<close> at the call. The subtraction in
  the length check is one of \<open>size_t\<close>.
\<close>

definition kcp_proto_parse :: "bytes \<Rightarrow> nat \<Rightarrow> kcp_option list \<Rightarrow> parse_result" where
  "kcp_proto_parse mem data_size opts =
     (if length mem < KCP_HEADER_SIZE then Parse_fault
      else
        let cmd = ucast (mem ! 4 AND 0x0F) :: u4;
            opt = ucast (drop_bit 4 (mem ! 4) AND 0x0F) :: u4;
            body = kcp_parse_body cmd mem;
            off = (case body of Packet_data _ _ _ _ len _ \<Rightarrow> KCP_HEADER_SIZE + unat len
                   | _ \<Rightarrow> KCP_HEADER_SIZE);
            bad_len = (case body of
                         Packet_data _ _ _ _ len _ \<Rightarrow>
                           ucast len > (of_nat data_size - of_nat KCP_HEADER_SIZE :: u64)
                       | _ \<Rightarrow> False);
            header = \<lparr>hd_scid = load_le 2 0 mem, hd_dcid = load_le 2 2 mem, hd_cmd = cmd,
                      hd_opt = opt, hd_frg = mem ! 5, hd_wnd = load_le 2 6 mem, hd_body = body,
                      hd_options = opts\<rparr>
        in if bad_len then Parse_error INVALID_KCP_HEADER
           else if opt AND KCP_CMD_OPT \<noteq> 0
           then (case kcp_parse_options mem data_size off opts of
                   Inl (os, off') \<Rightarrow> Parse_ok (header\<lparr>hd_options := os\<rparr>) off'
                 | Inr (Some e) \<Rightarrow> Parse_error e
                 | Inr None \<Rightarrow> Parse_fault)
           else Parse_ok header off)"

section \<open>Encoding\<close>

text \<open>A store through the moving pointer \<open>buffer_offset\<close>.\<close>

definition put :: "bytes \<Rightarrow> nat \<times> bytes \<Rightarrow> nat \<times> bytes" where
  "put bs c = (case c of (off, buf) \<Rightarrow> (off + length bs, store_bytes off bs buf))"

text \<open>The command byte is not stored but or-ed into the byte that is there.\<close>

definition put_or :: "u8 \<Rightarrow> nat \<times> bytes \<Rightarrow> nat \<times> bytes" where
  "put_or b c = (case c of (off, buf) \<Rightarrow> put [buf ! off OR b] (off, buf))"

definition encode_prefix :: "kcp_proto_header \<Rightarrow> bytes \<Rightarrow> nat \<times> bytes" where
  "encode_prefix h buf =
     (put (le_bytes 2 (hd_wnd h)) \<circ>
      put [hd_frg h] \<circ>
      put_or (ucast (hd_cmd h) OR push_bit 4 (ucast (hd_opt h))) \<circ>
      put (le_bytes 2 (hd_dcid h)) \<circ>
      put (le_bytes 2 (hd_scid h))) (0, buf)"

fun encode_options ::
    "nat \<Rightarrow> u32 \<Rightarrow> kcp_option list \<Rightarrow> nat \<times> bytes \<Rightarrow> (kcp_error + u32) \<times> bytes" where
  "encode_options buffer_size lengeth [] c = (Inr lengeth, snd c)"
| "encode_options buffer_size lengeth (pos # rest) c =
     (if buffer_size < unat (of_nat KCP_HEADER_SIZE + lengeth + scast (opt_length pos) :: u32)
      then (Inl BUFFER_TOO_SMALL, snd c)
      else
        let c1 = put [opt_length pos] (put [opt_tag pos] c)
        in if opt_tag pos = KCP_OPTION_TAG_MTU
           then encode_options buffer_size (lengeth + (2 + scast (opt_length pos))) rest
                  (put (le_bytes 4 (ucast (u64_value pos) :: u32)) c1)
           else (Inl INVALID_PARAM, snd c1))"

text \<open>\<open>encode_body\<close>: the part between the prefix and the options; the new \<open>lengeth\<close>.\<close>

definition encode_body :: "kcp_proto_header \<Rightarrow> nat \<Rightarrow> nat \<times> bytes \<Rightarrow> (kcp_error + u32) \<times> nat \<times> bytes" where
  "encode_body h buffer_size c =
     (if hd_cmd h = KCP_CMD_ACK then
        (case as_ack_data (hd_body h) of (pts, ats, sn, una) \<Rightarrow>
           (Inr 0, (put (le_bytes 4 una) \<circ> put (le_bytes 4 sn) \<circ> put (le_bytes 8 ats) \<circ>
                    put (le_bytes 8 pts)) c))
      else if hd_cmd h = KCP_CMD_SYN \<or> hd_cmd h = KCP_CMD_FIN then
        (case as_syn_fin_data (hd_body h) of (pts, ts, psn, rsn) \<Rightarrow>
           (Inr 0, (put (le_bytes 4 rsn) \<circ> put (le_bytes 4 psn) \<circ> put (le_bytes 8 ts) \<circ>
                    put (le_bytes 8 pts)) c))
      else if hd_cmd h = KCP_CMD_PING \<or> hd_cmd h = KCP_CMD_PONG then
        (case as_ping_data (hd_body h) of (pts, ts, sn) \<Rightarrow>
           (Inr 0, (put (le_bytes 8 sn) \<circ> put (le_bytes 8 ts) \<circ> put (le_bytes 8 pts)) c))
      else
        (case as_packet_data (hd_body h) of (ts, sn, psn, una, len, dat) \<Rightarrow>
           if buffer_size < unat (of_nat KCP_HEADER_SIZE + len :: u32) then (Inl BUFFER_TOO_SMALL, c)
           else (Inr len,
                 (put (take (unat len) dat) \<circ> put (le_bytes 4 len) \<circ> put (le_bytes 4 una) \<circ>
                  put (le_bytes 4 psn) \<circ> put (le_bytes 4 sn) \<circ> put (le_bytes 8 ts)) c)))"

definition kcp_proto_header_encode :: "kcp_proto_header \<Rightarrow> bytes \<Rightarrow> nat \<Rightarrow> (kcp_error + int) \<times> bytes" where
  "kcp_proto_header_encode h buf buffer_size =
     (if buffer_size < KCP_HEADER_SIZE then (Inl BUFFER_TOO_SMALL, buf)
      else
        case encode_body h buffer_size (encode_prefix h buf) of
          (Inl e, _, buf') \<Rightarrow> (Inl e, buf')
        | (Inr lengeth, c) \<Rightarrow>
            if hd_opt h AND KCP_CMD_OPT \<noteq> 0 \<and> hd_options h \<noteq> [] then
              (case encode_options buffer_size lengeth (hd_options h) c of
                 (Inl e, buf') \<Rightarrow> (Inl e, buf')
               | (Inr lengeth', buf') \<Rightarrow>
                   (Inr (i32_of_u32 (of_nat KCP_HEADER_SIZE + lengeth')), buf'))
            else (Inr (i32_of_u32 (of_nat KCP_HEADER_SIZE + lengeth)), snd c))"

section \<open>Segments\<close>

record kcp_segment =
  seg_scid :: u16
  seg_dcid :: u16
  seg_cmd :: u32
  seg_frg :: u32
  seg_wnd :: u32
  seg_ts :: u64
  seg_sn :: u32
  seg_psn :: u32
  seg_una :: u32
  seg_len :: u32
  seg_rto :: u32
  seg_resendts :: u64
  seg_fastack :: u32
  seg_xmit :: u32
  seg_tx_delivered :: u64
  seg_tx_delivered_ts :: u64
  seg_data :: bytes

definition kcp_segment_encode :: "kcp_segment \<Rightarrow> bytes \<Rightarrow> nat \<Rightarrow> (kcp_error + int) \<times> bytes" where
  "kcp_segment_encode s buf buffer_size =
     (if buffer_size < unat (of_nat KCP_HEADER_SIZE + seg_len s :: u32) then (Inl BUFFER_TOO_SMALL, buf)
      else
        (Inr (i32_of_u32 (of_nat KCP_HEADER_SIZE + seg_len s)),
         snd ((put (take (unat (seg_len s)) (seg_data s)) \<circ>
               put (le_bytes 4 (seg_len s)) \<circ> put (le_bytes 4 (seg_una s)) \<circ>
               put (le_bytes 4 (seg_psn s)) \<circ> put (le_bytes 4 (seg_sn s)) \<circ>
               put (le_bytes 8 (seg_ts s)) \<circ> put (le_bytes 2 (ucast (seg_wnd s) :: u16)) \<circ>
               put [ucast (seg_frg s)] \<circ> put [ucast (seg_cmd s)] \<circ>
               put (le_bytes 2 (seg_dcid s)) \<circ> put (le_bytes 2 (seg_scid s))) (0, buf))))"

section \<open>The format as a specification\<close>

text \<open>
  \<open>wire_header\<close> is the layout of \<^verbatim>\<open>kcp/protocol.txt\<close>: the bytes of a header as a
  concatenation of fields. The encoders are shown to write exactly these bytes, and the parser
  to read them back.
\<close>

definition cmd_byte :: "u4 \<Rightarrow> u4 \<Rightarrow> u8" where
  "cmd_byte cmd opt = ucast cmd OR push_bit 4 (ucast opt)"

fun wire_body :: "kcp_body \<Rightarrow> bytes" where
  "wire_body (Packet_data ts sn psn una len dat) =
     le_bytes 8 ts @ le_bytes 4 sn @ le_bytes 4 psn @ le_bytes 4 una @ le_bytes 4 len @ dat"
| "wire_body (Syn_fin_data pts ts psn rsn) =
     le_bytes 8 pts @ le_bytes 8 ts @ le_bytes 4 psn @ le_bytes 4 rsn"
| "wire_body (Ack_data pts ats sn una) =
     le_bytes 8 pts @ le_bytes 8 ats @ le_bytes 4 sn @ le_bytes 4 una"
| "wire_body (Ping_data pts ts sn) = le_bytes 8 pts @ le_bytes 8 ts @ le_bytes 8 sn"

definition wire_option :: "kcp_option \<Rightarrow> bytes" where
  "wire_option o' = opt_tag o' # opt_length o' # le_bytes 4 (ucast (u64_value o') :: u32)"

definition wire_prefix :: "kcp_proto_header \<Rightarrow> bytes" where
  "wire_prefix h = le_bytes 2 (hd_scid h) @ le_bytes 2 (hd_dcid h) @
     [cmd_byte (hd_cmd h) (hd_opt h), hd_frg h] @ le_bytes 2 (hd_wnd h)"

definition wire_header :: "kcp_proto_header \<Rightarrow> bytes" where
  "wire_header h = wire_prefix h @ wire_body (hd_body h) @ concat (map wire_option (hd_options h))"

text \<open>Headers that can be sent: the union member fits the command, the options are MTU options.\<close>

fun body_wf :: "u4 \<Rightarrow> kcp_body \<Rightarrow> bool" where
  "body_wf cmd (Ack_data _ _ _ _) \<longleftrightarrow> cmd = KCP_CMD_ACK"
| "body_wf cmd (Syn_fin_data _ _ _ _) \<longleftrightarrow> cmd = KCP_CMD_SYN \<or> cmd = KCP_CMD_FIN"
| "body_wf cmd (Ping_data _ _ _) \<longleftrightarrow> cmd = KCP_CMD_PING \<or> cmd = KCP_CMD_PONG"
| "body_wf cmd (Packet_data _ _ _ _ len dat) \<longleftrightarrow>
     cmd \<notin> {KCP_CMD_ACK, KCP_CMD_SYN, KCP_CMD_FIN, KCP_CMD_PING, KCP_CMD_PONG} \<and>
     length dat = unat len"

definition option_wf :: "kcp_option \<Rightarrow> bool" where
  "option_wf o' \<longleftrightarrow> opt_tag o' = KCP_OPTION_TAG_MTU \<and> opt_length o' = 4 \<and>
     ucast (ucast (u64_value o') :: u32) = u64_value o'"

definition header_wf :: "kcp_proto_header \<Rightarrow> bool" where
  "header_wf h \<longleftrightarrow> body_wf (hd_cmd h) (hd_body h) \<and> (\<forall>o'\<in>set (hd_options h). option_wf o') \<and>
     (hd_opt h AND KCP_CMD_OPT = 0 \<longrightarrow> hd_options h = [])"

section \<open>Lemmas\<close>

lemma lo32_word64 [simp]: "lo32 (word64 a b) = a"
  by (rule bit_word_eqI) (auto simp: lo32_def word64_def bit_simps)

lemma hi32_word64 [simp]: "hi32 (word64 a b) = b"
  by (rule bit_word_eqI) (auto simp: hi32_def word64_def bit_simps dest: bit_imp_le_length)

lemma as_views [simp]:
  "as_packet_data (Packet_data ts sn psn una len dat) = (ts, sn, psn, una, len, dat)"
  "as_syn_fin_data (Syn_fin_data pts t psn' rsn) = (pts, t, psn', rsn)"
  "as_ack_data (Ack_data pts t sn una) = (pts, t, sn, una)"
  "as_ping_data (Ping_data pts t n) = (pts, t, n)"
  by (simp_all add: as_packet_data_def as_syn_fin_data_def as_ack_data_def as_ping_data_def)

lemma put_append:
  "off = length pre \<Longrightarrow> put bs (off, pre @ rest) = (off + length bs, pre @ bs @ drop (length bs) rest)"
  by (simp add: put_def store_bytes_def)

lemma cmd_of_cmd_byte: "ucast (cmd_byte cmd opt AND 0x0F) = cmd"
proof -
  have m: "(0x0F :: u8) = mask 4" by (simp add: mask_eq_exp_minus_1)
  show ?thesis unfolding m
    by (rule bit_word_eqI) (auto simp: cmd_byte_def bit_simps)
qed

lemma opt_of_cmd_byte: "ucast (drop_bit 4 (cmd_byte cmd opt) AND 0x0F) = opt"
proof -
  have m: "(0x0F :: u8) = mask 4" by (simp add: mask_eq_exp_minus_1)
  show ?thesis unfolding m
    by (rule bit_word_eqI) (auto simp: cmd_byte_def bit_simps dest: bit_imp_le_length)
qed

lemma length_wire_prefix [simp]: "length (wire_prefix h) = 8"
  by (simp add: wire_prefix_def)

lemma length_wire_option [simp]: "length (wire_option o') = 6"
  by (simp add: wire_option_def)

fun payload_len :: "kcp_body \<Rightarrow> nat" where
  "payload_len (Packet_data _ _ _ _ len _) = unat len"
| "payload_len _ = 0"

lemma length_wire_body: "body_wf cmd b \<Longrightarrow> length (wire_body b) = 24 + payload_len b"
  by (cases b) auto

lemma length_wire_header:
  "header_wf h \<Longrightarrow> length (wire_header h) = 32 + payload_len (hd_body h) + 6 * length (hd_options h)"
  by (auto simp: wire_header_def header_wf_def length_wire_body length_concat sum_list_triv o_def)

subsection \<open>The encoders write the format\<close>

lemma encode_prefix_or:
  assumes "8 \<le> length buf"
  shows "encode_prefix h buf =
    (8, le_bytes 2 (hd_scid h) @ le_bytes 2 (hd_dcid h) @
        [buf ! 4 OR cmd_byte (hd_cmd h) (hd_opt h), hd_frg h] @ le_bytes 2 (hd_wnd h) @ drop 8 buf)"
proof -
  have 1: "put (le_bytes 2 (hd_scid h)) (0, buf) = (2, le_bytes 2 (hd_scid h) @ drop 2 buf)"
    using put_append [of 0 "[]" "le_bytes 2 (hd_scid h)" buf] by simp
  note 2 = put_append [of 2 "le_bytes 2 (hd_scid h)" "le_bytes 2 (hd_dcid h)" "drop 2 buf", simplified]
  let ?ids = "le_bytes 2 (hd_scid h) @ le_bytes 2 (hd_dcid h)"
  have at4: "(?ids @ drop 4 buf) ! 4 = buf ! 4"
    using assms by (simp add: nth_append)
  have 3: "put_or b (4, ?ids @ drop 4 buf) = (5, ?ids @ [buf ! 4 OR b] @ drop 5 buf)" for b
    using put_append [of 4 ?ids "[buf ! 4 OR b]" "drop 4 buf"] at4 by (simp add: put_or_def)
  let ?cmd = "buf ! 4 OR cmd_byte (hd_cmd h) (hd_opt h)"
  have 4: "put [hd_frg h] (5, ?ids @ [?cmd] @ drop 5 buf) = (6, ?ids @ [?cmd, hd_frg h] @ drop 6 buf)"
    using put_append [of 5 "?ids @ [?cmd]" "[hd_frg h]" "drop 5 buf"] by simp
  have 5: "put (le_bytes 2 (hd_wnd h)) (6, ?ids @ [?cmd, hd_frg h] @ drop 6 buf) =
      (8, ?ids @ [?cmd, hd_frg h] @ le_bytes 2 (hd_wnd h) @ drop 8 buf)"
    using put_append [of 6 "?ids @ [?cmd, hd_frg h]" "le_bytes 2 (hd_wnd h)" "drop 6 buf"] by simp
  show ?thesis
    using 1 2 3 4 5 by (simp add: encode_prefix_def cmd_byte_def)
qed

lemma encode_prefix_eq:
  "8 \<le> length buf \<Longrightarrow> buf ! 4 = 0 \<Longrightarrow> encode_prefix h buf = (8, wire_prefix h @ drop 8 buf)"
  by (simp add: encode_prefix_or wire_prefix_def)

text \<open>A run of stores through the moving pointer is one store.\<close>

lemma put_put: "off \<le> length buf \<Longrightarrow> put ys (put xs (off, buf)) = put (xs @ ys) (off, buf)"
  by (simp add: put_def store_bytes_def ac_simps)

lemma encode_body_eq:
  assumes "body_wf (hd_cmd h) (hd_body h)" and "length pre = 8"
    and "32 + payload_len (hd_body h) \<le> n" and "n < 2 ^ 32"
  shows "encode_body h n (8, pre @ rest) =
    (Inr (of_nat (payload_len (hd_body h))), 32 + payload_len (hd_body h),
     (pre @ wire_body (hd_body h)) @ drop (24 + payload_len (hd_body h)) rest)"
proof (cases "hd_body h")
  case (Packet_data ts sn psn una len dat)
  have "unat (of_nat KCP_HEADER_SIZE + len :: u32) = 32 + unat len"
    using assms(3,4) Packet_data by (simp add: kcp_const unat_word_ariths)
  then show ?thesis
    using assms Packet_data by (simp add: encode_body_def put_put add.commute) (simp add: put_append add.commute)
qed (use assms in \<open>auto simp: encode_body_def kcp_cmd_defs put_put\<close>, simp_all add: put_append)

lemma encode_options_eq:
  assumes "\<forall>o'\<in>set os. option_wf o'" and "length pre = off"
    and "32 + unat lengeth + 6 * length os \<le> n" and "n < 2 ^ 31"
  shows "encode_options n lengeth os (off, pre @ rest) =
    (Inr (lengeth + 6 * of_nat (length os)), (pre @ concat (map wire_option os)) @ drop (6 * length os) rest)"
  using assms
proof (induction os arbitrary: lengeth off pre rest)
  case Nil
  then show ?case by simp
next
  case (Cons o' os)
  then have o': "opt_tag o' = KCP_OPTION_TAG_MTU" "opt_length o' = 4" by (auto simp: option_wf_def)
  have s: "(scast (4 :: u8) :: u32) = 4" by simp
  have fit: "unat (of_nat KCP_HEADER_SIZE + lengeth + scast (opt_length o') :: u32) = 36 + unat lengeth"
    using Cons.prems by (simp add: o' s kcp_const unat_word_ariths)
  have sum: "unat (lengeth + 6) = unat lengeth + 6"
    using Cons.prems by (simp add: unat_word_ariths)
  have "encode_options n lengeth (o' # os) (off, pre @ rest) =
      encode_options n (lengeth + 6) os (off + 6, (pre @ wire_option o') @ drop 6 rest)"
    using Cons.prems fit by (simp add: o' s put_put wire_option_def Let_def) (simp add: put_append)
  also have "\<dots> = (Inr (lengeth + 6 + 6 * of_nat (length os)),
      ((pre @ wire_option o') @ concat (map wire_option os)) @ drop (6 * length os) (drop 6 rest))"
    by (rule Cons.IH) (use Cons.prems sum in auto)
  finally show ?case by (simp add: algebra_simps)
qed

lemma header_encode_eq:
  assumes wf: "header_wf h" and zero: "buf ! 4 = 0"
    and n: "length (wire_header h) \<le> n" "n \<le> length buf" "n < 2 ^ 31"
  shows "kcp_proto_header_encode h buf n =
    (Inr (int (length (wire_header h))), wire_header h @ drop (length (wire_header h)) buf)"
proof -
  let ?p = "payload_len (hd_body h)" and ?os = "hd_options h"
  have len: "length (wire_header h) = 32 + ?p + 6 * length ?os" by (rule length_wire_header [OF wf])
  have bwf: "body_wf (hd_cmd h) (hd_body h)" and owf: "\<forall>o'\<in>set ?os. option_wf o'"
    using wf by (auto simp: header_wf_def)
  have body: "encode_body h n (encode_prefix h buf) =
      (Inr (of_nat ?p), 32 + ?p, (wire_prefix h @ wire_body (hd_body h)) @ drop (32 + ?p) buf)"
    using encode_body_eq [of h "wire_prefix h" n "drop 8 buf"] bwf n zero len
    by (simp add: encode_prefix_eq add.commute)
  have up: "unat (of_nat ?p :: u32) = ?p" using n len by (simp add: unat_of_nat)
  have opts: "encode_options n (of_nat ?p) ?os
      (32 + ?p, (wire_prefix h @ wire_body (hd_body h)) @ drop (32 + ?p) buf) =
      (Inr (of_nat ?p + 6 * of_nat (length ?os)), wire_header h @ drop (length (wire_header h)) buf)"
    by (subst encode_options_eq)
       (use n len owf up length_wire_body [OF bwf] in \<open>auto simp: wire_header_def ac_simps\<close>)
  have size: "i32_of_u32 (of_nat KCP_HEADER_SIZE + (of_nat ?p + 6 * of_nat (length ?os))) =
      int (length (wire_header h))"
    using i32_of_u32_of_nat [of "32 + (?p + 6 * length ?os)"] n len by (simp add: kcp_const)
  have none: "?os = [] \<Longrightarrow> wire_header h = wire_prefix h @ wire_body (hd_body h)"
    by (simp add: wire_header_def)
  show ?thesis
    using n len wf body opts size none
    by (auto simp: kcp_proto_header_encode_def kcp_const header_wf_def)
qed

subsection \<open>The parser reads the format\<close>

lemma load_le_at:
  fixes w :: "'a::len word"
  assumes "LENGTH('a) \<le> 8 * n" and "length pre = off"
  shows "load_le n off (pre @ le_bytes n w @ post) = w"
  using assms by (simp add: load_le_def)

lemma parse_options_wire:
  assumes "\<forall>o'\<in>set os. option_wf o'"
  shows "kcp_parse_options (pre @ concat (map wire_option os) @ tail)
      (length pre + 6 * length os) (length pre) acc = Inl (acc @ os, length pre + 6 * length os)"
  using assms
proof (induction os arbitrary: pre acc)
  case Nil
  then show ?case by (simp add: kcp_parse_options.simps)
next
  case (Cons o' os)
  then have o': "opt_tag o' = KCP_OPTION_TAG_MTU" "opt_length o' = 4"
      "ucast (ucast (u64_value o') :: u32) = u64_value o'"
    by (auto simp: option_wf_def)
  let ?mem = "pre @ concat (map wire_option (o' # os)) @ tail"
  have load: "load_le 4 (length pre + 2) ?mem = (ucast (u64_value o') :: u32)"
    using load_le_at [of 4 "pre @ [opt_tag o', opt_length o']" "length pre + 2"
        "ucast (u64_value o') :: u32" "concat (map wire_option os) @ tail"]
    by (simp add: wire_option_def)
  have bytes: "?mem ! length pre = opt_tag o'" "?mem ! Suc (length pre) = opt_length o'"
      "length pre + 6 \<le> length ?mem"
    by (simp_all add: wire_option_def nth_append)
  have rec: "\<lparr>opt_tag = KCP_OPTION_TAG_MTU, opt_length = 4, u64_value = u64_value o'\<rparr> = o'"
    using o' by simp
  have "kcp_parse_options ?mem (length pre + 6 * length (o' # os)) (length pre) acc =
      kcp_parse_options ?mem (length pre + 6 * length (o' # os)) (6 + length pre) (acc @ [o'])"
    using bytes load by (subst kcp_parse_options.simps) (simp add: o' Let_def rec)
  also have "\<dots> = Inl (acc @ o' # os, length pre + 6 * length (o' # os))"
    using Cons.IH [of "pre @ wire_option o'" "acc @ [o']"] Cons.prems by (simp add: ac_simps)
  finally show ?case by simp
qed

lemma parse_body_wire:
  assumes "body_wf cmd b" and "length pre = 8"
  shows "kcp_parse_body cmd (pre @ wire_body b @ tail) = b"
  using assms
  by (cases b) (auto simp: Let_def load_le_def kcp_cmd_defs)

lemma parse_wire:
  assumes wf: "header_wf h"
    and m: "m = length (wire_header h) \<or> hd_opt h AND KCP_CMD_OPT = 0 \<and> length (wire_header h) \<le> m"
    and small: "m < 2 ^ 64"
  shows "kcp_proto_parse (wire_header h @ tail) m [] = Parse_ok h (length (wire_header h))"
proof -
  let ?p = "payload_len (hd_body h)" and ?os = "hd_options h"
  let ?mem = "wire_header h @ tail"
  have len: "length (wire_header h) = 32 + ?p + 6 * length ?os" by (rule length_wire_header [OF wf])
  have bwf: "body_wf (hd_cmd h) (hd_body h)" and owf: "\<forall>o'\<in>set ?os. option_wf o'"
    using wf by (auto simp: header_wf_def)
  have four: "?mem ! 4 = cmd_byte (hd_cmd h) (hd_opt h)" "?mem ! 5 = hd_frg h"
    by (simp_all add: wire_header_def wire_prefix_def nth_append)
  have ids: "load_le 2 0 ?mem = hd_scid h" "load_le 2 2 ?mem = hd_dcid h" "load_le 2 6 ?mem = hd_wnd h"
    by (simp_all add: wire_header_def wire_prefix_def load_le_def)
  have body: "kcp_parse_body (hd_cmd h) ?mem = hd_body h"
    using parse_body_wire [OF bwf length_wire_prefix] by (simp add: wire_header_def)
  have opts: "kcp_parse_options ?mem (32 + ?p + 6 * length ?os) (32 + ?p) [] = Inl (?os, 32 + ?p + 6 * length ?os)"
    using parse_options_wire [OF owf, of "wire_prefix h @ wire_body (hd_body h)" tail "[]"]
    by (simp add: wire_header_def length_wire_body [OF bwf])
  have off: "(case hd_body h of Packet_data _ _ _ _ l _ \<Rightarrow> KCP_HEADER_SIZE + unat l | _ \<Rightarrow> KCP_HEADER_SIZE) = 32 + ?p"
    by (cases "hd_body h") (simp_all add: kcp_const)
  have "of_nat m - of_nat KCP_HEADER_SIZE = (of_nat (m - 32) :: u64)"
    using m len by (auto simp: kcp_const of_nat_diff)
  moreover have "unat (of_nat (m - 32) :: u64) = m - 32"
    using small by (simp add: unat_of_nat)
  ultimately have fits: "\<not> (case hd_body h of
      Packet_data _ _ _ _ l _ \<Rightarrow> ucast l > (of_nat m - of_nat KCP_HEADER_SIZE :: u64) | _ \<Rightarrow> False)"
    using m len by (cases "hd_body h") (auto simp: word_less_nat_alt)
  have cmd: "(ucast (?mem ! 4 AND 0x0F) :: u4) = hd_cmd h"
      "(ucast (drop_bit 4 (?mem ! 4) AND 0x0F) :: u4) = hd_opt h"
    by (simp_all only: four cmd_of_cmd_byte opt_of_cmd_byte)
  have "\<not> length ?mem < KCP_HEADER_SIZE" using len by (simp add: kcp_const)
  then show ?thesis
    using m wf opts fits
    by (cases "hd_opt h AND KCP_CMD_OPT = 0")
       (simp_all only: kcp_proto_parse_def Let_def cmd ids body off four(2) if_False if_True len header_wf_def
         not_False_eq_True sum.case prod.case HOL.simp_thms, simp_all)
qed

section \<open>Properties\<close>

text \<open>
  C10. Round trip of headers: for a sendable header, \<open>kcp_proto_header_encode\<close> into a buffer whose
  command byte is zero and that is large enough returns the number of bytes of the header with its
  payload and options, leaves the rest of the buffer alone, and \<open>kcp_proto_parse\<close> of those bytes
  gives the header back and consumes exactly them; without options this also holds when more
  packets follow in the datagram.
\<close>

theorem header_roundtrip:
  assumes "header_wf h" and "buf ! 4 = 0"
    and "length (wire_header h) \<le> n" and "n \<le> length buf" and "n < 2 ^ 31"
    and "m = length (wire_header h) \<or>
         hd_opt h AND KCP_CMD_OPT = 0 \<and> length (wire_header h) \<le> m \<and> m < 2 ^ 64"
  shows "\<exists>k buf'. kcp_proto_header_encode h buf n = (Inr (int k), buf') \<and>
           k = 32 + payload_len (hd_body h) + 6 * length (hd_options h) \<and>
           length buf' = length buf \<and> drop k buf' = drop k buf \<and>
           kcp_proto_parse buf' m [] = Parse_ok h k"
  using assms length_wire_header [OF assms(1)]
  by (auto simp: header_encode_eq parse_wire)

definition sample_header :: kcp_proto_header where
  "sample_header = \<lparr>hd_scid = 7, hd_dcid = 0x1234, hd_cmd = KCP_CMD_SYN, hd_opt = KCP_CMD_OPT,
     hd_frg = 0, hd_wnd = 256, hd_body = Syn_fin_data 1 0xAABBCCDD 3 0xDEADBEEF,
     hd_options = [\<lparr>opt_tag = KCP_OPTION_TAG_MTU, opt_length = 4, u64_value = 1400\<rparr>]\<rparr>"

lemma sample_header_wf: "header_wf sample_header"
  by (simp add: sample_header_def header_wf_def option_wf_def kcp_cmd_defs)

theorem header_roundtrip_witness:
  "\<exists>k buf'. kcp_proto_header_encode sample_header (replicate 40 0) 40 = (Inr (int k), buf') \<and>
     k = 32 + payload_len (hd_body sample_header) + 6 * length (hd_options sample_header) \<and>
     length buf' = length (replicate 40 (0 :: u8)) \<and> drop k buf' = drop k (replicate 40 0) \<and>
     kcp_proto_parse buf' 38 [] = Parse_ok sample_header k"
proof (rule header_roundtrip [OF sample_header_wf])
  have "length (wire_header sample_header) = 38"
    using length_wire_header [OF sample_header_wf] by (simp add: sample_header_def)
  then show "length (wire_header sample_header) \<le> 40"
    and "38 = length (wire_header sample_header) \<or> hd_opt sample_header AND KCP_CMD_OPT = 0 \<and>
         length (wire_header sample_header) \<le> 38 \<and> (38 :: nat) < 2 ^ 64" by simp_all
qed simp_all

text \<open>The header a segment is sent as.\<close>

definition segment_header :: "kcp_segment \<Rightarrow> kcp_proto_header" where
  "segment_header s = \<lparr>hd_scid = seg_scid s, hd_dcid = seg_dcid s, hd_cmd = ucast (seg_cmd s),
     hd_opt = 0, hd_frg = ucast (seg_frg s), hd_wnd = ucast (seg_wnd s),
     hd_body = Packet_data (seg_ts s) (seg_sn s) (seg_psn s) (seg_una s) (seg_len s) (seg_data s),
     hd_options = []\<rparr>"

lemma ucast_push_cmd: "seg_cmd s = ucast KCP_CMD_PUSH \<Longrightarrow> (ucast (seg_cmd s) :: u8) = cmd_byte (ucast (seg_cmd s)) 0"
  by (simp add: cmd_byte_def KCP_CMD_PUSH_def)

lemma segment_header_wf:
  "seg_cmd s = ucast KCP_CMD_PUSH \<Longrightarrow> length (seg_data s) = unat (seg_len s) \<Longrightarrow> header_wf (segment_header s)"
  by (simp add: segment_header_def header_wf_def kcp_cmd_defs)

lemma segment_encode_eq:
  assumes "seg_cmd s = ucast KCP_CMD_PUSH" and "length (seg_data s) = unat (seg_len s)"
    and "32 + unat (seg_len s) \<le> n" and "n \<le> length buf" and "n < 2 ^ 31"
  shows "kcp_segment_encode s buf n =
    (Inr (int (32 + unat (seg_len s))),
     wire_header (segment_header s) @ drop (32 + unat (seg_len s)) buf)"
proof -
  have put0: "put bs (0, buf) = (length bs, bs @ drop (length bs) buf)" for bs
    using put_append [of 0 "[]" bs buf] by simp
  have "unat (of_nat KCP_HEADER_SIZE + seg_len s :: u32) = 32 + unat (seg_len s)"
    using assms by (simp add: kcp_const unat_word_ariths)
  moreover have "i32_of_u32 (of_nat KCP_HEADER_SIZE + seg_len s) = int (32 + unat (seg_len s))"
    using i32_of_u32_of_nat [of "32 + unat (seg_len s)"] assms by (simp add: kcp_const)
  ultimately show ?thesis
    using assms(2-5) unfolding kcp_segment_encode_def
    by (simp add: put_put wire_header_def wire_prefix_def segment_header_def
        ucast_push_cmd [OF assms(1)]) (simp add: put0)
qed

text \<open>
  C11. Round trip of segments: a PUSH segment encoded by \<open>kcp_segment_encode\<close> into any large enough
  buffer, whatever the buffer held before, is parsed by \<open>kcp_proto_parse\<close> as the header with the
  segment's connection ids, fragment number, window, sequence numbers and payload, also when
  further segments follow in the same datagram.
\<close>

theorem segment_roundtrip:
  assumes "seg_cmd s = ucast KCP_CMD_PUSH" and "length (seg_data s) = unat (seg_len s)"
    and "32 + unat (seg_len s) \<le> n" and "n \<le> length buf" and "n < 2 ^ 31"
    and "32 + unat (seg_len s) \<le> m" and "m < 2 ^ 64"
  shows "\<exists>buf'. kcp_segment_encode s buf n = (Inr (int (32 + unat (seg_len s))), buf') \<and>
           length buf' = length buf \<and>
           kcp_proto_parse (buf' @ rest) m [] = Parse_ok (segment_header s) (32 + unat (seg_len s))"
proof -
  have wf: "header_wf (segment_header s)" using assms(1,2) by (rule segment_header_wf)
  have len: "length (wire_header (segment_header s)) = 32 + unat (seg_len s)"
    using length_wire_header [OF wf] by (simp add: segment_header_def)
  show ?thesis
    using assms len parse_wire [OF wf, of m "drop (32 + unat (seg_len s)) buf @ rest"]
    by (auto simp: segment_encode_eq segment_header_def)
qed

definition sample_segment :: kcp_segment where
  "sample_segment = \<lparr>seg_scid = 1, seg_dcid = 2, seg_cmd = 3, seg_frg = 31, seg_wnd = 256,
     seg_ts = 1000, seg_sn = 0xFFFFFFFF, seg_psn = 5, seg_una = 4, seg_len = 3, seg_rto = 0,
     seg_resendts = 0, seg_fastack = 0, seg_xmit = 1, seg_tx_delivered = 0, seg_tx_delivered_ts = 0,
     seg_data = [10, 20, 255]\<rparr>"

theorem segment_roundtrip_witness:
  "\<exists>buf'. kcp_segment_encode sample_segment (replicate 64 0xEE) 64 =
       (Inr (int (32 + unat (seg_len sample_segment))), buf') \<and>
     length buf' = length (replicate 64 (0xEE :: u8)) \<and>
     kcp_proto_parse (buf' @ [1, 2, 3]) 67 [] =
       Parse_ok (segment_header sample_segment) (32 + unat (seg_len sample_segment))"
  by (rule segment_roundtrip) (simp_all add: sample_segment_def KCP_CMD_PUSH_def)

text \<open>
  The option at \<open>i\<close> is an MTU option that lies in the packet with a length field below four, and the
  four bytes that the parser loads as its value end behind the readable bytes.
\<close>

definition short_mtu_option :: "bytes \<Rightarrow> nat \<Rightarrow> nat \<Rightarrow> bool" where
  "short_mtu_option mem data_size i \<longleftrightarrow> i + 2 + unat (mem ! (i + 1)) \<le> data_size \<and>
     mem ! i = KCP_OPTION_TAG_MTU \<and> unat (mem ! (i + 1)) < 4 \<and> length mem < i + 6"

lemma parse_options_bounds:
  assumes "data_offset \<le> data_size" and "data_size \<le> length mem"
  shows "(\<exists>os. kcp_parse_options mem data_size data_offset acc = Inl (os, data_size)) \<or>
         kcp_parse_options mem data_size data_offset acc = Inr (Some INVALID_KCP_HEADER) \<or>
         kcp_parse_options mem data_size data_offset acc = Inr None \<and>
           (\<exists>i. data_offset \<le> i \<and> short_mtu_option mem data_size i)"
  using assms
proof (induction mem data_size data_offset acc rule: kcp_parse_options.induct)
  case (1 mem data_size data_offset acc)
  show ?case
  proof (cases "data_offset < data_size \<and> 2 \<le> data_size - data_offset \<and>
      unat (mem ! (data_offset + 1)) \<le> data_size - (data_offset + 2) \<and> mem ! data_offset = KCP_OPTION_TAG_MTU")
    case False
    with "1.prems" show ?thesis
      by (subst (1 2 3) kcp_parse_options.simps) (auto simp: Let_def not_le)
  next
    case True
    with "1.prems" have c: "\<not> \<not> data_offset < data_size" "\<not> data_size - data_offset < 2"
        "\<not> length mem < data_offset + 2" "\<not> data_size - (data_offset + 2) < unat (mem ! (data_offset + 1))" by auto
    have le: "data_offset + 2 + unat (mem ! (data_offset + 1)) \<le> data_size" using True by linarith
    show ?thesis
    proof (cases "length mem < data_offset + 2 + 4")
      case short: True
      then have "short_mtu_option mem data_size data_offset" using True le "1.prems"(2) by (auto simp: short_mtu_option_def)
      moreover have "kcp_parse_options mem data_size data_offset acc = Inr None"
        using True short c by (subst kcp_parse_options.simps) (simp add: Let_def)
      ultimately show ?thesis by blast
    next
      case False
      note ih = "1.IH" [OF c(1-3) refl refl refl c(4) _ False le "1.prems"(2)]
      have step: "kcp_parse_options mem data_size data_offset acc =
          kcp_parse_options mem data_size (data_offset + 2 + unat (mem ! (data_offset + 1)))
            (acc @ [\<lparr>opt_tag = mem ! data_offset, opt_length = mem ! (data_offset + 1),
                     u64_value = ucast (load_le 4 (data_offset + 2) mem :: u32)\<rparr>])"
        using True c False by (subst kcp_parse_options.simps) (simp add: Let_def)
      show ?thesis unfolding step using ih True by (meson add_leE)
    qed
  qed
qed

lemma u64_minus_header:
  assumes "KCP_HEADER_SIZE \<le> m" and "m < 2 ^ 64"
  shows "unat (of_nat m - of_nat KCP_HEADER_SIZE :: u64) = m - 32"
proof -
  have "of_nat m - of_nat KCP_HEADER_SIZE = (of_nat (m - 32) :: u64)"
    using assms by (simp add: kcp_const of_nat_diff)
  then show ?thesis using assms by (simp add: unat_of_nat)
qed

text \<open>
  C37. Safety of the parser on a datagram of at least a header's size: \<open>kcp_proto_parse\<close> either
  rejects the packet, or advances by at least a header's size and never past the end of the datagram
  and returns a payload of the length the header announces. It loads bytes outside the readable ones
  in one case only: an MTU option whose length field is below four, whose value the parser loads as
  four bytes all the same, at the end of the readable bytes. So with four readable bytes behind the
  datagram, or with no such option in it, every load is in bounds.
\<close>

theorem parse_in_bounds:
  assumes "KCP_HEADER_SIZE \<le> data_size" and "data_size \<le> length mem" and "data_size < 2 ^ 64"
  shows "case kcp_proto_parse mem data_size opts of
           Parse_fault \<Rightarrow> (\<exists>i. KCP_HEADER_SIZE \<le> i \<and> short_mtu_option mem data_size i) \<and> length mem < data_size + 4
         | Parse_error e \<Rightarrow> e = INVALID_KCP_HEADER
         | Parse_ok h off \<Rightarrow> KCP_HEADER_SIZE \<le> off \<and> off \<le> data_size \<and> body_wf (hd_cmd h) (hd_body h)"
proof -
  let ?cmd = "ucast (mem ! 4 AND 0x0F) :: u4"
  let ?body = "kcp_parse_body ?cmd mem"
  let ?off = "KCP_HEADER_SIZE + payload_len ?body"
  have off: "(case ?body of Packet_data _ _ _ _ len _ \<Rightarrow> KCP_HEADER_SIZE + unat len | _ \<Rightarrow> KCP_HEADER_SIZE) = ?off"
    by (simp split: kcp_body.split)
  have bad: "(case ?body of Packet_data _ _ _ _ len _ \<Rightarrow>
        ucast len > (of_nat data_size - of_nat KCP_HEADER_SIZE :: u64) | _ \<Rightarrow> False) \<longleftrightarrow>
      data_size < ?off"
    using u64_minus_header [OF assms(1,3)] assms(1)
    by (auto simp: word_less_nat_alt kcp_const split: kcp_body.split)
  have wf: "body_wf ?cmd ?body" if "?off \<le> data_size"
    using assms that by (auto simp: Let_def load_le_def kcp_const kcp_cmd_defs split: if_splits)
  have long: "\<not> length mem < KCP_HEADER_SIZE" using assms by simp
  have slack: "length mem < data_size + 4" if "short_mtu_option mem data_size i" for i
    using that by (simp add: short_mtu_option_def)
  show ?thesis
  proof (cases "data_size < ?off")
    case True
    then show ?thesis by (simp only: kcp_proto_parse_def Let_def off bad long if_True if_False) simp
  next
    case False
    then have le: "?off \<le> data_size" by simp
    have from_header: "KCP_HEADER_SIZE \<le> i" if "?off \<le> i" for i using that by simp
    note unfold = kcp_proto_parse_def Let_def off bad long if_False sum.case prod.case option.case
    consider (ok) os where "kcp_parse_options mem data_size ?off opts = Inl (os, data_size)"
      | (bad) "kcp_parse_options mem data_size ?off opts = Inr (Some INVALID_KCP_HEADER)"
      | (fault) i where "kcp_parse_options mem data_size ?off opts = Inr None" "?off \<le> i" "short_mtu_option mem data_size i"
      using parse_options_bounds [OF le assms(2), of opts] by blast
    then show ?thesis
    proof cases
      case ok
      then show ?thesis using False wf [OF le] le assms(1) by (simp only: unfold) simp
    next
      case bad
      then show ?thesis using False wf [OF le] le by (simp only: unfold) simp
    next
      case (fault i)
      then have "\<exists>i. KCP_HEADER_SIZE \<le> i \<and> short_mtu_option mem data_size i" "length mem < data_size + 4"
        using from_header slack by blast+
      then show ?thesis using fault(1) False wf [OF le] le by (simp only: unfold) simp
    qed
  qed
qed

theorem parse_in_bounds_witness:
  "case kcp_proto_parse (replicate 4 9 @ [0x13] @ replicate 27 0 @ [1, 1, 7]) 35 [] of
           Parse_fault \<Rightarrow>
             (\<exists>i. KCP_HEADER_SIZE \<le> i \<and> short_mtu_option (replicate 4 9 @ [0x13] @ replicate 27 0 @ [1, 1, 7]) 35 i) \<and>
             length (replicate 4 9 @ [0x13] @ replicate 27 0 @ [1, 1, 7] :: bytes) < 35 + 4
         | Parse_error e \<Rightarrow> e = INVALID_KCP_HEADER
         | Parse_ok h off \<Rightarrow> KCP_HEADER_SIZE \<le> off \<and> off \<le> 35 \<and> body_wf (hd_cmd h) (hd_body h)"
  by (rule parse_in_bounds) (simp_all add: kcp_const)

text \<open>
  The case happens: a datagram that ends in an MTU option with a length field below four passes the
  length check, and the parser then loads four bytes, which lie outside a buffer that ends with the
  datagram.
\<close>

lemma parse_short_option_fault:
  "kcp_proto_parse (replicate 4 0 @ [0x13] @ replicate 27 0 @ [1, 1, 7]) 35 [] = Parse_fault"
  by code_simp

lemma length_put: "off \<le> length buf \<Longrightarrow> put bs (off, buf) = (off', buf') \<Longrightarrow>
    off' = off + length bs \<and> length buf' = max (length buf) off'"
  by (auto simp: put_def length_store_bytes)

text \<open>
  \<open>kcp_proto_header_encode\<close> or-s the command into the old byte 4 of the buffer: into a buffer
  that already holds a header, the command on the wire is the union of the bits of the old and
  the new command.
\<close>

lemma encode_reused_buffer:
  assumes "header_wf h" and "hd_options h = []"
    and "length (wire_header h) \<le> n" and "n \<le> length buf" and "n < 2 ^ 31"
  shows "snd (kcp_proto_header_encode h buf n) ! 4 = buf ! 4 OR cmd_byte (hd_cmd h) (hd_opt h)"
proof -
  have len: "length (wire_header h) = 32 + payload_len (hd_body h)"
    using length_wire_header [OF assms(1)] assms(2) by simp
  let ?pre = "le_bytes 2 (hd_scid h) @ le_bytes 2 (hd_dcid h) @
        [buf ! 4 OR cmd_byte (hd_cmd h) (hd_opt h), hd_frg h] @ le_bytes 2 (hd_wnd h)"
  have "encode_body h n (8, ?pre @ drop 8 buf) = (Inr (of_nat (payload_len (hd_body h))),
      32 + payload_len (hd_body h),
      (?pre @ wire_body (hd_body h)) @ drop (24 + payload_len (hd_body h)) (drop 8 buf))"
    by (rule encode_body_eq) (use assms len in \<open>auto simp: header_wf_def\<close>)
  then show ?thesis
    using assms len by (simp add: kcp_proto_header_encode_def encode_prefix_or kcp_const nth_append)
qed

definition sample_wask :: kcp_proto_header where
  "sample_wask = \<lparr>hd_scid = 1, hd_dcid = 2, hd_cmd = KCP_CMD_WASK, hd_opt = 0, hd_frg = 0, hd_wnd = 9,
     hd_body = Packet_data 5 0 0 0 0 [], hd_options = []\<rparr>"

text \<open>
  The space check of the option loop counts the value of an option but not its tag and length
  bytes: with a 36-byte buffer, an MTU option is accepted and 38 bytes are written.
\<close>

lemma encode_option_overrun:
  "fst (kcp_proto_header_encode sample_header (replicate 36 0) 36) = Inr 38 \<and>
   length (snd (kcp_proto_header_encode sample_header (replicate 36 0) 36)) = 38"
  by code_simp

end
