(* ===== verification/Kcp_Rbtree.thy ===== *)
theory Kcp_Rbtree
  imports Kcp_Prelude
begin

text \<open>
  The red-black tree of \<^verbatim>\<open>kcp/3rd_party/rbtree.c\<close>, on which the connection set and the two
  receive indexes of a connection are built. A node carries its payload (the structure the
  \<open>rb_node\<close> is embedded in). The parent pointers are a path: the list of the frames between a
  node and the root, each saying on which side of its parent the node hangs, with the parent's
  colour and payload and the parent's other subtree. A node pointer is a subtree with its path,
  so the upward loops of the C code are recursions over the path.

  Dereferences of \<open>NULL\<close> that the red-black invariant excludes (a red root's parent, the missing
  sibling of a black node) have an equation that stops; \<open>rb_insert_ok\<close> and \<open>rb_erase_ok\<close> show
  that the invariant is kept, so those equations are not used.

  The locale \<open>ordered_index\<close> is the interface the receive path and the connection set rely on;
  it is interpreted on the tree for each key.
\<close>

section \<open>Model\<close>

datatype rb_color = RB_RED | RB_BLACK

datatype 'a rb_node = Rb_Null | Rb rb_color "'a rb_node" 'a "'a rb_node"

datatype 'a rb_frame = Is_Left rb_color 'a "'a rb_node" | Is_Right rb_color "'a rb_node" 'a

type_synonym 'a rb_path = "'a rb_frame list"

fun rb_is_red :: "'a rb_node \<Rightarrow> bool" where
  "rb_is_red (Rb RB_RED _ _ _) = True"
| "rb_is_red _ = False"

fun rb_paint :: "rb_color \<Rightarrow> 'a rb_node \<Rightarrow> 'a rb_node" where
  "rb_paint c Rb_Null = Rb_Null"
| "rb_paint c (Rb _ l v r) = Rb c l v r"

fun rb_frame_color :: "'a rb_frame \<Rightarrow> rb_color" where
  "rb_frame_color (Is_Left c _ _) = c"
| "rb_frame_color (Is_Right c _ _) = c"

text \<open>The parent of a node, with the node in place; and the root.\<close>

fun rb_up :: "'a rb_node \<Rightarrow> 'a rb_frame \<Rightarrow> 'a rb_node" where
  "rb_up n (Is_Left c v r) = Rb c n v r"
| "rb_up n (Is_Right c l v) = Rb c l v n"

fun rb_plug :: "'a rb_node \<Rightarrow> 'a rb_path \<Rightarrow> 'a rb_node" where
  "rb_plug n [] = n"
| "rb_plug n (f # fs) = rb_plug (rb_up n f) fs"

fun rb_rotate_left :: "'a rb_node \<Rightarrow> 'a rb_node" where
  "rb_rotate_left (Rb c l v (Rb c' l' v' r')) = Rb c' (Rb c l v l') v' r'"
| "rb_rotate_left n = n"

fun rb_rotate_right :: "'a rb_node \<Rightarrow> 'a rb_node" where
  "rb_rotate_right (Rb c (Rb c' l' v' r') v r) = Rb c' l' v' (Rb c r' v r)"
| "rb_rotate_right n = n"

text \<open>Leaving the loop of \<open>rb_insert_color\<close>: the root is painted black.\<close>

definition rb_finish :: "'a rb_node \<Rightarrow> 'a rb_path \<Rightarrow> 'a rb_node" where
  "rb_finish n fs = rb_paint RB_BLACK (rb_plug n fs)"

fun rb_insert_color :: "'a rb_node \<Rightarrow> 'a rb_path \<Rightarrow> 'a rb_node" where
  "rb_insert_color n [] = rb_finish n []"
| "rb_insert_color n [parent] = rb_finish n [parent]"
| "rb_insert_color n (parent # gparent # fs) =
     (if rb_frame_color parent \<noteq> RB_RED then rb_finish n (parent # gparent # fs)
      else
        case gparent of
          Is_Left gc gv uncle \<Rightarrow>
            if rb_is_red uncle
            then rb_insert_color
                   (Rb RB_RED (rb_paint RB_BLACK (rb_up n parent)) gv (rb_paint RB_BLACK uncle)) fs
            else
              let p = (case parent of
                         Is_Right _ _ _ \<Rightarrow> rb_rotate_left (rb_up n parent)
                       | Is_Left _ _ _ \<Rightarrow> rb_up n parent)
              in rb_finish (rb_rotate_right (Rb RB_RED (rb_paint RB_BLACK p) gv uncle)) fs
        | Is_Right gc uncle gv \<Rightarrow>
            if rb_is_red uncle
            then rb_insert_color
                   (Rb RB_RED (rb_paint RB_BLACK uncle) gv (rb_paint RB_BLACK (rb_up n parent))) fs
            else
              let p = (case parent of
                         Is_Left _ _ _ \<Rightarrow> rb_rotate_right (rb_up n parent)
                       | Is_Right _ _ _ \<Rightarrow> rb_up n parent)
              in rb_finish (rb_rotate_left (Rb RB_RED uncle gv (rb_paint RB_BLACK p))) fs)"

text \<open>
  \<open>__rb_erase_color\<close>: one round of the loop first turns a red sibling into a black one by a
  rotation at the parent (\<open>rb_black_sibling_*\<close>: the parent's colour, the sibling and the frames
  above the parent afterwards), then recolours and moves up, or rotates and stops.
\<close>

fun rb_black_sibling_right :: "rb_color \<Rightarrow> 'a rb_node \<Rightarrow> 'a rb_path \<Rightarrow> rb_color \<times> 'a rb_node \<times> 'a rb_path" where
  "rb_black_sibling_right pc (Rb RB_RED ol ov or') fs = (RB_RED, ol, Is_Left RB_BLACK ov or' # fs)"
| "rb_black_sibling_right pc other fs = (pc, other, fs)"

fun rb_black_sibling_left :: "rb_color \<Rightarrow> 'a rb_node \<Rightarrow> 'a rb_path \<Rightarrow> rb_color \<times> 'a rb_node \<times> 'a rb_path" where
  "rb_black_sibling_left pc (Rb RB_RED ol ov or') fs = (RB_RED, or', Is_Right RB_BLACK ol ov # fs)"
| "rb_black_sibling_left pc other fs = (pc, other, fs)"

function rb_erase_color :: "'a rb_node \<Rightarrow> 'a rb_path \<Rightarrow> 'a rb_node" where
  "rb_erase_color n path =
     (if rb_is_red n then rb_plug (rb_paint RB_BLACK n) path
      else
        case path of
          [] \<Rightarrow> rb_paint RB_BLACK n
        | Is_Left pc pv sib # fs \<Rightarrow>
            (case rb_black_sibling_right pc sib fs of
               (pc', Rb_Null, fs') \<Rightarrow> rb_plug (Rb pc' n pv Rb_Null) fs'
             | (pc', Rb oc ol ov or', fs') \<Rightarrow>
                 if \<not> rb_is_red ol \<and> \<not> rb_is_red or'
                 then rb_erase_color (Rb pc' n pv (Rb RB_RED ol ov or')) fs'
                 else
                   let sib' = (if \<not> rb_is_red or'
                               then rb_rotate_right (Rb RB_RED (rb_paint RB_BLACK ol) ov or')
                               else Rb oc ol ov or')
                   in (case sib' of
                         Rb _ l2 v2 r2 \<Rightarrow>
                           rb_finish (rb_rotate_left (Rb RB_BLACK n pv (Rb pc' l2 v2 (rb_paint RB_BLACK r2)))) fs'
                       | Rb_Null \<Rightarrow> rb_plug (Rb pc' n pv Rb_Null) fs'))
        | Is_Right pc sib pv # fs \<Rightarrow>
            (case rb_black_sibling_left pc sib fs of
               (pc', Rb_Null, fs') \<Rightarrow> rb_plug (Rb pc' Rb_Null pv n) fs'
             | (pc', Rb oc ol ov or', fs') \<Rightarrow>
                 if \<not> rb_is_red ol \<and> \<not> rb_is_red or'
                 then rb_erase_color (Rb pc' (Rb RB_RED ol ov or') pv n) fs'
                 else
                   let sib' = (if \<not> rb_is_red ol
                               then rb_rotate_left (Rb RB_RED ol ov (rb_paint RB_BLACK or'))
                               else Rb oc ol ov or')
                   in (case sib' of
                         Rb _ l2 v2 r2 \<Rightarrow>
                           rb_finish (rb_rotate_right (Rb RB_BLACK (Rb pc' (rb_paint RB_BLACK l2) v2 r2) pv n)) fs'
                       | Rb_Null \<Rightarrow> rb_plug (Rb pc' Rb_Null pv n) fs')))"
  by pat_completeness auto

definition rb_erase_measure :: "'a rb_node \<times> 'a rb_path \<Rightarrow> nat" where
  "rb_erase_measure = (\<lambda>(n, path). 2 * length path + (if rb_is_red n then 0 else 1))"

lemma rb_black_sibling_right_shape:
  "rb_black_sibling_right pc sib fs = (pc', s, fs') \<Longrightarrow>
     (pc' = pc \<and> s = sib \<and> fs' = fs) \<or> (pc' = RB_RED \<and> length fs' = Suc (length fs))"
  by (induction pc sib fs rule: rb_black_sibling_right.induct) auto

lemma rb_black_sibling_left_shape:
  "rb_black_sibling_left pc sib fs = (pc', s, fs') \<Longrightarrow>
     (pc' = pc \<and> s = sib \<and> fs' = fs) \<or> (pc' = RB_RED \<and> length fs' = Suc (length fs))"
  by (induction pc sib fs rule: rb_black_sibling_left.induct) auto

termination rb_erase_color
  by (relation "measure rb_erase_measure")
     (auto simp: rb_erase_measure_def
       dest!: rb_black_sibling_right_shape [OF sym] rb_black_sibling_left_shape [OF sym])

declare rb_erase_color.simps [simp del]

text \<open>The leftmost node below a node: its colour, payload and right child, and the frames on the way.\<close>

fun rb_min :: "'a rb_node \<Rightarrow> 'a rb_path \<Rightarrow> (rb_color \<times> 'a \<times> 'a rb_node \<times> 'a rb_path) option" where
  "rb_min Rb_Null fs = None"
| "rb_min (Rb c Rb_Null v r) fs = Some (c, v, r, fs)"
| "rb_min (Rb c (Rb lc ll lv lr) v r) fs = rb_min (Rb lc ll lv lr) (Is_Left c v r # fs)"

text \<open>
  \<open>rb_erase\<close> of the node \<open>Rb c l v r\<close> with the path \<open>fs\<close>: with at most one child the child
  takes its place; otherwise the successor does, with the erased node's colour.
\<close>

fun rb_erase :: "'a rb_node \<Rightarrow> 'a rb_path \<Rightarrow> 'a rb_node" where
  "rb_erase Rb_Null fs = rb_plug Rb_Null fs"
| "rb_erase (Rb c Rb_Null v r) fs =
     (if c = RB_BLACK then rb_erase_color r fs else rb_plug r fs)"
| "rb_erase (Rb c l v Rb_Null) fs =
     (if c = RB_BLACK then rb_erase_color l fs else rb_plug l fs)"
| "rb_erase (Rb c l v r) fs =
     (case rb_min r [] of
        None \<Rightarrow> rb_plug (Rb c l v r) fs
      | Some (sc, sv, sr, sfs) \<Rightarrow>
          let path = sfs @ Is_Right c l sv # fs
          in if sc = RB_BLACK then rb_erase_color sr path else rb_plug sr path)"

fun rb_first :: "'a rb_node \<Rightarrow> 'a option" where
  "rb_first Rb_Null = None"
| "rb_first (Rb c Rb_Null v r) = Some v"
| "rb_first (Rb c l v r) = rb_first l"

fun rb_last :: "'a rb_node \<Rightarrow> 'a option" where
  "rb_last Rb_Null = None"
| "rb_last (Rb c l v Rb_Null) = Some v"
| "rb_last (Rb c l v r) = rb_last r"

fun rb_next_up :: "'a rb_path \<Rightarrow> 'a option" where
  "rb_next_up [] = None"
| "rb_next_up (Is_Right _ _ _ # fs) = rb_next_up fs"
| "rb_next_up (Is_Left _ v _ # fs) = Some v"

fun rb_next :: "'a rb_node \<Rightarrow> 'a rb_path \<Rightarrow> 'a option" where
  "rb_next Rb_Null fs = None"
| "rb_next (Rb c l v Rb_Null) fs = rb_next_up fs"
| "rb_next (Rb c l v r) fs = rb_first r"

fun rb_prev_up :: "'a rb_path \<Rightarrow> 'a option" where
  "rb_prev_up [] = None"
| "rb_prev_up (Is_Left _ _ _ # fs) = rb_prev_up fs"
| "rb_prev_up (Is_Right _ _ v # fs) = Some v"

fun rb_prev :: "'a rb_node \<Rightarrow> 'a rb_path \<Rightarrow> 'a option" where
  "rb_prev Rb_Null fs = None"
| "rb_prev (Rb c Rb_Null v r) fs = rb_prev_up fs"
| "rb_prev (Rb c l v r) fs = rb_last l"

fun rb_replace_node :: "'a \<Rightarrow> 'a rb_node \<Rightarrow> 'a rb_path \<Rightarrow> 'a rb_node" where
  "rb_replace_node w Rb_Null fs = rb_plug Rb_Null fs"
| "rb_replace_node w (Rb c l v r) fs = rb_plug (Rb c l w r) fs"

section \<open>Searching, linking and locating\<close>

text \<open>
  The loops that the users of the tree write around it, for a key of the payload: the search
  descends by comparing keys; an insertion descends to a free link (a key that is not smaller
  goes right) and links a red node there.
\<close>

fun rb_search :: "('a \<Rightarrow> 'k::linorder) \<Rightarrow> 'k \<Rightarrow> 'a rb_node \<Rightarrow> 'a option" where
  "rb_search key k Rb_Null = None"
| "rb_search key k (Rb c l v r) =
     (if k < key v then rb_search key k l
      else if k > key v then rb_search key k r
      else Some v)"

fun rb_link :: "('a \<Rightarrow> 'k::linorder) \<Rightarrow> 'a \<Rightarrow> 'a rb_node \<Rightarrow> 'a rb_path \<Rightarrow> 'a rb_path" where
  "rb_link key x Rb_Null fs = fs"
| "rb_link key x (Rb c l v r) fs =
     (if key x < key v then rb_link key x l (Is_Left c v r # fs)
      else rb_link key x r (Is_Right c l v # fs))"

definition rb_insert :: "('a \<Rightarrow> 'k::linorder) \<Rightarrow> 'a \<Rightarrow> 'a rb_node \<Rightarrow> 'a rb_node" where
  "rb_insert key x t = rb_insert_color (Rb RB_RED Rb_Null x Rb_Null) (rb_link key x t [])"

text \<open>
  A pointer to a payload of the tree: the subtree and the path of the (first) node whose payload
  satisfies \<open>P\<close>.
\<close>

fun rb_where :: "('a \<Rightarrow> bool) \<Rightarrow> 'a rb_node \<Rightarrow> 'a rb_path \<Rightarrow> ('a rb_node \<times> 'a rb_path) option" where
  "rb_where P Rb_Null fs = None"
| "rb_where P (Rb c l v r) fs =
     (case rb_where P l (Is_Left c v r # fs) of
        Some x \<Rightarrow> Some x
      | None \<Rightarrow> if P v then Some (Rb c l v r, fs) else rb_where P r (Is_Right c l v # fs))"

definition rb_erase_where :: "('a \<Rightarrow> bool) \<Rightarrow> 'a rb_node \<Rightarrow> 'a rb_node" where
  "rb_erase_where P t = (case rb_where P t [] of None \<Rightarrow> t | Some (n, fs) \<Rightarrow> rb_erase n fs)"

definition rb_next_where :: "('a \<Rightarrow> bool) \<Rightarrow> 'a rb_node \<Rightarrow> 'a option" where
  "rb_next_where P t = (case rb_where P t [] of None \<Rightarrow> None | Some (n, fs) \<Rightarrow> rb_next n fs)"

text \<open>Writing to a payload in place.\<close>

fun rb_map :: "('a \<Rightarrow> 'b) \<Rightarrow> 'a rb_node \<Rightarrow> 'b rb_node" where
  "rb_map f Rb_Null = Rb_Null"
| "rb_map f (Rb c l v r) = Rb c (rb_map f l) (f v) (rb_map f r)"

fun rb_inorder :: "'a rb_node \<Rightarrow> 'a list" where
  "rb_inorder Rb_Null = []"
| "rb_inorder (Rb c l v r) = rb_inorder l @ v # rb_inorder r"


section \<open>The sequence of payloads\<close>

text \<open>What stands before and after a position in the in-order sequence.\<close>

fun rb_before :: "'a rb_path \<Rightarrow> 'a list" where
  "rb_before [] = []"
| "rb_before (Is_Left _ _ _ # fs) = rb_before fs"
| "rb_before (Is_Right _ l v # fs) = rb_before fs @ rb_inorder l @ [v]"

fun rb_after :: "'a rb_path \<Rightarrow> 'a list" where
  "rb_after [] = []"
| "rb_after (Is_Left _ v r # fs) = v # rb_inorder r @ rb_after fs"
| "rb_after (Is_Right _ _ _ # fs) = rb_after fs"

text \<open>The list operations the tree operations implement.\<close>

definition ins_by :: "('a \<Rightarrow> 'k::linorder) \<Rightarrow> 'a \<Rightarrow> 'a list \<Rightarrow> 'a list" where
  "ins_by key x xs = filter (\<lambda>y. key y \<le> key x) xs @ x # filter (\<lambda>y. key x < key y) xs"

fun del_first :: "('a \<Rightarrow> bool) \<Rightarrow> 'a list \<Rightarrow> 'a list" where
  "del_first P [] = []"
| "del_first P (x # xs) = (if P x then xs else x # del_first P xs)"

lemma rb_inorder_paint [simp]: "rb_inorder (rb_paint c t) = rb_inorder t"
  by (cases t) auto

lemma rb_inorder_rotate_left [simp]: "rb_inorder (rb_rotate_left t) = rb_inorder t"
  by (cases t rule: rb_rotate_left.cases) auto

lemma rb_inorder_rotate_right [simp]: "rb_inorder (rb_rotate_right t) = rb_inorder t"
  by (cases t rule: rb_rotate_right.cases) auto

lemma rb_inorder_plug [simp]: "rb_inorder (rb_plug n fs) = rb_before fs @ rb_inorder n @ rb_after fs"
proof (induction fs arbitrary: n)
  case Nil
  then show ?case by simp
next
  case (Cons f fs)
  then show ?case by (cases f) auto
qed

lemma rb_inorder_finish [simp]: "rb_inorder (rb_finish n fs) = rb_before fs @ rb_inorder n @ rb_after fs"
  by (simp add: rb_finish_def)

lemma rb_before_append [simp]: "rb_before (fs @ gs) = rb_before gs @ rb_before fs"
  by (induction fs rule: rb_before.induct) auto

lemma rb_after_append [simp]: "rb_after (fs @ gs) = rb_after fs @ rb_after gs"
  by (induction fs rule: rb_after.induct) auto

lemma rb_inorder_insert_color [simp]:
  "rb_inorder (rb_insert_color n fs) = rb_before fs @ rb_inorder n @ rb_after fs"
  by (induction n fs rule: rb_insert_color.induct)
     (auto simp: Let_def split: rb_frame.splits)

lemma rb_inorder_black_sibling_right:
  "rb_black_sibling_right pc sib fs = (pc', s, fs') \<Longrightarrow>
     rb_before fs' = rb_before fs \<and> rb_inorder s @ rb_after fs' = rb_inorder sib @ rb_after fs"
  by (induction pc sib fs rule: rb_black_sibling_right.induct) auto

lemma rb_inorder_black_sibling_left:
  "rb_black_sibling_left pc sib fs = (pc', s, fs') \<Longrightarrow>
     rb_after fs' = rb_after fs \<and> rb_before fs' @ rb_inorder s = rb_before fs @ rb_inorder sib"
  by (induction pc sib fs rule: rb_black_sibling_left.induct) auto

lemma rb_rotate_right_Null [simp]: "rb_rotate_right t = Rb_Null \<longleftrightarrow> t = Rb_Null"
  by (cases t rule: rb_rotate_right.cases) auto

lemma rb_rotate_left_Null [simp]: "rb_rotate_left t = Rb_Null \<longleftrightarrow> t = Rb_Null"
  by (cases t rule: rb_rotate_left.cases) auto

lemma rb_inorder_erase_color [simp]:
  "rb_inorder (rb_erase_color n fs) = rb_before fs @ rb_inorder n @ rb_after fs"
proof (induction n fs rule: rb_erase_color.induct)
  case (1 n path)
  have left: "rb_inorder (case s of
        Rb _ l2 v2 r2 \<Rightarrow> rb_finish (Rb pc (Rb RB_BLACK n pv l2) v2 (rb_paint RB_BLACK r2)) gs
      | Rb_Null \<Rightarrow> rb_plug (Rb pc n pv Rb_Null) gs) =
      rb_before gs @ rb_inorder n @ pv # rb_inorder s @ rb_after gs" for s pc pv gs
    by (cases s) auto
  have right: "rb_inorder (case s of
        Rb _ l2 v2 r2 \<Rightarrow> rb_finish (Rb pc (rb_paint RB_BLACK l2) v2 (Rb RB_BLACK r2 pv n)) gs
      | Rb_Null \<Rightarrow> rb_plug (Rb pc Rb_Null pv n) gs) =
      rb_before gs @ rb_inorder s @ pv # rb_inorder n @ rb_after gs" for s pc pv gs
    by (cases s) auto
  show ?case
  proof (cases "rb_is_red n")
    case True
    then show ?thesis by (simp add: rb_erase_color.simps)
  next
    case False
    show ?thesis
    proof (cases path)
      case Nil
      with False show ?thesis by (simp add: rb_erase_color.simps)
    next
      case (Cons f fs)
      show ?thesis
      proof (cases f)
        case (Is_Left pc pv sib)
        obtain pc' s fs' where b: "rb_black_sibling_right pc sib fs = (pc', s, fs')"
          by (cases "rb_black_sibling_right pc sib fs")
        note io = rb_inorder_black_sibling_right [OF b]
        show ?thesis
        proof (cases s)
          case Rb_Null
          then show ?thesis
            using False Cons Is_Left b io by (subst rb_erase_color.simps) auto
        next
          case (Rb oc ol ov or')
          then show ?thesis
            using False Cons Is_Left b io "1.IH"(1) [OF False Cons Is_Left b [symmetric] refl Rb]
            by (subst rb_erase_color.simps) (simp add: Let_def left)
        qed
      next
        case (Is_Right pc sib pv)
        obtain pc' s fs' where b: "rb_black_sibling_left pc sib fs = (pc', s, fs')"
          by (cases "rb_black_sibling_left pc sib fs")
        note io = rb_inorder_black_sibling_left [OF b]
        show ?thesis
        proof (cases s)
          case Rb_Null
          then show ?thesis
            using False Cons Is_Right b io by (subst rb_erase_color.simps) auto
        next
          case (Rb oc ol ov or')
          then show ?thesis
            using False Cons Is_Right b io "1.IH"(2) [OF False Cons Is_Right b [symmetric] refl Rb]
            by (subst rb_erase_color.simps) (simp add: Let_def right)
        qed
      qed
    qed
  qed
qed

lemma rb_min_inorder:
  "rb_min t fs = Some (c, v, r, fs') \<Longrightarrow>
     rb_before fs' = rb_before fs \<and> v # rb_inorder r @ rb_after fs' = rb_inorder t @ rb_after fs"
  by (induction t fs rule: rb_min.induct) auto

lemma rb_min_None_iff [simp]: "rb_min t fs = None \<longleftrightarrow> t = Rb_Null"
  by (induction t fs rule: rb_min.induct) auto

lemma rb_inorder_erase:
  "rb_inorder (rb_erase (Rb c l v r) fs) = rb_before fs @ rb_inorder l @ rb_inorder r @ rb_after fs"
proof (cases "l = Rb_Null \<or> r = Rb_Null")
  case True
  then show ?thesis by (cases l; cases r) auto
next
  case False
  then obtain lc ll lv lr where l: "l = Rb lc ll lv lr" by (cases l) auto
  from False obtain rc rl rv rr where r: "r = Rb rc rl rv rr" by (cases r) auto
  obtain sc sv sr sfs where m: "rb_min r [] = Some (sc, sv, sr, sfs)"
    using False by (cases "rb_min r []") auto
  from rb_min_inorder [OF m]
  have io: "rb_before sfs = []" "sv # rb_inorder sr @ rb_after sfs = rb_inorder r" by simp_all
  show ?thesis
    using m io by (simp add: l r Let_def)
qed

lemma rb_where_None_iff: "rb_where P t fs = None \<longleftrightarrow> (\<forall>x \<in> set (rb_inorder t). \<not> P x)"
  by (induction P t fs rule: rb_where.induct) (auto split: option.splits)

lemma rb_where_SomeD:
  "rb_where P t fs = Some (n, fs') \<Longrightarrow>
     \<exists>c l v r xs. n = Rb c l v r \<and> P v \<and> rb_plug n fs' = rb_plug t fs \<and>
       rb_before fs' @ rb_inorder l = rb_before fs @ xs \<and> (\<forall>x \<in> set xs. \<not> P x) \<and>
       rb_inorder t @ rb_after fs = xs @ v # rb_inorder r @ rb_after fs'"
proof (induction P t fs arbitrary: n fs' rule: rb_where.induct)
  case (1 P fs)
  then show ?case by simp
next
  case (2 P c l v r fs)
  show ?case
  proof (cases "rb_where P l (Is_Left c v r # fs)")
    case (Some x)
    with "2.prems" have "rb_where P l (Is_Left c v r # fs) = Some (n, fs')" by simp
    from "2.IH"(1) [OF this] obtain c' l' v' r' xs where
      *: "n = Rb c' l' v' r'" "P v'" "rb_plug n fs' = rb_plug (Rb c l v r) fs"
        "rb_before fs' @ rb_inorder l' = rb_before fs @ xs" "\<forall>x \<in> set xs. \<not> P x"
        "rb_inorder l @ v # rb_inorder r @ rb_after fs = xs @ v' # rb_inorder r' @ rb_after fs'"
      unfolding rb_plug.simps rb_up.simps rb_before.simps rb_after.simps by blast
    have "rb_inorder (Rb c l v r) @ rb_after fs = xs @ v' # rb_inorder r' @ rb_after fs'"
      using *(6) by simp
    with * show ?thesis by blast
  next
    case None
    then have noP: "\<forall>x \<in> set (rb_inorder l). \<not> P x" by (simp only: rb_where_None_iff)
    show ?thesis
    proof (cases "P v")
      case True
      with None "2.prems" show ?thesis
        using noP by (auto intro!: exI [where x = "rb_inorder l"])
    next
      case False
      with None "2.prems" have "rb_where P r (Is_Right c l v # fs) = Some (n, fs')" by simp
      from "2.IH"(2) [OF None False this] obtain c' l' v' r' xs where
        *: "n = Rb c' l' v' r'" "P v'" "rb_plug n fs' = rb_plug (Rb c l v r) fs"
          "rb_before fs' @ rb_inorder l' = rb_before fs @ rb_inorder l @ v # xs"
          "\<forall>x \<in> set xs. \<not> P x"
          "rb_inorder r @ rb_after fs = xs @ v' # rb_inorder r' @ rb_after fs'"
        unfolding rb_plug.simps rb_up.simps rb_before.simps rb_after.simps append_assoc append_Cons append_Nil
        by blast
      have "rb_inorder (Rb c l v r) @ rb_after fs = (rb_inorder l @ v # xs) @ v' # rb_inorder r' @ rb_after fs'"
        "\<forall>x \<in> set (rb_inorder l @ v # xs). \<not> P x"
        using *(5,6) False noP by auto
      with *(1-4) show ?thesis by blast
    qed
  qed
qed

lemma del_first_split: "P x \<Longrightarrow> \<forall>y \<in> set xs. \<not> P y \<Longrightarrow> del_first P (xs @ x # ys) = xs @ ys"
  by (induction xs) auto

lemma del_first_none: "\<forall>y \<in> set xs. \<not> P y \<Longrightarrow> del_first P xs = xs"
  by (induction xs) auto

lemma rb_inorder_erase_where: "rb_inorder (rb_erase_where P t) = del_first P (rb_inorder t)"
proof (cases "rb_where P t []")
  case None
  then have "\<forall>x \<in> set (rb_inorder t). \<not> P x" by (simp only: rb_where_None_iff)
  with None show ?thesis by (simp add: rb_erase_where_def del_first_none)
next
  case (Some nf)
  obtain n fs where nf: "nf = (n, fs)" by (cases nf)
  from rb_where_SomeD [OF Some [unfolded nf]] obtain c l v r xs where
    *: "n = Rb c l v r" "P v" "rb_before fs @ rb_inorder l = xs" "\<forall>x \<in> set xs. \<not> P x"
       "rb_inorder t = xs @ v # rb_inorder r @ rb_after fs"
    by auto
  show ?thesis
    using * Some by (auto simp: rb_erase_where_def nf rb_inorder_erase del_first_split)
qed

lemma rb_link_inorder:
  "sorted (map key (rb_inorder t)) \<Longrightarrow>
     rb_before (rb_link key x t fs) = rb_before fs @ filter (\<lambda>y. key y \<le> key x) (rb_inorder t) \<and>
     rb_after (rb_link key x t fs) = filter (\<lambda>y. key x < key y) (rb_inorder t) @ rb_after fs"
proof (induction key x t fs rule: rb_link.induct)
  case (1 key x fs)
  then show ?case by simp
next
  case (2 key x c l v r fs)
  have sl: "sorted (map key (rb_inorder l))" and sr: "sorted (map key (rb_inorder r))"
    using "2.prems" by (simp_all add: sorted_append)
  have L: "\<forall>y \<in> set (rb_inorder l). key y \<le> key v" and R: "\<forall>y \<in> set (rb_inorder r). key v \<le> key y"
    using "2.prems" by (simp_all add: sorted_append)
  show ?case
  proof (cases "key x < key v")
    case True
    have "filter (\<lambda>y. key y \<le> key x) (rb_inorder r) = []" "filter (\<lambda>y. key x < key y) (rb_inorder r) = rb_inorder r"
      using R True by (auto simp: filter_empty_conv filter_id_conv)
    with True "2.IH"(1) [OF True sl] show ?thesis by simp
  next
    case False
    have "filter (\<lambda>y. key y \<le> key x) (rb_inorder l) = rb_inorder l" "filter (\<lambda>y. key x < key y) (rb_inorder l) = []"
      using L False by (auto simp: filter_empty_conv filter_id_conv)
    with False "2.IH"(2) [OF False sr] show ?thesis by simp
  qed
qed

lemma rb_inorder_insert:
  "sorted (map key (rb_inorder t)) \<Longrightarrow> rb_inorder (rb_insert key x t) = ins_by key x (rb_inorder t)"
  by (simp add: rb_insert_def ins_by_def rb_link_inorder)

lemma find_append_eq:
  "find P (xs @ ys) = (case find P xs of None \<Rightarrow> find P ys | Some x \<Rightarrow> Some x)"
  by (induction xs) auto

lemma rb_search_eq_find:
  "sorted_wrt (<) (map key (rb_inorder t)) \<Longrightarrow>
     rb_search key k t = find (\<lambda>x. key x = k) (rb_inorder t)"
proof (induction key k t rule: rb_search.induct)
  case (1 key k)
  then show ?case by simp
next
  case (2 key k c l v r)
  have L: "\<forall>y \<in> set (rb_inorder l). key y < key v" and R: "\<forall>y \<in> set (rb_inorder r). key v < key y"
    using "2.prems" by (auto simp: sorted_wrt_append)
  have "find (\<lambda>x. key x = k) (rb_inorder l) = None" if "key v \<le> k"
    using L that by (auto simp: find_None_iff)
  moreover have "find (\<lambda>x. key x = k) (rb_inorder r) = None" if "k \<le> key v"
    using R that by (auto simp: find_None_iff)
  ultimately show ?case
    using 2 by (auto simp: sorted_wrt_append find_append_eq split: option.splits)
qed

lemma rb_inorder_Nil_iff [simp]: "rb_inorder t = [] \<longleftrightarrow> t = Rb_Null"
  by (cases t) auto

lemma rb_first_inorder: "rb_first t = (if t = Rb_Null then None else Some (hd (rb_inorder t)))"
  by (induction t rule: rb_first.induct) (auto simp: hd_append)

lemma rb_inorder_map: "rb_inorder (rb_map f t) = map f (rb_inorder t)"
  by (induction t) auto

section \<open>The red-black invariant\<close>

fun rb_bh :: "'a rb_node \<Rightarrow> nat" where
  "rb_bh Rb_Null = 0"
| "rb_bh (Rb c l v r) = rb_bh l + (if c = RB_BLACK then 1 else 0)"

fun rb_inv :: "'a rb_node \<Rightarrow> bool" where
  "rb_inv Rb_Null = True"
| "rb_inv (Rb c l v r) =
     (rb_inv l \<and> rb_inv r \<and> rb_bh l = rb_bh r \<and>
      (c = RB_RED \<longrightarrow> \<not> rb_is_red l \<and> \<not> rb_is_red r))"

definition rb_ok :: "'a rb_node \<Rightarrow> bool" where
  "rb_ok t \<longleftrightarrow> rb_inv t \<and> \<not> rb_is_red t"

fun rb_sibling :: "'a rb_frame \<Rightarrow> 'a rb_node" where
  "rb_sibling (Is_Left _ _ r) = r"
| "rb_sibling (Is_Right _ l _) = l"

text \<open>A path around a hole of black height \<open>h\<close>.\<close>

fun rb_ctx :: "nat \<Rightarrow> 'a rb_path \<Rightarrow> bool" where
  "rb_ctx h [] = True"
| "rb_ctx h (f # fs) =
     (rb_inv (rb_sibling f) \<and> rb_bh (rb_sibling f) = h \<and>
      (rb_frame_color f = RB_RED \<longrightarrow>
         \<not> rb_is_red (rb_sibling f) \<and> fs \<noteq> [] \<and> rb_frame_color (hd fs) = RB_BLACK) \<and>
      rb_ctx (h + (if rb_frame_color f = RB_BLACK then 1 else 0)) fs)"

lemma rb_color_neq [simp]: "c \<noteq> RB_RED \<longleftrightarrow> c = RB_BLACK"
  by (cases c) auto

lemma rb_is_red_iff: "rb_is_red t \<longleftrightarrow> (\<exists>l v r. t = Rb RB_RED l v r)"
  by (cases t rule: rb_is_red.cases) auto

lemma rb_is_red_Rb [simp]: "rb_is_red (Rb c l v r) \<longleftrightarrow> c = RB_RED"
  by (cases c) auto

lemma rb_paint_black [simp]: "\<not> rb_is_red (rb_paint RB_BLACK t)"
  by (cases t) auto

lemma rb_inv_paint_black: "rb_inv t \<Longrightarrow> rb_inv (rb_paint RB_BLACK t)"
  by (cases t) auto

lemma rb_bh_paint_black: "rb_bh (rb_paint RB_BLACK t) = rb_bh t + (if rb_is_red t then 1 else 0)"
  by (cases t) auto

lemma rb_plug_ok:
  "rb_inv n \<Longrightarrow> rb_ctx (rb_bh n) fs \<Longrightarrow> (rb_is_red n \<longrightarrow> fs \<noteq> [] \<and> rb_frame_color (hd fs) = RB_BLACK) \<Longrightarrow>
     rb_ok (rb_plug n fs)"
proof (induction fs arbitrary: n)
  case Nil
  then show ?case by (simp add: rb_ok_def)
next
  case (Cons f fs)
  show ?case
  proof (cases f)
    case (Is_Left c v r)
    with Cons.prems show ?thesis by (auto intro!: Cons.IH)
  next
    case (Is_Right c l v)
    with Cons.prems show ?thesis by (auto intro!: Cons.IH)
  qed
qed

lemma rb_finish_ok:
  assumes "rb_inv n" "rb_ctx (rb_bh n) fs" "rb_is_red n \<longrightarrow> fs = [] \<or> rb_frame_color (hd fs) = RB_BLACK"
  shows "rb_ok (rb_finish n fs)"
proof (cases "fs = []")
  case True
  with assms show ?thesis by (simp add: rb_finish_def rb_ok_def rb_inv_paint_black)
next
  case False
  with assms have "rb_ok (rb_plug n fs)" by (intro rb_plug_ok) auto
  then show ?thesis by (simp add: rb_finish_def rb_ok_def rb_inv_paint_black)
qed

lemma rb_insert_color_ok:
  "rb_inv n \<Longrightarrow> rb_is_red n \<Longrightarrow> rb_ctx (rb_bh n) fs \<Longrightarrow> rb_ok (rb_insert_color n fs)"
proof (induction n fs rule: rb_insert_color.induct)
  case (3 n parent gparent fs)
  show ?case
  proof (cases "rb_frame_color parent = RB_RED")
    case False
    with "3.prems" show ?thesis by (auto intro!: rb_finish_ok)
  next
    case True
    from "3.prems"(2) obtain nl nv nr where n: "n = Rb RB_RED nl nv nr" by (auto simp: rb_is_red_iff)
    show ?thesis
    proof (cases gparent)
      case (Is_Left gc gv uncle)
      with True "3.prems" have gc: "gc = RB_BLACK" by auto
      show ?thesis
      proof (cases "rb_is_red uncle")
        case red: True
        show ?thesis
          using "3.IH"(1) [OF _ Is_Left red] True "3.prems" Is_Left red gc n
          by (cases parent) (auto simp: rb_inv_paint_black rb_bh_paint_black)
      next
        case black: False
        show ?thesis
          using True "3.prems" Is_Left black gc n
          by (cases parent) (auto intro!: rb_finish_ok)
      qed
    next
      case (Is_Right gc uncle gv)
      with True "3.prems" have gc: "gc = RB_BLACK" by auto
      show ?thesis
      proof (cases "rb_is_red uncle")
        case red: True
        show ?thesis
          using "3.IH"(2) [OF _ Is_Right red] True "3.prems" Is_Right red gc n
          by (cases parent) (auto simp: rb_inv_paint_black rb_bh_paint_black)
      next
        case black: False
        show ?thesis
          using True "3.prems" Is_Right black gc n
          by (cases parent) (auto intro!: rb_finish_ok)
      qed
    qed
  qed
qed (auto intro!: rb_finish_ok)

lemma rb_link_ctx:
  "rb_inv t \<Longrightarrow> rb_ctx (rb_bh t) fs \<Longrightarrow> (rb_is_red t \<longrightarrow> fs \<noteq> [] \<and> rb_frame_color (hd fs) = RB_BLACK) \<Longrightarrow>
     rb_ctx 0 (rb_link key x t fs)"
proof (induction key x t fs rule: rb_link.induct)
  case (2 key x c l v r fs)
  then show ?case by (cases "key x < key v") auto
qed auto

theorem rb_insert_ok: "rb_ok t \<Longrightarrow> rb_ok (rb_insert key x t)"
  unfolding rb_insert_def by (rule rb_insert_color_ok) (auto simp: rb_ok_def intro!: rb_link_ctx)

text \<open>Erasing: the hole is one black level deeper than the node that fills it.\<close>

lemma rb_black_sibling_right_inv:
  assumes "rb_ctx (Suc h) (Is_Left pc pv sib # fs)" and "rb_black_sibling_right pc sib fs = (pc', s, fs')"
  shows "rb_inv s" "rb_bh s = Suc h" "\<not> rb_is_red s"
    "pc' = RB_RED \<longrightarrow> fs' \<noteq> [] \<and> rb_frame_color (hd fs') = RB_BLACK"
    "rb_ctx (Suc h + (if pc' = RB_BLACK then 1 else 0)) fs'"
  using assms by (induction pc sib fs rule: rb_black_sibling_right.induct) (auto split: if_splits)

lemma rb_black_sibling_left_inv:
  assumes "rb_ctx (Suc h) (Is_Right pc sib pv # fs)" and "rb_black_sibling_left pc sib fs = (pc', s, fs')"
  shows "rb_inv s" "rb_bh s = Suc h" "\<not> rb_is_red s"
    "pc' = RB_RED \<longrightarrow> fs' \<noteq> [] \<and> rb_frame_color (hd fs') = RB_BLACK"
    "rb_ctx (Suc h + (if pc' = RB_BLACK then 1 else 0)) fs'"
  using assms by (induction pc sib fs rule: rb_black_sibling_left.induct) (auto split: if_splits)

lemma rb_not_red_paint: "\<not> rb_is_red n \<Longrightarrow> rb_paint RB_BLACK n = n"
  by (cases n rule: rb_is_red.cases) auto

lemma rb_erase_color_ok:
  "rb_inv (rb_paint RB_BLACK n) \<Longrightarrow> rb_ctx (Suc (rb_bh n)) fs \<Longrightarrow> rb_ok (rb_erase_color n fs)"
proof (induction n fs rule: rb_erase_color.induct)
  case (1 n path)
  show ?case
  proof (cases "rb_is_red n")
    case True
    with "1.prems" show ?thesis
      by (auto simp: rb_erase_color.simps [of n path] rb_bh_paint_black intro!: rb_plug_ok)
  next
    case black: False
    with "1.prems" have n: "rb_inv n" by (simp add: rb_not_red_paint)
    show ?thesis
    proof (cases path)
      case Nil
      with black n show ?thesis
        by (simp add: rb_erase_color.simps [of n "[]"] rb_ok_def rb_inv_paint_black)
    next
      case (Cons f fs)
      show ?thesis
      proof (cases f)
        case (Is_Left pc pv sib)
        obtain pc' s fs' where b: "rb_black_sibling_right pc sib fs = (pc', s, fs')"
          by (cases "rb_black_sibling_right pc sib fs")
        note inv = rb_black_sibling_right_inv [OF "1.prems"(2) [unfolded Cons Is_Left] b]
        from inv(2) obtain oc ol ov or' where s: "s = Rb oc ol ov or'" by (cases s) auto
        with inv(3) have oc: "oc = RB_BLACK" by simp
        show ?thesis
        proof (cases "\<not> rb_is_red ol \<and> \<not> rb_is_red or'")
          case True
          have "rb_ok (rb_erase_color (Rb pc' n pv (Rb RB_RED ol ov or')) fs')"
            using "1.IH"(1) [OF black Cons Is_Left b [symmetric] refl s True] True inv n black oc s
            by (auto split: if_splits)
          with True show ?thesis
            using black Cons Is_Left b s by (simp add: rb_erase_color.simps [of n "Is_Left pc pv sib # fs"])
        next
          case red: False
          then show ?thesis
            using black Cons Is_Left b s oc inv n
            by (cases "rb_is_red or'"; cases or'; cases ol)
               (auto simp: rb_erase_color.simps [of n "Is_Left pc pv sib # fs"] Let_def intro!: rb_finish_ok split: if_splits)
        qed
      next
        case (Is_Right pc sib pv)
        obtain pc' s fs' where b: "rb_black_sibling_left pc sib fs = (pc', s, fs')"
          by (cases "rb_black_sibling_left pc sib fs")
        note inv = rb_black_sibling_left_inv [OF "1.prems"(2) [unfolded Cons Is_Right] b]
        from inv(2) obtain oc ol ov or' where s: "s = Rb oc ol ov or'" by (cases s) auto
        with inv(3) have oc: "oc = RB_BLACK" by simp
        show ?thesis
        proof (cases "\<not> rb_is_red ol \<and> \<not> rb_is_red or'")
          case True
          have "rb_ok (rb_erase_color (Rb pc' (Rb RB_RED ol ov or') pv n) fs')"
            using "1.IH"(2) [OF black Cons Is_Right b [symmetric] refl s True] True inv n black oc s
            by (auto split: if_splits)
          with True show ?thesis
            using black Cons Is_Right b s by (simp add: rb_erase_color.simps [of n "Is_Right pc sib pv # fs"])
        next
          case red: False
          then show ?thesis
            using black Cons Is_Right b s oc inv n
            by (cases "rb_is_red ol"; cases or'; cases ol)
               (auto simp: rb_erase_color.simps [of n "Is_Right pc sib pv # fs"] Let_def intro!: rb_finish_ok split: if_splits)
        qed
      qed
    qed
  qed
qed

text \<open>The shape of a position: a valid subtree whose colour fits its parent.\<close>

definition rb_fits :: "'a rb_node \<Rightarrow> 'a rb_path \<Rightarrow> bool" where
  "rb_fits n fs \<longleftrightarrow> rb_inv n \<and> rb_ctx (rb_bh n) fs \<and>
     (rb_is_red n \<longrightarrow> fs \<noteq> [] \<and> rb_frame_color (hd fs) = RB_BLACK)"

lemma rb_fits_root: "rb_ok t \<Longrightarrow> rb_fits t []"
  by (simp add: rb_fits_def rb_ok_def)

lemma rb_fits_left: "rb_fits (Rb c l v r) fs \<Longrightarrow> rb_fits l (Is_Left c v r # fs)"
  by (auto simp: rb_fits_def)

lemma rb_fits_right: "rb_fits (Rb c l v r) fs \<Longrightarrow> rb_fits r (Is_Right c l v # fs)"
  by (auto simp: rb_fits_def)

lemma rb_min_fits:
  "rb_min t fs = Some (c, v, r, fs') \<Longrightarrow> rb_fits t fs \<Longrightarrow> rb_fits (Rb c Rb_Null v r) fs'"
  by (induction t fs rule: rb_min.induct) (auto dest: rb_fits_left)

lemma rb_where_fits: "rb_where P t fs = Some (n, fs') \<Longrightarrow> rb_fits t fs \<Longrightarrow> rb_fits n fs'"
  by (induction P t fs rule: rb_where.induct)
     (auto split: option.splits if_splits dest: rb_fits_left rb_fits_right)

lemma rb_min_append: "rb_min t (fs @ gs) = map_option (\<lambda>(c, v, r, hs). (c, v, r, hs @ gs)) (rb_min t fs)"
  by (induction t fs rule: rb_min.induct) auto

lemma rb_ctx_payload: "rb_ctx h (fs @ Is_Right c l v # gs) = rb_ctx h (fs @ Is_Right c l w # gs)"
  by (induction fs arbitrary: h) (auto simp: hd_append)

lemma rb_plug_child_ok:
  assumes "rb_fits (Rb c Rb_Null v r) fs \<or> rb_fits (Rb c r v Rb_Null) fs"
  shows "rb_ok (if c = RB_BLACK then rb_erase_color r fs else rb_plug r fs)"
  using assms by (cases c) (auto simp: rb_fits_def rb_inv_paint_black intro!: rb_erase_color_ok rb_plug_ok)

lemma rb_erase_ok_at:
  assumes "rb_fits (Rb c l v r) fs"
  shows "rb_ok (rb_erase (Rb c l v r) fs)"
proof (cases "l = Rb_Null \<or> r = Rb_Null")
  case True
  then show ?thesis
    using assms rb_plug_child_ok [of c v r fs] rb_plug_child_ok [of c v l fs] by (cases l; cases r) auto
next
  case False
  then obtain lc ll lv lr where l: "l = Rb lc ll lv lr" by (cases l) auto
  from False obtain rc rl rv rr where r: "r = Rb rc rl rv rr" by (cases r) auto
  obtain sc sv sr sfs where m: "rb_min r [] = Some (sc, sv, sr, sfs)"
    using False by (cases "rb_min r []") auto
  then have "rb_min r (Is_Right c l v # fs) = Some (sc, sv, sr, sfs @ Is_Right c l v # fs)"
    using rb_min_append [of r "[]" "Is_Right c l v # fs"] by simp
  from rb_min_fits [OF this rb_fits_right [OF assms]]
  have "rb_fits (Rb sc Rb_Null sv sr) (sfs @ Is_Right c l sv # fs)"
    using rb_ctx_payload [of _ sfs c l v fs sv] by (auto simp: rb_fits_def hd_append split: if_splits)
  then show ?thesis
    using m rb_plug_child_ok [of sc sv sr "sfs @ Is_Right c l sv # fs"]
    unfolding l r by (simp add: Let_def split: if_splits)
qed

theorem rb_erase_ok:
  assumes "rb_ok t"
  shows "rb_ok (rb_erase_where P t)"
proof (cases "rb_where P t []")
  case None
  with assms show ?thesis by (simp add: rb_erase_where_def)
next
  case (Some nf)
  obtain n fs where nf: "nf = (n, fs)" by (cases nf)
  from rb_where_SomeD [OF Some [unfolded nf]] obtain c l v r where n: "n = Rb c l v r" by blast
  have "rb_fits n fs" using Some rb_fits_root [OF assms] by (auto simp: nf intro: rb_where_fits)
  then show ?thesis using Some by (simp add: rb_erase_where_def nf n rb_erase_ok_at)
qed

lemma rb_ok_Null [simp]: "rb_ok Rb_Null"
  by (simp add: rb_ok_def)

lemma rb_ok_map: "rb_ok t \<Longrightarrow> rb_ok (rb_map f t)"
proof -
  have "rb_bh (rb_map f t) = rb_bh t" for t by (induction t) auto
  moreover have "rb_is_red (rb_map f t) = rb_is_red t" for t by (cases t) auto
  ultimately have "rb_inv t \<Longrightarrow> rb_inv (rb_map f t)" for t by (induction t) auto
  then show "rb_ok t \<Longrightarrow> rb_ok (rb_map f t)"
    by (simp add: rb_ok_def \<open>\<And>t. rb_is_red (rb_map f t) = rb_is_red t\<close>)
qed

section \<open>The interface of an ordered index\<close>

locale ordered_index =
  fixes key :: "'a \<Rightarrow> 'k::linorder"
    and entries :: "'t \<Rightarrow> 'a list"
    and search :: "'k \<Rightarrow> 't \<Rightarrow> 'a option"
    and insert :: "'a \<Rightarrow> 't \<Rightarrow> 't"
    and erase :: "('a \<Rightarrow> bool) \<Rightarrow> 't \<Rightarrow> 't"
    and invar :: "'t \<Rightarrow> bool"
  assumes entries_sorted: "invar t \<Longrightarrow> sorted_wrt (<) (map key (entries t))"
    and search_entries: "invar t \<Longrightarrow> search k t = find (\<lambda>x. key x = k) (entries t)"
    and entries_insert: "invar t \<Longrightarrow> entries (insert x t) = ins_by key x (entries t)"
    and invar_insert: "invar t \<Longrightarrow> search (key x) t = None \<Longrightarrow> invar (insert x t)"
    and entries_erase: "invar t \<Longrightarrow> entries (erase P t) = del_first P (entries t)"
    and invar_erase: "invar t \<Longrightarrow> invar (erase P t)"
begin

lemma distinct_keys: "invar t \<Longrightarrow> distinct (map key (entries t))"
  using entries_sorted strict_sorted_iff by blast

lemma search_Some_iff: "invar t \<Longrightarrow> search k t = Some x \<longleftrightarrow> x \<in> set (entries t) \<and> key x = k"
proof -
  assume inv: "invar t"
  have "find (\<lambda>x. key x = k) xs = Some x \<longleftrightarrow> x \<in> set xs \<and> key x = k" if "distinct (map key xs)" for xs
    using that by (induction xs) (auto simp: image_iff)
  then show ?thesis using inv distinct_keys search_entries by simp
qed

lemma search_None_iff: "invar t \<Longrightarrow> search k t = None \<longleftrightarrow> k \<notin> key ` set (entries t)"
  by (auto simp: search_entries find_None_iff)

text \<open>Two searches agree when they find the same entries.\<close>

lemma search_eqI: "(\<And>y. search k t = Some y \<longleftrightarrow> s = Some y) \<Longrightarrow> search k t = s"
  by (metis not_None_eq)

lemma set_entries_insert: "invar t \<Longrightarrow> set (entries (insert x t)) = Set.insert x (set (entries t))"
  by (auto simp: entries_insert ins_by_def)

lemma mset_entries_insert: "invar t \<Longrightarrow> mset (entries (insert x t)) = add_mset x (mset (entries t))"
proof -
  assume "invar t"
  moreover have "mset (ins_by key x xs) = add_mset x (mset xs)" for xs
    using mset_filter [of "\<lambda>y. key y \<le> key x" xs] multiset_partition [of "mset xs" "\<lambda>y. key y \<le> key x"]
    by (simp add: ins_by_def linorder_not_le [symmetric] mset_filter)
  ultimately show ?thesis by (simp add: entries_insert)
qed

lemma search_insert_same: "invar t \<Longrightarrow> search (key x) t = None \<Longrightarrow> search (key x) (insert x t) = Some x"
  by (simp add: search_Some_iff invar_insert set_entries_insert)

lemma search_insert:
  "invar t \<Longrightarrow> search (key x) t = None \<Longrightarrow>
     search k (insert x t) = (if k = key x then Some x else search k t)"
  by (intro search_eqI, frule (1) search_None_iff [THEN iffD1])
     (auto simp: search_insert_same search_Some_iff invar_insert set_entries_insert image_iff)

lemma length_insert: "invar t \<Longrightarrow> length (entries (insert x t)) = Suc (length (entries t))"
  using mset_entries_insert [of t x] by (metis size_add_mset size_mset)

lemma set_entries_erase_key:
  assumes "invar t"
  shows "set (entries (erase (\<lambda>y. key y = k) t)) = {y \<in> set (entries t). key y \<noteq> k}"
proof -
  have "set (del_first (\<lambda>y. key y = k) xs) = {y \<in> set xs. key y \<noteq> k}" if "distinct (map key xs)" for xs
    using that by (induction xs) (auto simp: image_iff)
  then show ?thesis using assms by (simp add: entries_erase distinct_keys)
qed

lemma search_erase_key:
  assumes "invar t"
  shows "search j (erase (\<lambda>y. key y = k) t) = (if j = k then None else search j t)"
  using assms by (intro search_eqI) (auto simp: search_Some_iff invar_erase set_entries_erase_key)

end

section \<open>The tree is an ordered index\<close>

definition rb_index :: "('a \<Rightarrow> 'k::linorder) \<Rightarrow> 'a rb_node \<Rightarrow> bool" where
  "rb_index key t \<longleftrightarrow> rb_ok t \<and> sorted_wrt (<) (map key (rb_inorder t))"

lemma sorted_wrt_less_sorted: "sorted_wrt (<) (xs :: 'k::linorder list) \<Longrightarrow> sorted xs"
  using strict_sorted_imp_sorted by blast

lemma sorted_ins_by:
  assumes "sorted_wrt (<) (map key xs)" and "key x \<notin> key ` set xs"
  shows "sorted_wrt (<) (map key (ins_by key x xs))"
proof -
  have "key y < key x" if "y \<in> set xs" "key y \<le> key x" for y
    using assms(2) that by (metis image_eqI order.not_eq_order_implies_strict)
  with assms show ?thesis
    by (auto simp: ins_by_def sorted_wrt_append sorted_wrt_map intro!: sorted_wrt_filter)
qed

lemma sorted_del_first:
  fixes xs :: "'a list"
  shows "sorted_wrt R (map key xs) \<Longrightarrow> sorted_wrt R (map key (del_first P xs))"
proof -
  have sub: "set (del_first P ys) \<subseteq> set ys" for ys :: "'a list" by (induction ys) auto
  show "sorted_wrt R (map key xs) \<Longrightarrow> sorted_wrt R (map key (del_first P xs))"
    by (induction xs) (use sub in auto)
qed

interpretation rbt: ordered_index key rb_inorder "rb_search key" "rb_insert key" rb_erase_where "rb_index key"
  for key :: "'a \<Rightarrow> 'k::linorder"
proof unfold_locales
  fix t :: "'a rb_node" and k x and P :: "'a \<Rightarrow> bool"
  assume inv: "rb_index key t"
  then show "sorted_wrt (<) (map key (rb_inorder t))" by (simp add: rb_index_def)
  show search: "rb_search key k t = find (\<lambda>x. key x = k) (rb_inorder t)"
    using inv by (simp add: rb_index_def rb_search_eq_find)
  show ins: "rb_inorder (rb_insert key x t) = ins_by key x (rb_inorder t)"
    using inv by (simp add: rb_index_def rb_inorder_insert sorted_wrt_less_sorted)
  show "rb_index key (rb_insert key x t)" if "rb_search key (key x) t = None"
    using inv that by (auto simp: rb_index_def rb_insert_ok rb_inorder_insert sorted_wrt_less_sorted
        rb_search_eq_find find_None_iff intro!: sorted_ins_by)
  show "rb_inorder (rb_erase_where P t) = del_first P (rb_inorder t)"
    by (rule rb_inorder_erase_where)
  show "rb_index key (rb_erase_where P t)"
    using inv by (simp add: rb_index_def rb_erase_ok rb_inorder_erase_where sorted_del_first)
qed

lemma rb_index_Null [simp]: "rb_index key Rb_Null"
  by (simp add: rb_index_def)

section \<open>Properties\<close>

text \<open>
  C30. Insertion: descending to a free link, linking a red node and \<open>rb_insert_color\<close> keep the
  red-black invariant and the key order, and afterwards a search finds the new entry under its
  key and what it found before under every other key.
\<close>

theorem rb_insert_index:
  assumes "rb_index key t" and "rb_search key (key x) t = None"
  shows "rb_index key (rb_insert key x t) \<and>
    (\<forall>k. rb_search key k (rb_insert key x t) = (if k = key x then Some x else rb_search key k t)) \<and>
    length (rb_inorder (rb_insert key x t)) = Suc (length (rb_inorder t))"
  using assms by (simp add: rbt.search_insert rbt.invar_insert rbt.length_insert)

definition sample_tree :: "nat rb_node" where
  "sample_tree = rb_insert id 5 (rb_insert id 4 Rb_Null)"

lemma sample_tree_index: "rb_index id sample_tree"
  unfolding sample_tree_def
  by (intro rbt.invar_insert rb_index_Null) (simp_all add: rb_insert_def rb_finish_def)

theorem rb_insert_index_witness:
  "rb_index id (rb_insert id 3 sample_tree) \<and>
    (\<forall>k. rb_search id k (rb_insert id 3 sample_tree) =
       (if k = id 3 then Some 3 else rb_search id k sample_tree)) \<and>
    length (rb_inorder (rb_insert id 3 sample_tree)) = Suc (length (rb_inorder sample_tree))"
  by (rule rb_insert_index [OF sample_tree_index]) (simp add: sample_tree_def rb_insert_def rb_finish_def)

text \<open>
  C31. Deletion: \<open>rb_erase\<close> of the node with a key keeps the red-black invariant and the key order,
  and afterwards a search finds nothing under that key and what it found before under the others.
\<close>

theorem rb_erase_index:
  assumes "rb_index key t"
  shows "rb_index key (rb_erase_where (\<lambda>y. key y = k) t) \<and>
    (\<forall>j. rb_search key j (rb_erase_where (\<lambda>y. key y = k) t) =
       (if j = k then None else rb_search key j t))"
  using assms by (simp add: rbt.search_erase_key rbt.invar_erase)

theorem rb_erase_index_witness:
  "rb_index id (rb_erase_where (\<lambda>y. id y = 4) sample_tree) \<and>
    (\<forall>j. rb_search id j (rb_erase_where (\<lambda>y. id y = 4) sample_tree) =
       (if j = 4 then None else rb_search id j sample_tree))"
  by (rule rb_erase_index [OF sample_tree_index])

fun rb_height :: "'a rb_node \<Rightarrow> nat" where
  "rb_height Rb_Null = 0"
| "rb_height (Rb c l v r) = Suc (max (rb_height l) (rb_height r))"

lemma rb_height_bh: "rb_inv t \<Longrightarrow> rb_height t \<le> 2 * rb_bh t + (if rb_is_red t then 1 else 0)"
  by (induction t) (auto split: if_splits)

lemma rb_bh_size: "rb_inv t \<Longrightarrow> 2 ^ rb_bh t \<le> length (rb_inorder t) + 1"
  by (induction t) (auto split: if_splits)

text \<open>
  Balance: the height of a red-black tree, and so the number of steps of a search or of a
  descent to a free link, is at most twice the binary logarithm of the number of entries plus one.
\<close>

lemma rb_search_depth:
  assumes "rb_index key t"
  shows "2 ^ ((rb_height t + 1) div 2) \<le> length (rb_inorder t) + 1"
proof -
  have "rb_height t \<le> 2 * rb_bh t"
    using assms rb_height_bh [of t] by (auto simp: rb_index_def rb_ok_def)
  then have "(rb_height t + 1) div 2 \<le> rb_bh t" by simp
  then have "(2 :: nat) ^ ((rb_height t + 1) div 2) \<le> 2 ^ rb_bh t" by (rule power_increasing) simp
  also have "\<dots> \<le> length (rb_inorder t) + 1"
    using assms rb_bh_size [of t] by (auto simp: rb_index_def rb_ok_def)
  finally show ?thesis .
qed

end
