(* ===== verification/Kcp_Connection.thy ===== *)
theory Kcp_Connection
  imports Kcp_Bbr Kcp_Codec Kcp_Rbtree
begin

text \<open>
  The connection control block \<open>struct KcpConnection\<close> of \<^verbatim>\<open>kcp/internal/kcp_protocol.h\<close>, its
  initialisation, the segment pools and the output path of \<^verbatim>\<open>kcp/src/kcp_net_utils.c\<close>.

  The control block is a chain of records: \<open>kcp_cc\<close> (congestion control), \<open>kcp_snd\<close> (send side),
  \<open>kcp_rcv\<close> (receive side) and \<open>kcp_connection\<close> (session), so each component works on the part it
  owns and leaves the rest untouched by construction. Fields that the sources set but never read
  (\<open>ts_recent\<close>, \<open>ts_lastack\<close>, \<open>current\<close>, \<open>updated\<close>, \<open>nsnd_pkt_next\<close>, \<open>syn_node\<close>,
  \<open>ack_unused\<close>, \<open>syn_fin_sn\<close>) are left out. The counters of the receive queue and of the reassembly wrap at 32 bits as in the source;
  those of the entries of the send queues and of the pools are integers without a bound.

  The outside world is \<open>kcp_io\<close>: oracles for the results of each \<open>sendmsg\<close>, \<open>clock_gettime\<close>,
  \<open>getrandom\<close> and checked allocation, with the number of calls so far; the value of \<open>errno\<close>; and the
  trace of the effects (datagrams handed to the network, callbacks, timers) in order.
  User callbacks are recorded and do not re-enter the library.
\<close>

section \<open>Addresses, effects and the output path\<close>

datatype sockaddr =
    Sockaddr_in u16 u32 \<comment> \<open>\<open>sin_port\<close>, \<open>sin_addr\<close>\<close>
  | Sockaddr_in6 u16 bytes \<comment> \<open>\<open>sin6_port\<close>, \<open>sin6_addr\<close>\<close>
  | Sockaddr_other u16 \<comment> \<open>another address family\<close>

fun is_ipv6 :: "sockaddr \<Rightarrow> bool" where
  "is_ipv6 (Sockaddr_in6 _ _) = True"
| "is_ipv6 _ = False"

fun sockaddr_equal :: "sockaddr \<Rightarrow> sockaddr \<Rightarrow> bool" where
  "sockaddr_equal (Sockaddr_in p a) (Sockaddr_in q b) = (p = q \<and> a = b)"
| "sockaddr_equal (Sockaddr_in6 p a) (Sockaddr_in6 q b) = (p = q \<and> take 16 a = take 16 b)"
| "sockaddr_equal _ _ = False"

datatype errno = EAGAIN | EMSGSIZE | EOTHER

text \<open>A datagram is sent whole, and \<open>sendmsg\<close> returns its length, or it is not sent.\<close>

datatype send_outcome = Sent | Send_failed errno

datatype kcp_timer = Syn_timer | Fin_timer | Mtu_timer | Write_timer

text \<open>A connection in an effect is the address of its control block.\<close>

datatype kcp_effect =
    Send sockaddr bytes
  | On_error "nat option" kcp_error
  | On_connect sockaddr
  | On_connected nat kcp_error
  | On_accepted nat kcp_error
  | On_closed nat kcp_error
  | Read_event nat int
  | Write_event nat int
  | Refresh_write_timer
  | Timer_add nat kcp_timer u32
  | Timer_del nat kcp_timer
  | Timer_free nat kcp_timer
  | Write_timer_add u64 u64 \<comment> \<open>\<open>tv_sec\<close> and \<open>tv_usec\<close>\<close>
  | Write_timer_del
  | Read_event_add
  | Write_event_add
  | Write_event_del
  | Free_connection nat

record kcp_io =
  io_sendmmsg :: bool \<comment> \<open>built with \<open>USE_SENDMMSG\<close>\<close>
  io_asserts :: bool \<comment> \<open>built without \<open>NDEBUG\<close>\<close>
  io_send :: "nat \<Rightarrow> send_outcome"
  io_calls :: nat
  io_errno :: errno
  io_clock :: "nat \<Rightarrow> nat \<times> nat" \<comment> \<open>\<open>tv_sec\<close> and \<open>tv_nsec\<close> of each \<open>clock_gettime\<close>\<close>
  io_ticks :: nat
  io_random :: "nat \<Rightarrow> u32" \<comment> \<open>the words \<open>getrandom\<close> gives\<close>
  io_randoms :: nat
  io_alloc :: "nat \<Rightarrow> bool" \<comment> \<open>whether an allocation that the sources check succeeds\<close>
  io_allocs :: nat
  io_trace :: "kcp_effect list"

definition emit :: "kcp_effect \<Rightarrow> kcp_io \<Rightarrow> kcp_io" where
  "emit e io = io\<lparr>io_trace := io_trace io @ [e]\<rparr>"

definition kcp_time_monotonic_us :: "kcp_io \<Rightarrow> u64 \<times> kcp_io" where
  "kcp_time_monotonic_us io =
     (case io_clock io (io_ticks io) of (tv_sec, tv_nsec) \<Rightarrow>
        (of_nat (tv_sec * 1000000 + tv_nsec div 1000), io\<lparr>io_ticks := io_ticks io + 1\<rparr>))"

definition kcp_time_monotonic_ms :: "kcp_io \<Rightarrow> u64 \<times> kcp_io" where
  "kcp_time_monotonic_ms io =
     (case io_clock io (io_ticks io) of (tv_sec, tv_nsec) \<Rightarrow>
        (of_nat (tv_sec * 1000 + tv_nsec div 1000000), io\<lparr>io_ticks := io_ticks io + 1\<rparr>))"

definition malloc :: "kcp_io \<Rightarrow> bool \<times> kcp_io" where
  "malloc io = (io_alloc io (io_allocs io), io\<lparr>io_allocs := io_allocs io + 1\<rparr>)"

definition sendmsg :: "sockaddr \<Rightarrow> bytes \<Rightarrow> kcp_io \<Rightarrow> send_outcome \<times> kcp_io" where
  "sendmsg addr bs io =
     (let res = io_send io (io_calls io); io1 = io\<lparr>io_calls := io_calls io + 1\<rparr>
      in (res, case res of Sent \<Rightarrow> emit (Send addr bs) io1 | Send_failed e \<Rightarrow> io1\<lparr>io_errno := e\<rparr>))"

text \<open>
  The loop of \<open>kcp_send_packet_raw_impl\<close> without \<open>USE_SENDMMSG\<close>; a result \<open>send_size <= 0\<close> is
  judged by \<open>errno\<close>, also when an empty datagram was sent and \<open>errno\<close> was not set.
\<close>

fun kcp_send_loop :: "sockaddr \<Rightarrow> bytes list \<Rightarrow> nat \<Rightarrow> kcp_io \<Rightarrow> (kcp_error + nat) \<times> kcp_io" where
  "kcp_send_loop addr [] send_packet io = (Inr send_packet, io)"
| "kcp_send_loop addr (d # ds) send_packet io =
     (case sendmsg addr d io of (res, io') \<Rightarrow>
        if res = Sent \<and> d \<noteq> [] then kcp_send_loop addr ds (send_packet + 1) io'
        else
          (case io_errno io' of
             EAGAIN \<Rightarrow> (Inr send_packet, io')
           | EMSGSIZE \<Rightarrow> (Inl PACKET_TOO_LARGE, io')
           | EOTHER \<Rightarrow> (Inl WRITE_ERROR, io')))"

text \<open>
  \<open>sendmmsg\<close>: it stops at the first datagram that is not sent and returns how many were; when one
  was, it succeeds and the error is lost.
\<close>

fun sendmmsg :: "sockaddr \<Rightarrow> bytes list \<Rightarrow> nat \<Rightarrow> kcp_io \<Rightarrow> nat \<times> kcp_io" where
  "sendmmsg addr [] n io = (n, io)"
| "sendmmsg addr (d # ds) n io =
     (case sendmsg addr d io of
        (Sent, io') \<Rightarrow> sendmmsg addr ds (n + 1) io'
      | (Send_failed e, io') \<Rightarrow> (n, if n = 0 then io' else io'\<lparr>io_errno := io_errno io\<rparr>))"

definition kcp_send_packet_raw :: "sockaddr \<Rightarrow> bytes list \<Rightarrow> kcp_io \<Rightarrow> (kcp_error + nat) \<times> kcp_io" where
  "kcp_send_packet_raw addr data io =
     (if int (length data) > KCP_PACKET_SIZE then (Inl INVALID_PARAM, io)
      else if io_sendmmsg io
      then (case sendmmsg addr data 0 io of (n, io') \<Rightarrow> (if n = 0 then Inl WRITE_ERROR else Inr n, io'))
      else kcp_send_loop addr data 0 io)"

text \<open>The tests of the callers on the \<open>int32_t\<close> the output path returns.\<close>

definition status_neg :: "(kcp_error + nat) \<Rightarrow> bool" where
  "status_neg s = (case s of Inl e \<Rightarrow> True | Inr n \<Rightarrow> False)"

definition status_pos :: "(kcp_error + nat) \<Rightarrow> bool" where
  "status_pos s = (case s of Inl e \<Rightarrow> False | Inr n \<Rightarrow> n > 0)"

section \<open>MTU parameters\<close>

definition kcp_get_min_mtu :: "bool \<Rightarrow> int" where
  "kcp_get_min_mtu ipv6 =
     (if ipv6 then ETHERNET_MTU_V6_MIN - IPV6_HEADER_SIZE - UDP_HEADER_SIZE
      else ETHERNET_MTU_V4_MIN - IPV4_HEADER_SIZE - UDP_HEADER_SIZE)"

text \<open>GRE 24, PPPoE 8, MPPE 2 and a fudge of 36 bytes.\<close>

definition kcp_get_mtu_by_param :: "int \<Rightarrow> bool \<Rightarrow> int" where
  "kcp_get_mtu_by_param mtu ipv6 =
     (if ipv6 then mtu - IPV6_HEADER_SIZE - UDP_HEADER_SIZE - 24 - 8 - 2 - 36
      else mtu - IPV4_HEADER_SIZE - UDP_HEADER_SIZE - 24 - 8 - 2 - 36)"

definition kcp_get_mtu :: "bool \<Rightarrow> int" where
  "kcp_get_mtu ipv6 =
     (if ipv6 then int ETHERNET_MTU - IPV6_HEADER_SIZE - UDP_HEADER_SIZE - 24 - 8 - 2 - 36
      else int ETHERNET_MTU - IPV4_HEADER_SIZE - UDP_HEADER_SIZE - 24 - 8 - 2 - 36)"

section \<open>The control block\<close>

datatype kcp_state =
    KCP_STATE_DISCONNECTED | KCP_STATE_SYN_SENT | KCP_STATE_SYN_RECEIVED | KCP_STATE_CONNECTED
  | KCP_STATE_FIN_SENT | KCP_STATE_FIN_RECEIVED

record ping_session =
  ps_packet_sn :: u64
  ps_packet_ts :: u64

record ping_ctx =
  keepalive_timeout :: u32
  keepalive_interval :: u32
  keepalive_next_ts :: u64
  keepalive_retries :: u16
  keepalive_xretries :: u16
  keepalive_rtt :: u32
  keepalive_sn :: u64
  keepalive_packet_ts :: u64
  ping_request_queue :: "ping_session list"

record kcp_ack =
  ack_sn :: u32
  ack_psn :: u32
  ack_ts :: u64

text \<open>
  A packet being reassembled. Its fragments are the segments themselves; a segment is not changed
  after it has been linked, so the copy in \<open>rcv_buf\<close> is the same segment.
\<close>

record kcp_packet_assembly =
  pk_psn :: u32
  pk_start_sn :: u32
  pk_expected_frags :: u16
  pk_received_frags :: u16
  pk_total_size :: int
  pk_has_head :: bool
  pk_fragments :: "kcp_segment list"

record kcp_snd = kcp_cc +
  conn_addr :: nat
  scid :: u16
  dcid :: u16
  mtu :: u32
  mss_min :: u32
  state :: kcp_state
  snd_una :: u32
  snd_nxt :: u32
  psn_nxt :: u32
  ts_flush :: u64
  rx_rttval :: int
  rx_srtt :: int
  rx_rto :: int
  rx_minrto :: int
  snd_wnd :: int
  rmt_wnd :: int
  nodelay :: u32
  interval :: int
  fastresend :: int
  fastlimit :: int
  nocwnd :: int
  nsnd_que :: int
  nsnd_buf_unused :: int
  snd_queue :: "kcp_segment list"
  snd_buf :: "kcp_segment list"
  snd_buf_unused :: "kcp_segment list"
  tx_bytes :: u64
  rtx_bytes :: u64
  ping_context :: ping_ctx

text \<open>\<open>rcv_packet_list\<close> links the packets of the tree \<open>rcv_packet\<close>; a link is the packet's \<open>psn\<close>.\<close>

record kcp_rcv = kcp_snd +
  rcv_nxt :: u32
  rcv_wnd :: int
  probe :: u32
  win_ts_probe :: u32
  probe_wait :: u32
  nrcv_buf :: int
  nrcv_buf_unused :: int
  nrcv_que :: int
  rcv_queue_bytes :: int
  rcv_queue :: "kcp_segment list"
  rcv_buf :: "kcp_segment rb_node"
  rcv_packet :: "kcp_packet_assembly rb_node"
  rcv_packet_list :: "u32 list"
  rcv_buf_unused :: "kcp_segment list"
  ack_item :: "kcp_ack list"
  read_event_cb :: bool
  write_event_cb :: bool

record mtu_probe_ctx =
  probe_timeout_event :: bool
  mtu_current :: u32
  mtu_lbound :: u32
  mtu_ubound :: u32
  probe_timeout :: u32
  probe_retries :: u16
  prev_sn :: u32
  probe_hash :: u64
  probe_buf :: bytes

record kcp_connection = kcp_rcv +
  syn_timer_event :: bool
  fin_timer_event :: bool
  need_write_timer_event :: bool
  receive_timeout :: u32
  syn_retries :: int
  fin_retries :: u32
  remote_host :: sockaddr
  user_data :: nat
  candidates :: "sockaddr list"
  selected_candidate_index :: int
  kcp_proto_header_list :: "kcp_proto_header list"
  mtu_probe_context :: mtu_probe_ctx
  ping_count :: u32
  pong_count :: u32

text \<open>A block cleared by \<open>memset\<close>, with the trees empty; the numbers of an \<open>enum\<close> that are not 0 read as its first value.\<close>

definition zero_connection :: kcp_connection where
  "zero_connection = \<lparr>mss = 0, cwnd = 0, incr = 0, nsnd_buf = 0, bbr_mode = KCP_BBR_STARTUP, bbr_cycle_idx = 0,
     bbr_full_bw_cnt = 0, bbr_filled_pipe = False, bbr_bw_filter = [], bbr_bw_filter_idx = 0, bbr_btlbw = 0,
     bbr_full_bw = 0, bbr_min_rtt_us = 0, bbr_min_rtt_stamp = 0, bbr_probe_rtt_done_stamp = 0,
     bbr_cycle_stamp = 0, bbr_delivered = 0, bbr_delivered_ts = 0, bbr_pacing_gain_num = 0,
     bbr_cwnd_gain_num = 0, bbr_target_cwnd = 0, bbr_pacing_rate = 0, bbr_pacing_credit = 0,
     bbr_last_send_ts = 0, conn_addr = 0, scid = 0, dcid = 0, mtu = 0, mss_min = 0,
     state = KCP_STATE_DISCONNECTED, snd_una = 0, snd_nxt = 0, psn_nxt = 0, ts_flush = 0, rx_rttval = 0,
     rx_srtt = 0, rx_rto = 0, rx_minrto = 0, snd_wnd = 0, rmt_wnd = 0, nodelay = 0, interval = 0,
     fastresend = 0, fastlimit = 0, nocwnd = 0, nsnd_que = 0, nsnd_buf_unused = 0, snd_queue = [],
     snd_buf = [], snd_buf_unused = [], tx_bytes = 0, rtx_bytes = 0,
     ping_context = \<lparr>keepalive_timeout = 0, keepalive_interval = 0, keepalive_next_ts = 0,
       keepalive_retries = 0, keepalive_xretries = 0, keepalive_rtt = 0, keepalive_sn = 0,
       keepalive_packet_ts = 0, ping_request_queue = []\<rparr>,
     rcv_nxt = 0, rcv_wnd = 0, probe = 0, win_ts_probe = 0, probe_wait = 0, nrcv_buf = 0,
     nrcv_buf_unused = 0, nrcv_que = 0, rcv_queue_bytes = 0, rcv_queue = [], rcv_buf = Rb_Null,
     rcv_packet = Rb_Null, rcv_packet_list = [], rcv_buf_unused = [], ack_item = [],
     read_event_cb = False, write_event_cb = False, syn_timer_event = False,
     fin_timer_event = False, need_write_timer_event = False, receive_timeout = 0, syn_retries = 0,
     fin_retries = 0, remote_host = Sockaddr_other 0, user_data = 0, candidates = [],
     selected_candidate_index = 0, kcp_proto_header_list = [],
     mtu_probe_context = \<lparr>probe_timeout_event = False, mtu_current = 0, mtu_lbound = 0, mtu_ubound = 0,
       probe_timeout = 0, probe_retries = 0, prev_sn = 0, probe_hash = 0, probe_buf = []\<rparr>,
     ping_count = 0, pong_count = 0\<rparr>"

text \<open>The callbacks of the context that are set; \<open>on_error\<close> always is.\<close>

record kcp_callbacks =
  has_on_connected :: bool
  has_on_connect :: bool
  has_on_accepted :: bool
  has_on_closed :: bool

section \<open>Initialisation\<close>

text \<open>
  \<open>kcp_connection_init\<close> writes to a block \<open>raw\<close> whose other fields keep what they had: zero in
  \<open>kcp_accept\<close>, which clears the block, and anything in \<open>kcp_connect_candidates\<close>, which does not;
  \<open>fastlimit\<close> and most of the probe context are such fields. The definition is split along the
  record: congestion control, send side, receive side, session.
\<close>

definition init_cc :: "u64 \<Rightarrow> 'a kcp_cc_scheme \<Rightarrow> 'a kcp_cc_scheme" where
  "init_cc now_us c = c\<lparr>
     cwnd := i32_of_u32 KCP_BBR_MIN_CWND_PKTS,
     nsnd_buf := 0,
     incr := KCP_BBR_MIN_CWND_PKTS * mss c,
     bbr_mode := KCP_BBR_STARTUP,
     bbr_cycle_idx := 0,
     bbr_full_bw_cnt := 0,
     bbr_filled_pipe := False,
     bbr_bw_filter := replicate KCP_BBR_BW_FILTER_LEN 0,
     bbr_bw_filter_idx := 0,
     bbr_btlbw := 0,
     bbr_full_bw := 0,
     bbr_min_rtt_us := 0,
     bbr_min_rtt_stamp := 0,
     bbr_probe_rtt_done_stamp := 0,
     bbr_cycle_stamp := 0,
     bbr_delivered := 0,
     bbr_delivered_ts := now_us,
     bbr_pacing_gain_num := KCP_BBR_STARTUP_GAIN_NUM,
     bbr_cwnd_gain_num := KCP_BBR_CWND_GAIN_NUM,
     bbr_target_cwnd := KCP_BBR_MIN_CWND_PKTS,
     bbr_pacing_rate := ucast (mss c) * 1000,
     bbr_pacing_credit := ucast (mss c) * ucast KCP_BBR_MIN_CWND_PKTS,
     bbr_last_send_ts := now_us\<rparr>"

definition init_snd :: "int \<Rightarrow> sockaddr \<Rightarrow> 'a kcp_snd_scheme \<Rightarrow> 'a kcp_snd_scheme" where
  "init_snd udp_mtu host c = c\<lparr>
     scid := 0, dcid := 0,
     mtu := u32_of_i32 udp_mtu,
     mss := u32_of_i32 udp_mtu - of_nat KCP_HEADER_SIZE,
     mss_min := u32_of_i32 (kcp_get_min_mtu (is_ipv6 host)) - of_nat KCP_HEADER_SIZE,
     state := KCP_STATE_DISCONNECTED,
     snd_una := 0, snd_nxt := 0, psn_nxt := 0,
     ts_flush := 0,
     rx_rttval := 0, rx_srtt := 0,
     rx_rto := KCP_RTO_DEF * 1000,
     rx_minrto := KCP_RTO_MIN * 1000,
     snd_wnd := KCP_WND_SND, rmt_wnd := KCP_WND_RCV,
     nodelay := 0, interval := 30, fastresend := 0, nocwnd := 0,
     nsnd_que := 0, nsnd_buf_unused := 0,
     snd_queue := [], snd_buf := [], snd_buf_unused := [],
     tx_bytes := 0, rtx_bytes := 0,
     ping_context := \<lparr>keepalive_timeout = DEFAULT_KEEPALIVE_TIMEOUT,
       keepalive_interval = DEFAULT_KEEPALIVE_INTERVAL, keepalive_next_ts = 0,
       keepalive_retries = DEFAULT_KEEPALIVE_RETRIES, keepalive_xretries = 0, keepalive_rtt = 0,
       keepalive_sn = 0, keepalive_packet_ts = 0, ping_request_queue = []\<rparr>\<rparr>"

definition init_rcv :: "'a kcp_rcv_scheme \<Rightarrow> 'a kcp_rcv_scheme" where
  "init_rcv c = c\<lparr>
     rcv_nxt := 0, rcv_wnd := KCP_WND_RCV, probe := 0, win_ts_probe := 0, probe_wait := 0,
     nrcv_buf := 0, nrcv_buf_unused := 0, nrcv_que := 0, rcv_queue_bytes := 0,
     rcv_queue := [], rcv_buf := Rb_Null, rcv_packet := Rb_Null, rcv_packet_list := [],
     rcv_buf_unused := [], ack_item := [], read_event_cb := False, write_event_cb := False\<rparr>"

definition init_session :: "sockaddr \<Rightarrow> 'a kcp_connection_scheme \<Rightarrow> 'a kcp_connection_scheme" where
  "init_session host c = c\<lparr>
     syn_timer_event := False, fin_timer_event := False, need_write_timer_event := False,
     receive_timeout := DEFAULT_RECEIVE_TIMEOUT,
     syn_retries := int DEFAULT_SYN_FIN_RETRIES, fin_retries := of_nat DEFAULT_SYN_FIN_RETRIES,
     remote_host := host, candidates := [], selected_candidate_index := - 1,
     kcp_proto_header_list := [],
     mtu_probe_context := (mtu_probe_context c)\<lparr>
       mtu_current := u32_of_i32 (if is_ipv6 host then ETHERNET_MTU_V6_MIN else ETHERNET_MTU_V4_MIN),
       probe_timeout_event := False, probe_timeout := DEFAULT_MTU_PROBE_TIMEOUT\<rparr>,
     ping_count := 0, pong_count := 0\<rparr>"

definition kcp_connection_init :: "kcp_connection \<Rightarrow> sockaddr \<Rightarrow> int \<Rightarrow> u64 \<Rightarrow> kcp_connection" where
  "kcp_connection_init raw host udp_mtu now_us =
     init_session host (init_rcv (init_cc now_us (init_snd udp_mtu host raw)))"

section \<open>Segment pools\<close>

text \<open>\<open>mem\<close> is what \<open>malloc\<close> returns when the pool is empty: nothing, or a block with old contents.\<close>

definition kcp_segment_send_get ::
    "kcp_segment option \<Rightarrow> 'a kcp_snd_scheme \<Rightarrow> kcp_segment option \<times> 'a kcp_snd_scheme" where
  "kcp_segment_send_get mem c =
     (case snd_buf_unused c of
        s # ss \<Rightarrow> (Some s, c\<lparr>snd_buf_unused := ss, nsnd_buf_unused := nsnd_buf_unused c - 1\<rparr>)
      | [] \<Rightarrow> (mem, c))"

definition kcp_segment_send_put :: "kcp_segment \<Rightarrow> 'a kcp_snd_scheme \<Rightarrow> 'a kcp_snd_scheme" where
  "kcp_segment_send_put seg c =
     (if nsnd_buf_unused c < snd_wnd c
      then c\<lparr>snd_buf_unused := snd_buf_unused c @ [seg], nsnd_buf_unused := nsnd_buf_unused c + 1\<rparr>
      else c)"

definition kcp_segment_recv_get ::
    "kcp_segment option \<Rightarrow> 'a kcp_rcv_scheme \<Rightarrow> kcp_segment option \<times> 'a kcp_rcv_scheme" where
  "kcp_segment_recv_get mem c =
     (case rcv_buf_unused c of
        s # ss \<Rightarrow> (Some s, c\<lparr>rcv_buf_unused := ss, nrcv_buf_unused := nrcv_buf_unused c - 1\<rparr>)
      | [] \<Rightarrow> (mem, c))"

definition kcp_segment_recv_put :: "kcp_segment \<Rightarrow> 'a kcp_rcv_scheme \<Rightarrow> 'a kcp_rcv_scheme" where
  "kcp_segment_recv_put seg c =
     (if nrcv_buf_unused c < rcv_wnd c
      then c\<lparr>rcv_buf_unused := rcv_buf_unused c @ [seg], nrcv_buf_unused := nrcv_buf_unused c + 1\<rparr>
      else c)"

definition kcp_send_packet :: "'a kcp_connection_scheme \<Rightarrow> bytes list \<Rightarrow> kcp_io \<Rightarrow> (kcp_error + nat) \<times> kcp_io" where
  "kcp_send_packet c data io = kcp_send_packet_raw (remote_host c) data io"

definition kcp_wnd_unused :: "'a kcp_rcv_scheme \<Rightarrow> int" where
  "kcp_wnd_unused c = (if nrcv_buf c < rcv_wnd c then rcv_wnd c - nrcv_buf c else 0)"

text \<open>\<open>kcp_random\<close>; \<open>value\<close> is the random word. The bounds are inclusive.\<close>

definition kcp_random :: "u32 \<Rightarrow> u32 \<Rightarrow> u32 \<Rightarrow> u32" where
  "kcp_random value a b =
     (let lo = min a b; hi = max a b
      in if lo = hi then lo else lo + value mod (hi - lo + 1))"

section \<open>Lemmas\<close>

lemma emit_simps [simp]:
  "io_trace (emit e io) = io_trace io @ [e]"
  "io_calls (emit e io) = io_calls io"
  "io_send (emit e io) = io_send io"
  "io_errno (emit e io) = io_errno io"
  "io_sendmmsg (emit e io) = io_sendmmsg io"
  by (simp_all add: emit_def)

text \<open>What the output path sends is a prefix of what it is given, in order.\<close>

lemma kcp_send_loop_trace:
  assumes "kcp_send_loop addr ds n io = (st, io')" and "[] \<notin> set ds"
  shows "\<exists>k. k \<le> length ds \<and> io_trace io' = io_trace io @ map (Send addr) (take k ds) \<and>
    io_send io' = io_send io \<and> io_sendmmsg io' = io_sendmmsg io \<and> (\<forall>m. st = Inr m \<longrightarrow> m = n + k)"
  using assms
proof (induction addr ds n io rule: kcp_send_loop.induct)
  case (1 addr n io)
  then show ?case by auto
next
  case (2 addr d ds n io)
  obtain res io1 where s: "sendmsg addr d io = (res, io1)" by (cases "sendmsg addr d io")
  show ?case
  proof (cases "res = Sent")
    case True
    then have tr: "io_trace io1 = io_trace io @ [Send addr d]" "io_send io1 = io_send io"
      "io_sendmmsg io1 = io_sendmmsg io"
      using s by (auto simp: sendmsg_def Let_def)
    have "kcp_send_loop addr ds (n + 1) io1 = (st, io')" using "2.prems" s True by (auto split: if_splits)
    from "2.IH" [OF s [symmetric] _ this] "2.prems" True obtain k where
      "k \<le> length ds" "io_trace io' = io_trace io1 @ map (Send addr) (take k ds)"
      "io_send io' = io_send io1" "io_sendmmsg io' = io_sendmmsg io1" "\<forall>m. st = Inr m \<longrightarrow> m = n + 1 + k" by auto
    then show ?thesis using tr by (intro exI [where x = "Suc k"]) auto
  next
    case False
    then have "io_trace io1 = io_trace io" "io_send io1 = io_send io" "io_sendmmsg io1 = io_sendmmsg io"
      using s by (auto simp: sendmsg_def Let_def split: send_outcome.splits)
    moreover have "io' = io1 \<and> (\<forall>m. st = Inr m \<longrightarrow> m = n)"
      using "2.prems" s False by (auto split: errno.splits)
    ultimately show ?thesis by (intro exI [where x = 0]) auto
  qed
qed

lemma sendmmsg_trace:
  "sendmmsg addr ds n io = (m, io') \<Longrightarrow>
     \<exists>k. k \<le> length ds \<and> io_trace io' = io_trace io @ map (Send addr) (take k ds) \<and>
       io_send io' = io_send io \<and> io_sendmmsg io' = io_sendmmsg io \<and> m = n + k"
proof (induction addr ds n io rule: sendmmsg.induct)
  case (1 addr n io)
  then show ?case by auto
next
  case (2 addr d ds n io)
  obtain res io1 where s: "sendmsg addr d io = (res, io1)" by (cases "sendmsg addr d io")
  show ?case
  proof (cases res)
    case Sent
    then have tr: "io_trace io1 = io_trace io @ [Send addr d]" "io_send io1 = io_send io"
      "io_sendmmsg io1 = io_sendmmsg io"
      using s by (auto simp: sendmsg_def Let_def)
    from "2.IH" [OF s [symmetric] Sent] "2.prems" s Sent obtain k where
      "k \<le> length ds" "io_trace io' = io_trace io1 @ map (Send addr) (take k ds)"
      "io_send io' = io_send io1" "io_sendmmsg io' = io_sendmmsg io1" "m = n + 1 + k" by auto
    then show ?thesis using tr by (intro exI [where x = "Suc k"]) auto
  next
    case (Send_failed e)
    then have "io_trace io1 = io_trace io" "io_send io1 = io_send io" "io_sendmmsg io1 = io_sendmmsg io"
      using s by (auto simp: sendmsg_def Let_def split: send_outcome.splits)
    then show ?thesis using "2.prems" s Send_failed by (intro exI [where x = 0]) (auto split: if_splits)
  qed
qed

text \<open>The output path as a whole, in either build.\<close>

lemma kcp_send_packet_raw_trace:
  assumes "kcp_send_packet_raw addr data io = (st, io')" and "[] \<notin> set data"
  shows "\<exists>k. k \<le> length data \<and> io_trace io' = io_trace io @ map (Send addr) (take k data) \<and>
    io_send io' = io_send io \<and> io_sendmmsg io' = io_sendmmsg io \<and> (\<forall>m. st = Inr m \<longrightarrow> m = k)"
proof (cases "int (length data) > KCP_PACKET_SIZE")
  case True
  then show ?thesis using assms by (auto simp: kcp_send_packet_raw_def intro: exI [where x = 0])
next
  case small: False
  show ?thesis
  proof (cases "io_sendmmsg io")
    case True
    obtain m io1 where s: "sendmmsg addr data 0 io = (m, io1)" by (cases "sendmmsg addr data 0 io")
    with assms small True have "io' = io1" "st = (if m = 0 then Inl WRITE_ERROR else Inr m)"
      by (auto simp: kcp_send_packet_raw_def)
    then show ?thesis using sendmmsg_trace [OF s] by auto
  next
    case False
    then have "kcp_send_loop addr data 0 io = (st, io')" using assms small by (simp add: kcp_send_packet_raw_def)
    from kcp_send_loop_trace [OF this assms(2)] show ?thesis by simp
  qed
qed

lemma kcp_random_range:
  assumes "a \<le> b" and "b - a + 1 \<noteq> 0"
  shows "a \<le> kcp_random v a b \<and> kcp_random v a b \<le> b"
proof -
  have mm: "min a b = a" "max a b = b" using assms(1) by (simp_all add: min_def max_def)
  have ge: "unat a \<le> unat b" using assms(1) by (simp add: word_le_nat_alt)
  have d: "unat (b - a) = unat b - unat a" using assms(1) by (rule unat_sub)
  have d1: "unat (b - a + 1) = unat b - unat a + 1"
    using assms(2) d by (metis Suc_eq_plus1 add.commute unatSuc)
  have r: "unat (v mod (b - a + 1)) < unat b - unat a + 1"
    using assms(2) d1 by (simp add: unat_mod_distrib)
  have "unat (a + v mod (b - a + 1)) = unat a + unat (v mod (b - a + 1))"
    using r ge unat_u32_less [of b] by (simp add: unat_word_ariths)
  then show ?thesis
    using r ge assms(1) by (auto simp: kcp_random_def Let_def mm word_le_nat_alt)
qed

lemma init_bbr_wf: "bbr_wf (kcp_connection_init raw host udp_mtu now)"
  by (simp add: kcp_connection_init_def init_session_def init_rcv_def init_cc_def init_snd_def bbr_wf_def
      bbr_filter_ok_def bbr_mode_ok_def bbr_cwnd_ok_def kcp_const i32_of_u32_def u32_of_i32_def
      foldl_max_Max)

subsection \<open>The interface of the output path\<close>

text \<open>
  What the clients of the output path rely on: a call adds sends to the trace, only of the given
  datagrams and only to the given address. \<open>grows P t t'\<close>: the trace grew from \<open>t\<close> to \<open>t'\<close>, and
  everything sent on the way satisfies \<open>P\<close>.
\<close>

definition grows :: "(sockaddr \<Rightarrow> bytes \<Rightarrow> bool) \<Rightarrow> kcp_effect list \<Rightarrow> kcp_effect list \<Rightarrow> bool" where
  "grows P t t' \<longleftrightarrow> (\<exists>es. t' = t @ es \<and> (\<forall>a d. Send a d \<in> set es \<longrightarrow> P a d))"

lemma grows_refl [simp, intro]: "grows P t t"
  by (simp add: grows_def)

lemma grows_trans: "grows P t t' \<Longrightarrow> grows P t' t'' \<Longrightarrow> grows P t t''"
  unfolding grows_def by (metis Un_iff append.assoc set_append)

lemma grows_snoc: "grows P t (t @ [e]) \<longleftrightarrow> (\<forall>a d. e = Send a d \<longrightarrow> P a d)"
  by (auto simp: grows_def)

lemma grows_emit [intro]: "grows P t (io_trace io) \<Longrightarrow> (\<And>a d. e \<noteq> Send a d) \<Longrightarrow> grows P t (io_trace (emit e io))"
  by (rule grows_trans [of P t "io_trace io"]) (auto simp: grows_def)

locale datagram_output =
  fixes send :: "sockaddr \<Rightarrow> bytes list \<Rightarrow> 'w \<Rightarrow> 'r \<times> 'w"
    and trace :: "'w \<Rightarrow> kcp_effect list"
  assumes trace_send: "\<exists>es. trace (snd (send a ds w)) = trace w @ es \<and> set es \<subseteq> Send a ` set ds"
begin

lemma grows_send:
  assumes "\<forall>d \<in> set ds. P a d"
  shows "grows P (trace w) (trace (snd (send a ds w)))"
  using trace_send [of a ds w] assms by (auto simp: grows_def)

lemma grows_sends:
  assumes "grows P t (trace w)" and "\<forall>d \<in> set ds. P a d"
  shows "grows P t (trace (snd (send a ds w)))"
  using assms(1) grows_send [of ds P a w] assms(2) by (blast intro: grows_trans)

end

lemma sendmsg_sends:
  "\<exists>es. io_trace (snd (sendmsg a d io)) = io_trace io @ es \<and> set es \<subseteq> {Send a d}"
  by (auto simp: sendmsg_def Let_def split: send_outcome.splits)

lemma kcp_send_loop_sends:
  "\<exists>es. io_trace (snd (kcp_send_loop a ds n io)) = io_trace io @ es \<and> set es \<subseteq> Send a ` set ds"
proof (induction a ds n io rule: kcp_send_loop.induct)
  case (2 a d ds n io)
  obtain res io1 where s: "sendmsg a d io = (res, io1)" by (cases "sendmsg a d io")
  obtain es where es: "io_trace io1 = io_trace io @ es" "set es \<subseteq> {Send a d}"
    using sendmsg_sends [of a d io] s by auto
  show ?case
  proof (cases "res = Sent \<and> d \<noteq> []")
    case True
    then obtain es' where "io_trace (snd (kcp_send_loop a ds (n + 1) io1)) = io_trace io1 @ es'" "set es' \<subseteq> Send a ` set ds"
      using "2.IH" [OF s [symmetric]] by auto
    then show ?thesis using es s True by (intro exI [where x = "es @ es'"]) auto
  next
    case False
    then show ?thesis using es s by (intro exI [where x = es]) (auto split: errno.splits)
  qed
qed simp

interpretation out: datagram_output kcp_send_packet_raw io_trace
proof
  fix a ds io
  show "\<exists>es. io_trace (snd (kcp_send_packet_raw a ds io)) = io_trace io @ es \<and> set es \<subseteq> Send a ` set ds"
  proof (cases "int (length ds) > KCP_PACKET_SIZE \<or> \<not> io_sendmmsg io")
    case True
    then show ?thesis using kcp_send_loop_sends [of a ds 0 io] by (auto simp: kcp_send_packet_raw_def)
  next
    case False
    obtain m io1 where s: "sendmmsg a ds 0 io = (m, io1)" by (cases "sendmmsg a ds 0 io")
    then show ?thesis
      using False sendmmsg_trace [OF s] by (auto simp: kcp_send_packet_raw_def dest: in_set_takeD)
  qed
qed

text \<open>The other inputs from outside are not touched by sending.\<close>

definition io_inputs :: "kcp_io \<Rightarrow> bool \<times> bool \<times> (nat \<Rightarrow> nat \<times> nat) \<times> nat \<times> (nat \<Rightarrow> u32) \<times> nat \<times> (nat \<Rightarrow> bool) \<times> nat" where
  "io_inputs io = (io_sendmmsg io, io_asserts io, io_clock io, io_ticks io, io_random io, io_randoms io, io_alloc io, io_allocs io)"

lemma sendmsg_inputs [simp]: "io_inputs (snd (sendmsg a d io)) = io_inputs io"
  by (simp add: sendmsg_def Let_def io_inputs_def emit_def split: send_outcome.splits)

lemma kcp_send_loop_inputs: "io_inputs (snd (kcp_send_loop a ds n io)) = io_inputs io"
proof (induction a ds n io rule: kcp_send_loop.induct)
  case (2 a d ds n io)
  obtain res io1 where s: "sendmsg a d io = (res, io1)" by (cases "sendmsg a d io")
  then have "io_inputs io1 = io_inputs io" using sendmsg_inputs [of a d io] by simp
  then show ?case using 2 s by (auto split: errno.splits)
qed simp

lemma sendmmsg_inputs: "io_inputs (snd (sendmmsg a ds n io)) = io_inputs io"
proof (induction a ds n io rule: sendmmsg.induct)
  case (2 a d ds n io)
  obtain res io1 where s: "sendmsg a d io = (res, io1)" by (cases "sendmsg a d io")
  then have "io_inputs io1 = io_inputs io" using sendmsg_inputs [of a d io] by simp
  then show ?case using 2 s by (auto simp: io_inputs_def split: send_outcome.splits)
qed simp

lemma kcp_send_packet_raw_inputs [simp]: "io_inputs (snd (kcp_send_packet_raw a ds io)) = io_inputs io"
  using kcp_send_loop_inputs [of a ds 0 io] sendmmsg_inputs [of a ds 0 io]
  by (auto simp: kcp_send_packet_raw_def split: prod.splits)

section \<open>Properties\<close>

text \<open>
  The output path: \<open>kcp_send_packet_raw\<close> hands a prefix of the given datagrams to the network,
  in order and once each, with and without \<open>sendmmsg\<close>; when it returns a count, the count is the
  length of that prefix.
\<close>

lemma send_packet_prefix:
  assumes "[] \<notin> set data"
  shows "\<exists>k. k \<le> length data \<and>
    io_trace (snd (kcp_send_packet_raw addr data io)) = io_trace io @ map (Send addr) (take k data) \<and>
    (\<forall>m. fst (kcp_send_packet_raw addr data io) = Inr m \<longrightarrow> m = k)"
  using kcp_send_packet_raw_trace [of addr data io "fst (kcp_send_packet_raw addr data io)"
      "snd (kcp_send_packet_raw addr data io)"] assms by auto

definition sample_io :: kcp_io where
  "sample_io = \<lparr>io_sendmmsg = False, io_asserts = False, io_send = (\<lambda>n. if n = 2 then Send_failed EAGAIN else Sent), io_calls = 0,
     io_errno = EOTHER, io_clock = (\<lambda>n. (100 + n, 5000)), io_ticks = 0, io_random = (\<lambda>n. 4711 + of_nat n),
     io_randoms = 0, io_alloc = (\<lambda>n. True), io_allocs = 0, io_trace = []\<rparr>"

end
