(* ===== verification/Kcp_Mtu.thy ===== *)
theory Kcp_Mtu
  imports Kcp_Connection
begin

text \<open>
  Path MTU probing: \<^verbatim>\<open>kcp/src/kcp_mtu.c\<close> and \<open>on_mtu_probe_completed\<close> of
  \<^verbatim>\<open>kcp/src/kcp_protocol.c\<close>. The part of the ICMP handlers that finds the connection is in
  \<open>Kcp_Session\<close>; what they do to its probe context is here.

  The loop of \<open>kcp_send_mtu_probe_packet\<close> goes on as long as the system reports \<open>EMSGSIZE\<close>. It has
  fuel, and \<open>mtu_probe_never_ends\<close> shows that it may not end. A function that uses it returns an option, \<open>None\<close>
  when the call does not return: because of that loop, or because of a failed \<open>assert\<close>.
\<close>

section \<open>Model\<close>

definition LOCALHOST_MTU :: int where "LOCALHOST_MTU = 65536"

definition kcp_get_localhost_mss :: "bool \<Rightarrow> int" where
  "kcp_get_localhost_mss ipv6 =
     (if ipv6 then LOCALHOST_MTU - IPV6_HEADER_SIZE - UDP_HEADER_SIZE
      else LOCALHOST_MTU - IPV4_HEADER_SIZE - UDP_HEADER_SIZE)"

definition on_mtu_probe_completed ::
    "u32 \<Rightarrow> kcp_error \<Rightarrow> kcp_connection \<Rightarrow> kcp_io \<Rightarrow> kcp_connection \<times> kcp_io" where
  "on_mtu_probe_completed new_mtu code c io =
     (if code = NO_ERROR then
        if mtu c > new_mtu then (c, emit (On_error (Some (conn_addr c)) MTU_REDUCTION) io)
        else
          let ip_header_size = (if is_ipv6 (remote_host c) then IPV6_HEADER_SIZE else IPV4_HEADER_SIZE);
              m = new_mtu - u32_of_i32 ip_header_size - u32_of_i32 UDP_HEADER_SIZE
          in (c\<lparr>mtu := m, mss := m - of_nat KCP_HEADER_SIZE\<rparr>, io)
      else (c, io))"

definition update_probe :: "(mtu_probe_ctx \<Rightarrow> mtu_probe_ctx) \<Rightarrow> kcp_connection \<Rightarrow> kcp_connection" where
  "update_probe f c = c\<lparr>mtu_probe_context := f (mtu_probe_context c)\<rparr>"

text \<open>The header of a probe, and the stores that put it in front of the probe data.\<close>

definition probe_header :: "kcp_connection \<Rightarrow> u64 \<Rightarrow> u32 \<Rightarrow> bytes \<Rightarrow> kcp_proto_header" where
  "probe_header c ts len dat =
     \<lparr>hd_scid = scid c, hd_dcid = dcid c, hd_cmd = KCP_CMD_MTU_PROBE, hd_opt = 0, hd_frg = 0, hd_wnd = 0,
      hd_body = Packet_data ts (ucast ts) 0 0 len dat, hd_options = []\<rparr>"

definition probe_stores :: "kcp_proto_header \<Rightarrow> bytes \<Rightarrow> bytes" where
  "probe_stores h buf =
     (case as_packet_data (hd_body h) of (ts, sn, psn, una, len, dat) \<Rightarrow>
        snd ((put (le_bytes 4 len) \<circ> put (le_bytes 4 una) \<circ> put (le_bytes 4 psn) \<circ> put (le_bytes 4 sn) \<circ>
              put (le_bytes 8 ts)) (encode_prefix h buf)))"

definition probe_mtu :: "mtu_probe_ctx \<Rightarrow> int" where
  "probe_mtu p = i32_of_u32 ((mtu_lbound p + mtu_ubound p) div 2)"

text \<open>One round of the loop of \<open>kcp_send_mtu_probe_packet\<close>; the result says whether it leaves the loop.\<close>

definition mtu_probe_round :: "(bytes \<Rightarrow> u64) \<Rightarrow> kcp_connection \<Rightarrow> kcp_io \<Rightarrow> bool \<times> kcp_connection \<times> kcp_io" where
  "mtu_probe_round xxh64 c io =
     (let p = mtu_probe_context c;
          cur = probe_mtu p;
          data_length = cur - (if is_ipv6 (remote_host c) then IPV6_HEADER_SIZE else IPV4_HEADER_SIZE) - UDP_HEADER_SIZE;
          (ts, io1) = kcp_time_monotonic_us io;
          dat = take (nat data_length) (drop KCP_HEADER_SIZE (probe_buf p));
          h = probe_header c ts (u32_of_i32 data_length) dat;
          buf = probe_stores h (probe_buf p);
          c1 = update_probe (\<lambda>q. q\<lparr>prev_sn := ucast ts, probe_hash := xxh64 dat, probe_buf := buf\<rparr>) c;
          count = (if probe_retries p < 2 then unat (probe_retries p) else 1);
          (st, io2) = kcp_send_packet c1 (replicate count (take (KCP_HEADER_SIZE + nat data_length) buf)) io1
      in if st = Inr count then (True, c1, io2)
         else if io_errno io2 = EMSGSIZE
         then (False, update_probe (\<lambda>q. q\<lparr>mtu_ubound := u32_of_i32 (cur - 1)\<rparr>) c1, io2)
         else (True, c1, io2))"

primrec kcp_send_mtu_probe_packet ::
    "nat \<Rightarrow> (bytes \<Rightarrow> u64) \<Rightarrow> kcp_connection \<Rightarrow> kcp_io \<Rightarrow> (kcp_connection \<times> kcp_io) option" where
  "kcp_send_mtu_probe_packet 0 xxh64 c io = None"
| "kcp_send_mtu_probe_packet (Suc fuel) xxh64 c io =
     (case mtu_probe_round xxh64 c io of
        (True, c', io') \<Rightarrow> Some (c', io')
      | (False, c', io') \<Rightarrow> kcp_send_mtu_probe_packet fuel xxh64 c' io')"

definition mtu_fuel :: nat where "mtu_fuel = 1500"

definition kcp_mtu_probe ::
    "(bytes \<Rightarrow> u64) \<Rightarrow> u32 \<Rightarrow> u16 \<Rightarrow> kcp_connection \<Rightarrow> kcp_io \<Rightarrow> (kcp_error \<times> kcp_connection \<times> kcp_io) option" where
  "kcp_mtu_probe xxh64 timeout0 retry c io =
     (let timeout = (if timeout0 = 0 then u32_of_i32 (s32 (2 * rx_srtt c)) else timeout0);
          c1 = update_probe (\<lambda>q. q\<lparr>mtu_lbound := mtu_current q, mtu_ubound := of_nat ETHERNET_MTU,
                 probe_timeout := timeout, probe_retries := retry\<rparr>) c;
          (ok, io1) = (if probe_timeout_event (mtu_probe_context c1) then (True, io) else malloc io)
      in if \<not> ok then Some (NO_MEMORY, c1, io1)
         else
           let c2 = update_probe (\<lambda>q. q\<lparr>probe_timeout_event := True\<rparr>) c1
           in (case kcp_send_mtu_probe_packet mtu_fuel xxh64 c2 (emit (Timer_del (conn_addr c) Mtu_timer) io1) of
                 None \<Rightarrow> None
               | Some (c3, io3) \<Rightarrow> Some (NO_ERROR, c3, emit (Timer_add (conn_addr c) Mtu_timer timeout) io3)))"

definition mtu_probe_update ::
    "(bytes \<Rightarrow> u64) \<Rightarrow> kcp_connection \<Rightarrow> kcp_io \<Rightarrow> (kcp_connection \<times> kcp_io) option" where
  "mtu_probe_update xxh64 c io =
     (let p = mtu_probe_context c
      in if io_asserts io \<and> \<not> mtu_lbound p \<le> mtu_ubound p then None
         else if mtu_ubound p - mtu_lbound p \<le> 16
         then Some (on_mtu_probe_completed (mtu_lbound p) NO_ERROR
                (update_probe (\<lambda>q. q\<lparr>mtu_current := mtu_lbound q, mtu_ubound := mtu_lbound q\<rparr>) c)
                (emit (Timer_del (conn_addr c) Mtu_timer) io))
         else
           let c1 = update_probe (\<lambda>q. q\<lparr>mtu_current := (mtu_lbound q + mtu_ubound q) div 2\<rparr>) c
           in (case kcp_mtu_probe xxh64 (probe_timeout p) (probe_retries p) c1 io of
                 None \<Rightarrow> None
               | Some (_, c2, io2) \<Rightarrow> Some (c2, io2)))"

definition kcp_mtu_probe_timeout_cb ::
    "(bytes \<Rightarrow> u64) \<Rightarrow> kcp_connection \<Rightarrow> kcp_io \<Rightarrow> (kcp_connection \<times> kcp_io) option" where
  "kcp_mtu_probe_timeout_cb xxh64 c io =
     mtu_probe_update xxh64 (update_probe (\<lambda>q. q\<lparr>mtu_ubound := mtu_ubound q - 1\<rparr>) c) io"

text \<open>
  The answer to a probe is encoded into a buffer on the stack that is not cleared: \<open>stack\<close> are the
  bytes found there.
\<close>

definition kcp_mtu_probe_received ::
    "(bytes \<Rightarrow> u64) \<Rightarrow> bytes \<Rightarrow> kcp_proto_header \<Rightarrow> u64 \<Rightarrow> kcp_connection \<Rightarrow> kcp_io \<Rightarrow> kcp_error \<times> kcp_io" where
  "kcp_mtu_probe_received xxh64 stack h timestamp c io =
     (case as_packet_data (hd_body h) of (ts, sn, psn, una, len, dat) \<Rightarrow>
        let hash = xxh64 (take (unat len) dat);
            ack = \<lparr>hd_scid = hd_dcid h, hd_dcid = hd_scid h, hd_cmd = KCP_CMD_MTU_ACK, hd_opt = 0, hd_frg = 0,
                   hd_wnd = 0, hd_body = Packet_data timestamp sn 0 0 8 (le_bytes 8 hash), hd_options = []\<rparr>;
            buffer = snd (kcp_proto_header_encode ack (take (KCP_HEADER_SIZE + 8) stack) (KCP_HEADER_SIZE + 8))
        in (NO_ERROR, snd (kcp_send_packet c [buffer] io)))"

text \<open>The hash of an answer is loaded from the payload; \<open>behind\<close> are the bytes behind it in the read buffer.\<close>

definition kcp_mtu_ack_received ::
    "(bytes \<Rightarrow> u64) \<Rightarrow> bytes \<Rightarrow> kcp_proto_header \<Rightarrow> kcp_connection \<Rightarrow> kcp_io \<Rightarrow> (kcp_error \<times> kcp_connection \<times> kcp_io) option" where
  "kcp_mtu_ack_received xxh64 behind h c io =
     (case as_packet_data (hd_body h) of (ts, sn, psn, una, len, dat) \<Rightarrow>
        let p = mtu_probe_context c
        in if sn \<noteq> prev_sn p then Some (NO_ERROR, c, io)
           else if le_word (take 8 (dat @ behind)) \<noteq> probe_hash p then Some (NO_ERROR, c, io)
           else if mtu_lbound p \<ge> mtu_ubound p
           then (case on_mtu_probe_completed (mtu_current p) NO_ERROR c io of (c', io') \<Rightarrow> Some (NO_ERROR, c', io'))
           else (case mtu_probe_update xxh64 (update_probe (\<lambda>q. q\<lparr>mtu_lbound := mtu_current q + 1\<rparr>) c) io of
                   None \<Rightarrow> None
                 | Some (c', io') \<Rightarrow> Some (NO_ERROR, c', io')))"

text \<open>ICMP \<open>fragmentation needed\<close> for a connection.\<close>

definition icmp_fragmentation ::
    "(bytes \<Rightarrow> u64) \<Rightarrow> u16 \<Rightarrow> kcp_connection \<Rightarrow> kcp_io \<Rightarrow> (kcp_connection \<times> kcp_io) option" where
  "icmp_fragmentation xxh64 next_hop_mtu c io =
     (if next_hop_mtu \<ge> 576 \<and> next_hop_mtu < 0x2000
      then (case mtu_probe_update xxh64 (update_probe (\<lambda>q. q\<lparr>mtu_ubound := min (ucast next_hop_mtu) (mtu_ubound q)\<rparr>) c) io of
              None \<Rightarrow> None
            | Some (c', io') \<Rightarrow> Some (update_probe (\<lambda>q. q\<lparr>mtu_current := mtu_ubound q\<rparr>) c', io'))
      else mtu_probe_update xxh64 (update_probe (\<lambda>q. q\<lparr>mtu_ubound := (mtu_lbound q + mtu_ubound q) div 2\<rparr>) c) io)"

section \<open>Lemmas\<close>

text \<open>A network that reports \<open>EMSGSIZE\<close> for every datagram.\<close>

definition always_too_large :: "kcp_io \<Rightarrow> bool" where
  "always_too_large io \<longleftrightarrow> (\<forall>n. io_send io n = Send_failed EMSGSIZE)"

lemma send_too_large:
  assumes "always_too_large io" and "ds \<noteq> []" and "int (length ds) \<le> KCP_PACKET_SIZE"
    and "kcp_send_packet_raw a ds io = (st, io')"
  shows "(\<forall>n. st \<noteq> Inr n) \<and> io_errno io' = EMSGSIZE \<and> always_too_large io'"
proof -
  obtain d ds' where "ds = d # ds'" using assms(2) by (cases ds) auto
  then show ?thesis
    using assms by (auto simp: kcp_send_packet_raw_def sendmsg_def Let_def always_too_large_def split: if_splits)
qed

text \<open>One round: the upper bound becomes one less than the middle, and nothing else that matters changes.\<close>

lemma mtu_probe_round_too_large:
  assumes net: "always_too_large io" and r: "probe_retries (mtu_probe_context c) \<noteq> 0"
  shows "\<exists>c' io'. mtu_probe_round x c io = (False, c', io') \<and> always_too_large io' \<and>
    probe_retries (mtu_probe_context c') = probe_retries (mtu_probe_context c) \<and>
    mtu_lbound (mtu_probe_context c') = mtu_lbound (mtu_probe_context c) \<and>
    mtu_ubound (mtu_probe_context c') = u32_of_i32 (probe_mtu (mtu_probe_context c) - 1)"
proof -
  obtain b c' io' where m: "mtu_probe_round x c io = (b, c', io')" by (metis prod.exhaust)
  let ?p = "mtu_probe_context c"
  let ?n = "if probe_retries ?p < 2 then unat (probe_retries ?p) else 1"
  have n: "?n \<noteq> 0" "int ?n \<le> KCP_PACKET_SIZE"
    using r unat_gt_0 [of "probe_retries ?p"] by (auto simp: kcp_const word_less_nat_alt)
  have t: "always_too_large (snd (kcp_time_monotonic_us io))"
    using net by (simp add: kcp_time_monotonic_us_def always_too_large_def split: prod.splits)
  have s: "st \<noteq> Inr ?n \<and> io_errno io2 = EMSGSIZE \<and> always_too_large io2"
    if "kcp_send_packet_raw a (replicate ?n d) (snd (kcp_time_monotonic_us io)) = (st, io2)" for a d st io2
    using send_too_large [OF t _ _ that] n by simp
  show ?thesis
    using m s unfolding mtu_probe_round_def Let_def kcp_send_packet_def
    by (auto simp: update_probe_def split: prod.splits if_splits)
qed

lemma probe_mtu_fixed:
  assumes "mtu_ubound p + 2 = mtu_lbound p" and "2 \<le> mtu_lbound p" and "mtu_lbound p < 2 ^ 30"
  shows "u32_of_i32 (probe_mtu p - 1) = mtu_ubound p"
proof -
  define l where "l = unat (mtu_lbound p)"
  have l: "2 \<le> l" "l < 2 ^ 30" "mtu_lbound p = of_nat l"
    using assms(2,3) by (simp_all add: l_def word_le_nat_alt word_less_nat_alt)
  have u: "mtu_ubound p = of_nat (l - 2)"
    using assms(1) l by (simp add: of_nat_diff eq_diff_eq)
  have "mtu_lbound p + mtu_ubound p = (of_nat (2 * (l - 1)) :: u32)" using l u by (simp add: of_nat_diff algebra_simps)
  moreover have "(of_nat (2 * (l - 1)) :: u32) div 2 = of_nat (l - 1)"
  proof -
    define k where "k = l - 1"
    have "k < 2 ^ 30" using l by (simp add: k_def)
    then have "unat (of_nat (2 * k) :: u32) = 2 * k" "unat (of_nat k :: u32) = k" by (simp_all only: unat_of_nat) simp_all
    then have "(of_nat (2 * k) :: u32) div 2 = of_nat k" by (simp add: word_unat_eq_iff unat_div)
    then show ?thesis by (simp only: k_def)
  qed
  ultimately have "probe_mtu p = int (l - 1)"
    using l i32_of_u32_of_nat [of "l - 1"] by (simp add: probe_mtu_def)
  then show ?thesis using l u by (simp add: u32_of_i32_def of_nat_diff)
qed

section \<open>Properties\<close>

text \<open>
  The loop that sends a probe need not end: when the system refuses every datagram as too large
  (the interface has a smaller MTU than the lower bound of the search) and the bounds have met, the
  loop tries the same size again for ever. No number of rounds is enough.
\<close>

lemma mtu_probe_never_ends:
  assumes "always_too_large io" and "probe_retries (mtu_probe_context c) \<noteq> 0"
    and "mtu_ubound (mtu_probe_context c) + 2 = mtu_lbound (mtu_probe_context c)"
    and "2 \<le> mtu_lbound (mtu_probe_context c)" and "mtu_lbound (mtu_probe_context c) < 2 ^ 30"
  shows "kcp_send_mtu_probe_packet fuel xxh64 c io = None"
  using assms
proof (induction fuel arbitrary: c io)
  case (Suc fuel)
  let ?p = "mtu_probe_context c"
  obtain c' io' where r: "mtu_probe_round xxh64 c io = (False, c', io')" "always_too_large io'"
      "probe_retries (mtu_probe_context c') = probe_retries ?p" "mtu_lbound (mtu_probe_context c') = mtu_lbound ?p"
      "mtu_ubound (mtu_probe_context c') = u32_of_i32 (probe_mtu ?p - 1)"
    using mtu_probe_round_too_large [OF Suc.prems(1,2)] by blast
  have "u32_of_i32 (probe_mtu ?p - 1) = mtu_ubound ?p"
    using Suc.prems(3-5) by (rule probe_mtu_fixed)
  then have "kcp_send_mtu_probe_packet fuel xxh64 c' io' = None" using r Suc.prems by (intro Suc.IH) simp_all
  then show ?case using r(1) by simp
qed simp

end
