(* ===== verification/Kcp_Bitmap.thy ===== *)
theory Kcp_Bitmap
  imports Kcp_Prelude
begin

text \<open>
  The bitmap of \<^verbatim>\<open>kcp/3rd_party/bitmap.c\<close> that the context uses as its pool of connection
  ids: a byte array, the number of bits and the number of bytes. \<open>malloc\<close> is the argument
  \<open>mem\<close>: \<open>None\<close> when it fails, otherwise the block with its (arbitrary) contents.

  The locale \<open>id_pool\<close> is the interface the id allocation relies on; it is interpreted on the
  bitmap operations.
\<close>

section \<open>Model\<close>

record bitmap =
  bm_array :: bytes
  bm_size :: u32
  bm_capacity :: u32

definition BITS_PEER_BYTE :: nat where
  "BITS_PEER_BYTE = 8"

definition bitmap_create :: "u32 \<Rightarrow> bytes option \<Rightarrow> bitmap option" where
  "bitmap_create n mem =
     (case mem of
        None \<Rightarrow> None
      | Some block \<Rightarrow> Some \<lparr>bm_array = block, bm_size = n, bm_capacity = n div 8 + 1\<rparr>)"

definition bitmap_clear :: "bitmap \<Rightarrow> bitmap" where
  "bitmap_clear b = b\<lparr>bm_array := replicate (unat (bm_capacity b)) 0\<rparr>"

definition bitmap_fill :: "bitmap \<Rightarrow> bitmap" where
  "bitmap_fill b = b\<lparr>bm_array := replicate (unat (bm_capacity b)) 0xFF\<rparr>"

definition bitset_copy :: "bitmap \<Rightarrow> bitmap \<Rightarrow> bytes option \<Rightarrow> bool \<times> bitmap" where
  "bitset_copy this other mem =
     (case mem of
        None \<Rightarrow> (False, this\<lparr>bm_array := []\<rparr>)
      | Some block \<Rightarrow>
          (True, \<lparr>bm_array = store_bytes 0 (take (unat (bm_capacity other)) (bm_array other)) block,
                  bm_size = bm_size other, bm_capacity = bm_capacity other\<rparr>))"

definition bitmap_set :: "bitmap \<Rightarrow> u32 \<Rightarrow> bool \<Rightarrow> bitmap" where
  "bitmap_set b index value =
     (if bm_size b \<le> index then b
      else
        let byte_index = unat index div BITS_PEER_BYTE;
            bit_index = unat index mod BITS_PEER_BYTE;
            mask = push_bit bit_index (1 :: u8)
        in if value
           then b\<lparr>bm_array := (bm_array b)[byte_index := (bm_array b ! byte_index) OR mask]\<rparr>
           else b\<lparr>bm_array := (bm_array b)[byte_index := (bm_array b ! byte_index) AND NOT mask]\<rparr>)"

definition bitmap_get :: "bitmap \<Rightarrow> u32 \<Rightarrow> bool" where
  "bitmap_get b index =
     (if bm_size b \<le> index then False
      else
        let byte_index = unat index div BITS_PEER_BYTE;
            bit_index = unat index mod BITS_PEER_BYTE;
            mask = push_bit bit_index (1 :: u8)
        in (bm_array b ! byte_index) AND mask \<noteq> 0)"

text \<open>\<open>__builtin_popcount\<close>, and the portable version used on other systems.\<close>

definition popcount :: "u32 \<Rightarrow> nat" where
  "popcount n = length (filter (bit n) [0..<32])"

definition popcount_portable :: "u32 \<Rightarrow> u32" where
  "popcount_portable n0 =
     (let n1 = (n0 AND 0x55555555) + (drop_bit 1 n0 AND 0x55555555);
          n2 = (n1 AND 0x33333333) + (drop_bit 2 n1 AND 0x33333333);
          n3 = (n2 AND 0x0F0F0F0F) + (drop_bit 4 n2 AND 0x0F0F0F0F);
          n4 = (n3 AND 0x00FF00FF) + (drop_bit 8 n3 AND 0x00FF00FF)
      in (n4 AND 0x0000FFFF) + (drop_bit 16 n4 AND 0x0000FFFF))"

definition count_bits64 :: "u64 \<Rightarrow> nat" where
  "count_bits64 v = popcount (ucast (v AND 0xFFFFFFFF)) + popcount (ucast (drop_bit 32 v))"

definition count_bits8 :: "u8 \<Rightarrow> nat" where
  "count_bits8 v = popcount (ucast v)"

text \<open>The two loops of \<open>bitmap_count\<close>: eight bytes at a time, then the remaining bytes.\<close>

primrec count_words64 :: "nat \<Rightarrow> bytes \<Rightarrow> nat" where
  "count_words64 0 bs = 0"
| "count_words64 (Suc n) bs = count_bits64 (le_word (take 8 bs)) + count_words64 n (drop 8 bs)"

primrec count_tail8 :: "nat \<Rightarrow> bytes \<Rightarrow> nat" where
  "count_tail8 0 bs = 0"
| "count_tail8 (Suc n) bs =
     (if hd bs \<noteq> 0 then count_bits8 (hd bs) else 0) + count_tail8 n (tl bs)"

definition bitmap_count :: "bitmap \<Rightarrow> nat" where
  "bitmap_count b =
     (let bytes = unat (bm_size b) div BITS_PEER_BYTE;
          len = bytes div 8;
          reserveSize = bytes mod 8
      in count_words64 len (bm_array b) + count_tail8 reserveSize (drop (8 * len) (bm_array b)))"

text \<open>Well-formedness: the array has as many bytes as the capacity says.\<close>

definition bitmap_wf :: "bitmap \<Rightarrow> bool" where
  "bitmap_wf b \<longleftrightarrow>
     unat (bm_capacity b) = unat (bm_size b) div 8 + 1 \<and> length (bm_array b) = unat (bm_capacity b)"

section \<open>The interface of the id pool\<close>

locale id_pool =
  fixes get :: "'p \<Rightarrow> u32 \<Rightarrow> bool"
    and put :: "'p \<Rightarrow> u32 \<Rightarrow> bool \<Rightarrow> 'p"
    and invar :: "'p \<Rightarrow> bool"
    and limit :: "'p \<Rightarrow> u32"
  assumes invar_put: "invar p \<Longrightarrow> invar (put p i v)"
    and limit_put: "limit (put p i v) = limit p"
    and get_out: "limit p \<le> i \<Longrightarrow> \<not> get p i"
    and get_put: "invar p \<Longrightarrow> i < limit p \<Longrightarrow> get (put p i v) j = (if j = i then v else get p j)"
    and put_out: "limit p \<le> i \<Longrightarrow> put p i v = p"
begin

lemma get_put_other: "invar p \<Longrightarrow> j \<noteq> i \<Longrightarrow> get (put p i v) j = get p j"
  by (cases "i < limit p") (simp_all add: get_put put_out)

lemma release_acquire: "invar p \<Longrightarrow> i < limit p \<Longrightarrow> \<not> get p i \<Longrightarrow> get (put (put p i True) i False) = get p"
  by (rule ext) (simp add: get_put invar_put limit_put)

lemma used_put_True:
  "invar p \<Longrightarrow> i < limit p \<Longrightarrow> {j. get (put p i True) j} = insert i {j. get p j}"
  by (auto simp: get_put)

lemma used_put_False:
  "invar p \<Longrightarrow> i < limit p \<Longrightarrow> {j. get (put p i False) j} = {j. get p j} - {i}"
  by (auto simp: get_put)

end

section \<open>Lemmas\<close>

lemma bitmap_get_alt:
  "bitmap_get b i \<longleftrightarrow> i < bm_size b \<and> bit (bm_array b ! (unat i div 8)) (unat i mod 8)"
  by (auto simp: bitmap_get_def BITS_PEER_BYTE_def Let_def linorder_not_le
      bit_iff_and_push_bit_not_eq_0 [of "bm_array b ! (unat i div 8)"])

lemma byte_index_in_array: "bitmap_wf b \<Longrightarrow> i < bm_size b \<Longrightarrow> unat i div 8 < length (bm_array b)"
  by (auto simp: bitmap_wf_def word_less_nat_alt intro: div_le_mono le_imp_less_Suc)

lemma bitmap_wf_create:
  assumes "length block = unat (n div 8 + 1)"
  shows "\<exists>b. bitmap_create n (Some block) = Some b \<and> bitmap_wf b"
proof -
  have "unat n div 8 + 1 < 2 ^ 32"
    using unat_u32_less [of n] by simp
  then have "unat (n div 8 + 1) = unat n div 8 + 1"
    by (simp add: unat_word_ariths unat_div)
  then show ?thesis
    using assms by (simp add: bitmap_create_def bitmap_wf_def)
qed

lemma bitmap_wf_set: "bitmap_wf b \<Longrightarrow> bitmap_wf (bitmap_set b i v)"
  by (simp add: bitmap_set_def bitmap_wf_def Let_def)

lemma bm_size_set [simp]: "bm_size (bitmap_set b i v) = bm_size b"
  by (simp add: bitmap_set_def Let_def)

lemma unat_div_mod_eq: "unat i div 8 = unat j div 8 \<Longrightarrow> unat i mod 8 = unat j mod 8 \<Longrightarrow> i = j"
  by (metis div_mult_mod_eq word_unat_eq_iff)

lemma bitmap_get_set:
  assumes "bitmap_wf b" and "i < bm_size b"
  shows "bitmap_get (bitmap_set b i v) j = (if j = i then v else bitmap_get b j)"
proof (cases "unat j div 8 = unat i div 8")
  case True
  have "unat i div 8 < length (bm_array b)" using assms by (rule byte_index_in_array)
  moreover have "unat i mod 8 < 8" "unat j mod 8 < 8" by simp_all
  moreover have "j = i \<longleftrightarrow> unat j mod 8 = unat i mod 8"
    using True unat_div_mod_eq by blast
  ultimately show ?thesis
    using True assms(2)
    by (auto simp: bitmap_get_alt bitmap_set_def BITS_PEER_BYTE_def Let_def bit_simps
        linorder_not_le[symmetric])
next
  case False
  then show ?thesis
    using assms(2) by (auto simp: bitmap_get_alt bitmap_set_def BITS_PEER_BYTE_def Let_def)
qed

interpretation bmp: id_pool bitmap_get bitmap_set bitmap_wf bm_size
proof unfold_locales
  show "bitmap_wf p \<Longrightarrow> bitmap_wf (bitmap_set p i v)" for p i v
    by (rule bitmap_wf_set)
  show "bm_size (bitmap_set p i v) = bm_size p" for p i v
    by (rule bm_size_set)
  show "bm_size p \<le> i \<Longrightarrow> \<not> bitmap_get p i" for p i
    by (simp add: bitmap_get_def)
  show "bitmap_wf p \<Longrightarrow> i < bm_size p \<Longrightarrow>
      bitmap_get (bitmap_set p i v) j = (if j = i then v else bitmap_get p j)" for p i v j
    by (rule bitmap_get_set)
  show "bm_size p \<le> i \<Longrightarrow> bitmap_set p i v = p" for p i v
    by (simp add: bitmap_set_def)
qed

subsection \<open>Counting\<close>

lemma card_Collect_less_filter: "length (filter P [0..<n]) = card {k. k < n \<and> P k}"
proof -
  have "card (set (filter P [0..<n])) = length (filter P [0..<n])"
    by (rule distinct_card) simp
  then show ?thesis by simp
qed

lemma popcount_card: "popcount n = card {k. k < 32 \<and> bit n k}"
  by (simp add: popcount_def card_Collect_less_filter)

lemma count_bits8_card: "count_bits8 v = card {k. k < 8 \<and> bit v k}"
proof -
  have "{k. k < 32 \<and> bit (ucast v :: u32) k} = {k. k < 8 \<and> bit v k}"
    by (auto simp: bit_simps dest: bit_imp_le_length)
  then show ?thesis by (simp add: count_bits8_def popcount_card)
qed

lemma card_split_add:
  fixes a b :: nat
  shows "card {k. k < a + b \<and> P k} = card {k. k < a \<and> P k} + card {k. k < b \<and> P (a + k)}"
proof -
  have *: "{k. k < a + b \<and> P k} = {k. k < a \<and> P k} \<union> (+) a ` {k. k < b \<and> P (a + k)}"
    by (auto simp: image_iff) (metis add_less_cancel_left le_Suc_ex linorder_not_less)
  show ?thesis
    unfolding * by (subst card_Un_disjoint) (auto simp: card_image)
qed

lemma count_bits64_card: "count_bits64 v = card {k. k < 64 \<and> bit v k}"
proof -
  have mask: "(0xFFFFFFFF :: u64) = mask 32" by (simp add: mask_eq_exp_minus_1)
  have "{k. k < 32 \<and> bit (ucast (v AND 0xFFFFFFFF) :: u32) k} = {k. k < 32 \<and> bit v k}"
    by (auto simp: mask bit_simps)
  moreover have "{k. k < 32 \<and> bit (ucast (drop_bit 32 v) :: u32) k} = {k. k < 32 \<and> bit v (32 + k)}"
    by (auto simp: bit_simps)
  ultimately show ?thesis
    using card_split_add [of 32 32 "bit v"] by (simp add: count_bits64_def popcount_card)
qed

lemma card_bits_bytes:
  "card {m. m < 8 * length bs \<and> bit (bs ! (m div 8)) (m mod 8)} = sum_list (map count_bits8 bs)"
proof (induction bs)
  case Nil
  then show ?case by simp
next
  case (Cons b bs)
  have "card {k. k < 8 \<and> bit ((b # bs) ! (k div 8)) (k mod 8)} = count_bits8 b"
    by (auto simp: count_bits8_card intro!: arg_cong [where f = card])
  moreover have "(8 + m) div 8 - Suc 0 = m div 8" for m :: nat
    by simp
  ultimately show ?case
    using card_split_add [of 8 "8 * length bs" "\<lambda>m. bit ((b # bs) ! (m div 8)) (m mod 8)"] Cons
    by simp
qed

lemma count_bits64_bytes:
  assumes "length bs = 8"
  shows "count_bits64 (le_word bs) = sum_list (map count_bits8 bs)"
proof -
  have "{k. k < 64 \<and> bit (le_word bs :: u64) k} = {m. m < 8 * length bs \<and> bit (bs ! (m div 8)) (m mod 8)}"
    using assms by (auto simp: bit_le_word_iff)
  then show ?thesis by (simp add: count_bits64_card card_bits_bytes)
qed

lemma count_words64_sum:
  "8 * n \<le> length bs \<Longrightarrow> count_words64 n bs = sum_list (map count_bits8 (take (8 * n) bs))"
proof (induction n arbitrary: bs)
  case 0
  then show ?case by simp
next
  case (Suc n)
  have "take (8 * Suc n) bs = take 8 bs @ take (8 * n) (drop 8 bs)"
    by (simp add: take_add)
  with Suc show ?case by (simp add: count_bits64_bytes)
qed

lemma count_tail8_sum: "n \<le> length bs \<Longrightarrow> count_tail8 n bs = sum_list (map count_bits8 (take n bs))"
proof (induction n arbitrary: bs)
  case 0
  then show ?case by simp
next
  case (Suc n)
  then obtain b bs' where "bs = b # bs'" by (cases bs) auto
  with Suc show ?case by (auto simp: count_bits8_def popcount_def)
qed

lemma bitmap_count_sum:
  assumes "bitmap_wf b"
  shows "bitmap_count b = sum_list (map count_bits8 (take (unat (bm_size b) div 8) (bm_array b)))"
proof -
  define n where "n = unat (bm_size b) div 8"
  have len: "n \<le> length (bm_array b)" using assms by (simp add: bitmap_wf_def n_def)
  have n: "n = 8 * (n div 8) + n mod 8" by simp
  have "take n (bm_array b) =
      take (8 * (n div 8)) (bm_array b) @ take (n mod 8) (drop (8 * (n div 8)) (bm_array b))"
    by (metis n take_add)
  moreover have "count_words64 (n div 8) (bm_array b) =
      sum_list (map count_bits8 (take (8 * (n div 8)) (bm_array b)))"
    by (rule count_words64_sum) (use len in auto)
  moreover have "count_tail8 (n mod 8) (drop (8 * (n div 8)) (bm_array b)) =
      sum_list (map count_bits8 (take (n mod 8) (drop (8 * (n div 8)) (bm_array b))))"
    by (rule count_tail8_sum) (use len n in \<open>simp; arith\<close>)
  ultimately show ?thesis
    by (simp add: bitmap_count_def BITS_PEER_BYTE_def Let_def n_def)
qed

lemma bitmap_count_card:
  assumes "bitmap_wf b"
  shows "bitmap_count b = card {i. unat i < 8 * (unat (bm_size b) div 8) \<and> bitmap_get b i}"
proof -
  define n where "n = unat (bm_size b) div 8"
  have len: "n \<le> length (bm_array b)" using assms by (simp add: bitmap_wf_def n_def)
  have n8: "8 * n \<le> unat (bm_size b)" by (simp add: n_def)
  have "{m. m < 8 * n \<and> bit (take n (bm_array b) ! (m div 8)) (m mod 8)} =
      {m. m < 8 * n \<and> bit (bm_array b ! (m div 8)) (m mod 8)}"
    by auto
  then have "bitmap_count b = card {m. m < 8 * n \<and> bit (bm_array b ! (m div 8)) (m mod 8)}"
    using card_bits_bytes [of "take n (bm_array b)"] len
    by (simp add: bitmap_count_sum assms n_def [symmetric])
  also have "{m. m < 8 * n \<and> bit (bm_array b ! (m div 8)) (m mod 8)} =
      unat ` {i. unat i < 8 * n \<and> bitmap_get b i}"
  proof (intro equalityI subsetI)
    fix m assume m: "m \<in> {m. m < 8 * n \<and> bit (bm_array b ! (m div 8)) (m mod 8)}"
    then have "unat (word_of_nat m :: u32) = m"
      using n8 unat_u32_less [of "bm_size b"] by (simp add: unat_of_nat)
    then show "m \<in> unat ` {i. unat i < 8 * n \<and> bitmap_get b i}"
      using m n8 by (auto simp: image_iff bitmap_get_alt word_less_nat_alt intro!: exI [where x = "word_of_nat m"])
  qed (auto simp: bitmap_get_alt)
  also have "card \<dots> = card {i. unat i < 8 * n \<and> bitmap_get b i}"
    by (rule card_image) (auto simp: inj_on_def word_unat_eq_iff)
  finally show ?thesis by (simp add: n_def)
qed

section \<open>Properties\<close>

text \<open>
  Setting a bit of the pool: a later read of that index returns the new value and every other
  index reads as before; the count grows by one exactly when a clear bit below the last full byte
  is set. Indices from \<open>size\<close> on are ignored.
\<close>

lemma bitmap_set_laws:
  assumes "bitmap_wf b"
  shows "bitmap_wf (bitmap_set b i v) \<and>
    (\<forall>j. bitmap_get (bitmap_set b i v) j = (if j = i \<and> i < bm_size b then v else bitmap_get b j)) \<and>
    (unat i < 8 * (unat (bm_size b) div 8) \<longrightarrow> \<not> bitmap_get b i \<longrightarrow>
       bitmap_count (bitmap_set b i True) = Suc (bitmap_count b))"
proof (intro conjI impI)
  show wf: "bitmap_wf (bitmap_set b i v)" by (rule bmp.invar_put [OF assms])
  show "\<forall>j. bitmap_get (bitmap_set b i v) j = (if j = i \<and> i < bm_size b then v else bitmap_get b j)"
    using assms bmp.get_put bmp.put_out by (cases "i < bm_size b") (auto simp: linorder_not_less)
  let ?n = "8 * (unat (bm_size b) div 8)"
  assume i: "unat i < ?n" and clear: "\<not> bitmap_get b i"
  then have "i < bm_size b" by (simp add: word_less_nat_alt)
  then have "{j. unat j < ?n \<and> bitmap_get (bitmap_set b i True) j} =
      insert i {j. unat j < ?n \<and> bitmap_get b j}"
    using i bmp.get_put [OF assms] by auto
  moreover have "card (insert i {j. unat j < ?n \<and> bitmap_get b j}) = Suc (card {j. unat j < ?n \<and> bitmap_get b j})"
    using clear by (intro card_insert_disjoint) auto
  ultimately show "bitmap_count (bitmap_set b i True) = Suc (bitmap_count b)"
    using assms by (simp add: bitmap_count_card bitmap_wf_set)
qed

definition sample_bitmap :: bitmap where
  "sample_bitmap = \<lparr>bm_array = [0x81, 0x00, 0x01], bm_size = 20, bm_capacity = 3\<rparr>"

lemma card_below: "card {i :: u32. unat i < n \<and> P i} \<le> n"
proof -
  have "card {i :: u32. unat i < n \<and> P i} = card (unat ` {i :: u32. unat i < n \<and> P i})"
    by (rule card_image [symmetric]) (simp add: inj_on_def word_unat_eq_iff)
  also have "\<dots> \<le> card {..<n}" by (rule card_mono) auto
  finally show ?thesis by simp
qed

lemma bitmap_count_bound: "bitmap_wf b \<Longrightarrow> bitmap_count b \<le> 8 * (unat (bm_size b) div 8)"
  by (simp add: bitmap_count_card card_below)

text \<open>
  C38. \<open>bitmap_count\<close>, which reads eight bytes at a time and then the remaining bytes, and what it
  leaves out: it counts the set ids below the last full byte, so together with the set ids from there
  on they are all the set ids; it is the number of set ids when the size is a multiple of eight. For
  another size, such as \<open>KCP_BITMAP_SIZE\<close>, it stays below the size even when every id is taken, so
  the test for an exhausted pool, which compares it with the size, never succeeds.
\<close>

theorem bitmap_count_spec:
  assumes "bitmap_wf b"
  shows "bitmap_count b = card {i. unat i < 8 * (unat (bm_size b) div 8) \<and> bitmap_get b i} \<and>
    bitmap_count b + card {i. 8 * (unat (bm_size b) div 8) \<le> unat i \<and> bitmap_get b i} = card {i. bitmap_get b i} \<and>
    (unat (bm_size b) mod 8 = 0 \<longrightarrow> bitmap_count b = card {i. bitmap_get b i}) \<and>
    (unat (bm_size b) mod 8 \<noteq> 0 \<longrightarrow> bitmap_count b < unat (bm_size b))"
proof -
  let ?n = "8 * (unat (bm_size b) div 8)"
  let ?low = "{i. unat i < ?n \<and> bitmap_get b i}" and ?high = "{i. ?n \<le> unat i \<and> bitmap_get b i}"
  note count = bitmap_count_card [OF assms]
  have all: "{i. bitmap_get b i} = ?low \<union> ?high" by auto
  have sum: "card {i. bitmap_get b i} = card ?low + card ?high"
    unfolding all by (rule card_Un_disjoint) auto
  have size: "unat (bm_size b) = ?n + unat (bm_size b) mod 8" by simp
  have none: "?high = {}" if "unat (bm_size b) mod 8 = 0"
  proof -
    have "unat (bm_size b) = ?n" using size that by simp
    then show ?thesis by (auto simp: bitmap_get_def word_le_nat_alt split: if_splits)
  qed
  note bitmap_count_bound [OF assms]
  then have "unat (bm_size b) mod 8 \<noteq> 0 \<Longrightarrow> bitmap_count b < unat (bm_size b)" using size by linarith
  moreover have "unat (bm_size b) mod 8 = 0 \<Longrightarrow> bitmap_count b = card {i. bitmap_get b i}"
    using sum none count by simp
  ultimately show ?thesis using count sum by simp
qed

theorem bitmap_count_spec_witness:
  "bitmap_count sample_bitmap =
     card {i. unat i < 8 * (unat (bm_size sample_bitmap) div 8) \<and> bitmap_get sample_bitmap i} \<and>
   bitmap_count sample_bitmap +
     card {i. 8 * (unat (bm_size sample_bitmap) div 8) \<le> unat i \<and> bitmap_get sample_bitmap i} =
     card {i. bitmap_get sample_bitmap i} \<and>
   bitmap_count sample_bitmap < 20"
proof -
  have "bitmap_wf sample_bitmap" by (simp add: sample_bitmap_def bitmap_wf_def)
  from bitmap_count_spec [OF this] show ?thesis by (simp add: sample_bitmap_def)
qed

end
