(* ===== verification/Kcp_Context.thy ===== *)
theory Kcp_Context
  imports Kcp_Mtu Kcp_Bitmap
begin

text \<open>
  The context \<open>struct KcpContext\<close> and what belongs to it: the connection set of
  \<^verbatim>\<open>kcp/src/connection_set.c\<close>, the allocation of connection ids, the write timer, the
  creation of a context, binding, and the configuration functions of \<^verbatim>\<open>kcp/src/kcpp.c\<close>,
  and \<open>kcp_connection_destroy\<close> of \<^verbatim>\<open>kcp/src/kcp_protocol.c\<close>.

  The connections live in the tree \<open>connection_set\<close>, keyed by \<open>dcid\<close>; a connection pointer is the
  address \<open>conn_addr\<close>, and a write through it is \<open>put_conn\<close>. A loop over the set with
  \<open>connection_first\<close> and \<open>connection_next\<close> visits \<open>connections\<close>, the in-order sequence of the tree.
\<close>

section \<open>State\<close>

record syn_node =
  sn_scid :: u16
  sn_dcid :: u16
  sn_rand_sn :: u32
  sn_packet_sn :: u32
  sn_packet_ts :: u64
  sn_ts :: u64
  sn_remote_host :: sockaddr
  sn_options :: "kcp_option list"

text \<open>\<open>next_addr\<close> is the address the next allocated connection gets.\<close>

record kcp_context =
  sock :: bool \<comment> \<open>not \<open>INVALID_SOCKET\<close>\<close>
  callback :: kcp_callbacks
  connection_id :: u16
  udp_mtu :: int
  conv_bitmap :: bitmap
  syn_queue :: "syn_node list"
  connection_set :: "kcp_connection rb_node"
  read_event :: bool
  write_event :: bool
  conn_write_event_queue :: "nat list"
  next_addr :: nat

section \<open>The connection set\<close>

definition conn_key :: "kcp_connection \<Rightarrow> u32" where
  "conn_key c = ucast (dcid c)"

definition connection_set_init :: "kcp_connection rb_node" where
  "connection_set_init = Rb_Null"

definition connection_set_search :: "u32 \<Rightarrow> kcp_connection rb_node \<Rightarrow> kcp_connection option" where
  "connection_set_search conv t = rb_search conn_key conv t"

definition connection_set_insert :: "kcp_connection \<Rightarrow> kcp_connection rb_node \<Rightarrow> bool \<times> kcp_connection rb_node" where
  "connection_set_insert data t =
     (if connection_set_search (conn_key data) t \<noteq> None then (False, t) else (True, rb_insert conn_key data t))"

definition connection_set_erase ::
    "int \<Rightarrow> kcp_connection rb_node \<Rightarrow> kcp_connection option \<times> kcp_connection rb_node" where
  "connection_set_erase conv t =
     (case connection_set_search (u32_of_i32 conv) t of
        None \<Rightarrow> (None, t)
      | Some c \<Rightarrow> (Some c, rb_erase_where (\<lambda>p. conn_addr p = conn_addr c) t))"

text \<open>
  \<open>rb_erase\<close> of a node that was never linked: its links are all \<open>NULL\<close> and its colour is 0, red, as
  \<open>kcp_connection_init\<close> clears the node.
\<close>

definition connection_set_erase_node :: "kcp_connection \<Rightarrow> kcp_connection rb_node \<Rightarrow> kcp_connection rb_node" where
  "connection_set_erase_node c t =
     (case rb_where (\<lambda>p. conn_addr p = conn_addr c) t [] of
        Some (n, fs) \<Rightarrow> rb_erase n fs
      | None \<Rightarrow> rb_erase (Rb RB_RED Rb_Null c Rb_Null) [])"

definition connection_first :: "kcp_connection rb_node \<Rightarrow> kcp_connection option" where
  "connection_first t = rb_first t"

definition connection_next :: "kcp_connection \<Rightarrow> kcp_connection rb_node \<Rightarrow> kcp_connection option" where
  "connection_next c t = rb_next_where (\<lambda>p. conn_addr p = conn_addr c) t"

definition connection_last :: "kcp_connection rb_node \<Rightarrow> kcp_connection option" where
  "connection_last t = rb_last t"

text \<open>
  \<open>connection_set_clear\<close> with fuel for its loop: the connections in the order in which the callback
  gets them; as many rounds as there are connections, and one, are enough (\<open>clear_loop_all\<close>).
\<close>

primrec clear_loop ::
    "nat \<Rightarrow> kcp_connection list \<Rightarrow> kcp_connection rb_node \<Rightarrow> (kcp_connection list \<times> kcp_connection rb_node) option" where
  "clear_loop 0 acc t = None"
| "clear_loop (Suc fuel) acc t =
     (case connection_first t of
        None \<Rightarrow> Some (acc, t)
      | Some c \<Rightarrow> clear_loop fuel (acc @ [c]) (connection_set_erase_node c t))"

definition connection_set_clear ::
    "kcp_connection rb_node \<Rightarrow> (kcp_connection list \<times> kcp_connection rb_node) option" where
  "connection_set_clear t = clear_loop (length (rb_inorder t) + 1) [] t"

definition connections :: "kcp_context \<Rightarrow> kcp_connection list" where
  "connections ctx = rb_inorder (connection_set ctx)"

definition conn_at :: "nat \<Rightarrow> kcp_context \<Rightarrow> kcp_connection option" where
  "conn_at a ctx = find (\<lambda>c. conn_addr c = a) (connections ctx)"

definition put_conn :: "kcp_connection \<Rightarrow> kcp_context \<Rightarrow> kcp_context" where
  "put_conn c ctx = ctx\<lparr>connection_set := rb_map (\<lambda>p. if conn_addr p = conn_addr c then c else p) (connection_set ctx)\<rparr>"

section \<open>Connection ids\<close>

definition random_id :: "kcp_io \<Rightarrow> u16 \<times> kcp_io" where
  "random_id io =
     (ucast (kcp_random (io_random io (io_randoms io)) 1 KCP_BITMAP_SIZE), io\<lparr>io_randoms := io_randoms io + 1\<rparr>)"

primrec alloc_loop :: "nat \<Rightarrow> kcp_context \<Rightarrow> kcp_io \<Rightarrow> (kcp_error + u16) \<times> kcp_context \<times> kcp_io" where
  "alloc_loop 0 ctx io = (Inl CONNECTION_ID_CONFLICT, ctx, io)"
| "alloc_loop (Suc k) ctx io =
     (case random_id io of (candidate, io') \<Rightarrow>
        if candidate = connection_id ctx then alloc_loop k ctx io'
        else if bitmap_get (conv_bitmap ctx) (ucast candidate) then alloc_loop k ctx io'
        else (Inr candidate, ctx\<lparr>conv_bitmap := bitmap_set (conv_bitmap ctx) (ucast candidate) True\<rparr>, io'))"

definition kcp_alloc_local_scid :: "nat \<Rightarrow> kcp_context \<Rightarrow> kcp_io \<Rightarrow> (kcp_error + u16) \<times> kcp_context \<times> kcp_io" where
  "kcp_alloc_local_scid retries ctx io =
     (if bitmap_count (conv_bitmap ctx) = unat (bm_size (conv_bitmap ctx)) then (Inl NO_MORE_CONV, ctx, io)
      else alloc_loop (retries + 1) ctx io)"

section \<open>The write timer\<close>

definition kcp_timer_from_delay_ms :: "u64 \<Rightarrow> u64 \<times> u64" where
  "kcp_timer_from_delay_ms delay_ms = (delay_ms div 1000, (delay_ms mod 1000) * 1000)"

definition next_due :: "kcp_connection list \<Rightarrow> u64" where
  "next_due cs = foldl (\<lambda>d c. if \<not> need_write_timer_event c \<or> state c = KCP_STATE_DISCONNECTED then d else min d (ts_flush c))
     (- 1) cs"

definition kcp_refresh_write_timer :: "kcp_context \<Rightarrow> kcp_io \<Rightarrow> kcp_io" where
  "kcp_refresh_write_timer ctx io =
     (let (now_ms, io1) = kcp_time_monotonic_ms io;
          next_due_ms = next_due (connections ctx)
      in if next_due_ms = - 1 then emit Write_timer_del io1
         else if next_due_ms \<le> now_ms then emit (Write_timer_add 0 1) io1
         else (case kcp_timer_from_delay_ms (next_due_ms - now_ms) of (tv_sec, tv_usec) \<Rightarrow>
                 emit (Write_timer_add tv_sec tv_usec) io1))"

text \<open>
  A function on a connection, called with the connection in place: the handlers of a connection
  mark a call of \<open>kcp_refresh_write_timer\<close> by \<open>Refresh_write_timer\<close>, and change nothing the timer
  depends on after it.
\<close>

definition conn_return :: "kcp_connection \<Rightarrow> kcp_context \<Rightarrow> kcp_io \<Rightarrow> kcp_io \<Rightarrow> kcp_context \<times> kcp_io" where
  "conn_return c ctx io io' =
     (let ctx' = put_conn c ctx
      in (ctx', if Refresh_write_timer \<in> set (drop (length (io_trace io)) (io_trace io'))
                then kcp_refresh_write_timer ctx' io' else io'))"

definition kcp_add_write_event :: "nat \<Rightarrow> kcp_context \<Rightarrow> kcp_io \<Rightarrow> kcp_error \<times> kcp_context \<times> kcp_io" where
  "kcp_add_write_event a ctx io =
     (if \<not> write_event ctx then (INVALID_PARAM, ctx, io)
      else
        (NO_ERROR,
         if a \<in> set (conn_write_event_queue ctx) then ctx
         else ctx\<lparr>conn_write_event_queue := conn_write_event_queue ctx @ [a]\<rparr>,
         emit Write_event_add io))"

section \<open>Destroying a connection\<close>

definition free_timer :: "bool \<Rightarrow> nat \<Rightarrow> kcp_timer \<Rightarrow> kcp_io \<Rightarrow> kcp_io" where
  "free_timer present a t io = (if present then emit (Timer_free a t) io else io)"

text \<open>The lists of the connection are freed with it: \<open>Free_connection\<close>.\<close>

definition kcp_connection_destroy :: "kcp_connection \<Rightarrow> kcp_context \<Rightarrow> kcp_io \<Rightarrow> kcp_context \<times> kcp_io" where
  "kcp_connection_destroy c ctx io =
     (let ctx1 = ctx\<lparr>connection_set := connection_set_erase_node c (connection_set ctx)\<rparr>;
          ctx2 = (if scid c \<noteq> 0 \<and> bitmap_get (conv_bitmap ctx1) (ucast (scid c))
                  then ctx1\<lparr>conv_bitmap := bitmap_set (conv_bitmap ctx1) (ucast (scid c)) False\<rparr> else ctx1);
          ctx3 = ctx2\<lparr>conn_write_event_queue := remove1 (conn_addr c) (conn_write_event_queue ctx2)\<rparr>;
          io1 = free_timer (probe_timeout_event (mtu_probe_context c)) (conn_addr c) Mtu_timer io;
          io2 = free_timer (syn_timer_event c) (conn_addr c) Syn_timer io1;
          io3 = free_timer (fin_timer_event c) (conn_addr c) Fin_timer io2;
          io4 = emit (Free_connection (conn_addr c)) io3
      in (ctx3, kcp_refresh_write_timer ctx3 io4))"

section \<open>Contexts\<close>

definition no_callbacks :: kcp_callbacks where
  "no_callbacks = \<lparr>has_on_connected = False, has_on_connect = False, has_on_accepted = False, has_on_closed = False\<rparr>"

text \<open>
  \<open>raw\<close> is the allocated block and \<open>block\<close> the memory of the bitmap, neither of which is cleared.
\<close>

definition kcp_context_create :: "kcp_context \<Rightarrow> bytes option \<Rightarrow> kcp_io \<Rightarrow> kcp_context option \<times> kcp_io" where
  "kcp_context_create raw block io =
     (case malloc io of (ok1, io1) \<Rightarrow>
        if \<not> ok1 then (None, io1)
        else (case bitmap_create KCP_BITMAP_SIZE block of
                None \<Rightarrow> (None, io1)
              | Some bm \<Rightarrow>
                  (case malloc io1 of (ok2, io2) \<Rightarrow>
                     if \<not> ok2 then (None, io2)
                     else (case malloc io2 of (ok3, io3) \<Rightarrow>
                             if \<not> ok3 then (None, io3)
                             else (Some (raw\<lparr>sock := False, callback := no_callbacks, conv_bitmap := bm, syn_queue := [],
                                     connection_set := connection_set_init, read_event := False, write_event := False,
                                     conn_write_event_queue := []\<rparr>), io3)))))"

text \<open>The results of the system calls of \<open>kcp_bind\<close>; \<open>sys_nic_mtu\<close> is the MTU of the interface.\<close>

record bind_sys =
  sys_socket :: bool
  sys_sendbuf :: kcp_error
  sys_recvbuf :: kcp_error
  sys_nonblock :: kcp_error
  sys_dont_fragment :: kcp_error
  sys_recverr :: kcp_error
  sys_nic_mtu :: int
  sys_bind_nic :: kcp_error
  sys_bind :: bool

fun create_socket :: "bool \<Rightarrow> sockaddr \<Rightarrow> kcp_context \<Rightarrow> kcp_error \<times> kcp_context" where
  "create_socket ok (Sockaddr_other _) ctx = (UNKNOWN_PROTO, ctx)"
| "create_socket ok addr ctx = (if ok then NO_ERROR else CREATE_SOCKET_ERROR, ctx\<lparr>sock := ok\<rparr>)"

definition bind_error :: "kcp_error \<Rightarrow> kcp_context \<Rightarrow> kcp_error \<times> kcp_context" where
  "bind_error status ctx = (status, ctx\<lparr>sock := False, read_event := False, write_event := False\<rparr>)"

definition kcp_bind :: "bind_sys \<Rightarrow> sockaddr \<Rightarrow> bool \<Rightarrow> kcp_context \<Rightarrow> kcp_io \<Rightarrow> (kcp_error \<times> kcp_context) \<times> kcp_io" where
  "kcp_bind s addr has_nic ctx io =
     (if sock ctx then ((SOCKET_INUSE, ctx), io)
      else (case create_socket (sys_socket s) addr ctx of
              (NO_ERROR, ctx1) \<Rightarrow>
                (case random_id io of (cid, io1) \<Rightarrow>
                   let ctx2 = ctx1\<lparr>connection_id := cid, read_event := True, write_event := True\<rparr>;
                       errs = filter (\<lambda>e. e \<noteq> NO_ERROR)
                         ([sys_sendbuf s, sys_recvbuf s, sys_nonblock s, sys_dont_fragment s, sys_recverr s] @
                          (if has_nic then [sys_bind_nic s] else []))
                   in (if errs \<noteq> [] then bind_error (hd errs) ctx2
                       else if sys_nic_mtu s \<le> 0 then bind_error NO_ERROR ctx2
                       else
                         let ctx3 = ctx2\<lparr>udp_mtu := kcp_get_mtu_by_param (sys_nic_mtu s) (is_ipv6 addr)\<rparr>
                         in if \<not> sys_bind s then bind_error BIND_ERROR ctx3 else (NO_ERROR, ctx3), io1))
            | (status, ctx1) \<Rightarrow> ((status, ctx1), io)))"

definition kcp_context_udp_socket :: "kcp_context \<Rightarrow> kcp_error + unit" where
  "kcp_context_udp_socket ctx = (if sock ctx then Inr () else Inl SOCKET_CLOSED)"

definition kcp_listen :: "kcp_context \<Rightarrow> kcp_io \<Rightarrow> kcp_error \<times> kcp_context \<times> kcp_io" where
  "kcp_listen ctx io =
     (if \<not> sock ctx then (SOCKET_CLOSED, ctx, io)
      else if has_on_connected (callback ctx) then (INVALID_OPERATION, ctx, io)
      else (NO_ERROR, ctx\<lparr>callback := (callback ctx)\<lparr>has_on_connect := True\<rparr>\<rparr>, emit Read_event_add io))"

definition kcp_set_accept_cb :: "bool \<Rightarrow> kcp_context \<Rightarrow> kcp_context" where
  "kcp_set_accept_cb cb ctx = ctx\<lparr>callback := (callback ctx)\<lparr>has_on_accepted := cb\<rparr>\<rparr>"

definition kcp_set_close_cb :: "bool \<Rightarrow> kcp_context \<Rightarrow> kcp_context" where
  "kcp_set_close_cb cb ctx = ctx\<lparr>callback := (callback ctx)\<lparr>has_on_closed := cb\<rparr>\<rparr>"

section \<open>Configuring a connection\<close>

record kcp_config =
  cfg_nodelay :: int
  cfg_interval :: int
  cfg_resend :: int
  cfg_nc :: int

definition CONFIG_KEY_NODELAY :: u32 where "CONFIG_KEY_NODELAY = 1"
definition CONFIG_KEY_INTERVAL :: u32 where "CONFIG_KEY_INTERVAL = 2"
definition CONFIG_KEY_RESEND :: u32 where "CONFIG_KEY_RESEND = 4"
definition CONFIG_KEY_NC :: u32 where "CONFIG_KEY_NC = 8"

text \<open>The keys are handled one after the other; a bad value ends the call with the earlier ones applied.\<close>

definition kcp_configure :: "u32 \<Rightarrow> kcp_config \<Rightarrow> 'a kcp_snd_scheme \<Rightarrow> kcp_error \<times> 'a kcp_snd_scheme" where
  "kcp_configure flags cfg c =
     (let c1 = (if flags AND CONFIG_KEY_NODELAY \<noteq> 0
                then if cfg_nodelay cfg \<noteq> 0 then c\<lparr>nodelay := 1, rx_minrto := KCP_RTO_NDL * 1000\<rparr>
                     else c\<lparr>nodelay := 0, rx_minrto := KCP_RTO_MIN * 1000\<rparr>
                else c)
      in if flags AND CONFIG_KEY_INTERVAL \<noteq> 0 \<and> (cfg_interval cfg < KCP_INTERVAL_MIN \<or> cfg_interval cfg > KCP_INTERVAL_MAX)
         then (INVALID_PARAM, c1)
         else
           let c2 = (if flags AND CONFIG_KEY_INTERVAL \<noteq> 0 then c1\<lparr>interval := cfg_interval cfg\<rparr> else c1)
           in if flags AND CONFIG_KEY_RESEND \<noteq> 0 \<and> cfg_resend cfg > KCP_FASTACK_LIMIT then (INVALID_PARAM, c2)
              else
                let c3 = (if flags AND CONFIG_KEY_RESEND \<noteq> 0 then c2\<lparr>fastresend := cfg_resend cfg\<rparr> else c2)
                in (NO_ERROR, if flags AND CONFIG_KEY_NC \<noteq> 0
                              then c3\<lparr>nocwnd := (if cfg_nc cfg \<noteq> 0 then 1 else 0)\<rparr> else c3))"

datatype kcp_ioctl_request =
    IOCTL_RECEIVE_TIMEOUT | IOCTL_MTU_PROBE_TIMEOUT | IOCTL_KEEPALIVE_TIMEOUT | IOCTL_KEEPALIVE_INTERVAL
  | IOCTL_KEEPALIVE_RETRIES | IOCTL_SYN_RETRIES | IOCTL_FIN_RETRIES | IOCTL_WINDOW_SIZE | IOCTL_USER_DATA
  | IOCTL_UNKNOWN

text \<open>\<open>data\<close> is the pointer, 0 for \<open>NULL\<close>, and \<open>value\<close> the word it points to.\<close>

definition kcp_ioctl :: "kcp_ioctl_request \<Rightarrow> nat \<Rightarrow> u32 \<Rightarrow> kcp_connection \<Rightarrow> kcp_error \<times> kcp_connection" where
  "kcp_ioctl flags data value c =
     (if flags \<noteq> IOCTL_USER_DATA \<and> data = 0 then (INVALID_PARAM, c)
      else case flags of
        IOCTL_RECEIVE_TIMEOUT \<Rightarrow> (NO_ERROR, c\<lparr>receive_timeout := value\<rparr>)
      | IOCTL_MTU_PROBE_TIMEOUT \<Rightarrow> (NO_ERROR, update_probe (\<lambda>q. q\<lparr>probe_timeout := value\<rparr>) c)
      | IOCTL_KEEPALIVE_TIMEOUT \<Rightarrow>
          (NO_ERROR, c\<lparr>ping_context := (ping_context c)\<lparr>keepalive_timeout := value * 1000\<rparr>\<rparr>)
      | IOCTL_KEEPALIVE_INTERVAL \<Rightarrow>
          (NO_ERROR, c\<lparr>ping_context := (ping_context c)\<lparr>keepalive_interval := value * 1000\<rparr>\<rparr>)
      | IOCTL_KEEPALIVE_RETRIES \<Rightarrow>
          (NO_ERROR, c\<lparr>ping_context := (ping_context c)\<lparr>keepalive_retries := ucast value\<rparr>\<rparr>)
      | IOCTL_SYN_RETRIES \<Rightarrow> (NO_ERROR, c\<lparr>syn_retries := i32_of_u32 value\<rparr>)
      | IOCTL_FIN_RETRIES \<Rightarrow> (NO_ERROR, c\<lparr>fin_retries := value\<rparr>)
      | IOCTL_WINDOW_SIZE \<Rightarrow>
          (NO_ERROR, c\<lparr>rcv_wnd := i32_of_u32 (max (u32_of_i32 KCP_WND_RCV) value),
                       snd_wnd := i32_of_u32 (max (u32_of_i32 KCP_WND_SND) value)\<rparr>)
      | IOCTL_USER_DATA \<Rightarrow> (NO_ERROR, c\<lparr>user_data := data\<rparr>)
      | IOCTL_UNKNOWN \<Rightarrow> (INVALID_PARAM, c))"

definition kcp_set_read_event_cb :: "bool \<Rightarrow> kcp_connection \<Rightarrow> kcp_connection" where
  "kcp_set_read_event_cb cb c = c\<lparr>read_event_cb := cb\<rparr>"

definition kcp_set_write_event_cb :: "bool \<Rightarrow> kcp_connection \<Rightarrow> kcp_connection" where
  "kcp_set_write_event_cb cb c = c\<lparr>write_event_cb := cb\<rparr>"

record kcp_statistic =
  st_ping_count :: u32
  st_pong_count :: u32
  st_tx_bytes :: u64
  st_rtx_bytes :: u64
  st_srtt :: int
  st_rttvar :: int
  st_rto :: int
  st_bbr_mode :: kcp_bbr_mode
  st_cwnd :: int
  st_target_cwnd :: u32
  st_min_rtt_us :: u32
  st_btlbw_bytes_ps :: u64
  st_pacing_rate_bps :: u64

definition kcp_connection_get_statistic :: "kcp_connection \<Rightarrow> kcp_statistic" where
  "kcp_connection_get_statistic c =
     \<lparr>st_ping_count = ping_count c, st_pong_count = pong_count c, st_tx_bytes = tx_bytes c, st_rtx_bytes = rtx_bytes c,
      st_srtt = rx_srtt c, st_rttvar = rx_rttval c, st_rto = rx_rto c, st_bbr_mode = bbr_mode c, st_cwnd = cwnd c,
      st_target_cwnd = bbr_target_cwnd c, st_min_rtt_us = bbr_min_rtt_us c, st_btlbw_bytes_ps = bbr_btlbw c,
      st_pacing_rate_bps = bbr_pacing_rate c\<rparr>"

section \<open>Lemmas\<close>

definition conn_addrs :: "kcp_context \<Rightarrow> nat list" where
  "conn_addrs ctx = map conn_addr (connections ctx)"

text \<open>
  Well-formed contexts: the set is an ordered index, the connections are different objects below
  the allocation mark, the queue of waiting connections has each at most once and only living ones,
  and the pool of ids is well-formed.
\<close>

definition ctx_wf :: "kcp_context \<Rightarrow> bool" where
  "ctx_wf ctx \<longleftrightarrow> rb_index conn_key (connection_set ctx) \<and> distinct (conn_addrs ctx) \<and>
     (\<forall>a \<in> set (conn_addrs ctx). a < next_addr ctx) \<and> distinct (conn_write_event_queue ctx) \<and>
     set (conn_write_event_queue ctx) \<subseteq> set (conn_addrs ctx) \<and> bitmap_wf (conv_bitmap ctx)"

lemma filter_other: "a \<notin> f ` set xs \<Longrightarrow> filter (\<lambda>p. f p \<noteq> a) xs = xs"
  by (induction xs) auto

lemma del_first_addr:
  "distinct (map f xs) \<Longrightarrow> del_first (\<lambda>p. f p = a) xs = filter (\<lambda>p. f p \<noteq> a) xs"
proof (induction xs)
  case (Cons x xs)
  then show ?case using filter_other [of a f xs] by (cases "f x = a") simp_all
qed simp

lemma erase_node_linked:
  assumes "conn_addr c \<in> conn_addr ` set (rb_inorder t)"
  shows "connection_set_erase_node c t = rb_erase_where (\<lambda>p. conn_addr p = conn_addr c) t"
  using assms rb_where_None_iff [of "\<lambda>p. conn_addr p = conn_addr c" t "[]"]
  by (fastforce simp: connection_set_erase_node_def rb_erase_where_def split: option.splits)

lemma erase_node_entries:
  assumes "distinct (map conn_addr (rb_inorder t))" and "conn_addr c \<in> conn_addr ` set (rb_inorder t)"
  shows "rb_inorder (connection_set_erase_node c t) = filter (\<lambda>p. conn_addr p \<noteq> conn_addr c) (rb_inorder t)"
  using assms by (simp add: erase_node_linked rb_inorder_erase_where del_first_addr)

lemma erase_node_index:
  "rb_index conn_key t \<Longrightarrow> conn_addr c \<in> conn_addr ` set (rb_inorder t) \<Longrightarrow> rb_index conn_key (connection_set_erase_node c t)"
  by (simp add: erase_node_linked rbt.invar_erase)

lemma erase_node_unlinked:
  "conn_addr c \<notin> conn_addr ` set (rb_inorder t) \<Longrightarrow> connection_set_erase_node c t = Rb_Null"
proof -
  assume "conn_addr c \<notin> conn_addr ` set (rb_inorder t)"
  then have "rb_where (\<lambda>p. conn_addr p = conn_addr c) t [] = None" by (auto simp: rb_where_None_iff image_iff)
  then show ?thesis by (simp add: connection_set_erase_node_def)
qed

lemma connections_put_conn:
  "connections (put_conn c ctx) = map (\<lambda>p. if conn_addr p = conn_addr c then c else p) (connections ctx)"
  by (simp add: connections_def put_conn_def rb_inorder_map)

lemma find_replaced:
  "find P xs = Some x \<Longrightarrow> P y \<Longrightarrow> find P (map (\<lambda>p. if P p then y else p) xs) = Some y"
  by (induction xs) (auto split: if_splits)

lemma conn_at_put_conn: "conn_at a ctx = Some c \<Longrightarrow> conn_addr c' = a \<Longrightarrow> conn_at a (put_conn c' ctx) = Some c'"
  using find_replaced [of "\<lambda>c. conn_addr c = a" "connections ctx" c c'] by (simp add: conn_at_def connections_put_conn)

lemma conn_addrs_put_conn [simp]: "conn_addrs (put_conn c ctx) = conn_addrs ctx"
  by (simp add: conn_addrs_def connections_put_conn comp_def)

lemma remove1_filter: "distinct xs \<Longrightarrow> remove1 x xs = filter (\<lambda>a. a \<noteq> x) xs"
  by (induction xs) (auto simp: filter_other [where f = id, simplified])

lemma destroy_eq:
  "fst (kcp_connection_destroy c ctx io) =
     ctx\<lparr>connection_set := connection_set_erase_node c (connection_set ctx),
         conv_bitmap := (if scid c \<noteq> 0 \<and> bitmap_get (conv_bitmap ctx) (ucast (scid c))
           then bitmap_set (conv_bitmap ctx) (ucast (scid c)) False else conv_bitmap ctx),
         conn_write_event_queue := remove1 (conn_addr c) (conn_write_event_queue ctx)\<rparr>"
  by (cases "scid c \<noteq> 0 \<and> bitmap_get (conv_bitmap ctx) (ucast (scid c))") (auto simp: kcp_connection_destroy_def Let_def)

lemma destroy_wf:
  assumes wf: "ctx_wf ctx" and c: "conn_addr c \<in> set (conn_addrs ctx)" and d: "ctx' = fst (kcp_connection_destroy c ctx io)"
  shows "ctx_wf ctx'" and "connections ctx' = filter (\<lambda>p. conn_addr p \<noteq> conn_addr c) (connections ctx)"
proof -
  have lk: "conn_addr c \<in> conn_addr ` set (rb_inorder (connection_set ctx))"
    using c by (simp add: conn_addrs_def connections_def)
  have di: "distinct (map conn_addr (rb_inorder (connection_set ctx)))"
    using wf by (simp add: ctx_wf_def conn_addrs_def connections_def)
  show conns: "connections ctx' = filter (\<lambda>p. conn_addr p \<noteq> conn_addr c) (connections ctx)"
    using erase_node_entries [OF di lk] by (simp add: connections_def d destroy_eq)
  have ad: "conn_addrs ctx' = filter (\<lambda>a. a \<noteq> conn_addr c) (conn_addrs ctx)"
    by (simp add: conn_addrs_def conns filter_map comp_def)
  have "rb_index conn_key (connection_set ctx')"
    using erase_node_index [OF _ lk] wf by (simp add: ctx_wf_def d destroy_eq)
  moreover have "bitmap_wf (conv_bitmap ctx')"
    using wf bmp.invar_put by (simp add: ctx_wf_def d destroy_eq)
  moreover have "conn_write_event_queue ctx' = remove1 (conn_addr c) (conn_write_event_queue ctx)" "next_addr ctx' = next_addr ctx"
    by (simp_all add: d destroy_eq)
  ultimately show "ctx_wf ctx'"
    using wf by (auto simp: ctx_wf_def ad)
qed

lemma alloc_loop_fresh:
  assumes "alloc_loop k ctx io = (Inr cid, ctx', io')"
  shows "cid \<noteq> connection_id ctx \<and> \<not> bitmap_get (conv_bitmap ctx) (ucast cid) \<and> cid \<noteq> 0 \<and>
    ctx' = ctx\<lparr>conv_bitmap := bitmap_set (conv_bitmap ctx) (ucast cid) True\<rparr>"
  using assms
proof (induction k arbitrary: io)
  case (Suc k)
  obtain cand io1 where r: "random_id io = (cand, io1)" by (metis prod.exhaust)
  define v where "v = kcp_random (io_random io (io_randoms io)) 1 KCP_BITMAP_SIZE"
  have v: "1 \<le> v \<and> v \<le> KCP_BITMAP_SIZE"
    unfolding v_def by (rule kcp_random_range) (simp_all add: kcp_const)
  then have "0 < unat v" "unat v < 2 ^ 16" by (auto simp: word_le_nat_alt kcp_const)
  then have "unat (ucast v :: u16) \<noteq> 0" by (simp add: unsigned_ucast_eq take_bit_nat_eq_self)
  then have "cand \<noteq> 0" using r by (auto simp: random_id_def v_def)
  then show ?case using Suc r by (auto split: if_splits)
qed simp

lemma alloc_loop_fails: "alloc_loop k ctx io = (Inl e, ctx', io') \<Longrightarrow> ctx' = ctx \<and> e = CONNECTION_ID_CONFLICT"
  by (induction k arbitrary: io) (auto split: prod.splits if_splits)

lemma next_due_min:
  "next_due cs = Min (insert (- 1) (ts_flush ` {c \<in> set cs. need_write_timer_event c \<and> state c \<noteq> KCP_STATE_DISCONNECTED}))"
proof -
  let ?f = "\<lambda>d c. if \<not> need_write_timer_event c \<or> state c = KCP_STATE_DISCONNECTED then d else min d (ts_flush c)"
  let ?S = "\<lambda>cs. ts_flush ` {c \<in> set cs. need_write_timer_event c \<and> state c \<noteq> KCP_STATE_DISCONNECTED}"
  have "foldl ?f d cs = Min (insert d (?S cs))" for d
  proof (induction cs arbitrary: d)
    case (Cons c cs)
    show ?case
    proof (cases "need_write_timer_event c \<and> state c \<noteq> KCP_STATE_DISCONNECTED")
      case True
      then have S: "?S (c # cs) = insert (ts_flush c) (?S cs)" by auto
      have "Min (insert (min d x) T) = Min (insert d (insert x T))" if "finite T" for x and T :: "u64 set"
        using that by (cases "T = {}") (simp_all add: min.assoc)
      then show ?thesis using Cons [of "min d (ts_flush c)"] True by (simp only: S foldl_Cons) simp
    next
      case False
      then have "?S (c # cs) = ?S cs" by auto
      then show ?thesis using Cons [of d] False by auto
    qed
  qed simp
  then show ?thesis by (simp add: next_due_def)
qed

lemma clear_loop_all:
  assumes "distinct (map conn_addr (rb_inorder t))" and "length (rb_inorder t) < fuel"
  shows "clear_loop fuel acc t = Some (acc @ rb_inorder t, Rb_Null)"
  using assms
proof (induction fuel arbitrary: acc t)
  case (Suc fuel)
  show ?case
  proof (cases "rb_inorder t")
    case Nil
    then show ?thesis by (simp add: connection_first_def rb_first_inorder)
  next
    case (Cons c cs)
    then have e: "rb_inorder (connection_set_erase_node c t) = cs"
      using erase_node_entries [of t c] Suc.prems by (simp add: filter_other)
    have "connection_first t = Some c" using Cons by (auto simp: connection_first_def rb_first_inorder)
    then show ?thesis using Suc.IH [of "connection_set_erase_node c t" "acc @ [c]"] Suc.prems Cons e by simp
  qed
qed simp

section \<open>Properties\<close>

text \<open>
  Allocation of connection ids: a successful \<open>kcp_alloc_local_scid\<close> returns an id that is not 0,
  not the id of the context and not in use, marks it as used and changes no other id; a failing one
  leaves the context as it was and returns one of its two error codes.
\<close>

lemma alloc_fresh_id:
  assumes "bitmap_wf (conv_bitmap ctx)" and "kcp_alloc_local_scid retries ctx io = (res, ctx', io')"
  shows "case res of
      Inl e \<Rightarrow> ctx' = ctx \<and> e \<in> {NO_MORE_CONV, CONNECTION_ID_CONFLICT}
    | Inr cid \<Rightarrow> cid \<noteq> 0 \<and> cid \<noteq> connection_id ctx \<and> \<not> bitmap_get (conv_bitmap ctx) (ucast cid) \<and>
        ctx' = ctx\<lparr>conv_bitmap := conv_bitmap ctx'\<rparr> \<and> bitmap_wf (conv_bitmap ctx') \<and>
        (\<forall>j. bitmap_get (conv_bitmap ctx') j =
               (bitmap_get (conv_bitmap ctx) j \<or> j = ucast cid \<and> j < bm_size (conv_bitmap ctx)))"
proof (cases res)
  case (Inl e)
  then show ?thesis
    using assms(2) alloc_loop_fails [of "retries + 1" ctx io e ctx' io'] by (auto simp: kcp_alloc_local_scid_def split: if_splits)
next
  case (Inr cid)
  then have f: "cid \<noteq> connection_id ctx" "\<not> bitmap_get (conv_bitmap ctx) (ucast cid)" "cid \<noteq> 0"
      "ctx' = ctx\<lparr>conv_bitmap := bitmap_set (conv_bitmap ctx) (ucast cid) True\<rparr>"
    using assms(2) alloc_loop_fresh [of "retries + 1" ctx io cid ctx' io'] by (auto simp: kcp_alloc_local_scid_def split: if_splits)
  have "bitmap_get (bitmap_set (conv_bitmap ctx) (ucast cid) True) j =
      (bitmap_get (conv_bitmap ctx) j \<or> j = ucast cid \<and> j < bm_size (conv_bitmap ctx))" for j
    using bmp.get_put [OF assms(1)] bmp.put_out [of "conv_bitmap ctx" "ucast cid" True]
    by (cases "ucast cid < bm_size (conv_bitmap ctx)") (auto simp: linorder_not_less)
  then show ?thesis using Inr f bmp.invar_put [OF assms(1)] by simp
qed

text \<open>A context with the id pool of a new process.\<close>

definition sample_ctx :: kcp_context where
  "sample_ctx = \<lparr>sock = True, callback = no_callbacks, connection_id = 9, udp_mtu = 1472,
     conv_bitmap = \<lparr>bm_array = replicate 8192 0, bm_size = 65535, bm_capacity = 8192\<rparr>, syn_queue = [],
     connection_set = Rb_Null, read_event = True, write_event = True, conn_write_event_queue = [], next_addr = 1\<rparr>"

lemma sample_ctx_bitmap: "bitmap_wf (conv_bitmap sample_ctx)"
  by (simp add: sample_ctx_def bitmap_wf_def)

text \<open>
  The pool is never found exhausted: its size is not a multiple of eight, so the count of the set
  ids stays below it (\<open>bitmap_count_bound\<close>), and the error \<open>NO_MORE_CONV\<close> is not returned.
\<close>

lemma alloc_never_exhausted:
  assumes "bitmap_wf (conv_bitmap ctx)" and "bm_size (conv_bitmap ctx) = KCP_BITMAP_SIZE"
  shows "fst (kcp_alloc_local_scid retries ctx io) \<noteq> Inl NO_MORE_CONV"
proof -
  have "bitmap_count (conv_bitmap ctx) \<noteq> unat (bm_size (conv_bitmap ctx))"
    using bitmap_count_bound [OF assms(1)] assms(2) by (simp add: kcp_const)
  moreover obtain r ctx' io' where "alloc_loop (retries + 1) ctx io = (r, ctx', io')" by (metis prod.exhaust)
  ultimately show ?thesis
    using alloc_loop_fails [of "retries + 1" ctx io NO_MORE_CONV ctx' io'] by (auto simp: kcp_alloc_local_scid_def)
qed

text \<open>
  C36. Destroying a connection that is in the set: afterwards the context is still well-formed; the
  set and the queue of connections that wait for the socket have lost exactly that connection, and
  keep the others in their order; its id is free and every other id is as before; the rest of the
  context is unchanged.
\<close>

theorem destroy_releases:
  assumes "ctx_wf ctx" and "conn_addr c \<in> set (conn_addrs ctx)"
  shows "let ctx' = fst (kcp_connection_destroy c ctx io) in
    ctx_wf ctx' \<and> connections ctx' = filter (\<lambda>p. conn_addr p \<noteq> conn_addr c) (connections ctx) \<and>
    conn_write_event_queue ctx' = filter (\<lambda>a. a \<noteq> conn_addr c) (conn_write_event_queue ctx) \<and>
    (\<forall>j. bitmap_get (conv_bitmap ctx') j = (bitmap_get (conv_bitmap ctx) j \<and> (scid c = 0 \<or> j \<noteq> ucast (scid c)))) \<and>
    ctx' = ctx\<lparr>connection_set := connection_set ctx', conv_bitmap := conv_bitmap ctx',
               conn_write_event_queue := conn_write_event_queue ctx'\<rparr>"
proof -
  have wf: "bitmap_wf (conv_bitmap ctx)" "distinct (conn_write_event_queue ctx)" using assms(1) by (simp_all add: ctx_wf_def)
  have "bitmap_get (conv_bitmap ctx) i \<Longrightarrow> bitmap_get (bitmap_set (conv_bitmap ctx) i False) j = (bitmap_get (conv_bitmap ctx) j \<and> j \<noteq> i)" for i j
    using bmp.get_put [OF wf(1), of i False j] bmp.get_out [of "conv_bitmap ctx" i] by (cases "i < bm_size (conv_bitmap ctx)") auto
  then have "bitmap_get (conv_bitmap (fst (kcp_connection_destroy c ctx io))) j =
      (bitmap_get (conv_bitmap ctx) j \<and> (scid c = 0 \<or> j \<noteq> ucast (scid c)))" for j
    by (auto simp: destroy_eq)
  moreover have "conn_write_event_queue (fst (kcp_connection_destroy c ctx io)) =
      filter (\<lambda>a. a \<noteq> conn_addr c) (conn_write_event_queue ctx)"
    using wf by (simp add: destroy_eq remove1_filter)
  moreover have "fst (kcp_connection_destroy c ctx io) =
      ctx\<lparr>connection_set := connection_set (fst (kcp_connection_destroy c ctx io)),
          conv_bitmap := conv_bitmap (fst (kcp_connection_destroy c ctx io)),
          conn_write_event_queue := conn_write_event_queue (fst (kcp_connection_destroy c ctx io))\<rparr>"
    by (simp add: destroy_eq)
  ultimately show ?thesis using destroy_wf [OF assms refl, of io] by (auto simp: Let_def)
qed

text \<open>A context with two connections in the set, both waiting for the socket.\<close>

definition sample_peer :: kcp_connection where
  "sample_peer = zero_connection\<lparr>conn_addr := 1, scid := 5, dcid := 6\<rparr>"

definition sample_other :: kcp_connection where
  "sample_other = zero_connection\<lparr>conn_addr := 2, scid := 7, dcid := 8\<rparr>"

definition sample_server :: kcp_context where
  "sample_server = sample_ctx\<lparr>connection_set := Rb RB_BLACK Rb_Null sample_peer (Rb RB_RED Rb_Null sample_other Rb_Null),
     conn_write_event_queue := [2, 1], next_addr := 3\<rparr>"

lemma sample_server_wf: "ctx_wf sample_server" "conn_addrs sample_server = [1, 2]" "conn_addr sample_peer = 1"
  "connections sample_server = [sample_peer, sample_other]" "conn_write_event_queue sample_server = [2, 1]"
  "conn_addr sample_other = 2"
  using sample_ctx_bitmap
  by (simp_all add: ctx_wf_def sample_server_def sample_ctx_def sample_peer_def sample_other_def conn_addrs_def
      connections_def rb_index_def rb_ok_def conn_key_def)

theorem destroy_releases_witness:
  "connections (fst (kcp_connection_destroy sample_peer sample_server sample_io)) = [sample_other] \<and>
   conn_write_event_queue (fst (kcp_connection_destroy sample_peer sample_server sample_io)) = [2]"
  using destroy_releases [OF sample_server_wf(1), of sample_peer sample_io] by (simp add: sample_server_wf Let_def)

text \<open>
  The write timer: after \<open>kcp_refresh_write_timer\<close> the timer is deleted when no connection wants
  it, and otherwise expires at the earliest \<open>ts_flush\<close> of the connections that do, or at once (after
  one microsecond) when that time has come.
\<close>

lemma write_timer_earliest:
  "let due = {ts_flush c | c. c \<in> set (connections ctx) \<and> need_write_timer_event c \<and> state c \<noteq> KCP_STATE_DISCONNECTED \<and>
                ts_flush c \<noteq> - 1};
       now = fst (kcp_time_monotonic_ms io); io1 = snd (kcp_time_monotonic_ms io)
   in kcp_refresh_write_timer ctx io =
        emit (if due = {} then Write_timer_del
              else if Min due \<le> now then Write_timer_add 0 1
              else Write_timer_add ((Min due - now) div 1000) ((Min due - now) mod 1000 * 1000)) io1"
proof -
  define due where "due = {ts_flush c | c. c \<in> set (connections ctx) \<and> need_write_timer_event c \<and> state c \<noteq> KCP_STATE_DISCONNECTED \<and>
                ts_flush c \<noteq> - 1}"
  let ?T = "ts_flush ` {c \<in> set (connections ctx). need_write_timer_event c \<and> state c \<noteq> KCP_STATE_DISCONNECTED}"
  have fin: "finite due" using finite_subset [of due ?T] by (auto simp: due_def)
  have top: "(x :: u64) \<le> - 1" for x by (rule word_n1_ge)
  have "insert (- 1) ?T = insert (- 1) due" by (auto simp: due_def)
  then have nd: "next_due (connections ctx) = Min (insert (- 1) due)" by (simp add: next_due_min)
  have "next_due (connections ctx) = (if due = {} then - 1 else Min due)"
    unfolding nd using fin top by (simp add: min_def antisym)
  moreover have "Min due \<noteq> - 1" if "due \<noteq> {}" using Min_in [OF fin that] by (auto simp: due_def)
  ultimately show ?thesis
    unfolding due_def [symmetric] Let_def by (simp add: kcp_refresh_write_timer_def kcp_timer_from_delay_ms_def split_beta Let_def)
qed

end
