(* ===== verification/Kcp_Send.thy ===== *)
theory Kcp_Send
  imports Kcp_Connection
begin

text \<open>
  The send side: \<open>kcp_send\<close> (\<^verbatim>\<open>kcp/src/kcpp.c\<close>), which cuts a message into segments and queues
  them, and \<open>on_kcp_ack_pcaket\<close> (\<^verbatim>\<open>kcp/src/kcp_protocol.c\<close>), which removes acknowledged
  segments, estimates the round-trip time and feeds the congestion control.

  The payload of a segment is the first \<open>len\<close> bytes of its \<open>data\<close> array; the bytes behind them are
  never read and are not part of the model. Signed arithmetic that can leave \<open>int32_t\<close> is wrapped by
  \<open>s32\<close>; \<open>sdiv\<close> is the truncating division of C.
\<close>

section \<open>Queueing a message\<close>

definition fill_segment ::
    "'a kcp_snd_scheme \<Rightarrow> nat \<Rightarrow> nat \<Rightarrow> u32 \<Rightarrow> bytes \<Rightarrow> kcp_segment \<Rightarrow> kcp_segment" where
  "fill_segment c i fragmentation packet_sn chunk seg =
     seg\<lparr>seg_data := chunk, seg_wnd := (if i = 0 then of_nat fragmentation else 0), seg_frg := of_nat i,
         seg_scid := scid c, seg_dcid := dcid c, seg_len := of_nat (length chunk), seg_psn := packet_sn\<rparr>"

text \<open>
  The fragmentation loop with \<open>k\<close> rounds to go; \<open>mem i\<close> is what \<open>malloc\<close> returns in round \<open>i\<close>,
  \<open>acc\<close> the local list \<open>buffer_list\<close>. On failure the segments built so far go back to the pool.
\<close>

primrec kcp_send_frags ::
    "(nat \<Rightarrow> kcp_segment option) \<Rightarrow> nat \<Rightarrow> nat \<Rightarrow> nat \<Rightarrow> bytes \<Rightarrow> kcp_segment list \<Rightarrow> 'a kcp_snd_scheme \<Rightarrow>
     kcp_segment list option \<times> 'a kcp_snd_scheme" where
  "kcp_send_frags mem 0 i n rest acc c = (Some acc, c)"
| "kcp_send_frags mem (Suc k) i n rest acc c =
     (case kcp_segment_send_get (mem i) c of
        (None, c') \<Rightarrow> (None, foldl (\<lambda>c s. kcp_segment_send_put s c) c' acc)
      | (Some seg, c') \<Rightarrow>
          let packet_size = (if length rest > unat (mss c) then unat (mss c) else length rest)
          in kcp_send_frags mem k (i + 1) n (drop packet_size rest)
               (acc @ [fill_segment c i n (psn_nxt c) (take packet_size rest) seg]) c')"

definition kcp_fragmentation :: "'a kcp_snd_scheme \<Rightarrow> nat \<Rightarrow> nat" where
  "kcp_fragmentation c sz = (sz + unat (mss c) - 1) div unat (mss c)"

definition kcp_send ::
    "bool \<Rightarrow> (nat \<Rightarrow> kcp_segment option) \<Rightarrow> bytes \<Rightarrow> 'a kcp_snd_scheme \<Rightarrow> kcp_error \<times> 'a kcp_snd_scheme" where
  "kcp_send sock_open mem data c =
     (if data = [] then (INVALID_PARAM, c)
      else if length data > KCP_MAX_PACKET_SIZE then (PACKET_TOO_LARGE, c)
      else if \<not> sock_open then (SOCKET_CLOSED, c)
      else if state c \<noteq> KCP_STATE_CONNECTED then (INVALID_STATE, c)
      else
        let n = kcp_fragmentation c (length data)
        in if int n > KCP_PACKET_SIZE then (PACKET_TOO_LARGE, c)
           else
             (case kcp_send_frags mem n 0 n data [] c of
                (None, c') \<Rightarrow> (NO_MEMORY, c')
              | (Some segs, c') \<Rightarrow>
                  (NO_ERROR, c'\<lparr>snd_queue := snd_queue c' @ segs, nsnd_que := nsnd_que c' + int (length segs),
                                psn_nxt := psn_nxt c' + 1\<rparr>)))"

section \<open>Acknowledgements\<close>

text \<open>
  The first loop of \<open>on_kcp_ack_pcaket\<close> over \<open>snd_buf\<close>: segments before the acknowledged one count a
  skip, the acknowledged one is taken out, and the loop ends there or behind it.
\<close>

fun ack_scan :: "u32 \<Rightarrow> kcp_segment list \<Rightarrow> kcp_segment list \<times> kcp_segment option" where
  "ack_scan sn [] = ([], None)"
| "ack_scan sn (pos # rest) =
     (if seg_sn pos < sn
      then (case ack_scan sn rest of (rest', hit) \<Rightarrow> (pos\<lparr>seg_fastack := seg_fastack pos + 1\<rparr> # rest', hit))
      else if seg_sn pos = sn then (rest, Some pos)
      else (pos # rest, None))"

text \<open>The sample in \<open>int32_t\<close> and the estimator of RFC 6298.\<close>

definition ack_rtt :: "u64 \<Rightarrow> u64 \<Rightarrow> u64 \<Rightarrow> u64 \<Rightarrow> int" where
  "ack_rtt timestamp ts ats pts =
     s32 ((i32_of_u64 timestamp - i32_of_u64 ts) - (i32_of_u64 ats - i32_of_u64 pts))"

definition clamp :: "int \<Rightarrow> int \<Rightarrow> int \<Rightarrow> int" where
  "clamp x lo hi = (if x < lo then lo else if x > hi then hi else x)"

definition update_rtt :: "int \<Rightarrow> 'a kcp_snd_scheme \<Rightarrow> 'a kcp_snd_scheme" where
  "update_rtt rtt c =
     (let (srtt, rttval) =
            (if rx_srtt c = 0 then (rtt, rtt sdiv 2)
             else
               let delta = \<bar>s32 (rtt - rx_srtt c)\<bar>
               in (s32 (rx_srtt c * 7 + rtt) sdiv 8, s32 ((s32 (3 * rx_rttval c) + delta) sdiv 4)));
          rto = s32 (srtt + max (interval c * 1000) (s32 (4 * rttval)))
      in c\<lparr>rx_srtt := srtt, rx_rttval := rttval, rx_rto := clamp rto (rx_minrto c) (KCP_RTO_MAX * 1000)\<rparr>)"

text \<open>
  The accounting of one acknowledged segment and \<open>HANDLE_SND_BUF\<close>: the state, \<open>acked_bytes\<close> and
  \<open>sample_bw\<close>. (The segment leaves \<open>snd_buf\<close> where the loops take it out.)
\<close>

definition ack_account ::
    "u64 \<Rightarrow> 'a kcp_snd_scheme \<times> u64 \<times> u64 \<Rightarrow> kcp_segment \<Rightarrow> 'a kcp_snd_scheme \<times> u64 \<times> u64" where
  "ack_account timestamp acc pos =
     (case acc of (c, acked_bytes, sample_bw) \<Rightarrow>
        let bw = bbr_rate_sample c (seg_tx_delivered pos) (seg_tx_delivered_ts pos) (seg_len pos) timestamp acked_bytes
        in (c\<lparr>tx_bytes := tx_bytes c + ucast (seg_len pos),
              rtx_bytes := (if seg_xmit pos > 1 then rtx_bytes c + ucast (seg_len pos) else rtx_bytes c),
              snd_buf_unused := snd_buf_unused c @ [pos],
              nsnd_buf_unused := nsnd_buf_unused c + 1,
              nsnd_buf := nsnd_buf c - 1\<rparr>,
            acked_bytes + ucast (seg_len pos), max sample_bw bw))"

text \<open>The second loop: every segment at the front that is below \<open>una\<close>.\<close>

definition ack_una_hits :: "u32 \<Rightarrow> kcp_segment list \<Rightarrow> kcp_segment list" where
  "ack_una_hits una segs = takeWhile (\<lambda>s. seg_sn s < una) segs"

text \<open>
  The handler in its parts. \<open>ack_first\<close>: the first loop with the RTT estimate, giving also
  \<open>acked_bytes\<close>, \<open>sample_bw\<close> and \<open>rtt_sample_us\<close>; \<open>ack_second\<close>: the loop over what is below
  \<open>una\<close>; \<open>ack_shrink\<close>: freeing spare segments of the pool (its counter is left as it is);
  \<open>ack_advance\<close>: the new \<open>snd_una\<close>.
\<close>

definition ack_first :: "u64 \<Rightarrow> u64 \<Rightarrow> u64 \<Rightarrow> u32 \<Rightarrow> 'a kcp_snd_scheme \<Rightarrow> ('a kcp_snd_scheme \<times> u64 \<times> u64) \<times> int" where
  "ack_first timestamp pts ats sn c =
     (case ack_scan sn (snd_buf c) of
        (buf, None) \<Rightarrow> ((c\<lparr>snd_buf := buf\<rparr>, 0, 0), - 1)
      | (buf, Some pos) \<Rightarrow>
          let rtt = ack_rtt timestamp (seg_ts pos) ats pts;
              c' = (if seg_xmit pos = 1 then update_rtt rtt c else c)
          in (ack_account timestamp (c'\<lparr>snd_buf := buf\<rparr>, 0, 0) pos,
              if seg_xmit pos = 1 \<and> rtt > 0 then rtt else - 1))"

definition ack_second :: "u64 \<Rightarrow> u32 \<Rightarrow> 'a kcp_snd_scheme \<times> u64 \<times> u64 \<Rightarrow> 'a kcp_snd_scheme \<times> u64 \<times> u64" where
  "ack_second timestamp una acc =
     (case acc of (c, acked_bytes, sample_bw) \<Rightarrow>
        let hits = ack_una_hits una (snd_buf c)
        in foldl (ack_account timestamp) (c\<lparr>snd_buf := drop (length hits) (snd_buf c)\<rparr>, acked_bytes, sample_bw) hits)"

definition ack_shrink :: "'a kcp_snd_scheme \<Rightarrow> 'a kcp_snd_scheme" where
  "ack_shrink c = c\<lparr>snd_buf_unused := drop (nat (nsnd_buf_unused c - snd_wnd c)) (snd_buf_unused c)\<rparr>"

fun first_sn :: "u32 \<Rightarrow> kcp_segment list \<Rightarrow> u32" where
  "first_sn nxt [] = nxt"
| "first_sn nxt (first # _) = seg_sn first"

definition ack_advance :: "'a kcp_snd_scheme \<Rightarrow> 'a kcp_snd_scheme" where
  "ack_advance c = c\<lparr>snd_una := first_sn (snd_nxt c) (snd_buf c)\<rparr>"

definition ping_refresh :: "u64 \<Rightarrow> 'a kcp_snd_scheme \<Rightarrow> 'a kcp_snd_scheme" where
  "ping_refresh timestamp c = c\<lparr>ping_context := (ping_context c)\<lparr>keepalive_next_ts :=
     timestamp + ucast (keepalive_interval (ping_context c))\<rparr>\<rparr>"

definition on_kcp_ack_pcaket :: "kcp_proto_header \<Rightarrow> u64 \<Rightarrow> 'a kcp_snd_scheme \<Rightarrow> 'a kcp_snd_scheme" where
  "on_kcp_ack_pcaket h timestamp c =
     (if state c = KCP_STATE_DISCONNECTED then c
      else
        case as_ack_data (hd_body h) of (pts, ats, sn, una) \<Rightarrow>
          if sn < snd_una c then ping_refresh timestamp c
          else if sn > snd_nxt c then ping_refresh timestamp c
          else
            case ack_first timestamp pts ats sn (ping_refresh timestamp c) of (acc1, rtt_sample_us) \<Rightarrow>
            case ack_second timestamp una acc1 of (c2, acked_bytes, sample_bw) \<Rightarrow>
              let c4 = ack_advance (ack_shrink c2)
              in if acked_bytes > 0
                 then bbr_on_ack
                        (c4\<lparr>bbr_delivered := bbr_delivered c4 + acked_bytes, bbr_delivered_ts := timestamp\<rparr>)
                        timestamp acked_bytes sample_bw rtt_sample_us
                 else c4)"

section \<open>Lemmas\<close>

subsection \<open>Fragmentation\<close>

text \<open>The specification of a fragmented message: chunks of \<open>m\<close> bytes, the last one shorter.\<close>

primrec chunks :: "nat \<Rightarrow> nat \<Rightarrow> bytes \<Rightarrow> bytes list" where
  "chunks m 0 xs = []"
| "chunks m (Suc k) xs = take m xs # chunks m k (drop m xs)"

lemma length_chunks [simp]: "length (chunks m k xs) = k"
  by (induction k arbitrary: xs) auto

lemma concat_chunks: "length xs \<le> k * m \<Longrightarrow> concat (chunks m k xs) = xs"
  by (induction k arbitrary: xs) auto

lemma chunk_length_le: "ch \<in> set (chunks m k xs) \<Longrightarrow> length ch \<le> m"
  by (induction k arbitrary: xs) auto

lemma chunk_nonempty: "0 < m \<Longrightarrow> (k - 1) * m < length xs \<or> k = 0 \<Longrightarrow> ch \<in> set (chunks m k xs) \<Longrightarrow> ch \<noteq> []"
proof (induction k arbitrary: xs)
  case (Suc k)
  show ?case
  proof (cases "ch = take m xs")
    case True
    with Suc.prems show ?thesis by (cases xs) auto
  next
    case False
    then have "ch \<in> set (chunks m k (drop m xs))" using Suc.prems by auto
    moreover have "(k - 1) * m < length (drop m xs) \<or> k = 0"
      using Suc.prems by (cases k) auto
    ultimately show ?thesis using Suc.IH Suc.prems(1) by blast
  qed
qed simp

lemma kcp_segment_send_get_frame:
  assumes "kcp_segment_send_get mem c = (r, c')"
  shows "snd_queue c' = snd_queue c \<and> nsnd_que c' = nsnd_que c \<and> psn_nxt c' = psn_nxt c \<and> mss c' = mss c \<and>
    scid c' = scid c \<and> dcid c' = dcid c \<and> snd_buf c' = snd_buf c \<and> nsnd_buf c' = nsnd_buf c \<and>
    snd_una c' = snd_una c \<and> snd_nxt c' = snd_nxt c \<and> state c' = state c"
  using assms by (auto simp: kcp_segment_send_get_def split: list.splits)

lemma kcp_segment_send_put_frame:
  "snd_queue (kcp_segment_send_put s c) = snd_queue c" "nsnd_que (kcp_segment_send_put s c) = nsnd_que c"
  "psn_nxt (kcp_segment_send_put s c) = psn_nxt c" "mss (kcp_segment_send_put s c) = mss c"
  "snd_buf (kcp_segment_send_put s c) = snd_buf c" "nsnd_buf (kcp_segment_send_put s c) = nsnd_buf c"
  "snd_una (kcp_segment_send_put s c) = snd_una c" "snd_nxt (kcp_segment_send_put s c) = snd_nxt c"
  by (simp_all add: kcp_segment_send_put_def)

lemma foldl_put_frame:
  "snd_queue (foldl (\<lambda>c s. kcp_segment_send_put s c) c ss) = snd_queue c \<and>
   nsnd_que (foldl (\<lambda>c s. kcp_segment_send_put s c) c ss) = nsnd_que c \<and>
   psn_nxt (foldl (\<lambda>c s. kcp_segment_send_put s c) c ss) = psn_nxt c \<and>
   snd_buf (foldl (\<lambda>c s. kcp_segment_send_put s c) c ss) = snd_buf c \<and>
   nsnd_buf (foldl (\<lambda>c s. kcp_segment_send_put s c) c ss) = nsnd_buf c \<and>
   snd_una (foldl (\<lambda>c s. kcp_segment_send_put s c) c ss) = snd_una c \<and>
   snd_nxt (foldl (\<lambda>c s. kcp_segment_send_put s c) c ss) = snd_nxt c"
  by (induction ss arbitrary: c) (simp_all add: kcp_segment_send_put_frame)

text \<open>A queued fragment: number \<open>i\<close> of \<open>n\<close> of the packet \<open>psn\<close> with the given bytes.\<close>

definition is_fragment :: "'a kcp_snd_scheme \<Rightarrow> nat \<Rightarrow> nat \<Rightarrow> bytes \<Rightarrow> kcp_segment \<Rightarrow> bool" where
  "is_fragment c n i chunk s \<longleftrightarrow> seg_data s = chunk \<and> seg_len s = of_nat (length chunk) \<and>
     seg_frg s = of_nat i \<and> seg_wnd s = (if i = 0 then of_nat n else 0) \<and> seg_psn s = psn_nxt c \<and>
     seg_scid s = scid c \<and> seg_dcid s = dcid c"

lemma is_fragment_fill: "is_fragment c n i ch (fill_segment c i n (psn_nxt c) ch s)"
  by (simp add: is_fragment_def fill_segment_def)

lemma kcp_send_frags_frame:
  "kcp_send_frags mem k i n rest acc c = (r, c') \<Longrightarrow>
     snd_queue c' = snd_queue c \<and> nsnd_que c' = nsnd_que c \<and> psn_nxt c' = psn_nxt c \<and>
     snd_buf c' = snd_buf c \<and> nsnd_buf c' = nsnd_buf c \<and> snd_una c' = snd_una c \<and> snd_nxt c' = snd_nxt c"
proof (induction k arbitrary: i rest acc c)
  case 0
  then show ?case by simp
next
  case (Suc k)
  obtain g c1 where g: "kcp_segment_send_get (mem i) c = (g, c1)" by (cases "kcp_segment_send_get (mem i) c")
  note fr = kcp_segment_send_get_frame [OF g]
  show ?case
  proof (cases g)
    case None
    then show ?thesis using Suc.prems g fr foldl_put_frame [of c1 acc] by auto
  next
    case (Some seg)
    then show ?thesis using Suc.prems g fr Suc.IH by (fastforce simp: Let_def)
  qed
qed

lemma kcp_send_frags_Some:
  assumes "kcp_send_frags mem k i n rest acc c = (Some segs, c')"
  shows "\<exists>new. segs = acc @ new \<and>
    list_all2 (\<lambda>(j, ch). is_fragment c n j ch) (zip [i..<i + k] (chunks (unat (mss c)) k rest)) new"
  using assms
proof (induction k arbitrary: i rest acc c)
  case 0
  then show ?case by simp
next
  case (Suc k)
  obtain g c1 where g: "kcp_segment_send_get (mem i) c = (g, c1)" by (cases "kcp_segment_send_get (mem i) c")
  note fr = kcp_segment_send_get_frame [OF g]
  then obtain seg where seg: "g = Some seg" using Suc.prems g by (cases g) auto
  let ?m = "unat (mss c)"
  let ?ps = "if length rest > ?m then ?m else length rest"
  have td: "take ?ps rest = take ?m rest" "drop ?ps rest = drop ?m rest" by auto
  have "kcp_send_frags mem k (i + 1) n (drop ?m rest)
      (acc @ [fill_segment c i n (psn_nxt c) (take ?m rest) seg]) c1 = (Some segs, c')"
    using Suc.prems g seg td by (simp add: Let_def)
  from Suc.IH [OF this] obtain new where
    new: "segs = (acc @ [fill_segment c i n (psn_nxt c) (take ?m rest) seg]) @ new"
      "list_all2 (\<lambda>(j, ch). is_fragment c1 n j ch)
        (zip [i + 1..<i + 1 + k] (chunks (unat (mss c1)) k (drop ?m rest))) new" by blast
  have frag: "is_fragment c1 = is_fragment c"
    using fr by (simp add: is_fragment_def fun_eq_iff)
  have "[i..<i + Suc k] = i # [i + 1..<i + 1 + k]" by (simp add: upt_conv_Cons)
  then show ?case
    using new fr frag is_fragment_fill by (intro exI conjI) (auto simp: list_all2_Cons1)
qed

lemma fragmentation_covers:
  assumes "0 < unat (mss c)"
  shows "sz \<le> kcp_fragmentation c sz * unat (mss c)"
    "0 < sz \<Longrightarrow> (kcp_fragmentation c sz - 1) * unat (mss c) < sz"
    "0 < sz \<Longrightarrow> 0 < kcp_fragmentation c sz"
proof -
  let ?m = "unat (mss c)" and ?n = "kcp_fragmentation c sz"
  have *: "?n * ?m \<le> sz + ?m - 1" "sz + ?m - 1 < ?n * ?m + ?m"
    using div_mult_mod_eq [of "sz + ?m - 1" ?m] mod_less_divisor [OF assms, of "sz + ?m - 1"]
    unfolding kcp_fragmentation_def by linarith+
  show "sz \<le> ?n * ?m" using * assms by linarith
  show pos: "0 < ?n" if "0 < sz"
    using that assms by (simp add: kcp_fragmentation_def div_greater_zero_iff)
  show "(?n - 1) * ?m < sz" if "0 < sz"
  proof -
    have "(?n - 1) * ?m + ?m = ?n * ?m" using pos [OF that]
      by (metis Suc_diff_1 add.commute mult_Suc)
    then show ?thesis using * assms that by linarith
  qed
qed

subsection \<open>Acknowledgements\<close>

text \<open>A segment up to its skip counter, which is all that the first loop changes in the others.\<close>

definition strip :: "kcp_segment \<Rightarrow> kcp_segment" where
  "strip s = s\<lparr>seg_fastack := 0\<rparr>"

lemma strip_simps [simp]: "seg_sn (strip s) = seg_sn s" "seg_len (strip s) = seg_len s"
  "strip (s\<lparr>seg_fastack := n\<rparr>) = strip s"
  by (simp_all add: strip_def)

lemma ack_scan_strip:
  assumes "ack_scan sn segs = (buf, hit)" and "sorted_wrt (<) (map seg_sn segs)"
  shows "map strip buf = filter (\<lambda>s. seg_sn s \<noteq> sn) (map strip segs) \<and>
    hit = find (\<lambda>s. seg_sn s = sn) segs"
  using assms
proof (induction sn segs arbitrary: buf hit rule: ack_scan.induct)
  case (1 sn)
  then show ?case by simp
next
  case (2 sn pos rest)
  show ?case
  proof (cases "seg_sn pos < sn")
    case True
    obtain buf' hit' where r: "ack_scan sn rest = (buf', hit')" by (cases "ack_scan sn rest")
    have "map strip buf' = filter (\<lambda>s. seg_sn s \<noteq> sn) (map strip rest) \<and> hit' = find (\<lambda>s. seg_sn s = sn) rest"
      using "2.IH" [OF True r] "2.prems"(2) by simp
    with True r "2.prems"(1) show ?thesis by auto
  next
    case False
    then have "\<forall>s\<in>set rest. sn < seg_sn s" using "2.prems"(2) by (force simp: not_less)
    then have "filter (\<lambda>s. seg_sn s \<noteq> sn) (map strip rest) = map strip rest" "find (\<lambda>s. seg_sn s = sn) rest = None"
      by (auto simp: filter_id_conv find_None_iff)
    then show ?thesis using "2.prems"(1) False by auto
  qed
qed

lemma sorted_seg_sn_strip: "map strip buf = filter P (map strip segs) \<Longrightarrow>
    sorted_wrt (<) (map seg_sn segs) \<Longrightarrow> sorted_wrt (<) (map seg_sn buf)"
proof -
  assume eq: "map strip buf = filter P (map strip segs)" and srt: "sorted_wrt (<) (map seg_sn segs)"
  have sn: "map seg_sn xs = map seg_sn (map strip xs)" for xs by simp
  have "sorted_wrt (\<lambda>s t. seg_sn s < seg_sn t) (map strip segs)" using srt by (simp add: sorted_wrt_map)
  then have "sorted_wrt (\<lambda>s t. seg_sn s < seg_sn t) (filter P (map strip segs))" by (rule sorted_wrt_filter)
  then show "sorted_wrt (<) (map seg_sn buf)" unfolding sn [of buf] eq by (simp add: sorted_wrt_map)
qed

lemma una_hits_filter:
  assumes "sorted_wrt (<) (map seg_sn segs)"
  shows "ack_una_hits una segs = filter (\<lambda>s. seg_sn s < una) segs"
    "drop (length (ack_una_hits una segs)) segs = filter (\<lambda>s. una \<le> seg_sn s) segs"
proof -
  have "ack_una_hits una segs = filter (\<lambda>s. seg_sn s < una) segs \<and>
      drop (length (ack_una_hits una segs)) segs = filter (\<lambda>s. una \<le> seg_sn s) segs"
    using assms
  proof (induction segs)
    case (Cons s segs)
    show ?case
    proof (cases "seg_sn s < una")
      case True
      with Cons show ?thesis by (auto simp: ack_una_hits_def not_le)
    next
      case False
      with Cons.prems have "\<forall>x\<in>set segs. una \<le> seg_sn x" by (force simp: not_less)
      with False show ?thesis by (auto simp: ack_una_hits_def filter_id_conv filter_empty_conv not_less)
    qed
  qed (simp add: ack_una_hits_def)
  then show "ack_una_hits una segs = filter (\<lambda>s. seg_sn s < una) segs"
    and "drop (length (ack_una_hits una segs)) segs = filter (\<lambda>s. una \<le> seg_sn s) segs" by auto
qed

lemma ack_account_frame:
  "ack_account ts (c, a, b) pos = (c', a', b') \<Longrightarrow>
     snd_buf c' = snd_buf c \<and> snd_nxt c' = snd_nxt c \<and> nsnd_buf c' = nsnd_buf c - 1 \<and>
     nsnd_buf_unused c' = nsnd_buf_unused c + 1 \<and> tx_bytes c' = tx_bytes c + ucast (seg_len pos) \<and>
     a' = a + ucast (seg_len pos) \<and> bbr_delivered c' = bbr_delivered c \<and>
     rx_rto c' = rx_rto c \<and> rx_minrto c' = rx_minrto c \<and> rx_srtt c' = rx_srtt c \<and>
     snd_queue c' = snd_queue c \<and> nsnd_que c' = nsnd_que c \<and> psn_nxt c' = psn_nxt c"
  by (auto simp: ack_account_def Let_def)

definition seg_bytes :: "kcp_segment list \<Rightarrow> u64" where
  "seg_bytes segs = sum_list (map (\<lambda>s. ucast (seg_len s)) segs)"

lemma foldl_ack_account_frame:
  "foldl (ack_account ts) (c, a, b) segs = (c', a', b') \<Longrightarrow>
     snd_buf c' = snd_buf c \<and> snd_nxt c' = snd_nxt c \<and> nsnd_buf c' = nsnd_buf c - int (length segs) \<and>
     nsnd_buf_unused c' = nsnd_buf_unused c + int (length segs) \<and> tx_bytes c' = tx_bytes c + seg_bytes segs \<and>
     a' = a + seg_bytes segs \<and> bbr_delivered c' = bbr_delivered c \<and>
     rx_rto c' = rx_rto c \<and> rx_minrto c' = rx_minrto c \<and> rx_srtt c' = rx_srtt c \<and>
     snd_queue c' = snd_queue c \<and> nsnd_que c' = nsnd_que c \<and> psn_nxt c' = psn_nxt c"
proof (induction segs arbitrary: c a b)
  case Nil
  then show ?case by (simp add: seg_bytes_def)
next
  case (Cons s segs)
  obtain c1 a1 b1 where 1: "ack_account ts (c, a, b) s = (c1, a1, b1)"
    by (cases "ack_account ts (c, a, b) s") auto
  then have "foldl (ack_account ts) (c1, a1, b1) segs = (c', a', b')" using Cons.prems by simp
  from Cons.IH [OF this] ack_account_frame [OF 1] show ?case
    by (auto simp: seg_bytes_def ac_simps)
qed

lemma update_rtt_frame [simp]:
  "snd_buf (update_rtt r c) = snd_buf c" "snd_nxt (update_rtt r c) = snd_nxt c"
  "nsnd_buf (update_rtt r c) = nsnd_buf c" "nsnd_buf_unused (update_rtt r c) = nsnd_buf_unused c"
  "tx_bytes (update_rtt r c) = tx_bytes c" "bbr_delivered (update_rtt r c) = bbr_delivered c"
  "rx_minrto (update_rtt r c) = rx_minrto c" "snd_queue (update_rtt r c) = snd_queue c"
  "nsnd_que (update_rtt r c) = nsnd_que c" "psn_nxt (update_rtt r c) = psn_nxt c"
  by (simp_all add: update_rtt_def Let_def split: prod.splits)

lemma clamp_range: "lo \<le> hi \<Longrightarrow> lo \<le> clamp x lo hi \<and> clamp x lo hi \<le> hi"
  by (simp add: clamp_def)

lemma update_rtt_rto: "rx_minrto c \<le> KCP_RTO_MAX * 1000 \<Longrightarrow>
    rx_minrto c \<le> rx_rto (update_rtt r c) \<and> rx_rto (update_rtt r c) \<le> KCP_RTO_MAX * 1000"
  using clamp_range [of "rx_minrto c" "KCP_RTO_MAX * 1000"]
  by (simp add: update_rtt_def Let_def split: prod.splits)

text \<open>The congestion control touches nothing outside its record, nor the segment size and count.\<close>

definition cc_same :: "'a kcp_cc_scheme \<Rightarrow> 'a kcp_cc_scheme \<Rightarrow> bool" where
  "cc_same c d \<longleftrightarrow> kcp_cc.more c = kcp_cc.more d \<and> mss c = mss d \<and> nsnd_buf c = nsnd_buf d \<and>
     bbr_delivered c = bbr_delivered d"

lemma cc_same_refl: "cc_same c c" by (simp add: cc_same_def)

lemma cc_same_trans: "cc_same c d \<Longrightarrow> cc_same d e \<Longrightarrow> cc_same c e" by (simp add: cc_same_def)

lemma cc_same_set_mode: "cc_same (bbr_set_mode c m now) c"
  by (cases m) (simp_all add: cc_same_def bbr_set_mode_def)

lemma cc_same_steps:
  "cc_same (bbr_update_bw_filter c bw) c" "cc_same (bbr_update_min_rtt c now rtt) c"
  "cc_same (bbr_check_full_pipe c) c" "cc_same (bbr_update_cycle_phase c now) c"
  "cc_same (bbr_update_pacing_rate c) c" "cc_same (bbr_update_cwnd c n) c"
  by (simp_all add: cc_same_def bbr_update_bw_filter_def bbr_update_min_rtt_def bbr_check_full_pipe_def
      bbr_update_cycle_phase_def bbr_update_pacing_rate_def bbr_update_cwnd_def Let_def)

lemma cc_same_modes:
  "cc_same (bbr_maybe_enter_probe_rtt c now) c" "cc_same (bbr_leave_startup c now) c"
  "cc_same (bbr_drain c now) c"
  by (simp_all add: bbr_maybe_enter_probe_rtt_def bbr_leave_startup_def bbr_drain_def cc_same_refl cc_same_set_mode)

lemma cc_same_probe_rtt: "cc_same (bbr_probe_rtt c now) c"
proof -
  have s: "cc_same (c\<lparr>bbr_probe_rtt_done_stamp := x, bbr_min_rtt_stamp := y\<rparr>) c"
    "cc_same (c\<lparr>bbr_probe_rtt_done_stamp := x\<rparr>) c" "cc_same (c\<lparr>bbr_min_rtt_stamp := y\<rparr>) c" for x y
    by (simp_all add: cc_same_def)
  then show ?thesis
    using cc_same_trans [OF cc_same_set_mode s(1)] cc_same_trans [OF cc_same_set_mode s(3)]
    by (simp add: bbr_probe_rtt_def Let_def cc_same_refl)
qed

lemma cc_same_on_ack: "cc_same (bbr_on_ack c now acked bw rtt) c"
  unfolding bbr_on_ack_def Let_def
  by (auto intro!: cc_same_refl cc_same_trans [OF cc_same_steps(1)] cc_same_trans [OF cc_same_steps(2)]
      cc_same_trans [OF cc_same_steps(3)] cc_same_trans [OF cc_same_steps(4)]
      cc_same_trans [OF cc_same_steps(5)] cc_same_trans [OF cc_same_steps(6)]
      cc_same_trans [OF cc_same_modes(1)] cc_same_trans [OF cc_same_modes(2)]
      cc_same_trans [OF cc_same_modes(3)] cc_same_trans [OF cc_same_probe_rtt])

lemma cc_same_snd:
  fixes c d :: "'a kcp_snd_scheme"
  assumes "cc_same c d"
  shows "snd_buf c = snd_buf d" "snd_una c = snd_una d" "snd_nxt c = snd_nxt d" "nsnd_buf c = nsnd_buf d"
    "snd_queue c = snd_queue d" "nsnd_que c = nsnd_que d" "psn_nxt c = psn_nxt d" "tx_bytes c = tx_bytes d"
    "rx_rto c = rx_rto d" "rx_minrto c = rx_minrto d" "rx_srtt c = rx_srtt d" "state c = state d"
    "snd_buf_unused c = snd_buf_unused d" "nsnd_buf_unused c = nsnd_buf_unused d"
  using assms by (cases c; cases d; simp add: cc_same_def)+

lemmas bbr_on_ack_snd [simp] = cc_same_snd [OF cc_same_on_ack]

lemma bbr_delivered_on_ack [simp]: "bbr_delivered (bbr_on_ack c now acked bw rtt) = bbr_delivered c"
  using cc_same_on_ack [of c now acked bw rtt] by (simp add: cc_same_def)

subsection \<open>The acknowledgement handler as a filter on the send buffer\<close>

definition acked_by :: "u32 \<Rightarrow> u32 \<Rightarrow> kcp_segment \<Rightarrow> bool" where
  "acked_by sn una s \<longleftrightarrow> seg_sn s = sn \<or> seg_sn s < una"

lemma seg_bytes_simps [simp]:
  "seg_bytes [] = 0" "seg_bytes (s # ss) = ucast (seg_len s) + seg_bytes ss"
  "seg_bytes (xs @ ys) = seg_bytes xs + seg_bytes ys" "seg_bytes (map strip xs) = seg_bytes xs"
  by (simp_all add: seg_bytes_def comp_def)

lemma find_acked_bytes:
  assumes "sorted_wrt (<) (map seg_sn segs)"
  shows "seg_bytes (filter (\<lambda>s. seg_sn s = sn) segs) =
    (case find (\<lambda>s. seg_sn s = sn) segs of None \<Rightarrow> 0 | Some p \<Rightarrow> ucast (seg_len p))"
    "length (filter (\<lambda>s. seg_sn s = sn) segs) =
    (case find (\<lambda>s. seg_sn s = sn) segs of None \<Rightarrow> 0 | Some p \<Rightarrow> 1)"
proof -
  have "seg_bytes (filter (\<lambda>s. seg_sn s = sn) segs) =
      (case find (\<lambda>s. seg_sn s = sn) segs of None \<Rightarrow> 0 | Some p \<Rightarrow> ucast (seg_len p)) \<and>
      length (filter (\<lambda>s. seg_sn s = sn) segs) =
      (case find (\<lambda>s. seg_sn s = sn) segs of None \<Rightarrow> 0 | Some p \<Rightarrow> 1)"
    using assms
  proof (induction segs)
    case (Cons s segs)
    have "filter (\<lambda>t. seg_sn t = seg_sn s) segs = []" using Cons.prems by (auto simp: filter_empty_conv)
    with Cons show ?case by auto
  qed simp
  then show "seg_bytes (filter (\<lambda>s. seg_sn s = sn) segs) =
    (case find (\<lambda>s. seg_sn s = sn) segs of None \<Rightarrow> 0 | Some p \<Rightarrow> ucast (seg_len p))"
    and "length (filter (\<lambda>s. seg_sn s = sn) segs) =
    (case find (\<lambda>s. seg_sn s = sn) segs of None \<Rightarrow> 0 | Some p \<Rightarrow> 1)" by auto
qed

lemma seg_bytes_split:
  "seg_bytes (filter (acked_by sn una) segs) =
     seg_bytes (filter (\<lambda>s. seg_sn s = sn) segs) +
     seg_bytes (filter (\<lambda>s. seg_sn s < una) (filter (\<lambda>s. seg_sn s \<noteq> sn) segs))"
  "length (filter (acked_by sn una) segs) =
     length (filter (\<lambda>s. seg_sn s = sn) segs) +
     length (filter (\<lambda>s. seg_sn s < una) (filter (\<lambda>s. seg_sn s \<noteq> sn) segs))"
  by (induction segs) (auto simp: acked_by_def ac_simps)

lemma filter_map_strip: "(\<And>s. P (strip s) = P s) \<Longrightarrow> filter P (map strip xs) = map strip (filter P xs)"
  by (induction xs) auto

lemma seg_bytes_strip_eq: "map strip xs = map strip ys \<Longrightarrow> seg_bytes xs = seg_bytes ys"
  by (metis seg_bytes_simps(4))

lemma ack_first_eq:
  assumes srt: "sorted_wrt (<) (map seg_sn (snd_buf c))" and f: "ack_first timestamp pts ats sn c = ((c', acked, bw), rtt)"
  shows "map strip (snd_buf c') = filter (\<lambda>s. seg_sn s \<noteq> sn) (map strip (snd_buf c)) \<and>
    snd_nxt c' = snd_nxt c \<and> bbr_delivered c' = bbr_delivered c \<and>
    nsnd_buf c' = nsnd_buf c - int (length (filter (\<lambda>s. seg_sn s = sn) (snd_buf c))) \<and>
    acked = seg_bytes (filter (\<lambda>s. seg_sn s = sn) (snd_buf c)) \<and> tx_bytes c' = tx_bytes c + acked \<and>
    snd_queue c' = snd_queue c \<and> nsnd_que c' = nsnd_que c \<and> psn_nxt c' = psn_nxt c"
proof -
  obtain buf hit where scan: "ack_scan sn (snd_buf c) = (buf, hit)" by (cases "ack_scan sn (snd_buf c)")
  note strip = ack_scan_strip [OF scan srt] and found = find_acked_bytes [OF srt, of sn]
  show ?thesis
  proof (cases hit)
    case None
    with scan f strip found show ?thesis by (auto simp: ack_first_def)
  next
    case (Some pos)
    let ?c = "(if seg_xmit pos = 1 then update_rtt (ack_rtt timestamp (seg_ts pos) ats pts) c else c)\<lparr>snd_buf := buf\<rparr>"
    have "ack_account timestamp (?c, 0, 0) pos = (c', acked, bw)"
      using scan f Some by (simp add: ack_first_def Let_def)
    from ack_account_frame [OF this] Some strip found show ?thesis
      by (cases "seg_xmit pos = 1") auto
  qed
qed

lemma ack_second_eq:
  assumes srt: "sorted_wrt (<) (map seg_sn (snd_buf c))" and f: "ack_second timestamp una (c, a, b) = (c', acked, bw)"
  defines "hits \<equiv> filter (\<lambda>s. seg_sn s < una) (snd_buf c)"
  shows "snd_buf c' = filter (\<lambda>s. una \<le> seg_sn s) (snd_buf c) \<and> snd_nxt c' = snd_nxt c \<and>
    bbr_delivered c' = bbr_delivered c \<and> nsnd_buf c' = nsnd_buf c - int (length hits) \<and>
    acked = a + seg_bytes hits \<and> tx_bytes c' = tx_bytes c + seg_bytes hits \<and>
    snd_queue c' = snd_queue c \<and> nsnd_que c' = nsnd_que c \<and> psn_nxt c' = psn_nxt c"
proof -
  note una = una_hits_filter [OF srt, of una]
  have "foldl (ack_account timestamp)
      (c\<lparr>snd_buf := drop (length (ack_una_hits una (snd_buf c))) (snd_buf c)\<rparr>, a, b)
      (ack_una_hits una (snd_buf c)) = (c', acked, bw)"
    using f by (simp add: ack_second_def Let_def)
  from foldl_ack_account_frame [OF this] show ?thesis
    by (simp add: una(2)) (simp add: una(1) hits_def)
qed

lemma on_kcp_ack_filter:
  fixes c :: "'a kcp_snd_scheme" and timestamp :: u64
  assumes st: "state c \<noteq> KCP_STATE_DISCONNECTED" and body: "as_ack_data (hd_body h) = (pts, ats, sn, una)"
    and win: "\<not> sn < snd_una c" "\<not> sn > snd_nxt c" and srt: "sorted_wrt (<) (map seg_sn (snd_buf c))"
  defines "c' \<equiv> on_kcp_ack_pcaket h timestamp c"
    and "gone \<equiv> filter (acked_by sn una) (snd_buf c)"
  shows "map strip (snd_buf c') = filter (\<lambda>s. \<not> acked_by sn una s) (map strip (snd_buf c)) \<and>
    snd_nxt c' = snd_nxt c \<and> snd_una c' = first_sn (snd_nxt c) (snd_buf c') \<and>
    nsnd_buf c' = nsnd_buf c - int (length gone) \<and> tx_bytes c' = tx_bytes c + seg_bytes gone \<and>
    bbr_delivered c' = bbr_delivered c + seg_bytes gone \<and> snd_queue c' = snd_queue c \<and>
    nsnd_que c' = nsnd_que c \<and> psn_nxt c' = psn_nxt c"
proof -
  obtain c1 acked1 bw1 rtt where 1: "ack_first timestamp pts ats sn (ping_refresh timestamp c) = ((c1, acked1, bw1), rtt)"
    by (metis prod.exhaust)
  obtain c2 acked2 bw2 where 2: "ack_second timestamp una (c1, acked1, bw1) = (c2, acked2, bw2)"
    by (metis prod.exhaust)
  have srt0: "sorted_wrt (<) (map seg_sn (snd_buf (ping_refresh timestamp c)))"
    using srt by (simp add: ping_refresh_def)
  note f1 = ack_first_eq [OF srt0 1]
  have strip1: "map strip (snd_buf c1) = filter (\<lambda>s. seg_sn s \<noteq> sn) (map strip (snd_buf c))"
    using f1 by (simp add: ping_refresh_def)
  note f2 = ack_second_eq [OF sorted_seg_sn_strip [OF strip1 srt] 2]
  let ?hits = "filter (\<lambda>s. seg_sn s < una) (snd_buf c1)"
  have "map strip ?hits = map strip (filter (\<lambda>s. seg_sn s < una) (filter (\<lambda>s. seg_sn s \<noteq> sn) (snd_buf c)))"
    using strip1 by (simp add: filter_map_strip [symmetric])
  then have hits: "seg_bytes ?hits = seg_bytes (filter (\<lambda>s. seg_sn s < una) (filter (\<lambda>s. seg_sn s \<noteq> sn) (snd_buf c)))"
      "length ?hits = length (filter (\<lambda>s. seg_sn s < una) (filter (\<lambda>s. seg_sn s \<noteq> sn) (snd_buf c)))"
    by (rule seg_bytes_strip_eq, metis length_map)
  define d where "d = ack_advance (ack_shrink c2)"
  have sb: "map strip (snd_buf d) = filter (\<lambda>s. \<not> acked_by sn una s) (map strip (snd_buf c))"
  proof -
    have "map strip (snd_buf d) = filter (\<lambda>s. una \<le> seg_sn s) (map strip (snd_buf c1))"
      using f2 by (simp add: d_def ack_advance_def ack_shrink_def filter_map_strip)
    also have "\<dots> = filter (\<lambda>s. \<not> acked_by sn una s) (map strip (snd_buf c))"
      unfolding strip1 filter_filter by (rule filter_cong) (auto simp: acked_by_def not_less)
    finally show ?thesis .
  qed
  have total: "acked2 = seg_bytes gone" "nsnd_buf d = nsnd_buf c - int (length gone)" "tx_bytes d = tx_bytes c + seg_bytes gone"
    "bbr_delivered d = bbr_delivered c" "snd_queue d = snd_queue c" "nsnd_que d = nsnd_que c" "psn_nxt d = psn_nxt c"
    "snd_nxt d = snd_nxt c" "snd_una d = first_sn (snd_nxt c) (snd_buf d)"
    using f1 f2 hits seg_bytes_split [of sn una "snd_buf c"]
    by (simp_all add: d_def ack_advance_def ack_shrink_def ping_refresh_def gone_def ac_simps)
  have res: "c' = (if acked2 > 0
      then bbr_on_ack (d\<lparr>bbr_delivered := bbr_delivered d + acked2, bbr_delivered_ts := timestamp\<rparr>)
             timestamp acked2 bw2 rtt else d)"
    using st win 1 2 by (simp add: c'_def on_kcp_ack_pcaket_def body d_def Let_def)
  then show ?thesis
    using sb total by (cases "acked2 > 0") (auto simp: word_neq_0_conv [symmetric] not_less)
qed

section \<open>Invariant of the send side\<close>

definition snd_wf :: "'a kcp_snd_scheme \<Rightarrow> bool" where
  "snd_wf c \<longleftrightarrow> sorted_wrt (<) (map seg_sn (snd_buf c)) \<and> (\<forall>s\<in>set (snd_buf c). seg_sn s < snd_nxt c) \<and>
     snd_una c = first_sn (snd_nxt c) (snd_buf c) \<and>
     nsnd_buf c = int (length (snd_buf c)) \<and> nsnd_que c = int (length (snd_queue c))"

lemma snd_wf_una_le: "snd_wf c \<Longrightarrow> snd_una c \<le> snd_nxt c"
  by (cases "snd_buf c") (auto simp: snd_wf_def)

lemma on_kcp_ack_ignored:
  assumes "as_ack_data (hd_body h) = (pts, ats, sn, una)" and "sn < snd_una c \<or> sn > snd_nxt c"
  shows "on_kcp_ack_pcaket h timestamp c = (if state c = KCP_STATE_DISCONNECTED then c else ping_refresh timestamp c)"
  using assms by (auto simp: on_kcp_ack_pcaket_def)

lemma snd_wf_ping_refresh: "snd_wf (ping_refresh t c) = snd_wf c"
  by (simp add: snd_wf_def ping_refresh_def)

lemma on_kcp_ack_wf:
  assumes wf: "snd_wf c"
  shows "snd_wf (on_kcp_ack_pcaket h timestamp c)"
proof -
  obtain pts ats sn una where body: "as_ack_data (hd_body h) = (pts, ats, sn, una)" by (metis prod.exhaust)
  show ?thesis
  proof (cases "state c = KCP_STATE_DISCONNECTED \<or> sn < snd_una c \<or> sn > snd_nxt c")
    case True
    then show ?thesis
      using wf on_kcp_ack_ignored [OF body, of c timestamp] by (auto simp: snd_wf_ping_refresh on_kcp_ack_pcaket_def body)
  next
    case False
    let ?c = "on_kcp_ack_pcaket h timestamp c"
    have srt: "sorted_wrt (<) (map seg_sn (snd_buf c))" using wf by (simp add: snd_wf_def)
    note f = on_kcp_ack_filter [OF _ body _ _ srt, of timestamp]
    have strip: "map strip (snd_buf ?c) = filter (\<lambda>s. \<not> acked_by sn una s) (map strip (snd_buf c))"
      using f False by blast
    have sn: "seg_sn ` set (snd_buf ?c) \<subseteq> seg_sn ` set (snd_buf c)"
    proof -
      have "set (map strip (snd_buf ?c)) \<subseteq> set (map strip (snd_buf c))" unfolding strip by auto
      then have "seg_sn ` strip ` set (snd_buf ?c) \<subseteq> seg_sn ` strip ` set (snd_buf c)" by (simp add: image_mono)
      then show ?thesis by (simp add: image_comp)
    qed
    have len: "length (snd_buf ?c) = length (filter (\<lambda>s. \<not> acked_by sn una s) (snd_buf c))"
      using arg_cong [OF strip, of length] by (simp add: filter_map acked_by_def comp_def)
    have "length (filter (acked_by sn una) (snd_buf c)) + length (filter (\<lambda>s. \<not> acked_by sn una s) (snd_buf c)) =
        length (snd_buf c)" by (rule sum_length_filter_compl)
    then have "nsnd_buf ?c = int (length (snd_buf ?c))"
      using f False wf len by (simp add: snd_wf_def)
    moreover have "\<forall>s\<in>set (snd_buf ?c). seg_sn s < snd_nxt c" using sn wf by (auto simp: snd_wf_def)
    ultimately show ?thesis
      using f False wf sorted_seg_sn_strip [OF strip srt] by (simp add: snd_wf_def)
  qed
qed

lemma kcp_send_cases:
  assumes "kcp_send sock_open mem data c = (e, c')"
  shows "snd_buf c' = snd_buf c \<and> nsnd_buf c' = nsnd_buf c \<and> snd_una c' = snd_una c \<and> snd_nxt c' = snd_nxt c \<and>
    (e \<noteq> NO_ERROR \<longrightarrow> snd_queue c' = snd_queue c \<and> nsnd_que c' = nsnd_que c \<and> psn_nxt c' = psn_nxt c) \<and>
    (e = NO_ERROR \<longrightarrow> data \<noteq> [] \<and> (\<exists>segs d. kcp_send_frags mem (kcp_fragmentation c (length data)) 0
        (kcp_fragmentation c (length data)) data [] c = (Some segs, d) \<and>
      snd_queue c' = snd_queue c @ segs \<and> nsnd_que c' = nsnd_que c + int (length segs) \<and> psn_nxt c' = psn_nxt c + 1))"
proof -
  let ?n = "kcp_fragmentation c (length data)"
  obtain r d where fr: "kcp_send_frags mem ?n 0 ?n data [] c = (r, d)" by (metis prod.exhaust)
  note frame = kcp_send_frags_frame [OF fr]
  show ?thesis
    using assms frame fr
    by (cases r) (auto simp: kcp_send_def Let_def split: if_splits)
qed

lemma kcp_send_wf: "snd_wf c \<Longrightarrow> kcp_send sock_open mem data c = (e, c') \<Longrightarrow> snd_wf c'"
  using kcp_send_cases [of sock_open mem data c e c']
  by (cases "e = NO_ERROR") (auto simp: snd_wf_def)

lemma kcp_send_message:
  assumes "kcp_send sock_open mem data c = (NO_ERROR, c')" and "mss c \<noteq> 0"
  shows "\<exists>segs. snd_queue c' = snd_queue c @ segs \<and> concat (map seg_data segs) = data \<and>
    length segs = kcp_fragmentation c (length data) \<and>
    (\<forall>i < length segs. is_fragment c (length segs) i (seg_data (segs ! i)) (segs ! i) \<and>
       seg_data (segs ! i) \<noteq> [] \<and> length (seg_data (segs ! i)) \<le> unat (mss c)) \<and>
    psn_nxt c' = psn_nxt c + 1 \<and> nsnd_que c' = nsnd_que c + int (length segs) \<and>
    segs \<noteq> [] \<and> int (length segs) \<le> KCP_PACKET_SIZE"
proof -
  let ?n = "kcp_fragmentation c (length data)"
  have m: "0 < unat (mss c)" using assms(2) by (simp add: unat_gt_0)
  from kcp_send_cases [OF assms(1)] obtain segs d where ne: "data \<noteq> []" and
    fr: "kcp_send_frags mem ?n 0 ?n data [] c = (Some segs, d)" and
    eff: "snd_queue c' = snd_queue c @ segs" "nsnd_que c' = nsnd_que c + int (length segs)" "psn_nxt c' = psn_nxt c + 1"
    by auto
  from kcp_send_frags_Some [OF fr] have all: "list_all2 (\<lambda>(j, ch). is_fragment c ?n j ch)
      (zip [0..<?n] (chunks (unat (mss c)) ?n data)) segs" by simp
  have len: "length segs = ?n" using list_all2_lengthD [OF all] by simp
  have frag: "is_fragment c ?n i (chunks (unat (mss c)) ?n data ! i) (segs ! i)" if "i < ?n" for i
    using list_all2_nthD [OF all, of i] that by simp
  then have dat: "seg_data (segs ! i) = chunks (unat (mss c)) ?n data ! i" if "i < ?n" for i
    using that by (auto simp: is_fragment_def)
  have "map seg_data segs = chunks (unat (mss c)) ?n data"
    by (rule nth_equalityI) (simp_all add: len dat)
  then have "concat (map seg_data segs) = data"
    using concat_chunks fragmentation_covers(1) [OF m] by simp
  moreover have "chunks (unat (mss c)) ?n data ! i \<in> set (chunks (unat (mss c)) ?n data)" if "i < ?n" for i
    using that by simp
  then have "seg_data (segs ! i) \<noteq> [] \<and> length (seg_data (segs ! i)) \<le> unat (mss c)" if "i < ?n" for i
    using that dat chunk_length_le chunk_nonempty [OF m, of ?n data] fragmentation_covers(2) [OF m, of "length data"] ne
    by (metis length_greater_0_conv)
  moreover have "int ?n \<le> KCP_PACKET_SIZE" using assms(1) by (auto simp: kcp_send_def Let_def split: if_splits)
  moreover have "segs \<noteq> []" using fragmentation_covers(3) [OF m, of "length data"] ne len by auto
  ultimately show ?thesis using eff len frag dat by (intro exI [where x = segs]) simp
qed

section \<open>Properties\<close>

text \<open>
  C14. Queueing: when \<open>kcp_send\<close> succeeds, the fragments it appends to the send queue carry the
  message: their payloads concatenate to it, each is non-empty and at most a segment long, they
  are numbered from 0 under the message's packet number, and the first announces their count.
\<close>

theorem kcp_send_queues_message:
  assumes "kcp_send sock_open mem data c = (NO_ERROR, c')" and "mss c \<noteq> 0"
  shows "\<exists>segs. snd_queue c' = snd_queue c @ segs \<and> concat (map seg_data segs) = data \<and>
    length segs = kcp_fragmentation c (length data) \<and>
    (\<forall>i < length segs. is_fragment c (length segs) i (seg_data (segs ! i)) (segs ! i) \<and>
       seg_data (segs ! i) \<noteq> [] \<and> length (seg_data (segs ! i)) \<le> unat (mss c)) \<and>
    psn_nxt c' = psn_nxt c + 1 \<and> nsnd_que c' = nsnd_que c + int (length segs)"
  using kcp_send_message [OF assms] by blast

text \<open>A freshly connected connection with a segment size of 8 bytes.\<close>

definition sample_conn :: kcp_connection where
  "sample_conn = (kcp_connection_init zero_connection (Sockaddr_in 9000 0x0100007F) 40 1000)
     \<lparr>state := KCP_STATE_CONNECTED, scid := 5, dcid := 6\<rparr>"

lemmas init_defs = kcp_connection_init_def init_session_def init_rcv_def init_cc_def init_snd_def

lemma sample_conn_mss: "mss sample_conn = 8"
  by (simp add: sample_conn_def init_defs u32_of_i32_def kcp_const)

lemma sample_conn_simps [simp]:
  "state sample_conn = KCP_STATE_CONNECTED" "snd_buf_unused sample_conn = []"
  by (simp_all add: sample_conn_def init_defs)

lemma sample_send_ok:
  "fst (kcp_send True (\<lambda>i. Some sample_segment) (replicate 20 7) sample_conn) = NO_ERROR"
proof -
  have "kcp_fragmentation sample_conn 20 = Suc (Suc (Suc 0))"
    by (simp add: kcp_fragmentation_def sample_conn_mss)
  then show ?thesis
    by (simp add: kcp_send_def Let_def sample_conn_mss kcp_segment_send_get_def kcp_const)
qed

theorem kcp_send_queues_message_witness:
  "\<exists>segs. snd_queue (snd (kcp_send True (\<lambda>i. Some sample_segment) (replicate 20 7) sample_conn)) =
       snd_queue sample_conn @ segs \<and> concat (map seg_data segs) = replicate 20 7 \<and>
    length segs = kcp_fragmentation sample_conn (length (replicate 20 (7 :: u8))) \<and>
    (\<forall>i < length segs. is_fragment sample_conn (length segs) i (seg_data (segs ! i)) (segs ! i) \<and>
       seg_data (segs ! i) \<noteq> [] \<and> length (seg_data (segs ! i)) \<le> unat (mss sample_conn)) \<and>
    psn_nxt (snd (kcp_send True (\<lambda>i. Some sample_segment) (replicate 20 7) sample_conn)) = psn_nxt sample_conn + 1 \<and>
    nsnd_que (snd (kcp_send True (\<lambda>i. Some sample_segment) (replicate 20 7) sample_conn)) =
      nsnd_que sample_conn + int (length segs)"
  by (rule kcp_send_queues_message [where sock_open = True and mem = "\<lambda>i. Some sample_segment"])
     (simp_all add: prod_eq_iff sample_send_ok sample_conn_mss)

text \<open>
  Errors of \<open>kcp_send\<close>: an empty message, one above the maximum size, a closed socket, a
  connection that is not established, more than 64 fragments and a failing allocation each have
  their result code, and in every such case the queue, its counter and the packet number are
  unchanged.
\<close>

lemma kcp_send_errors:
  "(data = [] \<longrightarrow> fst (kcp_send sock_open mem data c) = INVALID_PARAM) \<and>
   (length data > KCP_MAX_PACKET_SIZE \<longrightarrow> fst (kcp_send sock_open mem data c) = PACKET_TOO_LARGE) \<and>
   (data \<noteq> [] \<and> length data \<le> KCP_MAX_PACKET_SIZE \<and> \<not> sock_open \<longrightarrow>
      fst (kcp_send sock_open mem data c) = SOCKET_CLOSED) \<and>
   (data \<noteq> [] \<and> length data \<le> KCP_MAX_PACKET_SIZE \<and> sock_open \<and> state c \<noteq> KCP_STATE_CONNECTED \<longrightarrow>
      fst (kcp_send sock_open mem data c) = INVALID_STATE) \<and>
   (fst (kcp_send sock_open mem data c) \<noteq> NO_ERROR \<longrightarrow>
      snd_queue (snd (kcp_send sock_open mem data c)) = snd_queue c \<and>
      nsnd_que (snd (kcp_send sock_open mem data c)) = nsnd_que c \<and>
      psn_nxt (snd (kcp_send sock_open mem data c)) = psn_nxt c)"
  using kcp_send_cases [of sock_open mem data c "fst (kcp_send sock_open mem data c)"
      "snd (kcp_send sock_open mem data c)"]
  by (auto simp: kcp_send_def kcp_const)

text \<open>
  C15. An acknowledgement inside the send window removes from the send buffer exactly the segment
  with its sequence number and all segments below its \<open>una\<close>; the others stay, in order and
  unchanged but for their skip counters. The counter follows, \<open>snd_una\<close> becomes the first
  remaining sequence number, and the bytes removed are added to the statistics and to the
  delivered bytes of the congestion control. Acknowledgements outside the window change nothing
  but the keepalive deadline.
\<close>

theorem ack_filters_snd_buf:
  assumes "snd_wf c" and "state c \<noteq> KCP_STATE_DISCONNECTED"
    and "as_ack_data (hd_body h) = (pts, ats, sn, una)"
  shows "if snd_una c \<le> sn \<and> sn \<le> snd_nxt c
     then map strip (snd_buf (on_kcp_ack_pcaket h timestamp c)) =
            filter (\<lambda>s. \<not> (seg_sn s = sn \<or> seg_sn s < una)) (map strip (snd_buf c)) \<and>
          nsnd_buf (on_kcp_ack_pcaket h timestamp c) = int (length (snd_buf (on_kcp_ack_pcaket h timestamp c))) \<and>
          snd_una (on_kcp_ack_pcaket h timestamp c) =
            first_sn (snd_nxt c) (snd_buf (on_kcp_ack_pcaket h timestamp c)) \<and>
          tx_bytes (on_kcp_ack_pcaket h timestamp c) =
            tx_bytes c + seg_bytes (filter (\<lambda>s. seg_sn s = sn \<or> seg_sn s < una) (snd_buf c)) \<and>
          bbr_delivered (on_kcp_ack_pcaket h timestamp c) =
            bbr_delivered c + seg_bytes (filter (\<lambda>s. seg_sn s = sn \<or> seg_sn s < una) (snd_buf c))
     else on_kcp_ack_pcaket h timestamp c = ping_refresh timestamp c"
proof -
  have acked: "acked_by sn una = (\<lambda>s. seg_sn s = sn \<or> seg_sn s < una)" by (simp add: acked_by_def fun_eq_iff)
  have srt: "sorted_wrt (<) (map seg_sn (snd_buf c))" using assms(1) by (simp add: snd_wf_def)
  show ?thesis
    using on_kcp_ack_filter [OF assms(2,3) _ _ srt, of timestamp] on_kcp_ack_ignored [OF assms(3), of c timestamp]
      on_kcp_ack_wf [OF assms(1), of h timestamp] assms(2)
    by (auto simp: acked snd_wf_def not_le not_less)
qed

definition sample_buffered :: kcp_connection where
  "sample_buffered = sample_conn\<lparr>snd_buf := map (\<lambda>n. sample_segment\<lparr>seg_sn := n\<rparr>) [3, 4, 5, 7],
     nsnd_buf := 4, snd_una := 3, snd_nxt := 8\<rparr>"

lemma sample_buffered_wf: "snd_wf sample_buffered"
  by (simp add: sample_buffered_def snd_wf_def sample_conn_def init_defs)

definition sample_ack :: kcp_proto_header where
  "sample_ack = \<lparr>hd_scid = 6, hd_dcid = 5, hd_cmd = KCP_CMD_ACK, hd_opt = 0, hd_frg = 0, hd_wnd = 100,
     hd_body = Ack_data 900 950 5 4, hd_options = []\<rparr>"

theorem ack_filters_snd_buf_witness:
  "map strip (snd_buf (on_kcp_ack_pcaket sample_ack 2000 sample_buffered)) =
     map strip (map (\<lambda>n. sample_segment\<lparr>seg_sn := n\<rparr>) [4, 7]) \<and>
   snd_una (on_kcp_ack_pcaket sample_ack 2000 sample_buffered) =
     first_sn (snd_nxt sample_buffered) (snd_buf (on_kcp_ack_pcaket sample_ack 2000 sample_buffered))"
proof -
  have "state sample_buffered \<noteq> KCP_STATE_DISCONNECTED"
    by (simp add: sample_buffered_def sample_conn_def)
  moreover have "as_ack_data (hd_body sample_ack) = (900, 950, 5, 4)" by (simp add: sample_ack_def)
  moreover have "snd_una sample_buffered = 3" "snd_nxt sample_buffered = 8" "snd_buf sample_buffered =
      map (\<lambda>n. sample_segment\<lparr>seg_sn := n\<rparr>) [3, 4, 5, 7]" by (simp_all add: sample_buffered_def)
  ultimately show ?thesis
    using ack_filters_snd_buf [OF sample_buffered_wf, of sample_ack 900 950 5 4 2000] by simp
qed

text \<open>
  C13. The send-side invariant is kept by \<open>kcp_send\<close> and by every acknowledgement: the send buffer is
  strictly sorted by sequence number and below \<open>snd_nxt\<close>, \<open>snd_una\<close> is its first sequence
  number (or \<open>snd_nxt\<close> when it is empty), and the counters are the lengths of the queues.
\<close>

theorem snd_invariant:
  assumes "snd_wf c"
  shows "snd_wf (on_kcp_ack_pcaket h timestamp c) \<and> snd_wf (snd (kcp_send sock_open mem data c))"
  using assms on_kcp_ack_wf kcp_send_wf [of c sock_open mem data "fst (kcp_send sock_open mem data c)"]
  by simp

theorem snd_invariant_witness:
  "snd_wf (on_kcp_ack_pcaket sample_ack 2000 sample_buffered) \<and>
   snd_wf (snd (kcp_send True (\<lambda>i. Some sample_segment) [1, 2, 3] sample_buffered))"
  by (rule snd_invariant [OF sample_buffered_wf])

lemma ack_first_rto:
  assumes "ack_first timestamp pts ats sn c = ((c', a, b), r)"
  shows "rx_minrto c' = rx_minrto c \<and> (rx_rto c' = rx_rto c \<or> (\<exists>x. rx_rto c' = rx_rto (update_rtt x c)))"
proof -
  obtain buf hit where scan: "ack_scan sn (snd_buf c) = (buf, hit)" by (cases "ack_scan sn (snd_buf c)")
  show ?thesis
  proof (cases hit)
    case None
    with scan assms show ?thesis by (auto simp: ack_first_def)
  next
    case (Some pos)
    let ?c = "(if seg_xmit pos = 1 then update_rtt (ack_rtt timestamp (seg_ts pos) ats pts) c else c)\<lparr>snd_buf := buf\<rparr>"
    have "ack_account timestamp (?c, 0, 0) pos = (c', a, b)"
      using scan assms Some by (simp add: ack_first_def Let_def)
    from ack_account_frame [OF this] show ?thesis by (cases "seg_xmit pos = 1") auto
  qed
qed

lemma ack_second_rto:
  assumes "ack_second timestamp una (c, a, b) = (c', a', b')"
  shows "rx_minrto c' = rx_minrto c \<and> rx_rto c' = rx_rto c"
proof -
  have "foldl (ack_account timestamp)
      (c\<lparr>snd_buf := drop (length (ack_una_hits una (snd_buf c))) (snd_buf c)\<rparr>, a, b)
      (ack_una_hits una (snd_buf c)) = (c', a', b')"
    using assms by (simp add: ack_second_def Let_def)
  from foldl_ack_account_frame [OF this] show ?thesis by simp
qed

text \<open>
  C35. Bounds of the retransmission timeout: an acknowledgement leaves \<open>rx_rto\<close> between the
  configured minimum and 6 seconds, whatever timestamps the peer puts into it.
\<close>

theorem rto_bounds:
  assumes "rx_minrto c \<le> rx_rto c" and "rx_rto c \<le> KCP_RTO_MAX * 1000"
  shows "rx_minrto c \<le> rx_rto (on_kcp_ack_pcaket h timestamp c) \<and>
    rx_rto (on_kcp_ack_pcaket h timestamp c) \<le> KCP_RTO_MAX * 1000"
proof -
  obtain pts ats sn una where body: "as_ack_data (hd_body h) = (pts, ats, sn, una)" by (metis prod.exhaust)
  obtain c1 a1 b1 r where 1: "ack_first timestamp pts ats sn (ping_refresh timestamp c) = ((c1, a1, b1), r)"
    by (metis prod.exhaust)
  obtain c2 a2 b2 where 2: "ack_second timestamp una (c1, a1, b1) = (c2, a2, b2)" by (metis prod.exhaust)
  have minr: "rx_minrto (ping_refresh timestamp c) = rx_minrto c" "rx_rto (ping_refresh timestamp c) = rx_rto c"
    by (simp_all add: ping_refresh_def)
  have "rx_minrto c \<le> rx_rto c1 \<and> rx_rto c1 \<le> KCP_RTO_MAX * 1000"
    using ack_first_rto [OF 1] assms minr update_rtt_rto [of "ping_refresh timestamp c"] by auto
  then have "rx_minrto c \<le> rx_rto (ack_advance (ack_shrink c2)) \<and> rx_rto (ack_advance (ack_shrink c2)) \<le> KCP_RTO_MAX * 1000"
    using ack_second_rto [OF 2] by (simp add: ack_advance_def ack_shrink_def)
  then show ?thesis
    using assms minr 1 2 by (auto simp: on_kcp_ack_pcaket_def body Let_def)
qed

theorem rto_bounds_witness:
  "rx_minrto sample_buffered \<le> rx_rto (on_kcp_ack_pcaket sample_ack 2000 sample_buffered) \<and>
    rx_rto (on_kcp_ack_pcaket sample_ack 2000 sample_buffered) \<le> KCP_RTO_MAX * 1000"
  by (rule rto_bounds) (simp_all add: sample_buffered_def sample_conn_def init_defs kcp_const)

lemma sdiv_nonneg: "0 \<le> x \<Longrightarrow> 0 \<le> y \<Longrightarrow> x sdiv y = x div (y :: int)"
  by (cases "y = 0") (auto simp: signed_divide_int_def sgn_if)

text \<open>
  The smoothed round-trip time: the first sample is taken over with half of it as deviation;
  a later sample moves \<open>rx_srtt\<close> to a value between the old estimate and the sample (samples below
  two minutes, so that \<open>int32_t\<close> does not overflow).
\<close>

lemma srtt_between:
  assumes "0 \<le> rx_srtt c" and "rx_srtt c < 2 ^ 27" and "0 \<le> rtt" and "rtt < 2 ^ 27"
  shows "if rx_srtt c = 0 then rx_srtt (update_rtt rtt c) = rtt \<and> rx_rttval (update_rtt rtt c) = rtt div 2
    else min (rx_srtt c) rtt \<le> rx_srtt (update_rtt rtt c) \<and> rx_srtt (update_rtt rtt c) \<le> max (rx_srtt c) rtt"
proof -
  have "s32 (rx_srtt c * 7 + rtt) = rx_srtt c * 7 + rtt" using assms by (intro s32_id) auto
  then show ?thesis
    using assms by (auto simp: update_rtt_def Let_def sdiv_nonneg min_def max_def)
qed

end
