(* ===== verification/Kcp_List.thy ===== *)
theory Kcp_List
  imports Kcp_Prelude
begin

text \<open>
  The intrusive doubly linked lists of \<^verbatim>\<open>kcp/3rd_party/list.h\<close>, on an explicit store: a node is an
  address, and the store has the \<open>next\<close> and the \<open>prev\<close> field of every address. The stores of a
  function are made in the order of the code, so that the cases in which two of its pointers are the
  same node are those of the code.

  \<open>dlist\<close> relates a store and a list head to the sequence of the nodes on the list. The operations
  are shown to implement the operations on sequences which the other theories use for \<open>snd_queue\<close>,
  \<open>snd_buf\<close>, \<open>rcv_queue\<close> and the other lists of a connection. The locale \<open>intrusive_lists\<close> is that
  interface; its client lemmas are the ways in which the sources use lists: a queue, moving an entry
  to another list, and emptying a list in a loop that removes the entry it stands on.
\<close>

section \<open>Model\<close>

record list_heap =
  lh_next :: "nat \<Rightarrow> nat"
  lh_prev :: "nat \<Rightarrow> nat"

definition set_next :: "nat \<Rightarrow> nat \<Rightarrow> list_heap \<Rightarrow> list_heap" where
  "set_next p v h = h\<lparr>lh_next := (lh_next h)(p := v)\<rparr>"

definition set_prev :: "nat \<Rightarrow> nat \<Rightarrow> list_heap \<Rightarrow> list_heap" where
  "set_prev p v h = h\<lparr>lh_prev := (lh_prev h)(p := v)\<rparr>"

definition list_init :: "nat \<Rightarrow> list_heap \<Rightarrow> list_heap" where
  "list_init l h = set_prev l l (set_next l l h)"

text \<open>\<open>__list_add\<close>, and the other functions with two underscores, have the suffix \<open>_raw\<close>.\<close>

definition list_add_raw :: "nat \<Rightarrow> nat \<Rightarrow> nat \<Rightarrow> list_heap \<Rightarrow> list_heap" where
  "list_add_raw n prev nxt h = set_next prev n (set_prev n prev (set_next n nxt (set_prev nxt n h)))"

definition list_add :: "nat \<Rightarrow> nat \<Rightarrow> list_heap \<Rightarrow> list_heap" where
  "list_add n head h = list_add_raw n head (lh_next h head) h"

definition list_add_tail :: "nat \<Rightarrow> nat \<Rightarrow> list_heap \<Rightarrow> list_heap" where
  "list_add_tail n head h = list_add_raw n (lh_prev h head) head h"

definition list_del_raw :: "nat \<Rightarrow> nat \<Rightarrow> list_heap \<Rightarrow> list_heap" where
  "list_del_raw prev nxt h = set_next prev nxt (set_prev nxt prev h)"

definition list_del_entry :: "nat \<Rightarrow> list_heap \<Rightarrow> list_heap" where
  "list_del_entry e h = list_del_raw (lh_prev h e) (lh_next h e) h"

definition list_del :: "nat \<Rightarrow> list_heap \<Rightarrow> list_heap" where
  "list_del e h = list_del_raw (lh_prev h e) (lh_next h e) h"

definition list_replace :: "nat \<Rightarrow> nat \<Rightarrow> list_heap \<Rightarrow> list_heap" where
  "list_replace old n h =
     (let h1 = set_next n (lh_next h old) h;
          h2 = set_prev (lh_next h1 n) n h1;
          h3 = set_prev n (lh_prev h2 old) h2
      in set_next (lh_prev h3 n) n h3)"

definition list_replace_init :: "nat \<Rightarrow> nat \<Rightarrow> list_heap \<Rightarrow> list_heap" where
  "list_replace_init old n h = list_init old (list_replace old n h)"

definition list_del_init :: "nat \<Rightarrow> list_heap \<Rightarrow> list_heap" where
  "list_del_init e h = list_init e (list_del_entry e h)"

definition list_move :: "nat \<Rightarrow> nat \<Rightarrow> list_heap \<Rightarrow> list_heap" where
  "list_move e head h = list_add e head (list_del_entry e h)"

definition list_move_tail :: "nat \<Rightarrow> nat \<Rightarrow> list_heap \<Rightarrow> list_heap" where
  "list_move_tail e head h = list_add_tail e head (list_init e (list_del_entry e h))"

definition list_is_last :: "nat \<Rightarrow> nat \<Rightarrow> list_heap \<Rightarrow> bool" where
  "list_is_last e head h = (lh_next h e = head)"

definition list_empty :: "nat \<Rightarrow> list_heap \<Rightarrow> bool" where
  "list_empty head h = (lh_next h head = head)"

definition list_empty_careful :: "nat \<Rightarrow> list_heap \<Rightarrow> bool" where
  "list_empty_careful head h = (let nxt = lh_next h head in nxt = head \<and> nxt = lh_prev h head)"

definition list_rotate_left :: "nat \<Rightarrow> list_heap \<Rightarrow> list_heap" where
  "list_rotate_left head h = (if \<not> list_empty head h then list_move_tail (lh_next h head) head h else h)"

definition list_is_singular :: "nat \<Rightarrow> list_heap \<Rightarrow> bool" where
  "list_is_singular head h = (\<not> list_empty head h \<and> lh_next h head = lh_prev h head)"

definition list_cut_position_raw :: "nat \<Rightarrow> nat \<Rightarrow> nat \<Rightarrow> list_heap \<Rightarrow> list_heap" where
  "list_cut_position_raw l head entry h =
     (let new_first = lh_next h entry;
          h1 = set_next l (lh_next h head) h;
          h2 = set_prev (lh_next h1 l) l h1;
          h3 = set_prev l entry h2;
          h4 = set_next entry l h3;
          h5 = set_next head new_first h4
      in set_prev new_first head h5)"

definition list_cut_position :: "nat \<Rightarrow> nat \<Rightarrow> nat \<Rightarrow> list_heap \<Rightarrow> list_heap" where
  "list_cut_position l head entry h =
     (if list_empty head h then h
      else if list_is_singular head h \<and> lh_next h head \<noteq> entry \<and> head \<noteq> entry then h
      else if entry = head then list_init l h
      else list_cut_position_raw l head entry h)"

definition list_splice_raw :: "nat \<Rightarrow> nat \<Rightarrow> nat \<Rightarrow> list_heap \<Rightarrow> list_heap" where
  "list_splice_raw l prev nxt h =
     (let first = lh_next h l; last = lh_prev h l
      in set_prev nxt last (set_next last nxt (set_next prev first (set_prev first prev h))))"

definition list_splice :: "nat \<Rightarrow> nat \<Rightarrow> list_heap \<Rightarrow> list_heap" where
  "list_splice l head h = (if \<not> list_empty l h then list_splice_raw l head (lh_next h head) h else h)"

definition list_splice_tail :: "nat \<Rightarrow> nat \<Rightarrow> list_heap \<Rightarrow> list_heap" where
  "list_splice_tail l head h = (if \<not> list_empty l h then list_splice_raw l (lh_prev h head) head h else h)"

definition list_splice_init :: "nat \<Rightarrow> nat \<Rightarrow> list_heap \<Rightarrow> list_heap" where
  "list_splice_init l head h =
     (if \<not> list_empty l h then list_init l (list_splice_raw l head (lh_next h head) h) else h)"

definition list_splice_tail_init :: "nat \<Rightarrow> nat \<Rightarrow> list_heap \<Rightarrow> list_heap" where
  "list_splice_tail_init l head h =
     (if \<not> list_empty l h then list_init l (list_splice_raw l (lh_prev h head) head h) else h)"

text \<open>\<open>list_first_entry\<close> and \<open>list_last_entry\<close>, up to the offset of the node in its structure.\<close>

definition list_first_entry :: "nat \<Rightarrow> list_heap \<Rightarrow> nat" where
  "list_first_entry head h = lh_next h head"

definition list_last_entry :: "nat \<Rightarrow> list_heap \<Rightarrow> nat" where
  "list_last_entry head h = lh_prev h head"

text \<open>
  The loops, with fuel: the body is a function of the cursor on the store and the rest of the state.
  \<open>list_for_each_entry\<close> reads the next entry after the body has run; \<open>list_for_each_entry_safe\<close> has
  read it before.
\<close>

primrec for_each_loop :: "nat \<Rightarrow> (nat \<Rightarrow> list_heap \<times> 's \<Rightarrow> list_heap \<times> 's) \<Rightarrow> nat \<Rightarrow> nat \<Rightarrow>
    list_heap \<times> 's \<Rightarrow> (list_heap \<times> 's) option" where
  "for_each_loop 0 body head pos st = None"
| "for_each_loop (Suc fuel) body head pos st =
     (if pos = head then Some st
      else let st1 = body pos st in for_each_loop fuel body head (lh_next (fst st1) pos) st1)"

definition list_for_each_entry :: "nat \<Rightarrow> (nat \<Rightarrow> list_heap \<times> 's \<Rightarrow> list_heap \<times> 's) \<Rightarrow> nat \<Rightarrow>
    list_heap \<times> 's \<Rightarrow> (list_heap \<times> 's) option" where
  "list_for_each_entry fuel body head st = for_each_loop fuel body head (lh_next (fst st) head) st"

primrec for_each_safe_loop :: "nat \<Rightarrow> (nat \<Rightarrow> list_heap \<times> 's \<Rightarrow> list_heap \<times> 's) \<Rightarrow> nat \<Rightarrow> nat \<Rightarrow> nat \<Rightarrow>
    list_heap \<times> 's \<Rightarrow> (list_heap \<times> 's) option" where
  "for_each_safe_loop 0 body head pos n st = None"
| "for_each_safe_loop (Suc fuel) body head pos n st =
     (if pos = head then Some st
      else let st1 = body pos st in for_each_safe_loop fuel body head n (lh_next (fst st1) n) st1)"

definition list_for_each_entry_safe :: "nat \<Rightarrow> (nat \<Rightarrow> list_heap \<times> 's \<Rightarrow> list_heap \<times> 's) \<Rightarrow> nat \<Rightarrow>
    list_heap \<times> 's \<Rightarrow> (list_heap \<times> 's) option" where
  "list_for_each_entry_safe fuel body head st =
     (let pos = lh_next (fst st) head in for_each_safe_loop fuel body head pos (lh_next (fst st) pos) st)"

text \<open>
  The ordered insertion of \<open>kcp_rcv_packet_order_insert\<close> and of \<open>on_kcp_push_pcaket\<close>: a loop with an early
  return, which adds the new entry before the first one with a greater key, or else at the end.
\<close>

primrec order_insert_loop :: "nat \<Rightarrow> (nat \<Rightarrow> 'k::ord) \<Rightarrow> nat \<Rightarrow> nat \<Rightarrow> nat \<Rightarrow> list_heap \<Rightarrow> list_heap option" where
  "order_insert_loop 0 key n head pos h = None"
| "order_insert_loop (Suc fuel) key n head pos h =
     (if pos = head then Some (list_add_tail n head h)
      else if key n < key pos then Some (list_add_tail n pos h)
      else order_insert_loop fuel key n head (lh_next h pos) h)"

definition order_insert_entry :: "nat \<Rightarrow> (nat \<Rightarrow> 'k::ord) \<Rightarrow> nat \<Rightarrow> nat \<Rightarrow> list_heap \<Rightarrow> list_heap option" where
  "order_insert_entry fuel key n head h = order_insert_loop fuel key n head (lh_next h head) h"

section \<open>Sequences in the store\<close>

text \<open>From \<open>a\<close> to \<open>b\<close> through the nodes \<open>xs\<close>, linked in both directions.\<close>

fun linked :: "list_heap \<Rightarrow> nat \<Rightarrow> nat list \<Rightarrow> nat \<Rightarrow> bool" where
  "linked h a [] b \<longleftrightarrow> lh_next h a = b \<and> lh_prev h b = a"
| "linked h a (x # xs) b \<longleftrightarrow> lh_next h a = x \<and> lh_prev h x = a \<and> linked h x xs b"

definition dlist :: "list_heap \<Rightarrow> nat \<Rightarrow> nat list \<Rightarrow> bool" where
  "dlist h l xs \<longleftrightarrow> distinct (l # xs) \<and> linked h l xs l"

text \<open>Two lists, at the heads 0 and 9.\<close>

definition sample_lists :: list_heap where
  "sample_lists = fold (\<lambda>n. list_add_tail n 0) [1, 5, 2] (list_add_tail 7 9 (list_init 9 (list_init 0
     \<lparr>lh_next = \<lambda>p. p, lh_prev = \<lambda>p. p\<rparr>)))"

named_theorems list_defs \<open>the stores of the list operations\<close>

lemma heap_fields [list_defs]:
  "lh_next (set_next p v h) = (lh_next h)(p := v)" "lh_prev (set_next p v h) = lh_prev h"
  "lh_prev (set_prev p v h) = (lh_prev h)(p := v)" "lh_next (set_prev p v h) = lh_next h"
  by (simp_all add: set_next_def set_prev_def)

declare list_init_def [list_defs] list_add_raw_def [list_defs] list_add_def [list_defs] list_add_tail_def [list_defs]
  list_del_raw_def [list_defs] list_del_entry_def [list_defs] list_del_def [list_defs] list_replace_def [list_defs]
  list_del_init_def [list_defs] list_splice_raw_def [list_defs] list_cut_position_raw_def [list_defs]

section \<open>Lemmas\<close>

lemma linked_append: "linked h a (xs @ x # ys) b \<longleftrightarrow> linked h a xs x \<and> linked h x ys b"
  by (induction xs arbitrary: a) auto

lemma linked_last: "linked h a xs b \<Longrightarrow> lh_prev h b = last (a # xs)"
  by (induction xs arbitrary: a) auto

lemma linked_first: "linked h a xs b \<Longrightarrow> lh_next h a = hd (xs @ [b])"
  by (cases xs) auto

text \<open>Only the \<open>next\<close> fields of \<open>a\<close> and \<open>xs\<close> and the \<open>prev\<close> fields of \<open>xs\<close> and \<open>b\<close> matter.\<close>

lemma linked_cong:
  "\<forall>p \<in> insert a (set xs). lh_next h' p = lh_next h p \<Longrightarrow> \<forall>p \<in> insert b (set xs). lh_prev h' p = lh_prev h p \<Longrightarrow>
     linked h' a xs b = linked h a xs b"
  by (induction xs arbitrary: a) auto

text \<open>A list is kept by every change outside its nodes.\<close>

lemma dlist_frame:
  "dlist h l xs \<Longrightarrow> \<forall>p \<in> set (l # xs). lh_next h' p = lh_next h p \<and> lh_prev h' p = lh_prev h p \<Longrightarrow> dlist h' l xs"
  using linked_cong [of l xs h' h l] by (auto simp: dlist_def)

lemma dlist_ends:
  assumes "dlist h l xs"
  shows "lh_next h l = hd (xs @ [l])" and "lh_prev h l = last (l # xs)"
  using assms linked_first linked_last by (auto simp: dlist_def)

lemma dlist_init: "dlist (list_init l h) l []"
  by (simp add: dlist_def list_defs)

lemma dlist_empty: "dlist h l xs \<Longrightarrow> list_empty l h \<longleftrightarrow> xs = []"
  by (cases xs) (auto simp: dlist_def list_empty_def)

lemma linked_set [simp]:
  "p \<notin> insert a (set xs) \<Longrightarrow> linked (set_next p v h) a xs b = linked h a xs b"
  "p \<notin> insert b (set xs) \<Longrightarrow> linked (set_prev p v h) a xs b = linked h a xs b"
  by (rule linked_cong; auto simp: heap_fields)+

lemma linked_snoc: "linked h a (xs @ [x]) b \<longleftrightarrow> linked h a xs x \<and> lh_next h x = b \<and> lh_prev h b = x"
  using linked_append [of h a xs x "[]" b] by simp

lemma dlist_set [simp]:
  "p \<notin> set (l # xs) \<Longrightarrow> dlist (set_next p v h) l xs = dlist h l xs"
  "p \<notin> set (l # xs) \<Longrightarrow> dlist (set_prev p v h) l xs = dlist h l xs"
  by (auto simp: dlist_def)

lemma list_add_refines: "dlist h l xs \<Longrightarrow> n \<notin> set (l # xs) \<Longrightarrow> dlist (list_add n l h) l (n # xs)"
  by (cases xs) (auto simp: dlist_def list_defs)

lemma list_add_tail_refines: "dlist h l xs \<Longrightarrow> n \<notin> set (l # xs) \<Longrightarrow> dlist (list_add_tail n l h) l (xs @ [n])"
  by (cases xs rule: rev_cases) (auto simp: dlist_def list_defs linked_snoc linked_append)

lemma list_add_tail_frame:
  assumes "dlist h l xs" "dlist h k ys" "set (k # ys) \<inter> set (n # l # xs) = {}"
  shows "dlist (list_add_tail n l h) k ys"
  using assms dlist_ends(2) [OF assms(1)] by (cases xs rule: rev_cases) (auto simp: list_defs)

lemma list_del_refines:
  assumes "dlist h l (as @ x # bs)"
  shows "dlist (list_del_entry x h) l (as @ bs)"
  using assms by (cases as rule: rev_cases; cases bs) (auto simp: dlist_def list_defs linked_snoc linked_append)

lemma list_del_init_refines:
  assumes "dlist h l (as @ x # bs)"
  shows "dlist (list_del_init x h) l (as @ bs)" and "dlist (list_del_init x h) x []"
  using list_del_refines [OF assms] assms dlist_init
  by (auto simp: list_del_init_def) (auto simp: list_init_def dlist_def)

lemma dlist_neighbours:
  assumes "dlist h l (as @ x # bs)"
  shows "lh_next h x = hd (bs @ [l])" and "lh_prev h x = last (l # as)"
  using assms linked_first linked_last by (auto simp: dlist_def linked_append)

lemma last_hd_in: "last (l # as) \<in> set (l # as)" "hd (bs @ [l]) \<in> set (l # bs)"
  by (auto simp: hd_append)

lemma list_del_init_frame:
  assumes "dlist h l (as @ x # bs)" "dlist h k ys" "set (k # ys) \<inter> set (l # as @ x # bs) = {}"
  shows "dlist (list_del_init x h) k ys"
proof -
  have "last (l # as) \<notin> set (k # ys)" "hd (bs @ [l]) \<notin> set (k # ys)"
    using assms(3) last_hd_in(1) [of l as] last_hd_in(2) [of bs l] by (auto simp del: last.simps)
  then show ?thesis
    using assms by (auto simp: list_del_init_def list_del_entry_def list_del_raw_def list_init_def dlist_neighbours [OF assms(1)] simp del: last.simps)
qed

lemma list_add_tail_before:
  assumes "dlist h l (as @ x # bs)" "n \<notin> set (l # as @ x # bs)"
  shows "dlist (list_add_tail n x h) l (as @ n # x # bs)"
  using assms by (cases as rule: rev_cases) (auto simp: dlist_def list_defs linked_snoc linked_append)

lemma list_replace_refines:
  assumes "dlist h l (as @ x # bs)" "n \<notin> set (l # as @ x # bs)"
  shows "dlist (list_replace x n h) l (as @ n # bs)"
  using assms by (cases as rule: rev_cases; cases bs) (auto simp: dlist_def list_defs linked_snoc linked_append Let_def)

text \<open>Splicing between any two neighbours.\<close>

lemma linked_redirect:
  assumes "linked h x xs y" "distinct (x # xs)" "y' \<notin> set xs"
    and "\<forall>p \<in> set (x # xs). lh_next h' p = (if p = last (x # xs) then y' else lh_next h p)"
    and "\<forall>p \<in> set (y' # xs). lh_prev h' p = (if p = y' then last (x # xs) else lh_prev h p)"
  shows "linked h' x xs y'"
  using assms
proof (induction xs arbitrary: x)
  case (Cons a xs)
  have "lh_next h' x = a" "lh_prev h' a = x" using Cons.prems by auto
  moreover have "linked h' a xs y'" using Cons.prems by (intro Cons.IH) auto
  ultimately show ?case by simp
qed simp

lemma list_splice_raw_fields:
  assumes "dlist h l xs" "xs \<noteq> []" "set (l # xs) \<inter> {p, n} = {}"
  shows "lh_next (list_init l (list_splice_raw l p n h)) =
      (lh_next h)(p := hd xs, last xs := n, l := l)"
    "lh_prev (list_init l (list_splice_raw l p n h)) = (lh_prev h)(hd xs := p, n := last xs, l := l)"
  using assms dlist_ends [OF assms(1)] by (auto simp: list_splice_raw_def list_init_def heap_fields Let_def)

lemma splice_between:
  assumes "dlist h l xs" "xs \<noteq> []" "dlist h k (as @ bs)" "set (k # as @ bs) \<inter> set (l # xs) = {}"
    and h': "h' = list_init l (list_splice_raw l (last (k # as)) (hd (bs @ [k])) h)"
  shows "dlist h' k (as @ xs @ bs)"
proof -
  obtain a ys where xs: "xs = a # ys" using assms(2) by (cases xs) auto
  define p where "p = last (k # as)"
  define n where "n = hd (bs @ [k])"
  have pn: "p \<in> set (k # as)" "n \<in> set (k # bs)" unfolding p_def n_def by (rule last_hd_in)+
  have d: "distinct (k # as @ bs)" "distinct (l # xs)" "linked h l xs l" "linked h k (as @ bs) k" using assms(1,3) by (auto simp: dlist_def)
  have dis: "set (l # xs) \<inter> {p, n} = {}" using pn assms(4) by auto
  note f = list_splice_raw_fields [OF assms(1,2) dis, folded h' [folded p_def n_def]]
  have z: "last xs \<in> set xs" using assms(2) by simp
  have k1: "linked h k as n" using d(4) by (cases bs) (simp_all add: n_def linked_append)
  have ne: "q \<noteq> l \<and> q \<noteq> last xs \<and> q \<noteq> a \<and> q \<notin> set ys" if "q \<in> set (k # as @ bs)" for q
  proof -
    have "q \<notin> set (l # xs)" using disjoint_iff [THEN iffD1, OF assms(4)] that by blast
    then show ?thesis using z xs by force
  qed
  have ne': "q \<noteq> l \<and> q \<noteq> p \<and> q \<noteq> n" if "q \<in> set xs" for q using that dis d(2) by auto
  have "linked h' k as a"
  proof (rule linked_redirect [OF k1])
    show "distinct (k # as)" using d(1) by simp
    show "a \<notin> set as" using ne by auto
    show "\<forall>q \<in> set (k # as). lh_next h' q = (if q = last (k # as) then a else lh_next h q)"
      using ne by (simp add: f xs p_def del: last.simps)
    have "a \<noteq> n" "a \<noteq> l" using ne' xs by auto
    moreover have "q \<noteq> n" if "q \<in> set as" for q using that pn(2) d(1) by auto
    ultimately show "\<forall>q \<in> set (a # as). lh_prev h' q = (if q = a then last (k # as) else lh_prev h q)"
      using ne by (simp add: f xs p_def del: last.simps)
  qed
  moreover have "linked h' a ys n"
  proof (rule linked_redirect [of h a ys l])
    show "linked h a ys l" "distinct (a # ys)" using d(2,3) xs by simp_all
    show "n \<notin> set ys" using ne' xs by auto
    show "\<forall>q \<in> set (a # ys). lh_next h' q = (if q = last (a # ys) then n else lh_next h q)"
      using ne' xs by (simp add: f del: last.simps)
    have "n \<noteq> l" "n \<noteq> a" using dis xs by auto
    then show "\<forall>q \<in> set (n # ys). lh_prev h' q = (if q = n then last (a # ys) else lh_prev h q)"
      using ne' d(2) xs by (auto simp add: f simp del: last.simps)
  qed
  moreover have "linked h' n bs' k" if b: "bs = n # bs'" for bs'
  proof -
    have "linked h n bs' k" using d(4) b by (simp add: linked_append)
    moreover have "n \<noteq> p" using d(1) pn b by auto
    moreover have "p \<notin> set bs'" using d(1) pn b by auto
    moreover have "q \<noteq> n" if "q \<in> set bs'" for q using that d(1) b by auto
    moreover have "k \<noteq> n" using d(1) b by auto
    ultimately show ?thesis using ne b by (subst linked_cong [of n bs' h' h]) (auto simp: f xs)
  qed
  ultimately have "linked h' k (as @ xs @ bs) k" unfolding xs by (cases bs) (auto simp: linked_append n_def)
  then show ?thesis using d assms(4) by (auto simp: dlist_def)
qed

lemma list_splice_tail_init_refines:
  assumes "dlist h l xs" "dlist h k ys" "set (k # ys) \<inter> set (l # xs) = {}"
  shows "dlist (list_splice_tail_init l k h) k (ys @ xs)" and "dlist (list_splice_tail_init l k h) l []"
proof -
  show "dlist (list_splice_tail_init l k h) l []"
    using assms dlist_init dlist_empty [OF assms(1)] by (auto simp: list_splice_tail_init_def)
  show "dlist (list_splice_tail_init l k h) k (ys @ xs)"
    using assms dlist_empty [OF assms(1)] splice_between [OF assms(1) _ _ _ refl, of k ys "[]"] dlist_ends [OF assms(2)]
    by (cases "xs = []") (simp_all add: list_splice_tail_init_def)
qed

lemma list_add_frame:
  assumes "dlist h l xs" "dlist h k ys" "set (k # ys) \<inter> set (n # l # xs) = {}"
  shows "dlist (list_add n l h) k ys"
  using assms dlist_ends(1) [OF assms(1)] by (cases xs) (auto simp: list_defs)

lemma dlist_split:
  assumes "dlist h l xs" "x \<in> set xs"
  obtains as bs where "xs = as @ x # bs" "remove1 x xs = as @ bs"
proof -
  obtain as bs where "xs = as @ x # bs" "x \<notin> set as" using split_list_first [OF assms(2)] by blast
  then show thesis using that [of as bs] by (simp add: remove1_append)
qed

lemma list_splice_init_refines:
  assumes "dlist h l xs" "dlist h k ys" "set (k # ys) \<inter> set (l # xs) = {}"
  shows "dlist (list_splice_init l k h) k (xs @ ys)" and "dlist (list_splice_init l k h) l []"
proof -
  show "dlist (list_splice_init l k h) l []"
    using assms dlist_init dlist_empty [OF assms(1)] by (auto simp: list_splice_init_def)
  show "dlist (list_splice_init l k h) k (xs @ ys)"
    using assms dlist_empty [OF assms(1)] splice_between [OF assms(1) _ _ _ refl, of k "[]" ys] dlist_ends [OF assms(2)]
    by (cases "xs = []") (simp_all add: list_splice_init_def)
qed

lemma list_cut_position_refines:
  assumes "dlist h k (as @ x # bs)" "l \<notin> set (k # as @ x # bs)"
  shows "dlist (list_cut_position l k x h) l (as @ [x])" and "dlist (list_cut_position l k x h) k bs"
proof -
  have ne: "\<not> list_empty k h" "x \<noteq> k" using dlist_empty [OF assms(1)] assms(1) by (auto simp: dlist_def)
  have "list_is_singular k h \<Longrightarrow> lh_next h k = x"
    using dlist_ends [OF assms(1)] assms(1)
    by (cases as; cases bs rule: rev_cases) (auto simp: list_is_singular_def dlist_def)
  then have cut: "list_cut_position l k x h = list_cut_position_raw l k x h"
    using ne by (auto simp: list_cut_position_def)
  show "dlist (list_cut_position l k x h) l (as @ [x])" unfolding cut using assms
    by (cases as; cases bs) (auto simp: dlist_def list_defs linked_snoc linked_append Let_def)
  show "dlist (list_cut_position l k x h) k bs" unfolding cut using assms
    by (cases as; cases bs) (auto simp: dlist_def list_defs linked_snoc linked_append Let_def)
qed

lemma list_move_refines:
  assumes "dlist h l (as @ x # bs)" "dlist h k ys" "set (k # ys) \<inter> set (l # as @ x # bs) = {}"
  shows "dlist (list_move x k h) k (x # ys)" "dlist (list_move x k h) l (as @ bs)"
proof -
  have out: "last (l # as) \<notin> set (k # ys)" "hd (bs @ [l]) \<notin> set (k # ys)"
    using assms(3) last_hd_in(1) [of l as] last_hd_in(2) [of bs l] by (auto simp del: last.simps)
  let ?h = "list_del_entry x h"
  have k: "dlist ?h k ys"
    using assms(2) out by (auto simp: list_del_entry_def list_del_raw_def dlist_neighbours [OF assms(1)] simp del: last.simps)
  have l: "dlist ?h l (as @ bs)" by (rule list_del_refines [OF assms(1)])
  show "dlist (list_move x k h) k (x # ys)" "dlist (list_move x k h) l (as @ bs)"
    using list_add_refines [OF k] list_add_frame [OF k l, of x] assms by (auto simp: list_move_def dlist_def)
qed

lemma list_move_tail_eq: "list_move_tail x k h = list_add_tail x k (list_del_init x h)"
  by (simp add: list_move_tail_def list_del_init_def)

lemma list_rotate_left_refines:
  assumes "dlist h l xs"
  shows "dlist (list_rotate_left l h) l (rotate1 xs)"
proof (cases xs)
  case (Cons x as)
  have "dlist (list_del_init x h) l as"
    using list_del_init_refines(1) [of h l "[]" x as] assms Cons by simp
  moreover have "x \<notin> set (l # as)" "lh_next h l = x" "\<not> list_empty l h"
    using assms Cons dlist_empty [OF assms] by (auto simp: dlist_def)
  ultimately show ?thesis
    using Cons by (simp add: list_rotate_left_def list_move_tail_eq list_add_tail_refines)
qed (use assms in \<open>simp add: list_rotate_left_def dlist_empty\<close>)

section \<open>The interface\<close>

locale intrusive_lists =
  fixes rep :: "'h \<Rightarrow> nat \<Rightarrow> nat list \<Rightarrow> bool"
    and init :: "nat \<Rightarrow> 'h \<Rightarrow> 'h"
    and add_tail :: "nat \<Rightarrow> nat \<Rightarrow> 'h \<Rightarrow> 'h"
    and del_init :: "nat \<Rightarrow> 'h \<Rightarrow> 'h"
    and nxt :: "'h \<Rightarrow> nat \<Rightarrow> nat"
  assumes rep_distinct: "rep h l xs \<Longrightarrow> distinct (l # xs)"
    and rep_init: "rep (init l h) l []"
    and rep_add_tail: "rep h l xs \<Longrightarrow> n \<notin> set (l # xs) \<Longrightarrow> rep (add_tail n l h) l (xs @ [n])"
    and add_tail_keeps: "rep h l xs \<Longrightarrow> rep h k ys \<Longrightarrow> set (k # ys) \<inter> set (n # l # xs) = {} \<Longrightarrow>
      rep (add_tail n l h) k ys"
    and rep_del_init: "rep h l xs \<Longrightarrow> x \<in> set xs \<Longrightarrow> rep (del_init x h) l (remove1 x xs)"
    and del_init_keeps: "rep h l xs \<Longrightarrow> x \<in> set xs \<Longrightarrow> rep h k ys \<Longrightarrow> set (k # ys) \<inter> set (l # xs) = {} \<Longrightarrow>
      rep (del_init x h) k ys"
    and rep_nxt: "rep h l xs \<Longrightarrow> nxt h l = hd (xs @ [l])"
begin

text \<open>Moving an entry to the end of another list.\<close>

lemma rep_transfer:
  assumes "rep h l xs" "x \<in> set xs" "rep h k ys" "set (k # ys) \<inter> set (l # xs) = {}"
  shows "rep (add_tail x k (del_init x h)) l (remove1 x xs)" and "rep (add_tail x k (del_init x h)) k (ys @ [x])"
proof -
  have l: "rep (del_init x h) l (remove1 x xs)" and k: "rep (del_init x h) k ys"
    using assms rep_del_init del_init_keeps by auto
  have "x \<notin> set (k # ys)" "x \<notin> set (remove1 x xs)" "x \<noteq> l"
    using assms rep_distinct [OF assms(1)] by auto
  then show "rep (add_tail x k (del_init x h)) k (ys @ [x])" "rep (add_tail x k (del_init x h)) l (remove1 x xs)"
    using rep_add_tail [OF k] add_tail_keeps [OF k l, of x] assms(4) set_remove1_subset [of x xs]
    by auto
qed

text \<open>Entries moved one after the other: they leave the one list and are at the end of the other, in order.\<close>

lemma rep_transfers:
  assumes "rep h l xs" "rep h k ys" "set (k # ys) \<inter> set (l # xs) = {}" "distinct zs" "set zs \<subseteq> set xs"
  shows "rep (fold (\<lambda>x h. add_tail x k (del_init x h)) zs h) l (filter (\<lambda>x. x \<notin> set zs) xs) \<and> rep (fold (\<lambda>x h. add_tail x k (del_init x h)) zs h) k (ys @ zs)"
  using assms
proof (induction zs arbitrary: h xs ys)
  case (Cons z zs)
  have d: "distinct xs" using rep_distinct [OF Cons.prems(1)] by simp
  have "rep (add_tail z k (del_init z h)) l (remove1 z xs)" "rep (add_tail z k (del_init z h)) k (ys @ [z])"
    using rep_transfer [OF Cons.prems(1) _ Cons.prems(2,3), of z] Cons.prems(5) by auto
  moreover have "set (k # ys @ [z]) \<inter> set (l # remove1 z xs) = {}"
    using Cons.prems rep_distinct [OF Cons.prems(1)] by (auto dest: notin_set_remove1)
  moreover have "set zs \<subseteq> set (remove1 z xs)" using Cons.prems d by auto
  ultimately have "rep (fold (\<lambda>x h. add_tail x k (del_init x h)) zs (add_tail z k (del_init z h))) l (filter (\<lambda>x. x \<notin> set zs) (remove1 z xs)) \<and>
      rep (fold (\<lambda>x h. add_tail x k (del_init x h)) zs (add_tail z k (del_init z h))) k ((ys @ [z]) @ zs)"
    using Cons.IH [of "add_tail z k (del_init z h)" "remove1 z xs" "ys @ [z]"] Cons.prems(4) by simp
  moreover have "filter (\<lambda>x. x \<notin> set zs) (remove1 z xs) = filter (\<lambda>x. x \<notin> set (z # zs)) xs"
    using d by (auto simp: distinct_remove1_removeAll removeAll_filter_not_eq intro: filter_cong)
  ultimately show ?case by simp
qed simp

lemma rep_drain:
  assumes "rep h l xs" "rep h k ys" "set (k # ys) \<inter> set (l # xs) = {}"
  shows "rep (fold (\<lambda>x h. add_tail x k (del_init x h)) xs h) l [] \<and> rep (fold (\<lambda>x h. add_tail x k (del_init x h)) xs h) k (ys @ xs)"
  using rep_transfers [OF assms, of xs] rep_distinct [OF assms(1)] by simp

text \<open>A queue: appending to an empty list, and what is first is what was appended first.\<close>

lemma rep_enqueue:
  assumes "distinct (l # xs @ ns)" "rep h l xs"
  shows "rep (fold (\<lambda>n. add_tail n l) ns h) l (xs @ ns)"
  using assms
proof (induction ns arbitrary: h xs)
  case (Cons n ns)
  then show ?case using Cons.IH [of "xs @ [n]" "add_tail n l h"] rep_add_tail [of h l xs n] by simp
qed simp

lemma first_enqueued: "distinct (l # n # ns) \<Longrightarrow> nxt (fold (\<lambda>n. add_tail n l) (n # ns) (init l h)) l = n"
  using rep_nxt [OF rep_enqueue [of l "[]" "n # ns" "init l h"]] rep_init by simp
end

interpretation ll: intrusive_lists dlist list_init list_add_tail list_del_init lh_next
proof unfold_locales
  fix h l xs x k ys
  assume a: "dlist h l xs" "x \<in> set xs"
  obtain as bs where s: "xs = as @ x # bs" "remove1 x xs = as @ bs" by (rule dlist_split [OF a])
  show "dlist (list_del_init x h) l (remove1 x xs)" using list_del_init_refines(1) a(1) s by simp
  assume "dlist h k ys" "set (k # ys) \<inter> set (l # xs) = {}"
  then show "dlist (list_del_init x h) k ys" using list_del_init_frame a(1) s by simp
qed (use dlist_init list_add_tail_refines list_add_tail_frame dlist_ends in \<open>auto simp: dlist_def\<close>)

section \<open>The loops\<close>

text \<open>
  A body that leaves the entries after the cursor on the list, as its end, is run once on every entry
  the list had at the start, in order: it may unlink the entry it stands on and put it on another list.
\<close>

lemma safe_loop_folds:
  assumes "\<And>as x bs. xs = as @ x # bs \<Longrightarrow> \<exists>zs. dlist (fst (fold body (as @ [x]) st)) l (zs @ bs)"
    and "dlist (fst st) l (ys @ xs)"
  shows "for_each_safe_loop (Suc (length xs)) body l (hd (xs @ [l])) (lh_next (fst st) (hd (xs @ [l]))) st =
    Some (fold body xs st)"
  using assms
proof (induction xs arbitrary: ys st)
  case (Cons x xs)
  have ends: "lh_next (fst st) x = hd (xs @ [l])" "x \<noteq> l"
    using dlist_neighbours(1) [OF Cons.prems(2)] Cons.prems(2) by (auto simp: dlist_def)
  obtain zs where zs: "dlist (fst (body x st)) l (zs @ xs)"
    using Cons.prems(1) [of "[]" x xs] by auto
  have "\<exists>zs. dlist (fst (fold body (as @ [y]) (body x st))) l (zs @ bs)" if "xs = as @ y # bs" for as y bs
    using Cons.prems(1) [of "x # as" y bs] that by simp
  then show ?case using Cons.IH [OF _ zs] ends by simp
qed simp

lemma for_each_safe_folds:
  assumes "\<And>as x bs. xs = as @ x # bs \<Longrightarrow> \<exists>zs. dlist (fst (fold body (as @ [x]) st)) l (zs @ bs)"
    and "dlist (fst st) l xs"
  shows "list_for_each_entry_safe (Suc (length xs)) body l st = Some (fold body xs st)"
  using safe_loop_folds [of xs body st l "[]"] assms dlist_ends(1) [OF assms(2)]
  by (simp add: list_for_each_entry_safe_def)

lemma for_each_loop_folds:
  assumes "dlist (fst st) l (ys @ xs)" "\<And>x s. fst (body x s) = fst s"
  shows "for_each_loop (Suc (length xs)) body l (hd (xs @ [l])) st = Some (fold body xs st)"
  using assms(1)
proof (induction xs arbitrary: ys st)
  case (Cons x xs)
  have "lh_next (fst st) x = hd (xs @ [l])" "x \<noteq> l"
    using dlist_neighbours(1) [OF Cons.prems(1)] Cons.prems(1) by (auto simp: dlist_def)
  then have "for_each_loop (Suc (length (x # xs))) body l (hd ((x # xs) @ [l])) st =
      for_each_loop (Suc (length xs)) body l (hd (xs @ [l])) (body x st)"
    using assms(2) by (simp add: Let_def)
  then show ?case using Cons.IH [of "body x st" "ys @ [x]"] Cons.prems(1) assms(2)
    by (simp del: for_each_loop.simps)
qed simp

text \<open>The plain loop, for a body that does not change the links.\<close>

lemma for_each_folds:
  assumes "dlist (fst st) l xs" "\<And>x s. fst (body x s) = fst s"
  shows "list_for_each_entry (Suc (length xs)) body l st = Some (fold body xs st)"
  using for_each_loop_folds [of st l "[]" xs body] assms dlist_ends(1) [OF assms(1)]
  by (simp add: list_for_each_entry_def)

lemma fold_transfer_filter:
  "fold (\<lambda>x (h, vs). (if P x then f x h else h, vs @ [x])) xs (h, vs) = (fold f (filter P xs) h, vs @ xs)"
  by (induction xs arbitrary: h vs) auto

lemma filter_moved:
  "distinct (as @ bs) \<Longrightarrow> filter (\<lambda>x. x \<notin> set (filter P as)) (as @ bs) = filter (\<lambda>x. \<not> P x) as @ bs"
  by (subst filter_append, intro arg_cong2 [where f = append] filter_cong) (auto simp: filter_id_conv)

text \<open>The ordered insertion: enough fuel, and the place.\<close>

lemma order_insert_loop_refines:
  assumes "dlist h l (ys @ xs)" "n \<notin> set (l # ys @ xs)"
  shows "\<exists>h'. order_insert_loop (Suc (length xs)) key n l (hd (xs @ [l])) h = Some h' \<and>
     dlist h' l (ys @ takeWhile (\<lambda>x. \<not> key n < key x) xs @ n # dropWhile (\<lambda>x. \<not> key n < key x) xs)"
  using assms
proof (induction xs arbitrary: ys)
  case Nil
  then show ?case using list_add_tail_refines by simp
next
  case (Cons x xs)
  have "lh_next h x = hd (xs @ [l])" "x \<noteq> l"
    using dlist_neighbours(1) [OF Cons.prems(1)] Cons.prems(1) by (auto simp: dlist_def)
  then show ?case using Cons.IH [of "ys @ [x]"] Cons.prems list_add_tail_before [OF Cons.prems(1)] by auto
qed

lemma order_insert_entry_refines:
  assumes "dlist h l xs" "n \<notin> set (l # xs)"
  shows "\<exists>h'. order_insert_entry (Suc (length xs)) key n l h = Some h' \<and>
     dlist h' l (takeWhile (\<lambda>x. \<not> key n < key x) xs @ n # dropWhile (\<lambda>x. \<not> key n < key x) xs)"
  using order_insert_loop_refines [of h l "[]" xs n key] assms dlist_ends(1) [OF assms(1)]
  by (simp add: order_insert_entry_def)

section \<open>Properties\<close>

text \<open>
  C32. The list operations implement operations on sequences. Of two lists \<open>l\<close> and \<open>k\<close> with
  no node in common, adding a new node to \<open>l\<close> prepends or appends it, removing an entry takes out that
  entry and leaves it a list of its own, moving an entry to \<open>k\<close> appends it there, rotating moves the
  first entry to the end and splicing appends all of \<open>l\<close> to \<open>k\<close> and empties \<open>l\<close>; and in each case the list
  that is not named is what it was.
\<close>

theorem list_ops_refine:
  assumes "dlist h l xs" "dlist h k ys" "set (k # ys) \<inter> set (l # xs) = {}"
    and "n \<notin> set (l # xs @ k # ys)" and "x \<in> set xs"
  shows "(dlist (list_add n l h) l (n # xs) \<and> dlist (list_add n l h) k ys) \<and>
    (dlist (list_add_tail n l h) l (xs @ [n]) \<and> dlist (list_add_tail n l h) k ys) \<and>
    (dlist (list_del_init x h) l (remove1 x xs) \<and> dlist (list_del_init x h) x [] \<and> dlist (list_del_init x h) k ys) \<and>
    (dlist (list_move_tail x k h) l (remove1 x xs) \<and> dlist (list_move_tail x k h) k (ys @ [x])) \<and>
    (dlist (list_move x k h) l (remove1 x xs) \<and> dlist (list_move x k h) k (x # ys)) \<and>
    (dlist (list_splice_tail_init l k h) l [] \<and> dlist (list_splice_tail_init l k h) k (ys @ xs)) \<and>
    dlist (list_rotate_left l h) l (rotate1 xs) \<and>
    (list_first_entry l h = hd xs \<and> list_last_entry l h = last xs \<and> \<not> list_empty l h)"
proof -
  obtain as bs where s: "xs = as @ x # bs" "remove1 x xs = as @ bs" by (rule dlist_split [OF assms(1,5)])
  have "n \<notin> set (l # xs)" "set (k # ys) \<inter> set (n # l # xs) = {}" using assms by auto
  then have "dlist (list_add n l h) l (n # xs) \<and> dlist (list_add n l h) k ys"
    and "dlist (list_add_tail n l h) l (xs @ [n]) \<and> dlist (list_add_tail n l h) k ys"
    using list_add_refines [OF assms(1)] list_add_frame [OF assms(1,2)]
      list_add_tail_refines [OF assms(1)] list_add_tail_frame [OF assms(1,2)] by blast+
  moreover have "dlist (list_del_init x h) l (remove1 x xs) \<and> dlist (list_del_init x h) x [] \<and> dlist (list_del_init x h) k ys"
    using ll.rep_del_init ll.del_init_keeps list_del_init_refines(2) assms s by blast
  moreover have "dlist (list_move_tail x k h) l (remove1 x xs) \<and> dlist (list_move_tail x k h) k (ys @ [x])"
    using ll.rep_transfer [OF assms(1,5,2,3)] by (simp add: list_move_tail_eq)
  moreover have "dlist (list_move x k h) l (remove1 x xs) \<and> dlist (list_move x k h) k (x # ys)"
    using list_move_refines [of h l as x bs k ys] assms s by simp
  moreover have "list_first_entry l h = hd xs \<and> list_last_entry l h = last xs \<and> \<not> list_empty l h"
    using dlist_ends [OF assms(1)] dlist_empty [OF assms(1)] assms(5)
    by (auto simp: list_first_entry_def list_last_entry_def hd_append)
  ultimately show ?thesis
    using list_splice_tail_init_refines [OF assms(1-3)] list_rotate_left_refines [OF assms(1)] by simp
qed

lemma list_ops_refine_witness:
  "dlist sample_lists 0 [1, 5, 2] \<and> dlist sample_lists 9 [7] \<and>
   dlist (list_add_tail 3 0 sample_lists) 0 [1, 5, 2, 3] \<and> dlist (list_add_tail 3 0 sample_lists) 9 [7] \<and>
   dlist (list_del_init 5 sample_lists) 0 [1, 2] \<and> dlist (list_del_init 5 sample_lists) 5 [] \<and>
   dlist (list_move_tail 5 9 sample_lists) 9 [7, 5] \<and>
   dlist (list_splice_tail_init 0 9 sample_lists) 9 [7, 1, 5, 2] \<and> list_first_entry 0 sample_lists = 1"
proof -
  have d: "dlist sample_lists 0 [1, 5, 2]" "dlist sample_lists 9 [7]" by code_simp+
  show ?thesis using list_ops_refine [OF d, of 3 5] d by simp
qed

text \<open>
  C33. The loop of the acknowledgement handler, of the reassembly and of the clean-up:
  \<open>list_for_each_entry_safe\<close> whose body moves the entries that satisfy \<open>P\<close> to another list. It returns, visits
  every entry the list had when it was entered, in order and once, and leaves on the one list the
  entries without \<open>P\<close>, and on the other, behind what it had, those with \<open>P\<close>, all in their order.
\<close>

theorem for_each_safe_transfers:
  assumes "dlist h l xs" "dlist h k ys" "set (k # ys) \<inter> set (l # xs) = {}"
  shows "\<exists>h'. list_for_each_entry_safe (Suc (length xs))
        (\<lambda>x (h, vs). (if P x then list_add_tail x k (list_del_init x h) else h, vs @ [x])) l (h, []) = Some (h', xs) \<and>
      dlist h' l (filter (\<lambda>x. \<not> P x) xs) \<and> dlist h' k (ys @ filter P xs)"
proof -
  have d: "distinct xs" using assms(1) by (simp add: dlist_def)
  have moved: "dlist (fold (\<lambda>x h. list_add_tail x k (list_del_init x h)) (filter P as) h) l (filter (\<lambda>x. \<not> P x) as @ bs) \<and>
      dlist (fold (\<lambda>x h. list_add_tail x k (list_del_init x h)) (filter P as) h) k (ys @ filter P as)"
    if "xs = as @ bs" for as bs
    using ll.rep_transfers [OF assms, of "filter P as"] filter_moved [of as bs P] d that by auto
  have "list_for_each_entry_safe (Suc (length xs))
        (\<lambda>x (h, vs). (if P x then list_add_tail x k (list_del_init x h) else h, vs @ [x])) l (h, []) =
      Some (fold (\<lambda>x (h, vs). (if P x then list_add_tail x k (list_del_init x h) else h, vs @ [x])) xs (h, []))"
  proof (rule for_each_safe_folds)
    fix as x bs
    assume "xs = as @ x # bs"
    then have "xs = (as @ [x]) @ bs" by simp
    from conjunct1 [OF moved [OF this]] show "\<exists>zs. dlist (fst (fold (\<lambda>x (h, vs). (if P x then list_add_tail x k (list_del_init x h) else h, vs @ [x]))
        (as @ [x]) (h, []))) l (zs @ bs)"
      unfolding fold_transfer_filter fst_conv by blast
  qed (use assms in simp)
  then show ?thesis using moved [of xs "[]"] by (simp add: fold_transfer_filter)
qed

lemma for_each_safe_transfers_witness:
  "\<exists>h'. list_for_each_entry_safe 4
        (\<lambda>x (h, vs). (if x < 3 then list_add_tail x 9 (list_del_init x h) else h, vs @ [x])) 0 (sample_lists, []) =
        Some (h', [1, 5, 2]) \<and>
      dlist h' 0 [5] \<and> dlist h' 9 [7, 1, 2]"
proof -
  have "dlist sample_lists 0 [1, 5, 2]" "dlist sample_lists 9 [7]" by code_simp+
  from for_each_safe_transfers [OF this, of "\<lambda>x. x < 3"] show ?thesis by (simp add: eval_nat_numeral)
qed

end
