(* ===== verification/Kcp_Recv.thy ===== *)
theory Kcp_Recv
  imports Kcp_Send Kcp_List
begin

text \<open>
  The receive side: the two indexes of a connection (segments by sequence number, packets under
  reassembly by packet number), the handler \<open>on_kcp_push_pcaket\<close> of
  \<^verbatim>\<open>kcp/src/kcp_protocol.c\<close> and \<open>kcp_recv\<close> of \<^verbatim>\<open>kcp/src/kcpp.c\<close>.

  \<open>rcv_packet\<close> holds the packets; \<open>rcv_packet_list\<close> links them by their \<open>psn\<close>, which identifies a
  packet in the tree. A write through a packet pointer is a \<open>rb_map\<close> on the tree at that \<open>psn\<close>.
\<close>

section \<open>The receive indexes\<close>

definition kcp_rcv_segment_search :: "u32 \<Rightarrow> 'a kcp_rcv_scheme \<Rightarrow> kcp_segment option" where
  "kcp_rcv_segment_search sn c = rb_search seg_sn sn (rcv_buf c)"

definition kcp_rcv_segment_insert :: "kcp_segment \<Rightarrow> 'a kcp_rcv_scheme \<Rightarrow> 'a kcp_rcv_scheme" where
  "kcp_rcv_segment_insert seg c = c\<lparr>rcv_buf := rb_insert seg_sn seg (rcv_buf c)\<rparr>"

definition kcp_rcv_packet_search :: "u32 \<Rightarrow> 'a kcp_rcv_scheme \<Rightarrow> kcp_packet_assembly option" where
  "kcp_rcv_packet_search psn c = rb_search pk_psn psn (rcv_packet c)"

definition kcp_rcv_packet_insert :: "kcp_packet_assembly \<Rightarrow> 'a kcp_rcv_scheme \<Rightarrow> 'a kcp_rcv_scheme" where
  "kcp_rcv_packet_insert packet c = c\<lparr>rcv_packet := rb_insert pk_psn packet (rcv_packet c)\<rparr>"

text \<open>The \<open>start_sn\<close> behind a link of the list.\<close>

definition packet_start :: "kcp_packet_assembly rb_node \<Rightarrow> u32 \<Rightarrow> u32" where
  "packet_start t psn = (case rb_search pk_psn psn t of None \<Rightarrow> 0 | Some p \<Rightarrow> pk_start_sn p)"

fun order_insert :: "(u32 \<Rightarrow> u32) \<Rightarrow> u32 \<Rightarrow> u32 list \<Rightarrow> u32 list" where
  "order_insert start x [] = [x]"
| "order_insert start x (pos # rest) =
     (if start x < start pos then x # pos # rest else pos # order_insert start x rest)"

definition kcp_rcv_packet_order_insert :: "u32 \<Rightarrow> 'a kcp_rcv_scheme \<Rightarrow> 'a kcp_rcv_scheme" where
  "kcp_rcv_packet_order_insert psn c =
     c\<lparr>rcv_packet_list := order_insert (packet_start (rcv_packet c)) psn (rcv_packet_list c)\<rparr>"

text \<open>\<open>mem\<close>: whether \<open>malloc\<close> succeeds.\<close>

definition kcp_rcv_packet_create :: "bool \<Rightarrow> u32 \<Rightarrow> u32 \<Rightarrow> 'a kcp_rcv_scheme \<Rightarrow> ('a kcp_rcv_scheme) option" where
  "kcp_rcv_packet_create mem psn start_sn c =
     (if \<not> mem then None
      else
        let packet = \<lparr>pk_psn = psn, pk_start_sn = start_sn, pk_expected_frags = 0, pk_received_frags = 0,
                      pk_total_size = 0, pk_has_head = False, pk_fragments = []\<rparr>
        in Some (kcp_rcv_packet_order_insert psn (kcp_rcv_packet_insert packet c)))"

fun frags_consecutive :: "u32 \<Rightarrow> kcp_segment list \<Rightarrow> bool" where
  "frags_consecutive expected_sn [] = True"
| "frags_consecutive expected_sn (pos # rest) =
     (if seg_sn pos \<noteq> expected_sn then False else frags_consecutive (expected_sn + 1) rest)"

definition kcp_rcv_packet_is_complete :: "kcp_packet_assembly \<Rightarrow> bool" where
  "kcp_rcv_packet_is_complete p =
     (if \<not> pk_has_head p \<or> pk_expected_frags p = 0 \<or> pk_expected_frags p \<noteq> pk_received_frags p then False
      else frags_consecutive (pk_start_sn p) (pk_fragments p))"

definition kcp_rcv_packet_destroy :: "u32 \<Rightarrow> 'a kcp_rcv_scheme \<Rightarrow> 'a kcp_rcv_scheme" where
  "kcp_rcv_packet_destroy psn c =
     c\<lparr>rcv_packet := rb_erase_where (\<lambda>p. pk_psn p = psn) (rcv_packet c),
       rcv_packet_list := remove1 psn (rcv_packet_list c)\<rparr>"

definition update_packet ::
    "u32 \<Rightarrow> (kcp_packet_assembly \<Rightarrow> kcp_packet_assembly) \<Rightarrow> 'a kcp_rcv_scheme \<Rightarrow> 'a kcp_rcv_scheme" where
  "update_packet psn f c = c\<lparr>rcv_packet := rb_map (\<lambda>p. if pk_psn p = psn then f p else p) (rcv_packet c)\<rparr>"

section \<open>Receiving a segment\<close>

definition push_segment :: "kcp_proto_header \<Rightarrow> kcp_segment \<Rightarrow> kcp_segment" where
  "push_segment h seg =
     (case as_packet_data (hd_body h) of (ts, sn, psn, una, len, dat) \<Rightarrow>
        seg\<lparr>seg_scid := hd_scid h, seg_dcid := hd_dcid h, seg_cmd := ucast (hd_cmd h),
            seg_frg := ucast (hd_frg h), seg_wnd := ucast (hd_wnd h), seg_ts := ts, seg_sn := sn,
            seg_psn := psn, seg_una := una, seg_len := len, seg_data := take (unat len) dat\<rparr>)"

text \<open>The head fragment fixes the start and the number of fragments and moves the packet in the list.\<close>

definition push_head :: "kcp_segment \<Rightarrow> 'a kcp_rcv_scheme \<Rightarrow> 'a kcp_rcv_scheme" where
  "push_head seg c =
     (if seg_frg seg = 0
      then
        let c1 = update_packet (seg_psn seg)
                   (\<lambda>p. p\<lparr>pk_has_head := True, pk_expected_frags := ucast (seg_wnd seg), pk_start_sn := seg_sn seg\<rparr>) c;
            c2 = c1\<lparr>rcv_packet_list := remove1 (seg_psn seg) (rcv_packet_list c1)\<rparr>
        in kcp_rcv_packet_order_insert (seg_psn seg) c2
      else c)"

fun frag_insert :: "kcp_segment \<Rightarrow> kcp_segment list \<Rightarrow> kcp_segment list" where
  "frag_insert seg [] = [seg]"
| "frag_insert seg (pos # rest) =
     (if seg_frg seg < seg_frg pos then seg # pos # rest else pos # frag_insert seg rest)"

definition push_fragment :: "kcp_segment \<Rightarrow> 'a kcp_rcv_scheme \<Rightarrow> 'a kcp_rcv_scheme" where
  "push_fragment seg c =
     (let c1 = kcp_rcv_segment_insert seg c;
          c2 = update_packet (seg_psn seg)
                 (\<lambda>p. p\<lparr>pk_fragments := frag_insert seg (pk_fragments p),
                        pk_received_frags := pk_received_frags p + 1,
                        pk_total_size := s32 (pk_total_size p + i32_of_u32 (seg_len seg))\<rparr>) c1
      in c2\<lparr>nrcv_buf := s32 (nrcv_buf c2 + 1)\<rparr>)"

text \<open>
  \<open>while (kcp_rcv_segment_search(kcp_conn, kcp_conn->rcv_nxt) != NULL) kcp_conn->rcv_nxt++\<close>, with
  fuel; as many rounds as the tree has segments, and one, are enough (\<open>advance_nxt_stops\<close>).
\<close>

primrec advance_nxt :: "nat \<Rightarrow> kcp_segment rb_node \<Rightarrow> u32 \<Rightarrow> u32" where
  "advance_nxt 0 t n = n"
| "advance_nxt (Suc fuel) t n = (if rb_search seg_sn n t \<noteq> None then advance_nxt fuel t (n + 1) else n)"

definition push_advance :: "kcp_segment \<Rightarrow> 'a kcp_rcv_scheme \<Rightarrow> 'a kcp_rcv_scheme" where
  "push_advance seg c =
     (if seg_sn seg = rcv_nxt c
      then c\<lparr>rcv_nxt := advance_nxt (length (rb_inorder (rcv_buf c)) + 1) (rcv_buf c) (rcv_nxt c + 1)\<rparr>
      else c)"

text \<open>Moving one fragment of a complete packet to the receive queue, and the delivery.\<close>

definition deliver_fragment :: "'a kcp_rcv_scheme \<Rightarrow> kcp_segment \<Rightarrow> 'a kcp_rcv_scheme" where
  "deliver_fragment c pos =
     c\<lparr>rcv_buf := rb_erase_where (\<lambda>s. seg_sn s = seg_sn pos) (rcv_buf c),
       rcv_queue := rcv_queue c @ [pos],
       nrcv_buf := s32 (nrcv_buf c - 1),
       nrcv_que := s32 (nrcv_que c + 1),
       rcv_queue_bytes := s32 (rcv_queue_bytes c + i32_of_u32 (seg_len pos))\<rparr>"

definition push_deliver :: "'a kcp_rcv_scheme \<Rightarrow> kcp_io \<Rightarrow> 'a kcp_rcv_scheme \<times> kcp_io" where
  "push_deliver c io =
     (case rcv_packet_list c of
        [] \<Rightarrow> (c, io)
      | psn # _ \<Rightarrow>
          (case kcp_rcv_packet_search psn c of
             None \<Rightarrow> (c, io)
           | Some packet \<Rightarrow>
               if kcp_rcv_packet_is_complete packet \<and>
                  pk_start_sn packet + ucast (pk_expected_frags packet) \<le> rcv_nxt c
               then
                 let c' = kcp_rcv_packet_destroy psn (foldl deliver_fragment c (pk_fragments packet))
                 in (c', if read_event_cb c' then emit (Read_event (conn_addr c') (pk_total_size packet)) io else io)
               else (c, io)))"

text \<open>The memory the handler asks for: the ack item, the segment (when the pool is empty), the packet.\<close>

record push_mem =
  mem_ack :: bool
  mem_segment :: "kcp_segment option"
  mem_packet :: bool

text \<open>From the search for a duplicate on, with the segment filled in and the ack queued.\<close>

definition push_store :: "push_mem \<Rightarrow> kcp_segment \<Rightarrow> kcp_ack \<Rightarrow> 'a kcp_rcv_scheme \<Rightarrow> kcp_io \<Rightarrow>
    kcp_error \<times> 'a kcp_rcv_scheme \<times> kcp_io" where
  "push_store mem seg ack c io =
     (if kcp_rcv_segment_search (seg_sn seg) c \<noteq> None then (NO_ERROR, kcp_segment_recv_put seg c, io)
      else
        let created = (if kcp_rcv_packet_search (seg_psn seg) c \<noteq> None then Some c
                       else kcp_rcv_packet_create (mem_packet mem) (seg_psn seg) (seg_sn seg - seg_frg seg) c)
        in (case created of
              None \<Rightarrow> (NO_MEMORY, kcp_segment_recv_put seg c, io)
            | Some c1 \<Rightarrow>
                let c2 = c1\<lparr>ack_item := ack_item c1 @ [ack]\<rparr>;
                    c3 = push_advance seg (push_fragment seg (push_head seg c2));
                    (c4, io') = push_deliver c3 io
                in (NO_ERROR, c4, io')))"

definition on_kcp_push_pcaket :: "push_mem \<Rightarrow> kcp_proto_header \<Rightarrow> u64 \<Rightarrow> 'a kcp_rcv_scheme \<Rightarrow> kcp_io \<Rightarrow>
    kcp_error \<times> 'a kcp_rcv_scheme \<times> kcp_io" where
  "on_kcp_push_pcaket mem h timestamp c0 io =
     (case as_packet_data (hd_body h) of (ts, sn, psn, una, len, dat) \<Rightarrow>
        let c = ping_refresh timestamp c0
        in if sn \<ge> rcv_nxt c + u32_of_i32 (rcv_wnd c) then (NO_ERROR, c\<lparr>probe := probe c OR KCP_ASK_TELL\<rparr>, io)
           else if sn < rcv_nxt c then (NO_ERROR, c, io)
           else if \<not> mem_ack mem then (NO_MEMORY, c, io)
           else
             (case kcp_segment_recv_get (mem_segment mem) c of
                (None, c1) \<Rightarrow> (NO_MEMORY, c1, io)
              | (Some raw, c1) \<Rightarrow>
                  push_store mem (push_segment h raw) \<lparr>ack_sn = sn, ack_psn = psn, ack_ts = timestamp\<rparr> c1 io))"

section \<open>Reading\<close>

definition recv_take :: "bytes \<times> 'a kcp_rcv_scheme \<Rightarrow> kcp_segment \<Rightarrow> bytes \<times> 'a kcp_rcv_scheme" where
  "recv_take acc pos =
     (case acc of (buf, c) \<Rightarrow>
        let c1 = c\<lparr>rcv_queue_bytes := s32 (rcv_queue_bytes c - i32_of_u32 (seg_len pos)),
                     rcv_queue := tl (rcv_queue c)\<rparr>;
            c2 = kcp_segment_recv_put pos c1
        in (buf @ take (unat (seg_len pos)) (seg_data pos), c2\<lparr>nrcv_que := s32 (nrcv_que c2 - 1)\<rparr>))"

text \<open>\<open>kcp_recv\<close> with a buffer of \<open>sz\<close> bytes: the bytes copied to it, or an error.\<close>

definition kcp_recv :: "bool \<Rightarrow> nat \<Rightarrow> 'a kcp_rcv_scheme \<Rightarrow> (kcp_error + bytes) \<times> 'a kcp_rcv_scheme" where
  "kcp_recv sock_open sz c =
     (if sz = 0 then (Inl INVALID_PARAM, c)
      else if \<not> sock_open then (Inl SOCKET_CLOSED, c)
      else if state c \<noteq> KCP_STATE_CONNECTED then (Inl INVALID_STATE, c)
      else if rcv_queue c = [] then (Inl OP_TRY_AGAIN, c)
      else if rcv_queue_bytes c > i32_of_u64 (of_nat sz) then (Inl BUFFER_TOO_SMALL, c)
      else
        let recover = (nrcv_que c \<ge> rcv_wnd c);
            (buf, c1) = foldl recv_take ([], c) (rcv_queue c);
            c2 = (if recover \<and> nrcv_que c1 < rcv_wnd c1 then c1\<lparr>probe := probe c1 OR KCP_ASK_TELL\<rparr> else c1)
        in (Inr buf, c2))"

section \<open>Lemmas\<close>

subsection \<open>Well-formedness of the receive side\<close>

text \<open>The bytes of a list of segments.\<close>

abbreviation queue_bytes :: "kcp_segment list \<Rightarrow> int" where
  "queue_bytes ss \<equiv> sum_list (map (\<lambda>s. i32_of_u32 (seg_len s)) ss)"

text \<open>
  A packet under reassembly: its fragments belong to it, have different sequence numbers, and are
  counted.
\<close>

definition packet_wf :: "kcp_packet_assembly \<Rightarrow> bool" where
  "packet_wf q \<longleftrightarrow> (\<forall>s \<in> set (pk_fragments q). seg_psn s = pk_psn q) \<and> distinct (map seg_sn (pk_fragments q)) \<and>
     pk_received_frags q = of_nat (length (pk_fragments q)) \<and>
     pk_total_size q = s32 (queue_bytes (pk_fragments q))"

text \<open>
  The two trees and the list: both trees are indexes, the list has each packet once, and the
  segments of the segment tree are exactly the fragments of the packets.
\<close>

definition rcv_struct :: "kcp_segment rb_node \<Rightarrow> kcp_packet_assembly rb_node \<Rightarrow> u32 list \<Rightarrow> bool" where
  "rcv_struct b p l \<longleftrightarrow> rb_index seg_sn b \<and> rb_index pk_psn p \<and> distinct l \<and>
     set l = pk_psn ` set (rb_inorder p) \<and>
     (\<forall>s \<in> set (rb_inorder b). \<exists>q \<in> set (rb_inorder p). s \<in> set (pk_fragments q)) \<and>
     (\<forall>q \<in> set (rb_inorder p). packet_wf q \<and> set (pk_fragments q) \<subseteq> set (rb_inorder b))"

definition rcv_wf :: "'a kcp_rcv_scheme \<Rightarrow> bool" where
  "rcv_wf c \<longleftrightarrow> rcv_struct (rcv_buf c) (rcv_packet c) (rcv_packet_list c) \<and>
     nrcv_buf c = int (length (rb_inorder (rcv_buf c))) \<and>
     nrcv_que c = s32 (int (length (rcv_queue c))) \<and>
     rcv_queue_bytes c = s32 (queue_bytes (rcv_queue c)) \<and>
     rb_search seg_sn (rcv_nxt c) (rcv_buf c) = None"

lemma rb_index_map:
  assumes "rb_index key t" and "\<And>x. key (f x) = key x"
  shows "rb_index key (rb_map f t)"
  using assms by (simp add: rb_index_def rb_ok_map rb_inorder_map comp_def)

lemma order_insert_set [simp]: "set (order_insert f x l) = insert x (set l)"
  by (induction l) auto

lemma order_insert_distinct [simp]: "x \<notin> set l \<Longrightarrow> distinct (order_insert f x l) = distinct l"
  by (induction l) auto

lemma frag_insert_mset [simp]: "mset (frag_insert s l) = add_mset s (mset l)"
  by (induction l) auto

lemma frag_insert_set [simp]: "set (frag_insert s l) = insert s (set l)"
  by (induction l) auto

lemma frag_insert_length [simp]: "length (frag_insert s l) = Suc (length l)"
  by (induction l) auto

lemma frag_insert_distinct:
  "distinct (map seg_sn (frag_insert s l)) \<longleftrightarrow> seg_sn s \<notin> seg_sn ` set l \<and> distinct (map seg_sn l)"
proof -
  have "mset (map seg_sn (frag_insert s l)) = mset (seg_sn s # map seg_sn l)" by simp
  then show ?thesis by (metis distinct.simps(2) mset_eq_imp_distinct_iff set_map)
qed

lemma frag_insert_sum:
  "sum_list (map (g :: kcp_segment \<Rightarrow> int) (frag_insert s l)) = g s + sum_list (map g l)"
proof -
  have "mset (map g (frag_insert s l)) = mset (g s # map g l)" by simp
  then show ?thesis by (metis sum_list.Cons sum_mset_sum_list)
qed

subsection \<open>The steps of a push on the structure\<close>

lemma struct_packet_unique:
  assumes "rcv_struct b p l" "q \<in> set (rb_inorder p)" "q' \<in> set (rb_inorder p)" "pk_psn q = pk_psn q'"
  shows "q = q'"
  using assms rbt.distinct_keys [of pk_psn p] by (auto simp: rcv_struct_def distinct_map inj_on_def)

lemma struct_segment_unique:
  assumes "rcv_struct b p l" "s \<in> set (rb_inorder b)" "s' \<in> set (rb_inorder b)" "seg_sn s = seg_sn s'"
  shows "s = s'"
  using assms rbt.distinct_keys [of seg_sn b] by (auto simp: rcv_struct_def distinct_map inj_on_def)

lemma struct_fragment_of:
  "rcv_struct b p l \<Longrightarrow> s \<in> set (rb_inorder b) \<Longrightarrow> \<exists>q \<in> set (rb_inorder p). s \<in> set (pk_fragments q)"
  by (simp add: rcv_struct_def)

lemma struct_packet:
  assumes "rcv_struct b p l" and "q \<in> set (rb_inorder p)"
  shows "packet_wf q" and "set (pk_fragments q) \<subseteq> set (rb_inorder b)" and "pk_psn q \<in> set l"
  using assms by (simp_all add: rcv_struct_def)

lemma struct_create:
  assumes "rcv_struct b p l" and "rb_search pk_psn (pk_psn q) p = None" and "packet_wf q" and "pk_fragments q = []"
  shows "rcv_struct b (rb_insert pk_psn q p) (order_insert f (pk_psn q) l)"
proof -
  have i: "rb_index pk_psn p" using assms(1) by (simp add: rcv_struct_def)
  have "pk_psn q \<notin> set l" using assms(1,2) rbt.search_None_iff [OF i] by (simp add: rcv_struct_def)
  then show ?thesis
    using assms rbt.invar_insert [OF i] rbt.set_entries_insert [OF i]
    by (auto simp: rcv_struct_def)
qed

lemma struct_map:
  assumes "rcv_struct b p l" and "\<And>q. pk_psn (f q) = pk_psn q" and "\<And>q. pk_fragments (f q) = pk_fragments q"
    and "\<And>q. packet_wf q \<Longrightarrow> packet_wf (f q)"
  shows "rcv_struct b (rb_map f p) l"
  using assms rb_index_map [of pk_psn p f] by (auto simp: rcv_struct_def rb_inorder_map image_image)

lemma struct_list:
  "rcv_struct b p l \<Longrightarrow> set l' = set l \<Longrightarrow> distinct l' \<Longrightarrow> rcv_struct b p l'"
  by (simp add: rcv_struct_def)

definition add_fragment :: "kcp_segment \<Rightarrow> kcp_packet_assembly \<Rightarrow> kcp_packet_assembly" where
  "add_fragment seg q = (if pk_psn q = seg_psn seg
     then q\<lparr>pk_fragments := frag_insert seg (pk_fragments q), pk_received_frags := pk_received_frags q + 1,
            pk_total_size := s32 (pk_total_size q + i32_of_u32 (seg_len seg))\<rparr> else q)"

lemma add_fragment_simps [simp]:
  "pk_psn (add_fragment seg q) = pk_psn q" "pk_start_sn (add_fragment seg q) = pk_start_sn q"
  "pk_has_head (add_fragment seg q) = pk_has_head q" "pk_expected_frags (add_fragment seg q) = pk_expected_frags q"
  "set (pk_fragments (add_fragment seg q)) = (if pk_psn q = seg_psn seg then insert seg (set (pk_fragments q)) else set (pk_fragments q))"
  by (simp_all add: add_fragment_def)

lemma packet_wf_add:
  "packet_wf q \<Longrightarrow> seg_sn seg \<notin> seg_sn ` set (pk_fragments q) \<Longrightarrow> packet_wf (add_fragment seg q)"
  by (simp add: packet_wf_def add_fragment_def frag_insert_distinct frag_insert_sum s32_add_right add.commute)

lemma struct_fragment:
  assumes s: "rcv_struct b p l" and new: "rb_search seg_sn (seg_sn seg) b = None"
    and there: "seg_psn seg \<in> pk_psn ` set (rb_inorder p)"
  shows "rcv_struct (rb_insert seg_sn seg b) (rb_map (add_fragment seg) p) l"
proof -
  have ib: "rb_index seg_sn b" and ip: "rb_index pk_psn p" using s by (simp_all add: rcv_struct_def)
  have nin: "seg_sn seg \<notin> seg_sn ` set (rb_inorder b)" using new rbt.search_None_iff [OF ib] by simp
  have wf: "packet_wf (add_fragment seg q)" if "q \<in> set (rb_inorder p)" for q
  proof (rule packet_wf_add)
    show "packet_wf q" using s that by (simp add: rcv_struct_def)
    have "set (pk_fragments q) \<subseteq> set (rb_inorder b)" using s that by (simp add: rcv_struct_def)
    then show "seg_sn seg \<notin> seg_sn ` set (pk_fragments q)" using nin by auto
  qed
  have sub: "set (pk_fragments q) \<subseteq> set (rb_inorder b)" if "q \<in> set (rb_inorder p)" for q
    using s that by (simp add: rcv_struct_def)
  have "rb_index pk_psn (rb_map (add_fragment seg) p)" using ip by (rule rb_index_map) simp
  moreover have "\<exists>q \<in> set (rb_inorder (rb_map (add_fragment seg) p)). x \<in> set (pk_fragments q)"
    if x: "x \<in> insert seg (set (rb_inorder b))" for x
  proof (cases "x = seg")
    case True
    obtain q where "q \<in> set (rb_inorder p)" "pk_psn q = seg_psn seg" using there by auto
    then show ?thesis using True by (auto simp: rb_inorder_map intro!: bexI [where x = q])
  next
    case False
    then obtain q where "q \<in> set (rb_inorder p)" "x \<in> set (pk_fragments q)"
      using x struct_fragment_of [OF s] by blast
    then show ?thesis by (auto simp: rb_inorder_map intro!: bexI [where x = q])
  qed
  ultimately show ?thesis
    using s wf sub rbt.invar_insert [OF ib new] rbt.set_entries_insert [OF ib, of seg]
    by (auto simp: rcv_struct_def rb_inorder_map image_image split: if_splits)
qed

abbreviation erase_segment :: "kcp_segment rb_node \<Rightarrow> kcp_segment \<Rightarrow> kcp_segment rb_node" where
  "erase_segment t s \<equiv> rb_erase_where (\<lambda>x. seg_sn x = seg_sn s) t"

lemma erase_segments:
  "rb_index seg_sn b \<Longrightarrow> rb_index seg_sn (foldl erase_segment b fs) \<and>
     set (rb_inorder (foldl erase_segment b fs)) = {x \<in> set (rb_inorder b). seg_sn x \<notin> seg_sn ` set fs}"
proof (induction fs arbitrary: b)
  case (Cons s fs)
  then show ?case
    using Cons.IH [OF rbt.invar_erase [OF Cons.prems]] rbt.set_entries_erase_key [OF Cons.prems, of "seg_sn s"]
    by auto
qed simp

lemma index_length: "rb_index key t \<Longrightarrow> length (rb_inorder t) = card (set (rb_inorder t))"
  using rbt.distinct_keys [of key t] by (simp add: distinct_map distinct_card)

lemma erase_segments_length:
  assumes i: "rb_index seg_sn b" and sub: "set fs \<subseteq> set (rb_inorder b)" and d: "distinct (map seg_sn fs)"
  shows "length (rb_inorder (foldl erase_segment b fs)) + length fs = length (rb_inorder b)"
proof -
  let ?B = "set (rb_inorder b)"
  have inj: "inj_on seg_sn ?B" using rbt.distinct_keys [OF i] by (simp add: distinct_map)
  have eq: "{x \<in> ?B. seg_sn x \<notin> seg_sn ` set fs} = ?B - set fs"
    using inj sub by (auto simp: inj_on_def)
  have "length (rb_inorder (foldl erase_segment b fs)) = card (?B - set fs)"
    using index_length [OF conjunct1 [OF erase_segments [OF i, of fs]]] erase_segments [OF i, of fs] eq by simp
  moreover have "card (set fs) = length fs" using d by (simp add: distinct_map distinct_card)
  moreover have "card (set fs) \<le> card ?B" using sub by (simp add: card_mono)
  ultimately show ?thesis using sub by (simp add: card_Diff_subset index_length [OF i])
qed

lemma struct_deliver:
  assumes s: "rcv_struct b p l" and q: "q \<in> set (rb_inorder p)"
  shows "rcv_struct (foldl erase_segment b (pk_fragments q)) (rb_erase_where (\<lambda>x. pk_psn x = pk_psn q) p) (remove1 (pk_psn q) l)"
proof -
  have ib: "rb_index seg_sn b" and ip: "rb_index pk_psn p" using s by (simp_all add: rcv_struct_def)
  let ?p = "rb_erase_where (\<lambda>x. pk_psn x = pk_psn q) p"
  let ?b = "foldl erase_segment b (pk_fragments q)"
  have P: "set (rb_inorder ?p) = {x \<in> set (rb_inorder p). pk_psn x \<noteq> pk_psn q}"
    using rbt.set_entries_erase_key [OF ip] by simp
  have B: "set (rb_inorder ?b) = {x \<in> set (rb_inorder b). seg_sn x \<notin> seg_sn ` set (pk_fragments q)}"
    using erase_segments [OF ib] by blast
  have "set (remove1 (pk_psn q) l) = pk_psn ` set (rb_inorder ?p)"
    using s by (auto simp: rcv_struct_def P)
  moreover have "\<exists>q' \<in> set (rb_inorder ?p). x \<in> set (pk_fragments q')" if x: "x \<in> set (rb_inorder ?b)" for x
  proof -
    obtain q' where q': "q' \<in> set (rb_inorder p)" "x \<in> set (pk_fragments q')"
      using x struct_fragment_of [OF s] B by blast
    moreover have "q' \<noteq> q" using x B q' by auto
    ultimately show ?thesis using P struct_packet_unique [OF s _ q] by auto
  qed
  moreover have "set (pk_fragments q') \<subseteq> set (rb_inorder ?b)" if "q' \<in> set (rb_inorder ?p)" for q'
  proof
    fix x assume x: "x \<in> set (pk_fragments q')"
    have q'p: "q' \<in> set (rb_inorder p)" "pk_psn q' \<noteq> pk_psn q" using that P by auto
    have xb: "x \<in> set (rb_inorder b)" "seg_psn x = pk_psn q'"
      using s q'p x by (auto simp: rcv_struct_def packet_wf_def)
    have "seg_sn x \<notin> seg_sn ` set (pk_fragments q)"
    proof
      assume "seg_sn x \<in> seg_sn ` set (pk_fragments q)"
      then obtain y where y: "y \<in> set (pk_fragments q)" "seg_sn x = seg_sn y" by auto
      then have "y \<in> set (rb_inorder b)" "seg_psn y = pk_psn q"
        using s q by (auto simp: rcv_struct_def packet_wf_def)
      then show False using struct_segment_unique [OF s xb(1)] y(2) xb(2) q'p(2) by auto
    qed
    then show "x \<in> set (rb_inorder ?b)" using xb B by simp
  qed
  ultimately show ?thesis
    using s P erase_segments [OF ib] rbt.invar_erase [OF ip] by (auto simp: rcv_struct_def)
qed


subsection \<open>The fields a push changes\<close>

text \<open>The part of the state that well-formedness and delivery depend on.\<close>

definition rcv_view :: "'a kcp_rcv_scheme \<Rightarrow>
    kcp_segment rb_node \<times> kcp_packet_assembly rb_node \<times> u32 list \<times> kcp_segment list \<times> int \<times> int \<times> int \<times> u32" where
  "rcv_view c = (rcv_buf c, rcv_packet c, rcv_packet_list c, rcv_queue c, nrcv_buf c, nrcv_que c, rcv_queue_bytes c, rcv_nxt c)"

lemma rcv_wf_view: "rcv_view c = rcv_view c' \<Longrightarrow> rcv_wf c = rcv_wf c'"
  by (simp add: rcv_view_def rcv_wf_def)

lemma rcv_view_simps [simp]:
  "rcv_view (ping_refresh t c) = rcv_view c"
  "rcv_view (c\<lparr>probe := x\<rparr>) = rcv_view c"
  "rcv_view (c\<lparr>ack_item := y\<rparr>) = rcv_view c"
  "rcv_view (kcp_segment_recv_put seg c) = rcv_view c"
  by (simp_all add: rcv_view_def ping_refresh_def kcp_segment_recv_put_def)

lemma rcv_view_get: "kcp_segment_recv_get mem c = (r, c') \<Longrightarrow> rcv_view c' = rcv_view c"
  by (auto simp: kcp_segment_recv_get_def rcv_view_def split: list.splits)

definition head_update :: "kcp_segment \<Rightarrow> kcp_packet_assembly \<Rightarrow> kcp_packet_assembly" where
  "head_update seg q = (if seg_frg seg = 0 \<and> pk_psn q = seg_psn seg
     then q\<lparr>pk_has_head := True, pk_expected_frags := ucast (seg_wnd seg), pk_start_sn := seg_sn seg\<rparr> else q)"

lemma head_update_simps [simp]:
  "pk_psn (head_update seg q) = pk_psn q" "pk_fragments (head_update seg q) = pk_fragments q"
  "packet_wf (head_update seg q) = packet_wf q"
  by (simp_all add: head_update_def packet_wf_def)

lemma rb_map_id: "(\<And>x. f x = x) \<Longrightarrow> rb_map f t = t"
  by (induction t) auto

lemma push_head_fields:
  "rcv_buf (push_head seg c) = rcv_buf c" "rcv_packet (push_head seg c) = rb_map (head_update seg) (rcv_packet c)"
  "rcv_queue (push_head seg c) = rcv_queue c" "nrcv_buf (push_head seg c) = nrcv_buf c"
  "nrcv_que (push_head seg c) = nrcv_que c" "rcv_queue_bytes (push_head seg c) = rcv_queue_bytes c"
  "rcv_nxt (push_head seg c) = rcv_nxt c"
  "rcv_packet_list (push_head seg c) = (if seg_frg seg = 0
     then order_insert (packet_start (rb_map (head_update seg) (rcv_packet c))) (seg_psn seg) (remove1 (seg_psn seg) (rcv_packet_list c))
     else rcv_packet_list c)"
  by (simp_all add: push_head_def update_packet_def kcp_rcv_packet_order_insert_def Let_def head_update_def [abs_def] rb_map_id)

lemma push_fragment_fields:
  "rcv_buf (push_fragment seg c) = rb_insert seg_sn seg (rcv_buf c)"
  "rcv_packet (push_fragment seg c) = rb_map (add_fragment seg) (rcv_packet c)"
  "rcv_packet_list (push_fragment seg c) = rcv_packet_list c"
  "rcv_queue (push_fragment seg c) = rcv_queue c" "nrcv_buf (push_fragment seg c) = s32 (nrcv_buf c + 1)"
  "nrcv_que (push_fragment seg c) = nrcv_que c" "rcv_queue_bytes (push_fragment seg c) = rcv_queue_bytes c"
  "rcv_nxt (push_fragment seg c) = rcv_nxt c"
  by (simp_all add: push_fragment_def kcp_rcv_segment_insert_def update_packet_def add_fragment_def [abs_def] Let_def)

lemma push_advance_fields [simp]:
  "rcv_buf (push_advance seg c) = rcv_buf c" "rcv_packet (push_advance seg c) = rcv_packet c"
  "rcv_packet_list (push_advance seg c) = rcv_packet_list c" "rcv_queue (push_advance seg c) = rcv_queue c"
  "nrcv_buf (push_advance seg c) = nrcv_buf c" "nrcv_que (push_advance seg c) = nrcv_que c"
  "rcv_queue_bytes (push_advance seg c) = rcv_queue_bytes c"
  by (simp_all add: push_advance_def)

lemma deliver_fields:
  "rcv_buf (foldl deliver_fragment c fs) = foldl erase_segment (rcv_buf c) fs"
  "rcv_packet (foldl deliver_fragment c fs) = rcv_packet c"
  "rcv_packet_list (foldl deliver_fragment c fs) = rcv_packet_list c"
  "rcv_queue (foldl deliver_fragment c fs) = rcv_queue c @ fs" "rcv_nxt (foldl deliver_fragment c fs) = rcv_nxt c"
  by (induction fs arbitrary: c) (simp_all add: deliver_fragment_def)

text \<open>The counters of the queue wrap; the one of the buffer counts down to the segments that stay.\<close>

lemma deliver_counters:
  assumes "s32 (nrcv_que c) = nrcv_que c" and "s32 (rcv_queue_bytes c) = rcv_queue_bytes c"
  shows "nrcv_que (foldl deliver_fragment c fs) = s32 (nrcv_que c + int (length fs))"
    and "rcv_queue_bytes (foldl deliver_fragment c fs) = s32 (rcv_queue_bytes c + queue_bytes fs)"
  using assms by (induction fs arbitrary: c) (simp_all add: deliver_fragment_def s32_add_right add_ac)

lemma deliver_nrcv_buf:
  assumes "int (length fs) \<le> nrcv_buf c" and "nrcv_buf c < 2 ^ 31"
  shows "nrcv_buf (foldl deliver_fragment c fs) = nrcv_buf c - int (length fs)"
  using assms by (induction fs arbitrary: c) (simp_all add: deliver_fragment_def)

subsection \<open>The next expected segment\<close>

lemma advance_nxt_from:
  "\<exists>k \<le> fuel. advance_nxt fuel t n = n + of_nat k \<and> (\<forall>i < k. rb_search seg_sn (n + of_nat i) t \<noteq> None) \<and>
     (k < fuel \<longrightarrow> rb_search seg_sn (n + of_nat k) t = None)"
proof (induction fuel arbitrary: n)
  case (Suc fuel)
  show ?case
  proof (cases "rb_search seg_sn n t = None")
    case True
    then show ?thesis by (intro exI [where x = 0]) simp
  next
    case False
    obtain k where k: "k \<le> fuel" "advance_nxt fuel t (n + 1) = n + 1 + of_nat k"
      "\<forall>i < k. rb_search seg_sn (n + 1 + of_nat i) t \<noteq> None"
      "k < fuel \<longrightarrow> rb_search seg_sn (n + 1 + of_nat k) t = None" using Suc.IH by blast
    have "rb_search seg_sn (n + of_nat i) t \<noteq> None" if "i < Suc k" for i
      using that k(3) False by (cases i) (simp_all add: add_ac)
    then show ?thesis using k False by (intro exI [where x = "Suc k"]) (simp add: add_ac)
  qed
qed simp

lemma unat_of_nat_u32: "a < 2 ^ 32 \<Longrightarrow> unat (of_nat a :: u32) = a"
  by (simp add: unat_of_nat take_bit_nat_eq_self)

lemma of_nat_u32_inj: "a < 2 ^ 32 \<Longrightarrow> b < 2 ^ 32 \<Longrightarrow> (of_nat a :: u32) = of_nat b \<longleftrightarrow> a = b"
  by (metis unat_of_nat_u32)

text \<open>The loop stops at a sequence number that is not there: the tree has fewer segments than rounds.\<close>

lemma advance_nxt_stops:
  fixes n :: u32
  assumes i: "rb_index seg_sn t" and small: "length (rb_inorder t) < 2 ^ 31"
  defines "r \<equiv> advance_nxt (length (rb_inorder t) + 1) t n"
  shows "rb_search seg_sn r t = None" and
    "\<exists>k. r = n + of_nat k \<and> k \<le> length (rb_inorder t) \<and> (\<forall>i < k. rb_search seg_sn (n + of_nat i) t \<noteq> None)"
proof -
  let ?len = "length (rb_inorder t)"
  obtain k where k: "k \<le> ?len + 1" "r = n + of_nat k" "\<forall>i < k. rb_search seg_sn (n + of_nat i) t \<noteq> None"
      "k < ?len + 1 \<longrightarrow> rb_search seg_sn (n + of_nat k) t = None"
    using advance_nxt_from [of "?len + 1" t n] unfolding r_def by blast
  have "k \<le> ?len"
  proof -
    let ?K = "(\<lambda>i. n + of_nat i) ` {i. i < k}"
    have "inj_on (\<lambda>i. n + of_nat i :: u32) {i. i < k}"
      using k(1) small of_nat_u32_inj by (intro inj_onI) auto
    then have "card ?K = k" by (simp add: card_image)
    moreover have "?K \<subseteq> seg_sn ` set (rb_inorder t)" using k(3) rbt.search_None_iff [OF i] by auto
    then have "card ?K \<le> card (seg_sn ` set (rb_inorder t))" by (simp add: card_mono)
    moreover have "card (seg_sn ` set (rb_inorder t)) \<le> ?len"
      by (meson card_image_le card_length finite_set le_trans)
    ultimately show ?thesis by simp
  qed
  with k show "rb_search seg_sn r t = None" and
    "\<exists>k. r = n + of_nat k \<and> k \<le> ?len \<and> (\<forall>i < k. rb_search seg_sn (n + of_nat i) t \<noteq> None)" by auto
qed

lemma push_advance_nxt:
  assumes "rb_index seg_sn (rcv_buf c)" "length (rb_inorder (rcv_buf c)) < 2 ^ 31"
    and "seg_sn seg \<noteq> rcv_nxt c \<Longrightarrow> rb_search seg_sn (rcv_nxt c) (rcv_buf c) = None"
  shows "rb_search seg_sn (rcv_nxt (push_advance seg c)) (rcv_buf c) = None"
  using assms advance_nxt_stops(1) [OF assms(1,2)] by (simp add: push_advance_def)

subsection \<open>Preservation\<close>

text \<open>After the head and the fragment are stored: everything but the next expected number.\<close>

lemma push_struct:
  fixes c :: "'a kcp_rcv_scheme"
  assumes s: "rcv_struct (rcv_buf c) (rcv_packet c) (rcv_packet_list c)"
    and new: "rb_search seg_sn (seg_sn seg) (rcv_buf c) = None"
    and there: "seg_psn seg \<in> pk_psn ` set (rb_inorder (rcv_packet c))"
  defines "c' \<equiv> push_fragment seg (push_head seg c)"
  shows "rcv_struct (rcv_buf c') (rcv_packet c') (rcv_packet_list c')"
proof -
  have "rcv_struct (rcv_buf c) (rb_map (head_update seg) (rcv_packet c)) (rcv_packet_list c)"
    by (rule struct_map [OF s]) simp_all
  moreover have "seg_psn seg \<in> set (rcv_packet_list c)" "distinct (rcv_packet_list c)"
    using s there by (simp_all add: rcv_struct_def)
  ultimately have "rcv_struct (rcv_buf c) (rb_map (head_update seg) (rcv_packet c)) (rcv_packet_list (push_head seg c))"
    by (elim struct_list) (auto simp: push_head_fields)
  from struct_fragment [OF this new] there show ?thesis
    by (simp add: c'_def push_fragment_fields push_head_fields rb_inorder_map image_image)
qed

lemma push_deliver_wf:
  assumes wf: "rcv_wf c" and small: "nrcv_buf c < 2 ^ 31"
  shows "rcv_wf (fst (push_deliver c io))"
proof (cases "rcv_packet_list c")
  case Nil
  then show ?thesis using wf by (simp add: push_deliver_def)
next
  case (Cons psn rest)
  have s: "rcv_struct (rcv_buf c) (rcv_packet c) (rcv_packet_list c)" using wf by (simp add: rcv_wf_def)
  then have ip: "rb_index pk_psn (rcv_packet c)" and ib: "rb_index seg_sn (rcv_buf c)" by (simp_all add: rcv_struct_def)
  show ?thesis
  proof (cases "kcp_rcv_packet_search psn c")
    case None
    then show ?thesis using wf Cons by (simp add: push_deliver_def)
  next
    case (Some q)
    then have q: "q \<in> set (rb_inorder (rcv_packet c))" "pk_psn q = psn"
      using rbt.search_Some_iff [OF ip] by (simp_all add: kcp_rcv_packet_search_def)
    let ?c = "foldl deliver_fragment c (pk_fragments q)"
    let ?d = "kcp_rcv_packet_destroy psn ?c"
    have v: "rcv_buf ?d = foldl erase_segment (rcv_buf c) (pk_fragments q)"
      "rcv_packet ?d = rb_erase_where (\<lambda>p. pk_psn p = psn) (rcv_packet c)"
      "rcv_packet_list ?d = remove1 psn (rcv_packet_list c)" "rcv_queue ?d = rcv_queue c @ pk_fragments q"
      "rcv_nxt ?d = rcv_nxt c"
      using deliver_fields [of c "pk_fragments q"] by (simp_all add: kcp_rcv_packet_destroy_def)
    have "s32 (nrcv_que c) = nrcv_que c" "s32 (rcv_queue_bytes c) = rcv_queue_bytes c"
      using wf by (simp_all add: rcv_wf_def)
    from deliver_counters [OF this, of "pk_fragments q"] wf
    have n: "nrcv_que ?d = s32 (int (length (rcv_queue ?d)))" "rcv_queue_bytes ?d = s32 (queue_bytes (rcv_queue ?d))"
      by (simp_all only: v(4) length_append of_nat_add map_append sum_list_append)
        (simp_all add: kcp_rcv_packet_destroy_def rcv_wf_def s32_add)
    have len: "length (rb_inorder (rcv_buf ?d)) + length (pk_fragments q) = length (rb_inorder (rcv_buf c))"
      using erase_segments_length [OF ib struct_packet(2) [OF s q(1)]] struct_packet(1) [OF s q(1)]
      by (simp add: v packet_wf_def)
    then have nb: "nrcv_buf ?d = nrcv_buf c - int (length (pk_fragments q))"
      using deliver_nrcv_buf [of "pk_fragments q" c] wf small by (simp add: kcp_rcv_packet_destroy_def rcv_wf_def)
    have nxt: "rb_search seg_sn (rcv_nxt c) (foldl erase_segment (rcv_buf c) (pk_fragments q)) = None"
      using wf erase_segments [OF ib, of "pk_fragments q"]
        rbt.search_None_iff [OF ib] rbt.search_None_iff [OF conjunct1 [OF erase_segments [OF ib, of "pk_fragments q"]]]
      by (auto simp: rcv_wf_def)
    have "rcv_wf ?d"
      using struct_deliver [OF s q(1)] wf len nxt n nb by (simp add: rcv_wf_def v q)
    then show ?thesis using wf Cons Some by (simp add: push_deliver_def Let_def)
  qed
qed

lemma create_struct:
  assumes s: "rcv_struct (rcv_buf c) (rcv_packet c) (rcv_packet_list c)"
    and none: "kcp_rcv_packet_search psn c = None" and c': "kcp_rcv_packet_create mem psn start c = Some c'"
  shows "rcv_struct (rcv_buf c') (rcv_packet c') (rcv_packet_list c') \<and> psn \<in> pk_psn ` set (rb_inorder (rcv_packet c')) \<and>
    rcv_buf c' = rcv_buf c \<and> nrcv_buf c' = nrcv_buf c \<and> rcv_queue c' = rcv_queue c \<and> nrcv_que c' = nrcv_que c \<and>
    rcv_queue_bytes c' = rcv_queue_bytes c \<and> rcv_nxt c' = rcv_nxt c"
proof -
  let ?q = "\<lparr>pk_psn = psn, pk_start_sn = start, pk_expected_frags = 0, pk_received_frags = 0,
             pk_total_size = 0, pk_has_head = False, pk_fragments = []\<rparr>"
  have ip: "rb_index pk_psn (rcv_packet c)" using s by (simp add: rcv_struct_def)
  have "rcv_struct (rcv_buf c) (rb_insert pk_psn ?q (rcv_packet c))
      (order_insert (packet_start (rb_insert pk_psn ?q (rcv_packet c))) psn (rcv_packet_list c))"
    using struct_create [OF s, of ?q] none by (simp add: packet_wf_def kcp_rcv_packet_search_def)
  then show ?thesis
    using c' rbt.set_entries_insert [OF ip, of ?q]
    by (auto simp: kcp_rcv_packet_create_def kcp_rcv_packet_order_insert_def kcp_rcv_packet_insert_def Let_def
        split: if_splits)
qed

lemma push_tail_wf:
  assumes wf: "rcv_wf c" and small: "nrcv_buf c < 2 ^ 31 - 1"
    and new: "rb_search seg_sn (seg_sn seg) (rcv_buf c) = None"
    and there: "seg_psn seg \<in> pk_psn ` set (rb_inorder (rcv_packet c))"
  shows "rcv_wf (push_advance seg (push_fragment seg (push_head seg c)))"
proof -
  let ?c = "push_fragment seg (push_head seg c)"
  have s: "rcv_struct (rcv_buf c) (rcv_packet c) (rcv_packet_list c)" using wf by (simp add: rcv_wf_def)
  then have ib: "rb_index seg_sn (rcv_buf c)" by (simp add: rcv_struct_def)
  note st = push_struct [OF s new there]
  have len: "length (rb_inorder (rcv_buf ?c)) = Suc (length (rb_inorder (rcv_buf c)))"
    using rbt.length_insert [OF ib] by (simp add: push_fragment_fields push_head_fields)
  have "rb_search seg_sn (rcv_nxt (push_advance seg ?c)) (rcv_buf ?c) = None"
  proof (rule push_advance_nxt)
    show "rb_index seg_sn (rcv_buf ?c)" using st by (simp add: rcv_struct_def)
    show "length (rb_inorder (rcv_buf ?c)) < 2 ^ 31" using len small wf by (simp add: rcv_wf_def)
    show "rb_search seg_sn (rcv_nxt ?c) (rcv_buf ?c) = None" if "seg_sn seg \<noteq> rcv_nxt ?c"
      using that wf rbt.search_insert [OF ib new, of "rcv_nxt c"]
      by (simp add: push_fragment_fields push_head_fields rcv_wf_def)
  qed
  then show ?thesis
    using st len wf small by (simp add: rcv_wf_def push_fragment_fields push_head_fields)
qed

lemma push_store_wf:
  assumes wf: "rcv_wf c" and small: "nrcv_buf c < 2 ^ 31 - 1"
  shows "rcv_wf (fst (snd (push_store mem seg ack c io)))"
proof (cases "kcp_rcv_segment_search (seg_sn seg) c = None")
  case False
  then show ?thesis using wf rcv_wf_view [of "kcp_segment_recv_put seg c" c] by (simp add: push_store_def)
next
  case new: True
  let ?created = "if kcp_rcv_packet_search (seg_psn seg) c \<noteq> None then Some c
                  else kcp_rcv_packet_create (mem_packet mem) (seg_psn seg) (seg_sn seg - seg_frg seg) c"
  have s: "rcv_struct (rcv_buf c) (rcv_packet c) (rcv_packet_list c)" using wf by (simp add: rcv_wf_def)
  then have ip: "rb_index pk_psn (rcv_packet c)" by (simp add: rcv_struct_def)
  show ?thesis
  proof (cases ?created)
    case None
    then show ?thesis
      using new wf rcv_wf_view [of "kcp_segment_recv_put seg c" c] by (simp add: push_store_def Let_def)
  next
    case (Some c1)
    have c1: "rcv_wf c1 \<and> seg_psn seg \<in> pk_psn ` set (rb_inorder (rcv_packet c1)) \<and> rcv_buf c1 = rcv_buf c \<and>
        nrcv_buf c1 = nrcv_buf c"
    proof (cases "kcp_rcv_packet_search (seg_psn seg) c = None")
      case True
      then show ?thesis
        using create_struct [OF s True, of "mem_packet mem" "seg_sn seg - seg_frg seg" c1] Some wf
        by (auto simp: rcv_wf_def)
    next
      case False
      then show ?thesis
        using Some wf rbt.search_None_iff [OF ip, of "seg_psn seg"] by (simp add: kcp_rcv_packet_search_def)
    qed
    let ?c2 = "c1\<lparr>ack_item := ack_item c1 @ [ack]\<rparr>"
    have "rcv_wf ?c2" using c1 rcv_wf_view [of ?c2 c1] by simp
    then have "rcv_wf (push_advance seg (push_fragment seg (push_head seg ?c2)))"
      using c1 small new by (intro push_tail_wf) (simp_all add: kcp_rcv_segment_search_def)
    moreover have "nrcv_buf (push_advance seg (push_fragment seg (push_head seg ?c2))) < 2 ^ 31"
      using s32_range by (simp add: push_fragment_fields)
    ultimately have "rcv_wf (fst (push_deliver (push_advance seg (push_fragment seg (push_head seg ?c2))) io))"
      by (rule push_deliver_wf)
    then show ?thesis
      using new Some by (simp add: push_store_def Let_def split: prod.splits)
  qed
qed

text \<open>The states \<open>on_kcp_push_pcaket\<close> can leave: nothing stored, or the segment handed to \<open>push_store\<close>.\<close>

lemma push_state_cases:
  assumes d: "as_packet_data (hd_body h) = (pts, sn, psn, una, len, dat)"
    and g: "kcp_segment_recv_get (mem_segment mem) (ping_refresh ts c) = (r, c1)"
  obtains (full) x where "fst (snd (on_kcp_push_pcaket mem h ts c io)) = (ping_refresh ts c)\<lparr>probe := x\<rparr>"
    | (old) "fst (snd (on_kcp_push_pcaket mem h ts c io)) = ping_refresh ts c"
    | (no_memory) "fst (snd (on_kcp_push_pcaket mem h ts c io)) = c1"
    | (stored) raw ack where "\<not> sn < rcv_nxt (ping_refresh ts c)"
        "fst (snd (on_kcp_push_pcaket mem h ts c io)) = fst (snd (push_store mem (push_segment h raw) ack c1 io))"
proof -
  let ?c = "ping_refresh ts c"
  consider "sn \<ge> rcv_nxt ?c + u32_of_i32 (rcv_wnd ?c)"
    | "\<not> sn \<ge> rcv_nxt ?c + u32_of_i32 (rcv_wnd ?c)" "sn < rcv_nxt ?c \<or> \<not> mem_ack mem"
    | "\<not> sn \<ge> rcv_nxt ?c + u32_of_i32 (rcv_wnd ?c)" "\<not> sn < rcv_nxt ?c" "mem_ack mem" "r = None"
    | raw where "\<not> sn \<ge> rcv_nxt ?c + u32_of_i32 (rcv_wnd ?c)" "\<not> sn < rcv_nxt ?c" "mem_ack mem" "r = Some raw"
    by (cases r) blast+
  then show thesis
  proof cases
    case 1 then show ?thesis by (intro full) (simp add: on_kcp_push_pcaket_def d Let_def)
  next
    case 2 then show ?thesis by (intro old) (auto simp add: on_kcp_push_pcaket_def d Let_def)
  next
    case 3 then show ?thesis by (intro no_memory) (simp add: on_kcp_push_pcaket_def d g Let_def)
  next
    case (4 raw) then show ?thesis by (intro stored) (simp_all add: on_kcp_push_pcaket_def d g Let_def)
  qed
qed

lemma push_wf:
  assumes wf: "rcv_wf c" and small: "nrcv_buf c < 2 ^ 31 - 1"
  shows "rcv_wf (fst (snd (on_kcp_push_pcaket mem h ts c io)))"
proof -
  obtain pts sn psn una len dat where d: "as_packet_data (hd_body h) = (pts, sn, psn, una, len, dat)"
    by (metis prod.exhaust)
  let ?c = "ping_refresh ts c"
  obtain r c1 where g: "kcp_segment_recv_get (mem_segment mem) ?c = (r, c1)"
    by (metis prod.exhaust)
  have v: "rcv_view c1 = rcv_view c" using rcv_view_get [OF g] by simp
  then have n: "nrcv_buf c1 = nrcv_buf c" by (simp add: rcv_view_def)
  have w: "rcv_wf ?c" "rcv_wf (?c\<lparr>probe := x\<rparr>)" "rcv_wf c1" for x
    using wf rcv_wf_view [of ?c c] rcv_wf_view [of "?c\<lparr>probe := x\<rparr>" c] rcv_wf_view [OF v] by simp_all
  show ?thesis
    by (cases rule: push_state_cases [OF d g, of io]) (use w n small push_store_wf [OF w(3), of mem] in simp_all)
qed

subsection \<open>Reading\<close>

text \<open>The payload of a segment: the first \<open>len\<close> bytes of its data.\<close>

definition seg_payload :: "kcp_segment \<Rightarrow> bytes" where
  "seg_payload s = take (unat (seg_len s)) (seg_data s)"

text \<open>Reading takes everything in the queue.\<close>

lemma recv_fold:
  "rcv_queue c = fs @ rest \<Longrightarrow> s32 (nrcv_que c) = nrcv_que c \<Longrightarrow> s32 (rcv_queue_bytes c) = rcv_queue_bytes c \<Longrightarrow>
     foldl recv_take (buf, c) fs = (out, c') \<Longrightarrow>
     out = buf @ concat (map seg_payload fs) \<and>
     rcv_view c' = (rcv_buf c, rcv_packet c, rcv_packet_list c, rest, nrcv_buf c, s32 (nrcv_que c - int (length fs)),
       s32 (rcv_queue_bytes c - queue_bytes fs), rcv_nxt c)"
proof (induction fs arbitrary: buf c)
  case Nil
  then show ?case by (simp add: rcv_view_def)
next
  case (Cons s fs)
  obtain b1 c1 where t: "recv_take (buf, c) s = (b1, c1)" by (metis prod.exhaust)
  then have b: "b1 = buf @ seg_payload s" and c1: "rcv_queue c1 = fs @ rest" "rcv_buf c1 = rcv_buf c" "rcv_packet c1 = rcv_packet c"
      "rcv_packet_list c1 = rcv_packet_list c" "nrcv_buf c1 = nrcv_buf c" "nrcv_que c1 = s32 (nrcv_que c - 1)"
      "rcv_queue_bytes c1 = s32 (rcv_queue_bytes c - i32_of_u32 (seg_len s))" "rcv_nxt c1 = rcv_nxt c"
    using Cons.prems(1) by (auto simp: recv_take_def Let_def kcp_segment_recv_put_def seg_payload_def)
  from Cons.IH [OF c1(1), of b1] Cons.prems(4) t show ?case by (simp add: b c1 s32_diff diff_diff_eq)
qed

lemma kcp_recv_ok:
  assumes "kcp_recv so sz c = (Inr out, c')" and wf: "rcv_wf c"
  shows "out = concat (map seg_payload (rcv_queue c)) \<and>
    rcv_view c' = (rcv_buf c, rcv_packet c, rcv_packet_list c, [], nrcv_buf c, 0, 0, rcv_nxt c)"
proof -
  obtain b c1 where f: "foldl recv_take ([], c) (rcv_queue c) = (b, c1)" by (metis prod.exhaust)
  have "out = b" "rcv_view c' = rcv_view c1"
    using assms(1) f by (auto simp: kcp_recv_def Let_def split: if_splits)
  then show ?thesis using recv_fold [of c "rcv_queue c" "[]" "[]" b c1] f wf by (simp add: rcv_wf_def s32_diff)
qed

lemma kcp_recv_error: "kcp_recv so sz c = (Inl e, c') \<Longrightarrow> c' = c"
  by (auto simp: kcp_recv_def Let_def split: if_splits prod.splits)

lemma kcp_recv_wf: "rcv_wf c \<Longrightarrow> rcv_wf (snd (kcp_recv so sz c))"
proof (cases "kcp_recv so sz c")
  case (Pair r c')
  assume wf: "rcv_wf c"
  show ?thesis
  proof (cases r)
    case (Inl e)
    then show ?thesis using wf Pair kcp_recv_error by fastforce
  next
    case (Inr dat)
    then show ?thesis using wf kcp_recv_ok [of so sz c dat c'] Pair by (simp add: rcv_wf_def rcv_view_def)
  qed
qed

lemma i32_of_u64_of_nat: "k < 2 ^ 31 \<Longrightarrow> i32_of_u64 (of_nat k) = int k"
  using i32_of_u32_of_nat [of k] by (simp add: i32_of_u64_def i32_of_u32_def unsigned_of_nat take_bit_nat_eq_self)

lemma payload_length:
  "\<forall>s \<in> set ss. unat (seg_len s) < 2 ^ 31 \<Longrightarrow>
     int (length (concat (map seg_payload ss))) \<le> queue_bytes ss"
proof (induction ss)
  case (Cons s ss)
  have "i32_of_u32 (seg_len s) = int (unat (seg_len s))" using Cons.prems by (intro i32_of_u32_small) simp
  then have "int (length (seg_payload s)) \<le> i32_of_u32 (seg_len s)"
    by (simp only: seg_payload_def length_take of_nat_le_iff min.cobounded2)
  then show ?case using Cons by simp
qed simp

section \<open>Properties\<close>

text \<open>
  C12. The invariant of the receive side: the segment tree and the packet tree are ordered indexes,
  the segments are exactly the fragments of the packets under reassembly, the list has each packet
  once, the counters are right (those of the receive queue modulo the wrap-around of their 32 bits,
  since the queue has no limit), and the next expected segment is not in the buffer. It is kept by
  every received segment, whatever its contents and whichever allocations fail, and by every read.
\<close>

theorem rcv_invariant:
  assumes "rcv_wf c" and "nrcv_buf c < 2 ^ 31 - 1"
  shows "rcv_wf (fst (snd (on_kcp_push_pcaket mem h ts c io))) \<and> rcv_wf (snd (kcp_recv so sz c))"
  using push_wf [OF assms] kcp_recv_wf [OF assms(1)] by blast

text \<open>Received segments for the examples, on the connection of the examples of the sender.\<close>

definition sample_push :: "u8 \<Rightarrow> u32 \<Rightarrow> u32 \<Rightarrow> u16 \<Rightarrow> kcp_proto_header" where
  "sample_push i sn psn wnd =
     \<lparr>hd_scid = 6, hd_dcid = 5, hd_cmd = KCP_CMD_PUSH, hd_opt = 0, hd_frg = i, hd_wnd = wnd,
      hd_body = Packet_data 1000 sn psn 0 1 [i + 65], hd_options = []\<rparr>"

definition sample_mem :: push_mem where
  "sample_mem = \<lparr>mem_ack = True, mem_segment = Some sample_segment, mem_packet = True\<rparr>"

lemma sample_fresh: "rcv_view sample_conn = (Rb_Null, Rb_Null, [], [], 0, 0, 0, 0)"
  by (simp add: rcv_view_def sample_conn_def init_defs)

lemma sample_wf: "rcv_wf sample_conn"
  using sample_fresh by (simp add: rcv_wf_def rcv_view_def rcv_struct_def)

lemma sample_conn_rcv:
  "rcv_wnd sample_conn = 256" "rcv_buf_unused sample_conn = []" "read_event_cb sample_conn = False"
  "rcv_buf sample_conn = Rb_Null" "rcv_packet sample_conn = Rb_Null" "rcv_packet_list sample_conn = []"
  "rcv_queue sample_conn = []" "nrcv_buf sample_conn = 0" "rcv_nxt sample_conn = 0" "rcv_queue_bytes sample_conn = 0"
  by (simp_all add: sample_conn_def init_defs kcp_const)

theorem rcv_invariant_witness:
  "rcv_wf (fst (snd (on_kcp_push_pcaket sample_mem (sample_push 0 0 0 1) 2000 sample_conn sample_io))) \<and>
   rcv_wf (snd (kcp_recv True 100 sample_conn))"
  by (rule rcv_invariant [OF sample_wf]) (simp add: sample_conn_rcv)

text \<open>
  C20. Reading, on every branch: \<open>kcp_recv\<close> either fails with the error of the first condition that
  does not hold (empty buffer, closed socket, wrong state, nothing queued, buffer too small) and
  leaves the connection as it was, or returns the payloads of the queue in order, never more bytes
  than the buffer has, leaves the queue and its counters empty and the reassembly untouched. The
  queue has to hold less than \<open>2 ^ 31\<close> bytes, the range of the counter \<open>rcv_queue_bytes\<close>.
\<close>

theorem kcp_recv_drains:
  assumes "rcv_wf c" and "sz < 2 ^ 31"
    and "\<forall>s \<in> set (rcv_queue c). unat (seg_len s) < 2 ^ 31" and "queue_bytes (rcv_queue c) < 2 ^ 31"
  shows "if sz = 0 then kcp_recv so sz c = (Inl INVALID_PARAM, c)
    else if \<not> so then kcp_recv so sz c = (Inl SOCKET_CLOSED, c)
    else if state c \<noteq> KCP_STATE_CONNECTED then kcp_recv so sz c = (Inl INVALID_STATE, c)
    else if rcv_queue c = [] then kcp_recv so sz c = (Inl OP_TRY_AGAIN, c)
    else if int sz < queue_bytes (rcv_queue c) then kcp_recv so sz c = (Inl BUFFER_TOO_SMALL, c)
    else \<exists>c'. kcp_recv so sz c = (Inr (concat (map seg_payload (rcv_queue c))), c') \<and>
      length (concat (map seg_payload (rcv_queue c))) \<le> sz \<and>
      rcv_queue c' = [] \<and> nrcv_que c' = 0 \<and> rcv_queue_bytes c' = 0 \<and>
      rcv_buf c' = rcv_buf c \<and> rcv_packet c' = rcv_packet c \<and> rcv_nxt c' = rcv_nxt c"
proof (cases "sz = 0 \<or> \<not> so \<or> state c \<noteq> KCP_STATE_CONNECTED \<or> rcv_queue c = []")
  case True
  then show ?thesis by (auto simp: kcp_recv_def)
next
  case False
  note len = payload_length [OF assms(3)]
  have sz: "i32_of_u64 (of_nat sz) = int sz" using assms(2) by (rule i32_of_u64_of_nat)
  have bytes: "rcv_queue_bytes c = queue_bytes (rcv_queue c)" using assms(1,4) len by (simp add: rcv_wf_def)
  show ?thesis
  proof (cases "int sz < queue_bytes (rcv_queue c)")
    case True
    then show ?thesis using False sz bytes by (simp add: kcp_recv_def)
  next
    case small: False
    then obtain buf c' where r: "kcp_recv so sz c = (Inr buf, c')"
      using False sz bytes by (cases "foldl recv_take ([], c) (rcv_queue c)") (auto simp: kcp_recv_def Let_def)
    then show ?thesis using kcp_recv_ok [OF r assms(1)] False small len by (simp add: rcv_view_def)
  qed
qed

text \<open>Pushes are evaluated by their definitions.\<close>

lemmas push_defs = on_kcp_push_pcaket_def push_store_def push_segment_def push_advance_def push_fragment_def push_head_def
  push_deliver_def ping_refresh_def kcp_segment_recv_get_def kcp_segment_recv_put_def kcp_rcv_segment_search_def
  kcp_rcv_packet_search_def kcp_rcv_packet_create_def kcp_rcv_segment_insert_def kcp_rcv_packet_insert_def
  kcp_rcv_packet_order_insert_def update_packet_def kcp_rcv_packet_is_complete_def kcp_rcv_packet_destroy_def
  deliver_fragment_def packet_start_def as_packet_data_def u32_of_i32_def rb_insert_def rb_finish_def rb_erase_where_def Let_def

lemma in_window: "\<not> (256 :: u32) \<le> 1" "(256 :: u32) \<noteq> 0"
  by (simp_all add: word_le_nat_alt)

lemma advance_nxt_2: "advance_nxt 2 t n = (if rb_search seg_sn n t = None then n
    else if rb_search seg_sn (n + 1) t = None then n + 1 else n + 2)"
  by (simp add: numeral_2_eq_2)

definition sample_delivered :: kcp_connection where
  "sample_delivered = fst (snd (on_kcp_push_pcaket sample_mem (sample_push 0 0 0 1) 2000 sample_conn sample_io))"

lemma sample_delivered_fields:
  "map seg_len (rcv_queue sample_delivered) = [1]" "state sample_delivered = KCP_STATE_CONNECTED"
  "rcv_queue_bytes sample_delivered = 1"
  by (simp_all add: sample_delivered_def sample_mem_def sample_push_def push_defs sample_conn_rcv in_window advance_nxt_2 i32_of_u32_def)

definition sample_pending :: kcp_connection where
  "sample_pending = sample_conn\<lparr>rcv_queue := [sample_segment\<lparr>seg_len := 3, seg_data := [1, 2, 3]\<rparr>],
     nrcv_que := 1, rcv_queue_bytes := 3\<rparr>"

lemma sample_pending_fields:
  "rcv_wf sample_pending" "state sample_pending = KCP_STATE_CONNECTED" "map seg_len (rcv_queue sample_pending) = [3]"
  using sample_wf by (simp_all add: sample_pending_def rcv_wf_def i32_of_u32_def sample_conn_def)

theorem kcp_recv_drains_witness:
  "(\<exists>c'. kcp_recv True 8 sample_delivered = (Inr (concat (map seg_payload (rcv_queue sample_delivered))), c') \<and>
    length (concat (map seg_payload (rcv_queue sample_delivered))) \<le> 8 \<and>
    rcv_queue c' = [] \<and> nrcv_que c' = 0 \<and> rcv_queue_bytes c' = 0) \<and>
   kcp_recv True 2 sample_pending = (Inl BUFFER_TOO_SMALL, sample_pending)"
proof -
  have wf: "rcv_wf sample_delivered"
    unfolding sample_delivered_def by (rule push_wf [OF sample_wf]) (simp add: sample_conn_rcv)
  show ?thesis
    using kcp_recv_drains [OF wf, of 8 True] kcp_recv_drains [OF sample_pending_fields(1), of 2 True]
      sample_delivered_fields sample_pending_fields by (auto simp: map_eq_Cons_conv i32_of_u32_def)
qed

lemma order_insert_place:
  "order_insert start x xs =
     takeWhile (\<lambda>y. \<not> start x < start y) xs @ x # dropWhile (\<lambda>y. \<not> start x < start y) xs"
  by (induction xs) auto

lemma frag_insert_place:
  "frag_insert s xs =
     takeWhile (\<lambda>y. \<not> seg_frg s < seg_frg y) xs @ s # dropWhile (\<lambda>y. \<not> seg_frg s < seg_frg y) xs"
  by (induction xs) auto

lemma order_insert_entry_map:
  fixes f :: "'v \<Rightarrow> 'k::ord" and v :: "nat \<Rightarrow> 'v"
  assumes "dlist h l xs" "n \<notin> set (l # xs)"
  shows "\<exists>h' ys. order_insert_entry (Suc (length xs)) (\<lambda>p. f (v p)) n l h = Some h' \<and> dlist h' l ys \<and>
     map v ys = takeWhile (\<lambda>y. \<not> f (v n) < f y) (map v xs) @ v n # dropWhile (\<lambda>y. \<not> f (v n) < f y) (map v xs)"
  using order_insert_entry_refines [OF assms, of "\<lambda>p. f (v p)"]
  by (force simp: takeWhile_map dropWhile_map comp_def)

text \<open>
  The two ordered insertions of the receiver, run on the store of list nodes. \<open>rcv_packet_list\<close>
  holds nodes of packets and \<open>fragments\<close> nodes of segments; \<open>psn\<close> and \<open>seg\<close> read what a node belongs
  to. The loop over the nodes returns, and the list that it leaves holds, in order, what
  \<open>order_insert\<close> and \<open>frag_insert\<close> give on the sequences.
\<close>

lemma order_insert_store:
  assumes "dlist h l xs" "n \<notin> set (l # xs)"
  shows "(\<exists>h' ys. order_insert_entry (Suc (length xs)) (\<lambda>p. start (psn p)) n l h = Some h' \<and>
        dlist h' l ys \<and> map psn ys = order_insert start (psn n) (map psn xs)) \<and>
     (\<exists>h' ys. order_insert_entry (Suc (length xs)) (\<lambda>p. seg_frg (seg p)) n l h = Some h' \<and>
        dlist h' l ys \<and> map seg ys = frag_insert (seg n) (map seg xs))"
  using order_insert_entry_map [OF assms, of start psn] order_insert_entry_map [OF assms, of seg_frg seg]
  by (simp only: order_insert_place frag_insert_place)

text \<open>
  A gap in the delivery: of two messages of one segment each that arrive in reverse order, only
  the first is delivered when both are there. The second is complete, acknowledged and below
  \<open>rcv_nxt\<close>, but stays in the buffer: \<open>on_kcp_push_pcaket\<close> looks at the head of the list once, and
  nothing looks again before another new segment arrives.
\<close>

definition sample_ahead :: kcp_connection where
  "sample_ahead = fst (snd (on_kcp_push_pcaket sample_mem (sample_push 0 1 1 1) 2000 sample_conn sample_io))"

definition sample_both :: kcp_connection where
  "sample_both = fst (snd (on_kcp_push_pcaket sample_mem (sample_push 0 0 0 1) 2000 sample_ahead sample_io))"

abbreviation ahead_segment :: kcp_segment where
  "ahead_segment \<equiv> sample_segment\<lparr>seg_scid := 6, seg_dcid := 5, seg_cmd := ucast KCP_CMD_PUSH, seg_frg := 0, seg_wnd := 1,
     seg_ts := 1000, seg_sn := 1, seg_psn := 1, seg_una := 0, seg_len := 1, seg_data := [65]\<rparr>"

lemma sample_ahead_fields:
  "rcv_nxt sample_ahead = 0" "rcv_queue sample_ahead = []" "rcv_wnd sample_ahead = 256" "rcv_buf_unused sample_ahead = []"
  "read_event_cb sample_ahead = False" "rcv_packet_list sample_ahead = [1]"
  "rcv_buf sample_ahead = Rb RB_BLACK Rb_Null ahead_segment Rb_Null"
  "rcv_packet sample_ahead = Rb RB_BLACK Rb_Null
     \<lparr>pk_psn = 1, pk_start_sn = 1, pk_expected_frags = 1, pk_received_frags = 1, pk_total_size = 1,
      pk_has_head = True, pk_fragments = [ahead_segment]\<rparr> Rb_Null"
  by (simp_all add: sample_ahead_def sample_mem_def sample_push_def push_defs sample_conn_rcv in_window i32_of_u32_def)

lemma push_delivers_head_only:
  "map seg_sn (rcv_queue sample_both) = [0] \<and> rcv_nxt sample_both = 2 \<and> rcv_packet_list sample_both = [1] \<and>
   map pk_psn (filter kcp_rcv_packet_is_complete (rb_inorder (rcv_packet sample_both))) = [1]"
  by (simp add: sample_both_def sample_mem_def sample_push_def push_defs sample_ahead_fields in_window numeral_3_eq_3)

end
