(* ===== verification/Kcp_Flush.thy ===== *)
theory Kcp_Flush
  imports Kcp_Recv
begin

text \<open>
  Flushing a connection: \<open>on_kcp_write_timeout\<close> and \<open>on_kcp_ping_timeout\<close> of
  \<^verbatim>\<open>kcp/src/kcp_protocol.c\<close>, in the parts the function has: the queued acknowledgements, the
  window probe and the window commands, the keepalive, moving segments from the send queue to the
  send buffer, the pacing credit, and the scan of the send buffer that (re)transmits.

  Two buffers persist through the call and are part of the model: \<open>kcp_header_buffer\<close>, which is
  cleared only at the start, and the output buffer between \<open>buffer\<close> and \<open>ptr\<close>.
\<close>

section \<open>Control packets\<close>

record flush =
  fl_conn :: kcp_connection
  fl_io :: kcp_io
  fl_ptr :: bytes \<comment> \<open>the bytes between \<open>buffer\<close> and \<open>ptr\<close>\<close>
  fl_header :: bytes \<comment> \<open>\<open>kcp_header_buffer\<close>\<close>

definition flush_send :: "flush \<Rightarrow> flush" where
  "flush_send f = f\<lparr>fl_io := snd (kcp_send_packet (fl_conn f) [fl_ptr f] (fl_io f)), fl_ptr := []\<rparr>"

definition flush_if_full :: "flush \<Rightarrow> flush" where
  "flush_if_full f = (if length (fl_ptr f) + KCP_HEADER_SIZE > unat (mtu (fl_conn f)) then flush_send f else f)"

definition put_header :: "kcp_proto_header \<Rightarrow> flush \<Rightarrow> flush" where
  "put_header h f =
     (let hdr = snd (kcp_proto_header_encode h (fl_header f) KCP_HEADER_SIZE)
      in f\<lparr>fl_header := hdr, fl_ptr := fl_ptr f @ take KCP_HEADER_SIZE hdr\<rparr>)"

definition wnd16 :: "int \<Rightarrow> u16" where
  "wnd16 w = word_of_int w"

definition ack_header :: "u64 \<Rightarrow> 'a kcp_rcv_scheme \<Rightarrow> kcp_ack \<Rightarrow> kcp_proto_header" where
  "ack_header timestamp c ack =
     \<lparr>hd_scid = scid c, hd_dcid = dcid c, hd_cmd = KCP_CMD_ACK, hd_opt = 0, hd_frg = 0,
      hd_wnd = wnd16 (kcp_wnd_unused c), hd_body = Ack_data (ack_ts ack) timestamp (ack_sn ack) (rcv_nxt c),
      hd_options = []\<rparr>"

definition flush_ack :: "u64 \<Rightarrow> flush \<Rightarrow> kcp_ack \<Rightarrow> flush" where
  "flush_ack timestamp f ack = flush_if_full (put_header (ack_header timestamp (fl_conn f) ack) f)"

definition flush_acks :: "u64 \<Rightarrow> flush \<Rightarrow> flush" where
  "flush_acks timestamp f =
     (let f' = foldl (flush_ack timestamp) f (ack_item (fl_conn f))
      in f'\<lparr>fl_conn := (fl_conn f')\<lparr>ack_item := []\<rparr>\<rparr>)"

definition flush_window_probe :: "u64 \<Rightarrow> 'a kcp_rcv_scheme \<Rightarrow> 'a kcp_rcv_scheme" where
  "flush_window_probe timestamp c =
     (if rmt_wnd c = 0 then
        if probe_wait c = 0
        then c\<lparr>probe_wait := 1, win_ts_probe := ucast (timestamp + ucast KCP_PROBE_INIT)\<rparr>
        else if timestamp \<ge> ucast (win_ts_probe c)
        then
          let wait = probe_wait c + probe_wait c div 2;
              wait' = (if wait > KCP_PROBE_LIMIT then KCP_PROBE_LIMIT else wait)
          in c\<lparr>probe_wait := wait', win_ts_probe := ucast (timestamp + ucast wait'),
               probe := probe c OR KCP_ASK_SEND\<rparr>
        else c
      else c\<lparr>win_ts_probe := 0, probe_wait := 0\<rparr>)"

definition window_header :: "u64 \<Rightarrow> u4 \<Rightarrow> u16 \<Rightarrow> 'a kcp_rcv_scheme \<Rightarrow> kcp_proto_header" where
  "window_header timestamp cmd wnd c =
     \<lparr>hd_scid = scid c, hd_dcid = dcid c, hd_cmd = cmd, hd_opt = 0, hd_frg = 0, hd_wnd = wnd,
      hd_body = Packet_data timestamp 0 0 0 0 [], hd_options = []\<rparr>"

definition flush_window_commands :: "u64 \<Rightarrow> flush \<Rightarrow> flush" where
  "flush_window_commands timestamp f =
     (let f1 = (if probe (fl_conn f) AND KCP_ASK_SEND \<noteq> 0
                then put_header (window_header timestamp KCP_CMD_WASK 0 (fl_conn f)) (flush_if_full f) else f)
      in if probe (fl_conn f1) AND KCP_ASK_TELL \<noteq> 0
         then put_header (window_header timestamp KCP_CMD_WINS (wnd16 (kcp_wnd_unused (fl_conn f1))) (fl_conn f1))
                (flush_if_full f1)
         else f1)"

section \<open>Keepalive\<close>

text \<open>The result says whether the connection was given up.\<close>

definition on_kcp_ping_timeout :: "u64 \<Rightarrow> 'a kcp_snd_scheme \<Rightarrow> kcp_io \<Rightarrow> bool \<times> 'a kcp_snd_scheme \<times> kcp_io" where
  "on_kcp_ping_timeout timestamp c io =
     (let p = ping_context c
      in if ping_request_queue p = [] then (False, c, io)
         else if timestamp \<ge> ucast (keepalive_timeout p) + ps_packet_ts (last (ping_request_queue p))
         then
           let p' = p\<lparr>keepalive_next_ts := timestamp - 1, ping_request_queue := butlast (ping_request_queue p),
                      keepalive_xretries := keepalive_xretries p + 1\<rparr>;
               c' = c\<lparr>ping_context := p'\<rparr>
           in if keepalive_xretries p' \<ge> keepalive_retries p'
              then (True, c'\<lparr>state := KCP_STATE_DISCONNECTED\<rparr>, emit (On_error (Some (conn_addr c)) KEEPALIVE_ERROR) io)
              else (False, c', io)
         else (False, c, io))"

definition ping_header :: "u4 \<Rightarrow> u64 \<Rightarrow> u64 \<Rightarrow> u64 \<Rightarrow> 'a kcp_snd_scheme \<Rightarrow> kcp_proto_header" where
  "ping_header cmd packet_ts ts sn c =
     \<lparr>hd_scid = scid c, hd_dcid = dcid c, hd_cmd = cmd, hd_opt = 0, hd_frg = 0, hd_wnd = 0,
      hd_body = Ping_data packet_ts ts sn, hd_options = []\<rparr>"

text \<open>\<open>xxh64\<close> is the hash function of the xxHash library.\<close>

definition flush_ping_request :: "(bytes \<Rightarrow> u64) \<Rightarrow> u64 \<Rightarrow> flush \<Rightarrow> flush" where
  "flush_ping_request xxh64 timestamp f =
     (let c = fl_conn f; p = ping_context c
      in if keepalive_next_ts p < timestamp
         then
           let sn = xxh64 (le_bytes 8 timestamp);
               p1 = p\<lparr>ping_request_queue := ping_request_queue p @ [\<lparr>ps_packet_sn = sn, ps_packet_ts = timestamp\<rparr>]\<rparr>;
               f1 = put_header (ping_header KCP_CMD_PING 0 timestamp sn c)
                      (flush_if_full (f\<lparr>fl_conn := c\<lparr>ping_context := p1\<rparr>\<rparr>));
               p2 = p1\<lparr>keepalive_next_ts := timestamp + ucast (keepalive_interval p1)\<rparr>
           in f1\<lparr>fl_conn := (fl_conn f1)\<lparr>ping_context := p2\<rparr>\<rparr>
         else f)"

definition flush_pong :: "u64 \<Rightarrow> flush \<Rightarrow> flush" where
  "flush_pong timestamp f =
     (let c = fl_conn f;
          f1 = (if probe c AND KCP_PING_RECV \<noteq> 0
                then put_header (ping_header KCP_CMD_PONG (keepalive_packet_ts (ping_context c)) timestamp
                       (keepalive_sn (ping_context c)) c) (flush_if_full f)
                else f)
      in f1\<lparr>fl_conn := (fl_conn f1)\<lparr>probe := 0\<rparr>\<rparr>)"

definition flush_rest :: "flush \<Rightarrow> flush" where
  "flush_rest f = (if fl_ptr f \<noteq> [] then flush_send f else f)"

section \<open>From the send queue to the send buffer\<close>

definition flush_cwnd :: "'a kcp_snd_scheme \<Rightarrow> int" where
  "flush_cwnd c =
     (let w = min (snd_wnd c) (rmt_wnd c) in if nocwnd c = 0 then min w (cwnd c) else w)"

definition stamp_segment :: "u64 \<Rightarrow> kcp_segment \<Rightarrow> 'a kcp_rcv_scheme \<Rightarrow> kcp_segment" where
  "stamp_segment timestamp seg c =
     seg\<lparr>seg_scid := scid c, seg_dcid := dcid c, seg_cmd := ucast KCP_CMD_PUSH,
         seg_wnd := (if seg_frg seg > 0 then u32_of_i32 (kcp_wnd_unused c) else seg_wnd seg),
         seg_ts := timestamp, seg_sn := snd_nxt c, seg_una := rcv_nxt c, seg_rto := u32_of_i32 (rx_rto c),
         seg_resendts := timestamp, seg_fastack := 0, seg_xmit := 0, seg_tx_delivered := bbr_delivered c,
         seg_tx_delivered_ts := (if bbr_delivered_ts c > 0 then bbr_delivered_ts c else timestamp)\<rparr>"

fun flush_move :: "u64 \<Rightarrow> int \<Rightarrow> kcp_segment list \<Rightarrow> 'a kcp_rcv_scheme \<Rightarrow> 'a kcp_rcv_scheme" where
  "flush_move timestamp w [] c = c"
| "flush_move timestamp w (seg # queue) c =
     (if uint (snd_nxt c) - (uint (snd_una c) + w) < 0
      then flush_move timestamp w queue
             (c\<lparr>snd_queue := queue, snd_nxt := snd_nxt c + 1,
               snd_buf := snd_buf c @ [stamp_segment timestamp seg c],
               nsnd_que := nsnd_que c - 1, nsnd_buf := nsnd_buf c + 1\<rparr>)
      else c)"

definition flush_credit :: "u64 \<Rightarrow> 'a kcp_cc_scheme \<Rightarrow> 'a kcp_cc_scheme" where
  "flush_credit timestamp c0 =
     (let c = (if bbr_last_send_ts c0 = 0 then c0\<lparr>bbr_last_send_ts := timestamp\<rparr> else c0)
      in if timestamp > bbr_last_send_ts c
         then
           let elapsed_us = timestamp - bbr_last_send_ts c;
               add_credit = (bbr_pacing_rate c * elapsed_us) div 1000000;
               max_credit = max (ucast (mss c) * 64) (bbr_bdp_bytes c KCP_BBR_CWND_GAIN_NUM)
           in c\<lparr>bbr_pacing_credit := min (bbr_pacing_credit c + add_credit) max_credit,
                bbr_last_send_ts := timestamp\<rparr>
         else c)"

section \<open>Transmitting and retransmitting\<close>

text \<open>
  The decision for one segment of the send buffer: first transmission when the pacing credit
  covers it, retransmission on timeout, fast retransmission after enough skips. The result has
  \<open>need_send\<close>, \<open>is_retransmit\<close>, the segment, the credit and \<open>packet_lost\<close>.
\<close>

record xmit_decision =
  xd_send :: bool
  xd_retransmit :: bool
  xd_segment :: kcp_segment
  xd_credit :: u64
  xd_lost :: bool

definition timeout_rto :: "'a kcp_snd_scheme \<Rightarrow> u32 \<Rightarrow> u32" where
  "timeout_rto c rto =
     (if nodelay c = 0 then max rto (u32_of_i32 (rx_rto c))
      else rto + u32_of_i32 ((if nodelay c < 2 then i32_of_u32 rto else rx_rto c) sdiv 2))"

definition flush_decide :: "u64 \<Rightarrow> u32 \<Rightarrow> u32 \<Rightarrow> 'a kcp_snd_scheme \<Rightarrow> u64 \<Rightarrow> kcp_segment \<Rightarrow> xmit_decision" where
  "flush_decide timestamp resent rtomin c credit pos =
     (if seg_xmit pos = 0 then
        if credit \<ge> ucast (seg_len pos) then
          \<lparr>xd_send = True, xd_retransmit = False,
           xd_segment = pos\<lparr>seg_xmit := 1, seg_rto := u32_of_i32 (rx_rto c),
             seg_resendts := timestamp + ucast (u32_of_i32 (rx_rto c)) + ucast rtomin\<rparr>,
           xd_credit = credit - ucast (seg_len pos), xd_lost = False\<rparr>
        else \<lparr>xd_send = False, xd_retransmit = False, xd_segment = pos, xd_credit = credit, xd_lost = False\<rparr>
      else if timestamp \<ge> seg_resendts pos then
        let rto = timeout_rto c (seg_rto pos)
        in \<lparr>xd_send = True, xd_retransmit = True,
            xd_segment = pos\<lparr>seg_xmit := seg_xmit pos + 1, seg_rto := rto, seg_resendts := timestamp + ucast rto\<rparr>,
            xd_credit = credit, xd_lost = True\<rparr>
      else if seg_fastack pos \<ge> resent \<and> (seg_xmit pos \<le> u32_of_i32 (fastlimit c) \<or> fastlimit c \<le> 0) then
        \<lparr>xd_send = True, xd_retransmit = True,
         xd_segment = pos\<lparr>seg_xmit := seg_xmit pos + 1, seg_resendts := timestamp + ucast (seg_rto pos), seg_fastack := 0\<rparr>,
         xd_credit = credit, xd_lost = False\<rparr>
      else \<lparr>xd_send = False, xd_retransmit = False, xd_segment = pos, xd_credit = credit, xd_lost = False\<rparr>)"

text \<open>
  \<open>packet_cache\<close>: the packets before \<open>buffer_index\<close> and the current one. \<open>place_segment\<close> is the
  loop at \<open>label_send\<close>, with fuel. A segment that fits into an empty packet is placed in two rounds
  (\<open>place_segment_returns\<close>); one that does not is never placed, and only a failing send ends the
  loop (\<open>place_segment_too_long\<close>). \<open>Place_stuck\<close> is running out of fuel; \<open>flush_fuel\<close> covers three
  rounds of sending the full \<open>packet_cache\<close>.
\<close>

datatype place_result =
    Placed "bytes list" bytes kcp_io
  | Place_error kcp_error kcp_io
  | Place_stuck

definition flush_fuel :: nat where "flush_fuel = 100"

definition write_status :: "kcp_io \<Rightarrow> kcp_error" where
  "write_status io = (if io_errno io = EAGAIN then OP_TRY_AGAIN else WRITE_ERROR)"

fun place_segment :: "nat \<Rightarrow> sockaddr \<Rightarrow> nat \<Rightarrow> kcp_segment \<Rightarrow> bytes list \<Rightarrow> bytes \<Rightarrow> kcp_io \<Rightarrow> place_result" where
  "place_segment 0 host max_mtu pos full cur io = Place_stuck"
| "place_segment (Suc fuel) host max_mtu pos full cur io =
     (let (st, io1) = (if length full \<ge> KCP_PACKET_COUNT
                       then kcp_send_packet_raw host (take KCP_PACKET_COUNT full) io else (Inr 0, io));
          full1 = (if length full \<ge> KCP_PACKET_COUNT then [] else full);
          cur1 = (if length full \<ge> KCP_PACKET_COUNT then [] else cur)
      in if status_neg st then Place_error (write_status io1) io1
         else
           (case kcp_segment_encode pos (replicate (max_mtu - length cur1) 0) (max_mtu - length cur1) of
              (Inr n, buf) \<Rightarrow> Placed full1 (cur1 @ take (nat n) buf) io1
            | (Inl e, buf) \<Rightarrow> place_segment fuel host max_mtu pos (full1 @ [cur1]) [] io1))"

record scan =
  sc_done :: "kcp_segment list" \<comment> \<open>the segments visited, with their new contents\<close>
  sc_credit :: u64
  sc_lost :: bool
  sc_flush :: bool \<comment> \<open>\<open>need_flush\<close>\<close>
  sc_full :: "bytes list"
  sc_cur :: bytes
  sc_io :: kcp_io

datatype scan_result = Scan_end | Scan_dead | Scan_return kcp_error | Scan_stuck

fun flush_scan :: "u64 \<Rightarrow> u32 \<Rightarrow> u32 \<Rightarrow> kcp_connection \<Rightarrow> kcp_segment list \<Rightarrow> scan \<Rightarrow> scan_result \<times> scan" where
  "flush_scan timestamp resent rtomin c [] sc = (Scan_end, sc)"
| "flush_scan timestamp resent rtomin c (pos # rest) sc =
     (let d = flush_decide timestamp resent rtomin c (sc_credit sc) pos;
          seg = xd_segment d;
          sc1 = sc\<lparr>sc_credit := xd_credit d, sc_lost := sc_lost sc \<or> xd_lost d\<rparr>
      in if seg_xmit seg > KCP_RETRANSMISSION_MAX then (Scan_dead, sc1\<lparr>sc_done := sc_done sc @ seg # rest\<rparr>)
         else if \<not> xd_send d then flush_scan timestamp resent rtomin c rest (sc1\<lparr>sc_done := sc_done sc @ [seg]\<rparr>)
         else
           let credit = (if xd_retransmit d \<and> xd_credit d \<ge> ucast (seg_len seg)
                         then xd_credit d - ucast (seg_len seg) else xd_credit d);
               sc2 = sc1\<lparr>sc_credit := credit, sc_flush := True\<rparr>
           in (case place_segment flush_fuel (remote_host c) (unat (mtu c)) seg (sc_full sc) (sc_cur sc) (sc_io sc) of
                 Placed full cur io \<Rightarrow>
                   flush_scan timestamp resent rtomin c rest
                     (sc2\<lparr>sc_done := sc_done sc @ [seg], sc_full := full, sc_cur := cur, sc_io := io\<rparr>)
               | Place_error e io \<Rightarrow> (Scan_return e, sc2\<lparr>sc_done := sc_done sc @ seg # rest, sc_io := io\<rparr>)
               | Place_stuck \<Rightarrow> (Scan_stuck, sc2\<lparr>sc_done := sc_done sc @ seg # rest\<rparr>)))"

text \<open>What remains after the scan: the last packets, the loss, the next flush time, the callbacks.\<close>

definition flush_tail :: "u64 \<Rightarrow> bool \<Rightarrow> kcp_connection \<Rightarrow> kcp_io \<Rightarrow> kcp_connection \<times> kcp_io" where
  "flush_tail timestamp packet_lost c io =
     (let c1 = (if packet_lost then bbr_on_loss c else c);
          c2 = (if cwnd c1 < i32_of_u32 KCP_BBR_MIN_CWND_PKTS
                then c1\<lparr>cwnd := i32_of_u32 KCP_BBR_MIN_CWND_PKTS, incr := KCP_BBR_MIN_CWND_PKTS * mss c1\<rparr> else c1);
          c3 = c2\<lparr>ts_flush := timestamp div 1000 + u64_of_i32 (interval c2)\<rparr>;
          io1 = emit Refresh_write_timer io;
          io2 = (if write_event_cb c3 then emit (Write_event (conn_addr c3) (snd_wnd c3 - nsnd_buf c3)) io1 else io1)
      in (c3, io2))"

text \<open>The label \<open>_end\<close>.\<close>

definition flush_end :: "kcp_connection \<Rightarrow> kcp_io \<Rightarrow> kcp_error \<times> kcp_connection \<times> kcp_io" where
  "flush_end c io =
     (NO_ERROR, c,
      if state c = KCP_STATE_DISCONNECTED then emit (On_error (Some (conn_addr c)) TOO_MANY_RETRANS) io else io)"

definition flush_transmit :: "u64 \<Rightarrow> kcp_connection \<Rightarrow> kcp_io \<Rightarrow> (kcp_error \<times> kcp_connection \<times> kcp_io) option" where
  "flush_transmit timestamp c io =
     (let resent = (if fastresend c > 0 then u32_of_i32 (fastresend c) else - 1);
          rtomin = (if nodelay c = 0 then u32_of_i32 (drop_bit 3 (rx_rto c)) else 0);
          (res, sc) = flush_scan timestamp resent rtomin c (snd_buf c)
            \<lparr>sc_done = [], sc_credit = bbr_pacing_credit c, sc_lost = False, sc_flush = False, sc_full = [],
             sc_cur = [], sc_io = io\<rparr>;
          c1 = c\<lparr>snd_buf := sc_done sc, bbr_pacing_credit := sc_credit sc\<rparr>
      in case res of
           Scan_stuck \<Rightarrow> None
         | Scan_return e \<Rightarrow> Some (e, c1, sc_io sc)
         | Scan_dead \<Rightarrow> Some (flush_end (c1\<lparr>state := KCP_STATE_DISCONNECTED\<rparr>) (sc_io sc))
         | Scan_end \<Rightarrow>
             let (st, io1) = (if sc_flush sc then kcp_send_packet c1 (sc_full sc @ [sc_cur sc]) (sc_io sc)
                              else (Inr 0, sc_io sc))
             in if status_neg st then Some (write_status io1, c1, io1)
                else (case flush_tail timestamp (sc_lost sc) c1 io1 of (c2, io2) \<Rightarrow> Some (flush_end c2 io2)))"

text \<open>
  The whole function. The part before the data, with the early return when the peer is gone:
\<close>

definition flush_control :: "(bytes \<Rightarrow> u64) \<Rightarrow> u64 \<Rightarrow> kcp_connection \<Rightarrow> kcp_io \<Rightarrow> bool \<times> kcp_connection \<times> kcp_io" where
  "flush_control xxh64 timestamp c io =
     (let f0 = \<lparr>fl_conn = c, fl_io = io, fl_ptr = [], fl_header = replicate KCP_HEADER_SIZE 0\<rparr>;
          f1 = flush_acks timestamp f0;
          f2 = flush_window_commands timestamp (f1\<lparr>fl_conn := flush_window_probe timestamp (fl_conn f1)\<rparr>);
          (gone, c3, io3) = on_kcp_ping_timeout timestamp (fl_conn f2) (fl_io f2)
      in if gone then (True, c3, io3)
         else
           let f4 = flush_rest (flush_pong timestamp (flush_ping_request xxh64 timestamp
                      (f2\<lparr>fl_conn := c3, fl_io := io3\<rparr>)))
           in (False, fl_conn f4, fl_io f4))"

definition on_kcp_write_timeout ::
    "(bytes \<Rightarrow> u64) \<Rightarrow> u64 \<Rightarrow> kcp_connection \<Rightarrow> kcp_io \<Rightarrow> (kcp_error \<times> kcp_connection \<times> kcp_io) option" where
  "on_kcp_write_timeout xxh64 timestamp c io =
     (if state c \<noteq> KCP_STATE_CONNECTED then Some (NO_ERROR, c, io)
      else if ts_flush c > timestamp div 1000 then Some (NO_ERROR, c, io)
      else
        (case flush_control xxh64 timestamp c io of
           (True, c1, io1) \<Rightarrow> Some (NO_ERROR, c1, io1)
         | (False, c1, io1) \<Rightarrow>
             let c2 = flush_credit timestamp (flush_move timestamp (flush_cwnd c1) (snd_queue c1) c1)
             in flush_transmit timestamp c2 io1))"

section \<open>Lemmas\<close>

subsection \<open>Placing a segment\<close>

lemma segment_encode_size: "kcp_segment_encode s buf n = (Inr k, buf') \<Longrightarrow> nat k \<le> n"
proof -
  assume "kcp_segment_encode s buf n = (Inr k, buf')"
  then have k: "k = i32_of_u32 (of_nat KCP_HEADER_SIZE + seg_len s)" and n: "unat (of_nat KCP_HEADER_SIZE + seg_len s) \<le> n"
    by (auto simp: kcp_segment_encode_def split: if_splits)
  have "nat (i32_of_u32 w) \<le> unat w" for w
  proof -
    have "take_bit 32 (uint w) \<le> uint w" by (simp add: take_bit_int_less_eq_self_iff)
    then have "sint w \<le> uint w" by (simp add: sint_uint signed_take_bit_eq_take_bit_minus)
    then show ?thesis by (simp add: i32_of_u32_def nat_le_iff)
  qed
  with k n show ?thesis by (meson order_trans)
qed

lemma segment_encode_fits:
  assumes "32 + unat (seg_len s) \<le> n" and "n < 2 ^ 32"
  shows "\<exists>k buf'. kcp_segment_encode s buf n = (Inr k, buf')"
proof -
  have "unat (32 + seg_len s) = 32 + unat (seg_len s)"
    using assms by (simp add: unat_word_ariths)
  then show ?thesis using assms by (simp add: kcp_segment_encode_def KCP_HEADER_SIZE_def)
qed

lemma place_segment_returns:
  assumes "32 + unat (seg_len s) \<le> m" and "m < 2 ^ 32" and "2 \<le> fuel"
  shows "place_segment fuel host m s full cur io \<noteq> Place_stuck"
proof -
  obtain n where n: "fuel = Suc (Suc n)" using assms(3) by (cases fuel; cases "fuel - 1") auto
  obtain k buf where e: "kcp_segment_encode s (replicate m 0) m = (Inr k, buf)"
    using segment_encode_fits [OF assms(1,2)] by blast
  have empty: "place_segment (Suc n) host m s full' [] io' \<noteq> Place_stuck" for full' io'
    using e by (auto simp: Let_def split: prod.splits)
  let ?batch = "length full \<ge> KCP_PACKET_COUNT"
  let ?cur = "if ?batch then [] else cur"
  obtain st io1 where r: "(if ?batch then kcp_send_packet_raw host (take KCP_PACKET_COUNT full) io else (Inr 0, io)) = (st, io1)"
    by (metis prod.exhaust)
  obtain res buf' where en: "kcp_segment_encode s (replicate (m - length ?cur) 0) (m - length ?cur) = (res, buf')"
    by (metis prod.exhaust)
  show ?thesis
    unfolding n place_segment.simps(2) [of "Suc n"] Let_def r en prod.case
    using empty by (cases res) (simp_all del: place_segment.simps)
qed

lemma place_segment_too_long:
  assumes "m < 32 + unat (seg_len s)" and "32 + unat (seg_len s) < 2 ^ 32"
  shows "place_segment fuel host m s full cur io \<noteq> Placed full' cur' io'"
proof (induction fuel arbitrary: full cur io)
  case (Suc fuel)
  have "kcp_segment_encode s (replicate n 0) n = (Inl BUFFER_TOO_SMALL, replicate n 0)" if "n \<le> m" for n
  proof -
    have "unat (32 + seg_len s) = 32 + unat (seg_len s)" using assms by (simp add: unat_word_ariths)
    then show ?thesis using assms that by (simp add: kcp_segment_encode_def KCP_HEADER_SIZE_def)
  qed
  then show ?case using Suc by (auto simp: Let_def split: prod.splits)
qed simp

abbreviation within :: "sockaddr \<Rightarrow> nat \<Rightarrow> sockaddr \<Rightarrow> bytes \<Rightarrow> bool" where
  "within host m \<equiv> \<lambda>a d. a = host \<and> length d \<le> m"

definition placed_within :: "sockaddr \<Rightarrow> nat \<Rightarrow> kcp_effect list \<Rightarrow> place_result \<Rightarrow> bool" where
  "placed_within host m t r = (case r of
     Placed full cur io \<Rightarrow> (\<forall>d \<in> set full. length d \<le> m) \<and> length cur \<le> m \<and> grows (within host m) t (io_trace io)
   | Place_error e io \<Rightarrow> grows (within host m) t (io_trace io)
   | Place_stuck \<Rightarrow> True)"

lemma place_segment_within:
  assumes "\<forall>d \<in> set full. length d \<le> m" and "length cur \<le> m" and "grows (within host m) t (io_trace io)"
  shows "placed_within host m t (place_segment fuel host m s full cur io)"
  using assms
proof (induction fuel arbitrary: full cur io)
  case (Suc fuel)
  let ?batch = "length full \<ge> KCP_PACKET_COUNT"
  let ?r = "if ?batch then kcp_send_packet_raw host (take KCP_PACKET_COUNT full) io else (Inr 0, io)"
  let ?full = "if ?batch then [] else full" and ?cur = "if ?batch then [] else cur"
  obtain st io1 where r: "?r = (st, io1)" by (metis prod.exhaust)
  have t1: "grows (within host m) t (io_trace io1)"
  proof (cases ?batch)
    case True
    have "grows (within host m) t (io_trace (snd (kcp_send_packet_raw host (take KCP_PACKET_COUNT full) io)))"
      using Suc.prems by (intro out.grows_sends) (auto dest: in_set_takeD)
    then show ?thesis using r True by simp
  next
    case False then show ?thesis using r Suc.prems by simp
  qed
  have f: "\<forall>d \<in> set ?full. length d \<le> m" "length ?cur \<le> m" using Suc.prems by simp_all
  obtain e buf where en: "kcp_segment_encode s (replicate (m - length ?cur) 0) (m - length ?cur) = (e, buf)"
    by (metis prod.exhaust)
  have "length (take (nat k) buf) \<le> m - length ?cur" if "e = Inr k" for k
    using segment_encode_size en that by fastforce
  moreover have "placed_within host m t (place_segment fuel host m s (?full @ [?cur]) [] io1)"
    using Suc.IH [of "?full @ [?cur]" "[]" io1] f t1 by auto
  ultimately show ?case
    using r en f t1 by (auto simp: placed_within_def Let_def split: sum.splits)
qed (simp add: placed_within_def)


subsection \<open>The scan\<close>

lemma flush_decide_len [simp]: "seg_len (xd_segment (flush_decide ts r rm c cr s)) = seg_len s"
  by (simp add: flush_decide_def Let_def)

lemma flush_decide_sn [simp]: "seg_sn (xd_segment (flush_decide ts r rm c cr s)) = seg_sn s"
  by (simp add: flush_decide_def Let_def)

lemma flush_scan_returns:
  assumes "\<forall>s \<in> set ss. 32 + unat (seg_len s) \<le> unat (mtu c)"
  shows "fst (flush_scan ts r rm c ss sc) \<noteq> Scan_stuck"
  using assms
proof (induction ss arbitrary: sc)
  case (Cons s ss)
  let ?seg = "xd_segment (flush_decide ts r rm c (sc_credit sc) s)"
  have "place_segment flush_fuel (remote_host c) (unat (mtu c)) ?seg (sc_full sc) (sc_cur sc) (sc_io sc) \<noteq> Place_stuck"
    using Cons.prems unat_u32_less [of "mtu c"] by (intro place_segment_returns) (simp_all add: flush_fuel_def)
  then show ?case using Cons by (auto simp: Let_def split: place_result.splits)
qed simp

text \<open>One step of the scan: the segment is passed over, placed, or the scan stops with it.\<close>

lemma flush_scan_Cons:
  assumes "flush_scan ts r rm c (s # ss) sc = (res, sc')"
  obtains (skip) sc1 where "flush_scan ts r rm c ss sc1 = (res, sc')"
      "sc_done sc1 = sc_done sc @ [xd_segment (flush_decide ts r rm c (sc_credit sc) s)]"
      "sc_full sc1 = sc_full sc" "sc_cur sc1 = sc_cur sc" "sc_io sc1 = sc_io sc"
    | (placed) sc1 where "flush_scan ts r rm c ss sc1 = (res, sc')"
      "sc_done sc1 = sc_done sc @ [xd_segment (flush_decide ts r rm c (sc_credit sc) s)]"
      "place_segment flush_fuel (remote_host c) (unat (mtu c)) (xd_segment (flush_decide ts r rm c (sc_credit sc) s))
         (sc_full sc) (sc_cur sc) (sc_io sc) = Placed (sc_full sc1) (sc_cur sc1) (sc_io sc1)"
    | (stop) "sc_done sc' = sc_done sc @ xd_segment (flush_decide ts r rm c (sc_credit sc) s) # ss"
      "sc_full sc' = sc_full sc" "sc_cur sc' = sc_cur sc" "sc_io sc' = sc_io sc"
    | (failed) e where "sc_done sc' = sc_done sc @ xd_segment (flush_decide ts r rm c (sc_credit sc) s) # ss"
      "sc_full sc' = sc_full sc" "sc_cur sc' = sc_cur sc"
      "place_segment flush_fuel (remote_host c) (unat (mtu c)) (xd_segment (flush_decide ts r rm c (sc_credit sc) s))
         (sc_full sc) (sc_cur sc) (sc_io sc) = Place_error e (sc_io sc')"
proof -
  let ?d = "flush_decide ts r rm c (sc_credit sc) s"
  let ?seg = "xd_segment ?d"
  let ?p = "place_segment flush_fuel (remote_host c) (unat (mtu c)) ?seg (sc_full sc) (sc_cur sc) (sc_io sc)"
  let ?sc1 = "sc\<lparr>sc_credit := xd_credit ?d, sc_lost := sc_lost sc \<or> xd_lost ?d\<rparr>"
  let ?cr = "if xd_retransmit ?d \<and> xd_credit ?d \<ge> ucast (seg_len ?seg) then xd_credit ?d - ucast (seg_len ?seg) else xd_credit ?d"
  let ?sc2 = "?sc1\<lparr>sc_credit := ?cr, sc_flush := True\<rparr>"
  have step: "(res, sc') =
     (if seg_xmit ?seg > KCP_RETRANSMISSION_MAX then (Scan_dead, ?sc1\<lparr>sc_done := sc_done sc @ ?seg # ss\<rparr>)
      else if \<not> xd_send ?d then flush_scan ts r rm c ss (?sc1\<lparr>sc_done := sc_done sc @ [?seg]\<rparr>)
      else (case ?p of
          Placed full cur io \<Rightarrow>
            flush_scan ts r rm c ss (?sc2\<lparr>sc_done := sc_done sc @ [?seg], sc_full := full, sc_cur := cur, sc_io := io\<rparr>)
        | Place_error e io \<Rightarrow> (Scan_return e, ?sc2\<lparr>sc_done := sc_done sc @ ?seg # ss, sc_io := io\<rparr>)
        | Place_stuck \<Rightarrow> (Scan_stuck, ?sc2\<lparr>sc_done := sc_done sc @ ?seg # ss\<rparr>)))"
    using assms by (simp only: flush_scan.simps Let_def)
  consider (1) "seg_xmit ?seg > KCP_RETRANSMISSION_MAX" | (2) "\<not> seg_xmit ?seg > KCP_RETRANSMISSION_MAX" "\<not> xd_send ?d"
    | (3) "\<not> seg_xmit ?seg > KCP_RETRANSMISSION_MAX" "xd_send ?d" by blast
  then show thesis
  proof cases
    case 1
    then show ?thesis using step by (intro stop) simp_all
  next
    case 2
    then show ?thesis using step by (intro skip [of "?sc1\<lparr>sc_done := sc_done sc @ [?seg]\<rparr>"]) simp_all
  next
    case 3
    show ?thesis
    proof (cases ?p)
      case (Placed full cur io)
      then show ?thesis
        using step 3 by (intro placed [of "?sc2\<lparr>sc_done := sc_done sc @ [?seg], sc_full := full, sc_cur := cur, sc_io := io\<rparr>"]) simp_all
    next
      case (Place_error e io)
      then show ?thesis using step 3 by (intro failed [of e]) simp_all
    next
      case Place_stuck
      then show ?thesis using step 3 by (intro stop) simp_all
    qed
  qed
qed

lemma flush_scan_within:
  assumes "\<forall>d \<in> set (sc_full sc). length d \<le> unat (mtu c)" and "length (sc_cur sc) \<le> unat (mtu c)"
    and "grows (within (remote_host c) (unat (mtu c))) t (io_trace (sc_io sc))" and "flush_scan ts r rm c ss sc = (res, sc')"
  shows "(\<forall>d \<in> set (sc_full sc'). length d \<le> unat (mtu c)) \<and> length (sc_cur sc') \<le> unat (mtu c) \<and>
    grows (within (remote_host c) (unat (mtu c))) t (io_trace (sc_io sc'))"
  using assms
proof (induction ss arbitrary: sc)
  case (Cons s ss)
  have p: "placed_within (remote_host c) (unat (mtu c)) t
      (place_segment flush_fuel (remote_host c) (unat (mtu c)) s' (sc_full sc) (sc_cur sc) (sc_io sc))" for s'
    using Cons.prems(1-3) by (rule place_segment_within)
  from Cons.prems(4) show ?case
  proof (cases rule: flush_scan_Cons)
    case (skip sc1)
    then show ?thesis using Cons.IH [of sc1] Cons.prems by simp
  next
    case (placed sc1)
    then show ?thesis using Cons.IH [of sc1] p [of "xd_segment (flush_decide ts r rm c (sc_credit sc) s)"] by (simp add: placed_within_def)
  next
    case stop
    then show ?thesis using Cons.prems by simp
  next
    case (failed e)
    then show ?thesis using Cons.prems p [of "xd_segment (flush_decide ts r rm c (sc_credit sc) s)"] by (simp add: placed_within_def)
  qed
qed simp

subsection \<open>The control packets\<close>

text \<open>What the control part leaves alone, and what it keeps of the output buffer.\<close>

definition flush_frame :: "kcp_connection \<Rightarrow> u32 \<times> sockaddr \<times> kcp_segment list \<times> kcp_segment list \<times> int \<times> int \<times> u32 \<times> u32 \<times> u32" where
  "flush_frame c = (mtu c, remote_host c, snd_queue c, snd_buf c, nsnd_que c, nsnd_buf c, snd_nxt c, snd_una c, psn_nxt c)"

definition flush_ok :: "nat \<Rightarrow> kcp_connection \<Rightarrow> kcp_effect list \<Rightarrow> flush \<Rightarrow> bool" where
  "flush_ok room c t f \<longleftrightarrow> flush_frame (fl_conn f) = flush_frame c \<and> length (fl_ptr f) + room \<le> unat (mtu c) \<and>
     grows (within (remote_host c) (unat (mtu c))) t (io_trace (fl_io f))"

lemma flush_ok_less: "flush_ok r c t f \<Longrightarrow> r' \<le> r \<Longrightarrow> flush_ok r' c t f"
  by (simp add: flush_ok_def)

lemma flush_ok_conn: "flush_frame c' = flush_frame (fl_conn f) \<Longrightarrow> flush_ok r c t (f\<lparr>fl_conn := c'\<rparr>) = flush_ok r c t f"
  by (simp add: flush_ok_def)

lemma flush_send_ok: "flush_ok 0 c t f \<Longrightarrow> r \<le> unat (mtu c) \<Longrightarrow> flush_ok r c t (flush_send f)"
  by (auto simp: flush_ok_def flush_send_def kcp_send_packet_def flush_frame_def intro!: out.grows_sends)

lemma flush_if_full_ok: "flush_ok 0 c t f \<Longrightarrow> 32 \<le> unat (mtu c) \<Longrightarrow> flush_ok 32 c t (flush_if_full f)"
  using flush_send_ok [of c t f 32] by (auto simp: flush_if_full_def KCP_HEADER_SIZE_def flush_ok_def flush_frame_def)

lemma put_header_ok: "flush_ok 32 c t f \<Longrightarrow> flush_ok 0 c t (put_header h f)"
  by (auto simp: put_header_def Let_def flush_ok_def KCP_HEADER_SIZE_def)

lemma flush_rest_ok: "flush_ok 0 c t f \<Longrightarrow> flush_ok 0 c t (flush_rest f)"
  by (simp add: flush_rest_def flush_send_ok)

lemma flush_acks_ok:
  assumes "flush_ok 32 c t f" and "32 \<le> unat (mtu c)"
  shows "flush_ok 32 c t (flush_acks ts f)"
proof -
  have "flush_ok 32 c t (foldl (flush_ack ts) f as)" for as
    using assms(1)
  proof (induction as arbitrary: f)
    case (Cons a as)
    then show ?case using assms(2) by (simp add: flush_ack_def flush_if_full_ok put_header_ok)
  qed simp
  then show ?thesis by (simp add: flush_acks_def Let_def flush_ok_conn flush_frame_def)
qed

lemma flush_window_ok:
  assumes "flush_ok 32 c t f" and "32 \<le> unat (mtu c)"
  shows "flush_ok 0 c t (flush_window_commands ts (f\<lparr>fl_conn := flush_window_probe ts (fl_conn f)\<rparr>))"
proof -
  have "flush_frame (flush_window_probe ts c') = flush_frame c'" for c'
    by (simp add: flush_window_probe_def flush_frame_def Let_def)
  then have "flush_ok 32 c t (f\<lparr>fl_conn := flush_window_probe ts (fl_conn f)\<rparr>)" using assms by (simp add: flush_ok_conn)
  then have start: "flush_ok 0 c t (f\<lparr>fl_conn := flush_window_probe ts (fl_conn f)\<rparr>)" by (rule flush_ok_less) simp
  have step: "flush_ok 0 c t g \<Longrightarrow> flush_ok 0 c t (if b then put_header h (flush_if_full g) else g)" for b h g
    using put_header_ok [OF flush_if_full_ok] assms(2) by simp
  show ?thesis unfolding flush_window_commands_def Let_def by (rule step [OF step [OF start]])
qed

lemma on_kcp_ping_timeout_frame:
  assumes "on_kcp_ping_timeout ts c io = (gone, c', io')"
  shows "flush_frame c' = flush_frame c" and "grows P t (io_trace io) \<Longrightarrow> grows P t (io_trace io')"
  using assms by (auto simp: on_kcp_ping_timeout_def Let_def flush_frame_def split: if_splits)

lemma flush_ping_ok:
  assumes "flush_ok 0 c t f" and "32 \<le> unat (mtu c)"
  shows "flush_ok 0 c t (flush_ping_request x ts f)" and "flush_ok 0 c t (flush_pong ts f)"
proof -
  have fr: "flush_frame (c'\<lparr>ping_context := p\<rparr>) = flush_frame c'" "flush_frame (c'\<lparr>probe := b\<rparr>) = flush_frame c'" for c' p b
    by (simp_all add: flush_frame_def)
  show "flush_ok 0 c t (flush_ping_request x ts f)"
    using assms by (simp add: flush_ping_request_def Let_def flush_ok_conn fr put_header_ok flush_if_full_ok)
  show "flush_ok 0 c t (flush_pong ts f)"
    using assms by (simp add: flush_pong_def Let_def flush_ok_conn fr put_header_ok flush_if_full_ok)
qed

lemma flush_control_ok:
  assumes "flush_control x ts c io = (gone, c', io')" and "32 \<le> unat (mtu c)"
  shows "flush_frame c' = flush_frame c" and "grows (within (remote_host c) (unat (mtu c))) (io_trace io) (io_trace io')"
proof -
  let ?f0 = "\<lparr>fl_conn = c, fl_io = io, fl_ptr = [], fl_header = replicate KCP_HEADER_SIZE 0\<rparr>"
  let ?f1 = "flush_acks ts ?f0"
  let ?f2 = "flush_window_commands ts (?f1\<lparr>fl_conn := flush_window_probe ts (fl_conn ?f1)\<rparr>)"
  obtain g c3 io3 where p: "on_kcp_ping_timeout ts (fl_conn ?f2) (fl_io ?f2) = (g, c3, io3)" by (metis prod.exhaust)
  let ?f3 = "?f2\<lparr>fl_conn := c3, fl_io := io3\<rparr>"
  let ?f4 = "flush_rest (flush_pong ts (flush_ping_request x ts ?f3))"
  have "flush_ok 32 c (io_trace io) ?f0" using assms(2) by (simp add: flush_ok_def)
  then have f2: "flush_ok 0 c (io_trace io) ?f2" using assms(2) by (intro flush_window_ok flush_acks_ok)
  then have f3: "flush_ok 0 c (io_trace io) ?f3"
    using on_kcp_ping_timeout_frame [OF p] by (simp add: flush_ok_def)
  then have f4: "flush_ok 0 c (io_trace io) ?f4" using assms(2) by (intro flush_rest_ok flush_ping_ok)
  have r: "(gone, c', io') = (if g then (True, c3, io3) else (False, fl_conn ?f4, fl_io ?f4))"
    using assms(1) p by (auto simp: flush_control_def Let_def split: if_splits)
  show "flush_frame c' = flush_frame c" "grows (within (remote_host c) (unat (mtu c))) (io_trace io) (io_trace io')"
    using r f3 f4 by (auto simp: flush_ok_def split: if_splits)
qed

subsection \<open>Moving segments into the window\<close>

text \<open>
  \<open>flush_move\<close> as a whole: \<open>flush_room\<close> is the number of segments the window has room for, and so
  many are moved, numbered from \<open>snd_nxt\<close> on.
\<close>

definition flush_room :: "int \<Rightarrow> 'a kcp_snd_scheme \<Rightarrow> nat" where
  "flush_room w c = min (length (snd_queue c)) (nat (uint (snd_una c) + w - uint (snd_nxt c)))"

lemma flush_move_eq:
  assumes "snd_queue c = q" and "unat (snd_nxt c) + length q < 2 ^ 32"
  shows "let c' = flush_move ts w q c; n = flush_room w c in
    snd_queue c' = drop n q \<and> snd_nxt c' = snd_nxt c + of_nat n \<and> snd_una c' = snd_una c \<and>
    nsnd_que c' = nsnd_que c - int n \<and> nsnd_buf c' = nsnd_buf c + int n \<and> mtu c' = mtu c \<and> remote_host c' = remote_host c \<and>
    (\<exists>segs. snd_buf c' = snd_buf c @ segs \<and> length segs = n \<and>
      (\<forall>i < n. segs ! i = (stamp_segment ts (q ! i) c)\<lparr>seg_sn := snd_nxt c + of_nat i\<rparr>))"
  using assms
proof (induction ts w q c rule: flush_move.induct)
  case (2 ts w seg queue c)
  show ?case
  proof (cases "uint (snd_nxt c) - (uint (snd_una c) + w) < 0")
    case False
    then show ?thesis using "2.prems" by (simp add: flush_room_def Let_def)
  next
    case True
    let ?c = "c\<lparr>snd_queue := queue, snd_nxt := snd_nxt c + 1, snd_buf := snd_buf c @ [stamp_segment ts seg c],
               nsnd_que := nsnd_que c - 1, nsnd_buf := nsnd_buf c + 1\<rparr>"
    have u: "unat (snd_nxt c + 1) = unat (snd_nxt c) + 1"
      using "2.prems" by (simp add: unat_word_ariths)
    then have ui: "uint (snd_nxt c + 1) = uint (snd_nxt c) + 1" by (simp only: uint_nat of_nat_add of_nat_1)
    have n: "flush_room w c = Suc (flush_room w ?c)"
      using True "2.prems" by (simp add: flush_room_def ui)
    note IH = "2.IH" [OF True, unfolded Let_def]
    obtain segs where segs: "snd_buf (flush_move ts w queue ?c) = snd_buf c @ stamp_segment ts seg c # segs"
      "length segs = flush_room w ?c"
      "\<forall>i < flush_room w ?c. segs ! i = (stamp_segment ts (queue ! i) ?c)\<lparr>seg_sn := snd_nxt c + 1 + of_nat i\<rparr>"
      using IH "2.prems" u by auto
    have st: "stamp_segment ts s ?c = (stamp_segment ts s c)\<lparr>seg_sn := snd_nxt c + 1\<rparr>" for s
      by (simp add: stamp_segment_def kcp_wnd_unused_def)
    have nth: "(stamp_segment ts seg c # segs) ! i = (stamp_segment ts ((seg # queue) ! i) c)\<lparr>seg_sn := snd_nxt c + of_nat i\<rparr>"
      if "i < Suc (flush_room w ?c)" for i
    proof (cases i)
      case 0
      then show ?thesis by (simp add: stamp_segment_def)
    next
      case (Suc j)
      then show ?thesis using segs(3) [rule_format, of j] that by (simp add: st add.assoc)
    qed
    have r: "flush_move ts w (seg # queue) c = flush_move ts w queue ?c" using True by simp
    show ?thesis
      unfolding r n Let_def using IH "2.prems" u segs nth by (auto simp: add.assoc simp del: flush_move.simps)
  qed
qed (simp add: flush_room_def)

lemma flush_move_segments:
  "(\<forall>s \<in> set q \<union> set (snd_buf c). P (seg_len s)) \<Longrightarrow> (\<forall>s \<in> set (snd_buf (flush_move ts w q c)). P (seg_len s))"
proof (induction ts w q c rule: flush_move.induct)
  case (2 ts w seg queue c)
  have "seg_len (stamp_segment ts seg c) = seg_len seg" by (simp add: stamp_segment_def)
  then show ?case using 2 by auto
qed simp

lemma flush_move_mtu [simp]: "mtu (flush_move ts w q c) = mtu c"
  by (induction ts w q c rule: flush_move.induct) auto

lemma flush_move_host [simp]: "remote_host (flush_move ts w q (c :: kcp_connection)) = remote_host c"
  by (induction ts w q c rule: flush_move.induct) auto

lemma flush_credit_frame [simp]:
  "mtu (flush_credit ts c) = mtu c" "remote_host (flush_credit ts c) = remote_host c" "snd_buf (flush_credit ts c) = snd_buf c"
  by (simp_all add: flush_credit_def Let_def)

lemma flush_transmit_returns:
  assumes "\<forall>s \<in> set (snd_buf c). 32 + unat (seg_len s) \<le> unat (mtu c)"
  shows "flush_transmit ts c io \<noteq> None"
proof -
  let ?sc = "\<lparr>sc_done = [], sc_credit = bbr_pacing_credit c, sc_lost = False, sc_flush = False, sc_full = [], sc_cur = [], sc_io = io\<rparr>"
  obtain res sc where s: "flush_scan ts (if fastresend c > 0 then u32_of_i32 (fastresend c) else - 1)
      (if nodelay c = 0 then u32_of_i32 (drop_bit 3 (rx_rto c)) else 0) c (snd_buf c) ?sc = (res, sc)" by (metis prod.exhaust)
  then have "res \<noteq> Scan_stuck" using flush_scan_returns [OF assms] by (metis fst_conv)
  then show ?thesis
    unfolding flush_transmit_def Let_def s prod.case by (cases res) (simp_all add: split_def del: not_None_eq)
qed

lemma flush_tail_trace: "flush_tail ts lost c io = (c', io') \<Longrightarrow> grows P (io_trace io) (io_trace io')"
  by (auto simp: flush_tail_def Let_def split: if_splits)

lemma flush_end_trace: "flush_end c io = (e, c', io') \<Longrightarrow> grows P (io_trace io) (io_trace io')"
  by (auto simp: flush_end_def grows_snoc split: if_splits)

lemma flush_transmit_within:
  assumes "flush_transmit ts c io = Some (e, c', io')"
  shows "grows (within (remote_host c) (unat (mtu c))) (io_trace io) (io_trace io')"
proof -
  let ?P = "within (remote_host c) (unat (mtu c))"
  let ?sc = "\<lparr>sc_done = [], sc_credit = bbr_pacing_credit c, sc_lost = False, sc_flush = False, sc_full = [], sc_cur = [], sc_io = io\<rparr>"
  obtain res sc where s: "flush_scan ts (if fastresend c > 0 then u32_of_i32 (fastresend c) else - 1)
      (if nodelay c = 0 then u32_of_i32 (drop_bit 3 (rx_rto c)) else 0) c (snd_buf c) ?sc = (res, sc)" by (metis prod.exhaust)
  have w: "(\<forall>d \<in> set (sc_full sc). length d \<le> unat (mtu c)) \<and> length (sc_cur sc) \<le> unat (mtu c) \<and>
      grows ?P (io_trace io) (io_trace (sc_io sc))"
    by (rule flush_scan_within [OF _ _ _ s]) simp_all
  let ?c = "c\<lparr>snd_buf := sc_done sc, bbr_pacing_credit := sc_credit sc\<rparr>"
  obtain st io1 where r: "(if sc_flush sc then kcp_send_packet ?c (sc_full sc @ [sc_cur sc]) (sc_io sc) else (Inr 0, sc_io sc)) = (st, io1)"
    by (metis prod.exhaust)
  have "grows ?P (io_trace io) (io_trace (snd (kcp_send_packet_raw (remote_host c) (sc_full sc @ [sc_cur sc]) (sc_io sc))))"
    using w by (intro out.grows_sends) auto
  then have w1: "grows ?P (io_trace io) (io_trace io1)"
    using w r by (auto simp: kcp_send_packet_def split: if_splits)
  obtain c2 io2 where t: "flush_tail ts (sc_lost sc) ?c io1 = (c2, io2)" by (metis prod.exhaust)
  note tr = assms [unfolded flush_transmit_def Let_def s prod.case r t]
  show ?thesis
  proof (cases res)
    case Scan_end
    then show ?thesis
      using tr w1 grows_trans [OF w1 flush_tail_trace [OF t]] flush_end_trace [of c2 io2 e c' io' ?P]
      by (auto split: if_splits intro: grows_trans)
  next
    case Scan_dead
    then show ?thesis using tr w flush_end_trace [of _ "sc_io sc" e c' io' ?P] by (auto intro: grows_trans)
  qed (use tr w in auto)
qed


lemma flush_move_parts:
  assumes "unat (snd_nxt c) + length (snd_queue c) < 2 ^ 32"
  shows "\<exists>segs. snd_buf (flush_move ts w (snd_queue c) (c :: kcp_connection)) = snd_buf c @ segs \<and>
    map seg_sn segs = map (\<lambda>i. snd_nxt c + of_nat i) [0..<flush_room w c] \<and>
    map seg_data segs = map seg_data (take (flush_room w c) (snd_queue c))"
proof -
  let ?n = "flush_room w c"
  obtain segs where s: "snd_buf (flush_move ts w (snd_queue c) c) = snd_buf c @ segs" "length segs = ?n"
    "\<forall>i < ?n. segs ! i = (stamp_segment ts (snd_queue c ! i) c)\<lparr>seg_sn := snd_nxt c + of_nat i\<rparr>"
    using flush_move_eq [OF refl assms, of ts w] by (auto simp: Let_def)
  have "map seg_sn segs = map (\<lambda>i. snd_nxt c + of_nat i) [0..<?n]"
    using s by (intro nth_equalityI) simp_all
  moreover have "map seg_data segs = map seg_data (take ?n (snd_queue c))"
    using s by (intro nth_equalityI) (simp_all add: flush_room_def stamp_segment_def)
  ultimately show ?thesis using s by blast
qed

lemma flush_room_bound: "uint (snd_nxt c) + int (flush_room w c) \<le> max (uint (snd_nxt c)) (uint (snd_una c) + w)"
  by (simp add: flush_room_def)

lemma flush_room_full: "flush_room w c = length (snd_queue c) \<or> uint (snd_una c) + w \<le> uint (snd_nxt c) + int (flush_room w c)"
  by (auto simp: flush_room_def min_def)

lemma unat_plus_of_nat: "unat (x :: u32) + i < 2 ^ 32 \<Longrightarrow> unat (x + of_nat i) = unat x + i"
  by (simp add: unat_word_ariths unat_of_nat take_bit_eq_mod)

lemma flush_move_wf:
  assumes wf: "snd_wf c" and room: "unat (snd_nxt c) + length (snd_queue c) < 2 ^ 32"
  shows "snd_wf (flush_move ts w (snd_queue c) (c :: kcp_connection))"
proof -
  let ?c = "flush_move ts w (snd_queue c) c" and ?n = "flush_room w c"
  obtain segs where s: "snd_buf ?c = snd_buf c @ segs" "map seg_sn segs = map (\<lambda>i. snd_nxt c + of_nat i) [0..<?n]"
    using flush_move_parts [OF room, of ts w] by blast
  have e: "snd_queue ?c = drop ?n (snd_queue c)" "snd_nxt ?c = snd_nxt c + of_nat ?n" "snd_una ?c = snd_una c"
    "nsnd_que ?c = nsnd_que c - int ?n" "nsnd_buf ?c = nsnd_buf c + int ?n"
    using flush_move_eq [OF refl room, of ts w] by (simp_all add: Let_def)
  have le: "?n \<le> length (snd_queue c)" by (simp add: flush_room_def)
  have len: "length segs = ?n" using s(2) by (metis length_map length_upt minus_nat.diff_0)
  have u: "unat (snd_nxt c + of_nat i) = unat (snd_nxt c) + i" if "i \<le> ?n" for i
    using room le that by (intro unat_plus_of_nat) simp
  have new: "sorted_wrt (<) (map seg_sn segs)"
    unfolding s(2) sorted_wrt_map by (rule sorted_wrt_mono_rel [of _ "(<)"]) (auto simp: word_less_nat_alt u)
  have ge: "\<exists>i < ?n. x = snd_nxt c + of_nat i" if "x \<in> set (map seg_sn segs)" for x
    using that unfolding s(2) by auto
  have old: "seg_sn x < snd_nxt c" if "x \<in> set (snd_buf c)" for x using wf that by (simp add: snd_wf_def)
  have "sorted_wrt (<) (map seg_sn (snd_buf ?c))"
    unfolding s(1) map_append sorted_wrt_append
  proof (intro conjI ballI new)
    show "sorted_wrt (<) (map seg_sn (snd_buf c))" using wf by (simp add: snd_wf_def)
    fix x y assume x: "x \<in> set (map seg_sn (snd_buf c))" and "y \<in> set (map seg_sn segs)"
    then obtain i where "i < ?n" "y = snd_nxt c + of_nat i" using ge by blast
    then show "x < y" using x old u [of i] by (auto simp: word_less_nat_alt intro!: trans_less_add1)
  qed
  moreover have "seg_sn x < snd_nxt ?c" if x: "x \<in> set (snd_buf ?c)" for x
  proof (cases "x \<in> set segs")
    case True
    then obtain i where "i < ?n" "seg_sn x = snd_nxt c + of_nat i" using ge [of "seg_sn x"] by auto
    then show ?thesis using u [of i] u [of ?n] by (simp add: e word_less_nat_alt)
  next
    case False
    then show ?thesis using x s old u [of ?n] by (fastforce simp: e word_less_nat_alt)
  qed
  moreover have "first_sn (snd_nxt ?c) (snd_buf ?c) = first_sn (snd_nxt c) (snd_buf c)"
  proof (cases "snd_buf c")
    case Nil
    then show ?thesis using s e len by (cases segs; cases ?n) (auto simp: upt_rec)
  next
    case (Cons a list)
    then show ?thesis by (simp add: s)
  qed
  ultimately show ?thesis using wf e s le len by (simp add: snd_wf_def)
qed

lemma flush_write_returns:
  assumes "32 \<le> unat (mtu c)" and "\<forall>s \<in> set (snd_queue c) \<union> set (snd_buf c). 32 + unat (seg_len s) \<le> unat (mtu c)"
  shows "on_kcp_write_timeout xxh64 ts c io \<noteq> None"
proof -
  obtain g c1 io1 where f: "flush_control xxh64 ts c io = (g, c1, io1)" by (metis prod.exhaust)
  then have fr: "snd_queue c1 = snd_queue c" "snd_buf c1 = snd_buf c" "mtu c1 = mtu c"
    using flush_control_ok(1) [OF f assms(1)] by (simp_all add: flush_frame_def)
  let ?c = "flush_credit ts (flush_move ts (flush_cwnd c1) (snd_queue c1) c1)"
  have "\<forall>s \<in> set (snd_buf ?c). 32 + unat (seg_len s) \<le> unat (mtu ?c)"
    using flush_move_segments [of "snd_queue c1" c1 "\<lambda>l. 32 + unat l \<le> unat (mtu c)"] assms(2) fr by simp
  then have "flush_transmit ts ?c io1 \<noteq> None" by (rule flush_transmit_returns)
  then show ?thesis using f by (auto simp: on_kcp_write_timeout_def Let_def simp del: not_None_eq split: bool.splits)
qed

section \<open>Properties\<close>

text \<open>
  C9. Flushing ends: when every queued and every unacknowledged segment fits into a packet of the
  current MTU, \<open>on_kcp_write_timeout\<close> returns, whatever the network and the clock do.
\<close>

theorem flush_returns:
  assumes "32 \<le> unat (mtu c)" and "\<forall>s \<in> set (snd_queue c) \<union> set (snd_buf c). 32 + unat (seg_len s) \<le> unat (mtu c)"
  shows "\<exists>r. on_kcp_write_timeout xxh64 ts c io = Some r"
  using flush_write_returns [OF assms] by auto

definition sample_queued :: kcp_connection where
  "sample_queued = sample_conn\<lparr>snd_queue := [sample_segment, sample_segment], nsnd_que := 2\<rparr>"

lemma sample_queued_fields:
  "mtu sample_queued = 40" "snd_queue sample_queued = [sample_segment, sample_segment]" "snd_buf sample_queued = []"
  "snd_nxt sample_queued = 0" "snd_una sample_queued = 0" "nsnd_que sample_queued = 2" "nsnd_buf sample_queued = 0"
  by (simp_all add: sample_queued_def sample_conn_def init_defs u32_of_i32_def)

theorem flush_returns_witness: "\<exists>r. on_kcp_write_timeout (\<lambda>d. 0) 5000000 sample_queued sample_io = Some r"
  by (rule flush_returns) (auto simp: sample_queued_fields sample_segment_def)


text \<open>
  C17. What a flush sends: every datagram goes to the peer and has at most MTU bytes.
\<close>

theorem flush_datagrams_fit:
  assumes "on_kcp_write_timeout xxh64 ts c io = Some (e, c', io')" and "32 \<le> unat (mtu c)"
  shows "\<exists>es. io_trace io' = io_trace io @ es \<and> (\<forall>a d. Send a d \<in> set es \<longrightarrow> a = remote_host c \<and> length d \<le> unat (mtu c))"
proof -
  obtain g c1 io1 where f: "flush_control xxh64 ts c io = (g, c1, io1)" by (metis prod.exhaust)
  note fc = flush_control_ok [OF f assms(2)]
  let ?c = "flush_credit ts (flush_move ts (flush_cwnd c1) (snd_queue c1) c1)"
  have fr: "remote_host ?c = remote_host c" "mtu ?c = mtu c" using fc(1) by (simp_all add: flush_frame_def)
  consider "io' = io" | "io' = io1" | "flush_transmit ts ?c io1 = Some (e, c', io')"
    using assms(1) f by (auto simp: on_kcp_write_timeout_def Let_def split: if_splits bool.splits)
  then have "grows (within (remote_host c) (unat (mtu c))) (io_trace io) (io_trace io')"
  proof cases
    case 3
    then show ?thesis using flush_transmit_within [OF 3] fr fc(2) by (auto intro: grows_trans)
  qed (use fc in auto)
  then show ?thesis by (simp add: grows_def)
qed

lemma sample_flush_returns: "on_kcp_write_timeout (\<lambda>d. 0) 5000000 sample_queued sample_io \<noteq> None"
  using flush_write_returns [of sample_queued "\<lambda>d. 0" 5000000 sample_io]
  by (auto simp: sample_queued_fields sample_segment_def)

theorem flush_datagrams_fit_witness:
  "\<exists>e c' io'. on_kcp_write_timeout (\<lambda>d. 0) 5000000 sample_queued sample_io = Some (e, c', io') \<and>
    (\<exists>es. io_trace io' = io_trace sample_io @ es \<and>
       (\<forall>a d. Send a d \<in> set es \<longrightarrow> a = remote_host sample_queued \<and> length d \<le> unat (mtu sample_queued)))"
proof -
  obtain e c' io' where r: "on_kcp_write_timeout (\<lambda>d. 0) 5000000 sample_queued sample_io = Some (e, c', io')"
    using sample_flush_returns by auto
  show ?thesis using flush_datagrams_fit [OF r] r by (simp add: sample_queued_fields)
qed


text \<open>
  C16. Filling the window: from the send queue, \<open>flush_move\<close> appends segments to the send buffer in
  order, with consecutive sequence numbers from \<open>snd_nxt\<close> on, until the queue is empty or
  \<open>snd_nxt\<close> reaches \<open>snd_una + w\<close>, and never beyond; the invariant of the sender is kept.
\<close>

theorem flush_fills_window:
  assumes "snd_wf c" and "unat (snd_nxt c) + length (snd_queue c) < 2 ^ 32"
  shows "\<exists>n c'. flush_move ts w (snd_queue c) (c :: kcp_connection) = c' \<and> snd_wf c' \<and>
    snd_queue c' = drop n (snd_queue c) \<and> uint (snd_nxt c') = uint (snd_nxt c) + int n \<and>
    map seg_data (snd_buf c') = map seg_data (snd_buf c) @ map seg_data (take n (snd_queue c)) \<and>
    map seg_sn (snd_buf c') = map seg_sn (snd_buf c) @ map (\<lambda>i. snd_nxt c + of_nat i) [0..<n] \<and>
    uint (snd_nxt c') \<le> max (uint (snd_nxt c)) (uint (snd_una c) + w) \<and>
    (snd_queue c' = [] \<or> uint (snd_una c') + w \<le> uint (snd_nxt c'))"
proof -
  let ?c = "flush_move ts w (snd_queue c) c" and ?n = "flush_room w c"
  obtain segs where s: "snd_buf ?c = snd_buf c @ segs" "map seg_sn segs = map (\<lambda>i. snd_nxt c + of_nat i) [0..<?n]"
    "map seg_data segs = map seg_data (take ?n (snd_queue c))"
    using flush_move_parts [OF assms(2), of ts w] by blast
  have e: "snd_queue ?c = drop ?n (snd_queue c)" "snd_nxt ?c = snd_nxt c + of_nat ?n" "snd_una ?c = snd_una c"
    using flush_move_eq [OF refl assms(2), of ts w] by (simp_all add: Let_def)
  have "unat (snd_nxt c + of_nat ?n) = unat (snd_nxt c) + ?n"
    using assms(2) by (intro unat_plus_of_nat) (simp add: flush_room_def)
  then have u: "uint (snd_nxt ?c) = uint (snd_nxt c) + int ?n" unfolding e(2) uint_nat by simp
  show ?thesis
    using flush_move_wf [OF assms, of ts w] s e u flush_room_bound [of c w] flush_room_full [of w c]
    by (intro exI [where x = ?n] exI [where x = ?c]) auto
qed

theorem flush_fills_window_witness:
  "\<exists>n c'. flush_move 7 1 (snd_queue sample_queued) sample_queued = c' \<and> snd_wf c' \<and>
    snd_queue c' = drop n (snd_queue sample_queued) \<and> uint (snd_nxt c') = uint (snd_nxt sample_queued) + int n \<and>
    map seg_data (snd_buf c') = map seg_data (snd_buf sample_queued) @ map seg_data (take n (snd_queue sample_queued)) \<and>
    map seg_sn (snd_buf c') =
      map seg_sn (snd_buf sample_queued) @ map (\<lambda>i. snd_nxt sample_queued + of_nat i) [0..<n] \<and>
    uint (snd_nxt c') \<le> max (uint (snd_nxt sample_queued)) (uint (snd_una sample_queued) + 1) \<and>
    (snd_queue c' = [] \<or> uint (snd_una c') + 1 \<le> uint (snd_nxt c'))"
  by (rule flush_fills_window) (simp_all add: snd_wf_def sample_queued_fields)


text \<open>
  A segment longer than a packet of the current MTU: the loop at \<open>label_send\<close> never places it,
  in any number of rounds; only a failing send ends the loop. The MTU can shrink below the size of
  a queued segment when the handshake ends.
\<close>

lemma flush_too_long_never_placed:
  assumes "m < 32 + unat (seg_len s)" and "32 + unat (seg_len s) < 2 ^ 32"
  shows "\<nexists>fuel full' cur' io'. place_segment fuel host m s full cur io = Placed full' cur' io'"
  using place_segment_too_long [OF assms] by blast

text \<open>
  The window probe does not back off: from a fresh connection, however often
  \<open>on_kcp_write_timeout\<close> runs with a closed window, the waiting time \<open>probe_wait\<close> never leaves 0 and
  1: half of 1 is 0 in integer arithmetic, so the interval is never extended from one microsecond.
\<close>

lemma window_probe_no_backoff:
  assumes "probe_wait c \<le> 1"
  shows "probe_wait (foldl (\<lambda>c ts. flush_window_probe ts c) c timestamps) \<le> 1"
  using assms
proof (induction timestamps arbitrary: c)
  case (Cons ts tss)
  have "probe_wait c = 0 \<or> probe_wait c = 1" using Cons.prems by (auto simp: word_le_nat_alt word_unat_eq_iff)
  then have "probe_wait (flush_window_probe ts c) \<le> 1" by (auto simp: flush_window_probe_def Let_def kcp_const)
  then show ?case using Cons.IH by simp
qed simp

end
