(* ===== verification/Kcp_Session.thy ===== *)
theory Kcp_Session
  imports Kcp_Context Kcp_Flush
begin

text \<open>
  Sessions: connecting and accepting, closing, the dispatch of received packets and the event
  callbacks, from \<^verbatim>\<open>kcp/src/kcpp.c\<close> and \<^verbatim>\<open>kcp/src/kcp_protocol.c\<close>.

  What the code does not control is \<open>kcp_env\<close>: the two hash functions of xxHash, the contents of
  memory that is read before it is written, the wall clock, and the memory the push handler asks
  for. The \<open>on_connect\<close> callback, from which \<open>kcp_accept\<close> is called, is an argument. The unchecked
  allocations of the sources succeed.

  A packet whose handling does not return a result is a \<open>kcp_fault\<close>; \<open>Out_of_fuel\<close> is only for the loop
  over the packets of a datagram, which never gives it (\<open>parse_packet_returns\<close> of \<open>Kcp_Dispatch\<close>).
\<close>

section \<open>Environment and packets\<close>

record kcp_env =
  env_xxh32 :: "bytes \<Rightarrow> u32"
  env_xxh64 :: "bytes \<Rightarrow> u64"
  env_raw :: kcp_connection \<comment> \<open>an allocated block before it is written\<close>
  env_stack :: bytes
  env_word :: u32 \<comment> \<open>a word of the stack\<close>
  env_time :: u32 \<comment> \<open>\<open>time(NULL)\<close>\<close>
  env_push :: push_mem

datatype kcp_fault = Bad_load | Use_after_free | Assert_failed | No_return | Out_of_fuel

definition session_header :: "u4 \<Rightarrow> kcp_body \<Rightarrow> 'a kcp_snd_scheme \<Rightarrow> kcp_proto_header" where
  "session_header cmd body c =
     \<lparr>hd_scid = scid c, hd_dcid = dcid c, hd_cmd = cmd, hd_opt = 0, hd_frg = 0, hd_wnd = 0,
      hd_body = body, hd_options = []\<rparr>"

definition header_packet :: "kcp_proto_header \<Rightarrow> bytes" where
  "header_packet h = snd (kcp_proto_header_encode h (replicate KCP_HEADER_SIZE 0) KCP_HEADER_SIZE)"

definition syn_packet :: "kcp_proto_header \<Rightarrow> bytes" where
  "syn_packet h =
     snd (kcp_proto_header_encode h (replicate (KCP_HEADER_SIZE + KCP_OPTION_TAG_MTU_LEN) 0)
       (KCP_HEADER_SIZE + KCP_OPTION_TAG_MTU_LEN))"

definition mtu_option :: "int \<Rightarrow> kcp_option" where
  "mtu_option m = \<lparr>opt_tag = KCP_OPTION_TAG_MTU, opt_length = 4, u64_value = u64_of_i32 m\<rparr>"

definition send_header :: "kcp_proto_header \<Rightarrow> kcp_connection \<Rightarrow> kcp_io \<Rightarrow> (kcp_error + nat) \<times> kcp_io" where
  "send_header h c io = kcp_send_packet c [header_packet h] io"

definition append_header :: "kcp_proto_header \<Rightarrow> kcp_connection \<Rightarrow> kcp_connection" where
  "append_header h c = c\<lparr>kcp_proto_header_list := kcp_proto_header_list c @ [h]\<rparr>"

definition arm_timer :: "kcp_timer \<Rightarrow> kcp_connection \<Rightarrow> kcp_io \<Rightarrow> kcp_io" where
  "arm_timer t c io = emit (Timer_add (conn_addr c) t (receive_timeout c)) io"

text \<open>The first MTU option of a list, or the default.\<close>

fun option_mtu :: "u32 \<Rightarrow> kcp_option list \<Rightarrow> u32" where
  "option_mtu d [] = d"
| "option_mtu d (o' # os) = (if opt_tag o' = KCP_OPTION_TAG_MTU then ucast (u64_value o') else option_mtu d os)"

text \<open>\<open>pos->cmd == cmd && pos->syn_fin_data.rand_sn == sn\<close> for an entry of the list of sent headers.\<close>

definition sent_header :: "u4 \<Rightarrow> u32 \<Rightarrow> kcp_connection \<Rightarrow> kcp_proto_header option" where
  "sent_header cmd sn c =
     find (\<lambda>h. hd_cmd h = cmd \<and> (case as_syn_fin_data (hd_body h) of (pts, ts, psn, rsn) \<Rightarrow> rsn = sn))
       (kcp_proto_header_list c)"

section \<open>Packets of an established connection\<close>

text \<open>The FIN a passive side answers with: it acknowledges \<open>sn\<close>.\<close>

definition fin_header :: "kcp_env \<Rightarrow> u64 \<Rightarrow> u64 \<Rightarrow> u32 \<Rightarrow> kcp_connection \<Rightarrow> kcp_proto_header" where
  "fin_header env packet_ts ts sn c =
     session_header KCP_CMD_FIN (Syn_fin_data packet_ts ts sn (env_xxh32 env (le_bytes 8 ts))) c"

definition on_kcp_fin_pcaket ::
    "kcp_env \<Rightarrow> kcp_proto_header \<Rightarrow> u64 \<Rightarrow> kcp_connection \<Rightarrow> kcp_io \<Rightarrow> kcp_error \<times> kcp_connection \<times> kcp_io" where
  "on_kcp_fin_pcaket env h timestamp c io =
     (case as_syn_fin_data (hd_body h) of (pts, ts, psn, rsn) \<Rightarrow>
        let fin = fin_header env timestamp timestamp rsn c;
            c1 = (append_header fin c)\<lparr>state := KCP_STATE_FIN_RECEIVED\<rparr>;
            io1 = snd (send_header fin c io);
            (ok, io2) = (if fin_timer_event c1 then (True, io1) else malloc io1)
        in if \<not> ok then (NO_MEMORY, c1, io2)
           else let c2 = c1\<lparr>fin_timer_event := True\<rparr> in (NO_ERROR, c2, arm_timer Fin_timer c2 io2))"

text \<open>The loop over the open pings on a PONG: the pings kept, the ping context, the count of pongs.\<close>

fun pong_scan :: "u64 \<Rightarrow> u64 \<times> u64 \<times> u64 \<Rightarrow> ping_session list \<Rightarrow> ping_ctx \<Rightarrow> u32 \<Rightarrow>
    ping_session list \<times> ping_ctx \<times> u32" where
  "pong_scan timestamp d [] p n = ([], p, n)"
| "pong_scan timestamp (pts, ts, sn) (pos # rest) p n =
     (if ps_packet_sn pos = sn
      then pong_scan timestamp (pts, ts, sn) rest
             (p\<lparr>keepalive_rtt := ucast ((timestamp - keepalive_packet_ts p) - (ts - pts)),
                keepalive_sn := 0, keepalive_packet_ts := 0,
                keepalive_next_ts := timestamp + ucast (keepalive_interval p), keepalive_xretries := 0\<rparr>) (n + 1)
      else if ps_packet_ts pos + ucast (2 * keepalive_timeout p) < timestamp
      then pong_scan timestamp (pts, ts, sn) rest p n
      else (case pong_scan timestamp (pts, ts, sn) rest p n of (kept, p', n') \<Rightarrow> (pos # kept, p', n')))"

definition input_ping :: "kcp_proto_header \<Rightarrow> u64 \<Rightarrow> kcp_connection \<Rightarrow> kcp_connection" where
  "input_ping h timestamp c =
     (case as_ping_data (hd_body h) of (pts, ts, sn) \<Rightarrow>
        c\<lparr>ping_context := (ping_context c)\<lparr>keepalive_packet_ts := timestamp, keepalive_sn := sn,
            keepalive_next_ts := timestamp + ucast (keepalive_interval (ping_context c))\<rparr>,
          probe := probe c OR KCP_PING_RECV, ping_count := ping_count c + 1\<rparr>)"

definition input_pong :: "kcp_proto_header \<Rightarrow> u64 \<Rightarrow> kcp_connection \<Rightarrow> kcp_connection" where
  "input_pong h timestamp c =
     (case pong_scan timestamp (as_ping_data (hd_body h)) (ping_request_queue (ping_context c)) (ping_context c) (pong_count c) of
        (kept, p, n) \<Rightarrow> c\<lparr>ping_context := p\<lparr>ping_request_queue := kept\<rparr>, pong_count := n\<rparr>)"

definition hd_wnd_int :: "kcp_proto_header \<Rightarrow> int" where
  "hd_wnd_int h = uint (hd_wnd h)"

text \<open>\<open>behind\<close>: the bytes of the read buffer behind the packet.\<close>

definition kcp_input_pcaket ::
    "kcp_env \<Rightarrow> bytes \<Rightarrow> kcp_proto_header \<Rightarrow> kcp_connection \<Rightarrow> kcp_io \<Rightarrow> (kcp_error \<times> kcp_connection \<times> kcp_io) option" where
  "kcp_input_pcaket env behind h c io =
     (case kcp_time_monotonic_us io of (timestamp, io1) \<Rightarrow>
        if hd_cmd h = KCP_CMD_ACK
        then Some (NO_ERROR, on_kcp_ack_pcaket h timestamp (c\<lparr>rmt_wnd := hd_wnd_int h\<rparr>), io1)
        else if hd_cmd h = KCP_CMD_PUSH
        then Some (on_kcp_push_pcaket (env_push env) h timestamp
               (if hd_frg h > 0 then c\<lparr>rmt_wnd := hd_wnd_int h\<rparr> else c) io1)
        else if hd_cmd h = KCP_CMD_WASK then Some (NO_ERROR, c\<lparr>probe := probe c OR KCP_ASK_TELL\<rparr>, io1)
        else if hd_cmd h = KCP_CMD_WINS then Some (NO_ERROR, c\<lparr>rmt_wnd := hd_wnd_int h\<rparr>, io1)
        else if hd_cmd h = KCP_CMD_PING then Some (NO_ERROR, input_ping h timestamp c, io1)
        else if hd_cmd h = KCP_CMD_PONG then Some (NO_ERROR, input_pong h timestamp c, io1)
        else if hd_cmd h = KCP_CMD_MTU_PROBE
        then (case kcp_mtu_probe_received (env_xxh64 env) (env_stack env) h timestamp c io1 of
                (e, io2) \<Rightarrow> Some (e, c, io2))
        else if hd_cmd h = KCP_CMD_MTU_ACK then kcp_mtu_ack_received (env_xxh64 env) behind h c io1
        else if hd_cmd h = KCP_CMD_FIN then Some (on_kcp_fin_pcaket env h timestamp c io1)
        else Some (NO_ERROR, c, io1))"

section \<open>The read callback of a connection\<close>

fun select_candidate :: "nat \<Rightarrow> sockaddr list \<Rightarrow> sockaddr \<Rightarrow> kcp_connection \<Rightarrow> kcp_connection" where
  "select_candidate i [] host c = c"
| "select_candidate i (a # as) host c =
     (if sockaddr_equal a host then c\<lparr>remote_host := host, selected_candidate_index := int i\<rparr>
      else select_candidate (i + 1) as host c)"

definition notify :: "bool \<Rightarrow> kcp_effect \<Rightarrow> kcp_io \<Rightarrow> kcp_io" where
  "notify present e io = (if present then emit e io else io)"

text \<open>The branch for RST, by the state of the connection.\<close>

definition read_rst :: "kcp_callbacks \<Rightarrow> kcp_connection \<Rightarrow> kcp_io \<Rightarrow> kcp_connection \<times> kcp_io" where
  "read_rst cbs c io =
     (case state c of
        KCP_STATE_DISCONNECTED \<Rightarrow> (c, io)
      | KCP_STATE_SYN_SENT \<Rightarrow>
          (c\<lparr>state := KCP_STATE_DISCONNECTED\<rparr>, emit (On_connected (conn_addr c) CONNECTION_REFUSED) io)
      | KCP_STATE_SYN_RECEIVED \<Rightarrow>
          (c\<lparr>state := KCP_STATE_DISCONNECTED\<rparr>,
           notify (has_on_accepted cbs) (On_accepted (conn_addr c) CONNECTION_RESET) io)
      | _ \<Rightarrow>
          (c\<lparr>state := KCP_STATE_DISCONNECTED\<rparr>,
           notify (has_on_closed cbs) (On_closed (conn_addr c) CONNECTION_RESET) io))"

text \<open>The server side of the handshake completes with the first ACK or PUSH.\<close>

definition read_syn_received :: "kcp_callbacks \<Rightarrow> kcp_connection \<Rightarrow> kcp_io \<Rightarrow> kcp_connection \<times> kcp_io" where
  "read_syn_received cbs c io =
     (let c1 = c\<lparr>state := KCP_STATE_CONNECTED, syn_timer_event := False\<rparr>;
          io1 = free_timer (syn_timer_event c) (conn_addr c) Syn_timer io;
          (c2, io2) = (if has_on_accepted cbs
                       then (case kcp_time_monotonic_ms io1 of (ts, io') \<Rightarrow>
                               (c1\<lparr>ts_flush := ts + u64_of_i32 (interval c1),
                                   ping_context := (ping_context c1)\<lparr>keepalive_next_ts :=
                                     ts * 1000 + ucast (keepalive_interval (ping_context c1))\<rparr>\<rparr>,
                                emit (On_accepted (conn_addr c) NO_ERROR) io'))
                       else (c1, io1))
      in (c2\<lparr>need_write_timer_event := True\<rparr>, emit Refresh_write_timer io2))"

definition read_fin_sent ::
    "kcp_callbacks \<Rightarrow> kcp_proto_header \<Rightarrow> kcp_connection \<Rightarrow> kcp_io \<Rightarrow> kcp_connection \<times> kcp_io" where
  "read_fin_sent cbs h c io =
     (case as_syn_fin_data (hd_body h) of (pts, ts, psn, rsn) \<Rightarrow>
        if hd_cmd h = KCP_CMD_FIN \<and> sent_header KCP_CMD_FIN psn c \<noteq> None
        then (case kcp_time_monotonic_us io of (now, io1) \<Rightarrow>
                let io2 = snd (send_header (session_header KCP_CMD_ACK (Ack_data pts now rsn 0) c) c io1)
                in (c\<lparr>state := KCP_STATE_DISCONNECTED\<rparr>,
                    notify (has_on_closed cbs) (On_closed (conn_addr c) NO_ERROR) io2))
        else (c, io))"

definition read_fin_received ::
    "kcp_env \<Rightarrow> kcp_callbacks \<Rightarrow> kcp_proto_header \<Rightarrow> kcp_connection \<Rightarrow> kcp_io \<Rightarrow> kcp_connection \<times> kcp_io" where
  "read_fin_received env cbs h c io =
     (if hd_cmd h = KCP_CMD_FIN
      then (case as_syn_fin_data (hd_body h) of (pts, ts, psn, rsn) \<Rightarrow>
              case kcp_time_monotonic_us io of (now, io1) \<Rightarrow>
                let fin = fin_header env now now rsn c
                in (append_header fin c, snd (send_header fin c io1)))
      else if hd_cmd h = KCP_CMD_ACK
      then (case as_ack_data (hd_body h) of (pts, ats, sn, una) \<Rightarrow>
              if sent_header KCP_CMD_FIN sn c \<noteq> None
              then (c\<lparr>state := KCP_STATE_DISCONNECTED\<rparr>,
                    notify (has_on_closed cbs) (On_closed (conn_addr c) NO_ERROR) io)
              else (c, io))
      else (c, io))"

text \<open>Refusing a packet in the handshake: RST, the callback, and the connection is to be destroyed.\<close>

definition read_send_rst :: "kcp_env \<Rightarrow> kcp_callbacks \<Rightarrow> kcp_connection \<Rightarrow> kcp_io \<Rightarrow> kcp_connection \<times> kcp_io" where
  "read_send_rst env cbs c io =
     (case kcp_time_monotonic_us io of (now, io1) \<Rightarrow>
        let io2 = snd (send_header (session_header KCP_CMD_RST (Packet_data now 0 (env_word env) 0 0 []) c) c io1)
        in (c\<lparr>state := KCP_STATE_DISCONNECTED\<rparr>,
            case state c of
              KCP_STATE_SYN_SENT \<Rightarrow> emit (On_connected (conn_addr c) CONNECTION_REFUSED) io2
            | KCP_STATE_SYN_RECEIVED \<Rightarrow> notify (has_on_accepted cbs) (On_accepted (conn_addr c) CONNECTION_RESET) io2
            | _ \<Rightarrow> io2))"

text \<open>
  \<open>on_kcp_read_event\<close>; the result says whether the function ends with \<open>kcp_connection_destroy\<close>.
\<close>

definition on_kcp_read_event ::
    "kcp_env \<Rightarrow> kcp_callbacks \<Rightarrow> bytes \<Rightarrow> kcp_proto_header \<Rightarrow> sockaddr \<Rightarrow> kcp_connection \<Rightarrow> kcp_io \<Rightarrow>
     (bool \<times> kcp_connection \<times> kcp_io) option" where
  "on_kcp_read_event env cbs behind h host c0 io =
     (let c = (if state c0 = KCP_STATE_SYN_SENT then select_candidate 0 (candidates c0) host c0 else c0)
      in if \<not> sockaddr_equal (remote_host c) host then Some (False, c, io)
         else if hd_cmd h = KCP_CMD_RST then Some (False, read_rst cbs c io)
         else case state c of
           KCP_STATE_SYN_RECEIVED \<Rightarrow>
             if hd_cmd h = KCP_CMD_ACK \<or> hd_cmd h = KCP_CMD_PUSH then Some (False, read_syn_received cbs c io)
             else Some (True, read_send_rst env cbs c io)
         | KCP_STATE_CONNECTED \<Rightarrow>
             (case kcp_input_pcaket env behind h c io of None \<Rightarrow> None | Some (e, c', io') \<Rightarrow> Some (False, c', io'))
         | KCP_STATE_FIN_SENT \<Rightarrow> Some (False, read_fin_sent cbs h c io)
         | KCP_STATE_FIN_RECEIVED \<Rightarrow> Some (False, read_fin_received env cbs h c io)
         | _ \<Rightarrow> Some (False, c, io))"

section \<open>Lemmas\<close>

text \<open>Which connection it is and in which state: what most handlers leave alone.\<close>

definition identity :: "'a kcp_snd_scheme \<Rightarrow> kcp_state \<times> nat \<times> u16 \<times> u16" where
  "identity c = (state c, conn_addr c, scid c, dcid c)"

lemma identity_account: "identity (fst (ack_account ts acc pos)) = identity (fst acc)"
  by (simp add: identity_def ack_account_def Let_def split: prod.splits)

lemma identity_accounts: "identity (fst (foldl (ack_account ts) acc ps)) = identity (fst acc)"
  by (induction ps arbitrary: acc) (simp_all add: identity_account)

lemma identity_bbr: "identity (bbr_on_ack c now a b r) = identity c"
proof -
  have "cc_same d e \<Longrightarrow> identity d = identity e" for d e :: "'a kcp_snd_scheme"
    by (cases d; cases e) (simp add: cc_same_def identity_def)
  then show ?thesis by (simp add: cc_same_on_ack)
qed

lemma identity_ack: "identity (on_kcp_ack_pcaket h ts c) = identity c"
proof -
  have f: "identity (fst (fst (ack_first ts pts ats sn d))) = identity d" for pts ats sn and d :: "'a kcp_snd_scheme"
    by (simp add: ack_first_def Let_def identity_account split: prod.splits option.splits)
       (simp add: identity_def update_rtt_def Let_def split: prod.splits)
  have s: "identity (fst (ack_second ts una acc)) = identity (fst acc)" for una and acc :: "'a kcp_snd_scheme \<times> u64 \<times> u64"
    by (simp add: ack_second_def Let_def identity_accounts split: prod.splits) (simp add: identity_def)
  obtain pts ats sn una where b: "as_ack_data (hd_body h) = (pts, ats, sn, una)" by (metis prod.exhaust)
  obtain acc rtt where 1: "ack_first ts pts ats sn (ping_refresh ts c) = (acc, rtt)" by (metis prod.exhaust)
  obtain c2 a w where 2: "ack_second ts una acc = (c2, a, w)" by (metis prod.exhaust)
  have "identity c2 = identity (ping_refresh ts c)"
    using f [of pts ats sn "ping_refresh ts c"] s [of una acc] 1 2 by simp
  then have "identity c2 = identity c" by (simp add: identity_def ping_refresh_def)
  then have "identity (ack_advance (ack_shrink c2)) = identity c" by (simp add: identity_def ack_advance_def ack_shrink_def)
  then have "identity ((ack_advance (ack_shrink c2))\<lparr>bbr_delivered := x, bbr_delivered_ts := y\<rparr>) = identity c" for x y
    by (simp add: identity_def)
  then show ?thesis
    using \<open>identity (ack_advance (ack_shrink c2)) = identity c\<close>
    by (simp add: on_kcp_ack_pcaket_def b 1 2 Let_def identity_bbr) (simp add: identity_def ping_refresh_def)
qed

lemma identity_push: "identity (fst (snd (on_kcp_push_pcaket mem h ts c io))) = identity c"
proof -
  have put: "identity (kcp_segment_recv_put s d) = identity d" for s and d :: "'a kcp_rcv_scheme"
    by (simp add: identity_def kcp_segment_recv_put_def)
  have get: "kcp_segment_recv_get m d = (r, d') \<Longrightarrow> identity d' = identity d" for m d r and d' :: "'a kcp_rcv_scheme"
    by (auto simp: identity_def kcp_segment_recv_get_def split: list.splits if_splits)
  have create: "kcp_rcv_packet_create m p sn d = Some d' \<Longrightarrow> identity d' = identity d" for m p sn d and d' :: "'a kcp_rcv_scheme"
    by (auto simp: identity_def kcp_rcv_packet_create_def kcp_rcv_packet_order_insert_def kcp_rcv_packet_insert_def Let_def
        split: if_splits)
  have frag: "identity (push_advance s (push_fragment s (push_head s d))) = identity d" for s and d :: "'a kcp_rcv_scheme"
    by (simp add: identity_def push_advance_def push_fragment_def push_head_def update_packet_def kcp_rcv_segment_insert_def
        kcp_rcv_packet_order_insert_def Let_def)
  have fold: "identity (foldl deliver_fragment d ss) = identity d" for ss and d :: "'a kcp_rcv_scheme"
    by (induction ss arbitrary: d) (simp_all add: identity_def deliver_fragment_def)
  have deliver: "identity (fst (push_deliver d io')) = identity d" for io' and d :: "'a kcp_rcv_scheme"
    using fold by (simp add: push_deliver_def Let_def kcp_rcv_packet_destroy_def identity_def split: list.splits option.splits)
  have store: "identity (fst (snd (push_store mem s a d io'))) = identity d" for s a io' and d :: "'a kcp_rcv_scheme"
  proof -
    have "identity (fst (push_deliver (push_advance s (push_fragment s (push_head s (d'\<lparr>ack_item := x\<rparr>)))) io')) = identity d'"
      for x and d' :: "'a kcp_rcv_scheme"
      by (simp add: deliver frag) (simp add: identity_def)
    then show ?thesis
      using create by (auto simp: push_store_def Let_def put split: option.splits prod.splits if_splits)
  qed
  obtain pts sn psn una len dat where d: "as_packet_data (hd_body h) = (pts, sn, psn, una, len, dat)" by (metis prod.exhaust)
  obtain r c1 where g: "kcp_segment_recv_get (mem_segment mem) (ping_refresh ts c) = (r, c1)" by (metis prod.exhaust)
  have p: "identity (ping_refresh ts c) = identity c" by (simp add: identity_def ping_refresh_def)
  then have c1: "identity c1 = identity c" using get [OF g] by simp
  show ?thesis
    using p c1 store by (cases rule: push_state_cases [OF d g, of io]) (simp_all add: identity_def)
qed

lemma identity_probe [simp]: "identity (update_probe f c) = identity c"
  by (simp add: identity_def update_probe_def)

lemma identity_completed: "identity (fst (on_mtu_probe_completed m e c io)) = identity c"
  by (simp add: identity_def on_mtu_probe_completed_def Let_def)

lemma identity_round: "mtu_probe_round x c io = (b, c', io') \<Longrightarrow> identity c' = identity c"
  by (auto simp: mtu_probe_round_def Let_def split: prod.splits if_splits)

lemma identity_send_probe: "kcp_send_mtu_probe_packet n x c io = Some (c', io') \<Longrightarrow> identity c' = identity c"
proof (induction n arbitrary: c io)
  case (Suc n)
  obtain b d io1 where r: "mtu_probe_round x c io = (b, d, io1)" by (metis prod.exhaust)
  then show ?case using Suc identity_round [OF r] by (cases b) auto
qed simp

lemma identity_mtu_probe: "kcp_mtu_probe x t r c io = Some (e, c', io') \<Longrightarrow> identity c' = identity c"
proof -
  let ?t = "if t = 0 then u32_of_i32 (s32 (2 * rx_srtt c)) else t"
  let ?c1 = "update_probe (\<lambda>q. q\<lparr>mtu_lbound := mtu_current q, mtu_ubound := of_nat ETHERNET_MTU, probe_timeout := ?t, probe_retries := r\<rparr>) c"
  let ?c2 = "update_probe (\<lambda>q. q\<lparr>probe_timeout_event := True\<rparr>) ?c1"
  obtain ok io1 where m: "(if probe_timeout_event (mtu_probe_context ?c1) then (True, io) else malloc io) = (ok, io1)"
    by (metis prod.exhaust)
  assume "kcp_mtu_probe x t r c io = Some (e, c', io')"
  then have "c' = ?c1 \<or> (\<exists>io2 io3. kcp_send_mtu_probe_packet mtu_fuel x ?c2 io2 = Some (c', io3))"
    by (cases ok) (auto simp: kcp_mtu_probe_def Let_def m split: option.splits)
  then show ?thesis using identity_send_probe [of mtu_fuel x ?c2 _ c'] by auto
qed

lemma identity_probe_update:
  assumes "mtu_probe_update x c io = Some (c', io')"
  shows "identity c' = identity c"
proof -
  let ?l = "update_probe (\<lambda>q. q\<lparr>mtu_current := mtu_lbound q, mtu_ubound := mtu_lbound q\<rparr>) c"
  let ?m = "update_probe (\<lambda>q. q\<lparr>mtu_current := (mtu_lbound q + mtu_ubound q) div 2\<rparr>) c"
  let ?p = "mtu_probe_context c"
  let ?io = "emit (Timer_del (conn_addr c) Mtu_timer) io"
  have c: "Some (on_mtu_probe_completed (mtu_lbound ?p) NO_ERROR ?l ?io) = Some (c', io') \<or>
      (\<exists>e. kcp_mtu_probe x (probe_timeout ?p) (probe_retries ?p) ?m io = Some (e, c', io'))"
    using assms unfolding mtu_probe_update_def Let_def
    by (cases "mtu_ubound ?p - mtu_lbound ?p \<le> 16") (simp_all split: if_splits option.splits prod.splits)
  then show ?thesis
    using identity_completed [of "mtu_lbound ?p" NO_ERROR ?l ?io] identity_mtu_probe [of x _ _ ?m io _ c' io'] by auto
qed

lemma identity_mtu_ack:
  assumes "kcp_mtu_ack_received x b h c io = Some (e, c', io')"
  shows "identity c' = identity c"
proof -
  let ?m = "update_probe (\<lambda>q. q\<lparr>mtu_lbound := mtu_current q + 1\<rparr>) c"
  have "c' = c \<or> (\<exists>m. c' = fst (on_mtu_probe_completed m NO_ERROR c io)) \<or> mtu_probe_update x ?m io = Some (c', io')"
    using assms by (auto simp: kcp_mtu_ack_received_def Let_def split: if_splits option.splits prod.splits) (metis fst_conv)
  then show ?thesis using identity_completed [of _ NO_ERROR c io] identity_probe_update [of x ?m io c' io'] by auto
qed

text \<open>An established connection stays established, except that a FIN makes it the passive side of a close.\<close>

lemma identity_input:
  assumes "kcp_input_pcaket env behind h c io = Some (e, c', io')"
  shows "identity c' = (if hd_cmd h = KCP_CMD_FIN then (KCP_STATE_FIN_RECEIVED, snd (identity c)) else identity c)"
proof -
  obtain ts io1 where t: "kcp_time_monotonic_us io = (ts, io1)" by (metis prod.exhaust)
  have w: "identity (c\<lparr>rmt_wnd := x\<rparr>) = identity c" "identity (c\<lparr>probe := y\<rparr>) = identity c" for x y by (simp_all add: identity_def)
  have pi: "identity (input_ping h ts c) = identity c" "identity (input_pong h ts c) = identity c"
    by (simp_all add: identity_def input_ping_def input_pong_def split: prod.splits)
  have fin: "identity c' = (KCP_STATE_FIN_RECEIVED, snd (identity c))" if "on_kcp_fin_pcaket env h ts c io1 = (e, c', io')"
    using that by (auto simp: on_kcp_fin_pcaket_def Let_def identity_def append_header_def split: prod.splits if_splits)
  have push: "identity c' = identity d" if "on_kcp_push_pcaket m h ts d io1 = (e, c', io')" for m d
    using identity_push [of m h ts d io1] that by simp
  show ?thesis
    using assms w pi fin push identity_mtu_ack [of _ behind h c io1 e c' io']
    by (auto simp: kcp_input_pcaket_def t kcp_cmd_defs identity_ack split: if_splits prod.splits)
qed

section \<open>The state machine\<close>

text \<open>The moves of a connection on a received packet, by the command of the packet.\<close>

inductive conn_move :: "kcp_state \<Rightarrow> u4 \<Rightarrow> kcp_state \<Rightarrow> bool" where
  move_stay: "conn_move st cmd st"
| move_reset: "st \<noteq> KCP_STATE_DISCONNECTED \<Longrightarrow> conn_move st KCP_CMD_RST KCP_STATE_DISCONNECTED"
| move_accepted: "cmd = KCP_CMD_ACK \<or> cmd = KCP_CMD_PUSH \<Longrightarrow> conn_move KCP_STATE_SYN_RECEIVED cmd KCP_STATE_CONNECTED"
| move_refused: "cmd \<noteq> KCP_CMD_ACK \<Longrightarrow> cmd \<noteq> KCP_CMD_PUSH \<Longrightarrow> conn_move KCP_STATE_SYN_RECEIVED cmd KCP_STATE_DISCONNECTED"
| move_fin: "conn_move KCP_STATE_CONNECTED KCP_CMD_FIN KCP_STATE_FIN_RECEIVED"
| move_fin_answered: "conn_move KCP_STATE_FIN_SENT KCP_CMD_FIN KCP_STATE_DISCONNECTED"
| move_last_ack: "conn_move KCP_STATE_FIN_RECEIVED KCP_CMD_ACK KCP_STATE_DISCONNECTED"

text \<open>No sequence of packets brings a connection back into its handshake, or out of the closed state.\<close>

inductive_cases conn_move_connectedE: "conn_move KCP_STATE_CONNECTED cmd st'"
inductive_cases conn_move_fin_receivedE: "conn_move KCP_STATE_FIN_RECEIVED cmd st'"
inductive_cases conn_move_disconnectedE: "conn_move KCP_STATE_DISCONNECTED cmd st'"

lemma conn_moves_forward:
  assumes "(\<lambda>s s'. \<exists>cmd. conn_move s cmd s')\<^sup>*\<^sup>* st st'"
  shows "st = KCP_STATE_DISCONNECTED \<Longrightarrow> st' = KCP_STATE_DISCONNECTED"
    and "st = KCP_STATE_CONNECTED \<Longrightarrow> st' \<in> {KCP_STATE_CONNECTED, KCP_STATE_FIN_RECEIVED, KCP_STATE_DISCONNECTED}"
  using assms
  by (induction rule: rtranclp_induct)
     (auto elim: conn_move_connectedE conn_move_fin_receivedE conn_move_disconnectedE)

lemma select_candidate_identity: "identity (select_candidate i as host c) = identity c"
  by (induction i as host c rule: select_candidate.induct) (simp_all add: identity_def)

lemma read_moves:
  assumes "on_kcp_read_event env cbs behind h host c io = Some (gone, c', io')"
  shows "conn_move (state c) (hd_cmd h) (state c') \<and> conn_addr c' = conn_addr c"
proof -
  define d where "d = (if state c = KCP_STATE_SYN_SENT then select_candidate 0 (candidates c) host c else c)"
  have i: "identity d = identity c" by (simp add: d_def select_candidate_identity)
  then have st: "state d = state c" "conn_addr d = conn_addr c" by (simp_all add: identity_def)
  have r: "conn_move (state d) KCP_CMD_RST (state c') \<and> conn_addr c' = conn_addr d" if "read_rst cbs d io = (c', io')"
    using that by (cases "state d") (auto simp: read_rst_def intro: conn_move.intros)
  have s: "state c' = KCP_STATE_CONNECTED \<and> conn_addr c' = conn_addr d" if "read_syn_received cbs d io = (c', io')"
    using that by (auto simp: read_syn_received_def Let_def split: prod.splits if_splits)
  have t: "state c' = KCP_STATE_DISCONNECTED \<and> conn_addr c' = conn_addr d" if "read_send_rst env cbs d io = (c', io')"
    using that by (auto simp: read_send_rst_def Let_def split: prod.splits)
  have f: "(state c' = state d \<or> hd_cmd h = KCP_CMD_FIN \<and> state c' = KCP_STATE_DISCONNECTED) \<and> conn_addr c' = conn_addr d"
    if "read_fin_sent cbs h d io = (c', io')"
    using that by (auto simp: read_fin_sent_def Let_def split: prod.splits if_splits)
  have g: "(state c' = state d \<or> hd_cmd h = KCP_CMD_ACK \<and> state c' = KCP_STATE_DISCONNECTED) \<and> conn_addr c' = conn_addr d"
    if "read_fin_received env cbs h d io = (c', io')"
    using that by (auto simp: read_fin_received_def append_header_def Let_def split: prod.splits if_splits)
  consider (other) "c' = d" | (rst) "hd_cmd h = KCP_CMD_RST" "read_rst cbs d io = (c', io')"
    | (synack) "state d = KCP_STATE_SYN_RECEIVED" "hd_cmd h = KCP_CMD_ACK \<or> hd_cmd h = KCP_CMD_PUSH" "read_syn_received cbs d io = (c', io')"
    | (refuse) "state d = KCP_STATE_SYN_RECEIVED" "hd_cmd h \<noteq> KCP_CMD_ACK" "hd_cmd h \<noteq> KCP_CMD_PUSH" "read_send_rst env cbs d io = (c', io')"
    | (input) e where "state d = KCP_STATE_CONNECTED" "kcp_input_pcaket env behind h d io = Some (e, c', io')"
    | (fin) "state d = KCP_STATE_FIN_SENT" "read_fin_sent cbs h d io = (c', io')"
    | (fin2) "state d = KCP_STATE_FIN_RECEIVED" "read_fin_received env cbs h d io = (c', io')"
    using assms unfolding on_kcp_read_event_def Let_def d_def [symmetric]
    by (cases "state d") (auto split: if_splits option.splits)
  then show ?thesis
  proof cases
    case other then show ?thesis using st by (simp add: move_stay)
  next
    case rst then show ?thesis using st r by simp
  next
    case synack then show ?thesis using st s by (simp add: move_accepted)
  next
    case refuse then show ?thesis using st t by (simp add: move_refused)
  next
    case (input e)
    then show ?thesis using st i identity_input [OF input(2)] by (auto simp: identity_def move_fin move_stay split: if_splits)
  next
    case fin then show ?thesis using st f by (auto simp: move_fin_answered move_stay)
  next
    case fin2 then show ?thesis using st g by (auto simp: move_last_ack move_stay)
  qed
qed

section \<open>Properties\<close>

text \<open>
  C18. The state machine of a session: a received packet moves the connection only along
  \<open>conn_move\<close>, so a handshake cannot be re-entered, a closed connection stays closed, and a FIN is
  answered in the established state; the connection is destroyed on the spot only when a packet is
  refused in \<open>KCP_STATE_SYN_RECEIVED\<close>; and outside of connecting, a packet from another address
  than the peer's has no effect at all.
\<close>

theorem read_state_machine:
  assumes "on_kcp_read_event env cbs behind h host c io = Some (gone, c', io')"
  shows "conn_move (state c) (hd_cmd h) (state c') \<and> conn_addr c' = conn_addr c \<and>
    (gone \<longrightarrow> state c = KCP_STATE_SYN_RECEIVED \<and> state c' = KCP_STATE_DISCONNECTED) \<and>
    (state c \<noteq> KCP_STATE_SYN_SENT \<and> \<not> sockaddr_equal (remote_host c) host \<longrightarrow> c' = c \<and> io' = io)"
proof -
  have "state c = KCP_STATE_SYN_RECEIVED \<and> state c' = KCP_STATE_DISCONNECTED" if gone
  proof -
    have "state (if state c = KCP_STATE_SYN_SENT then select_candidate 0 (candidates c) host c else c) = state c"
      using select_candidate_identity [of 0 "candidates c" host c] by (simp add: identity_def)
    then show ?thesis
      using assms that unfolding on_kcp_read_event_def Let_def
      by (cases "state c") (auto simp: read_send_rst_def Let_def split: if_splits option.splits prod.splits)
  qed
  moreover have "c' = c \<and> io' = io" if "state c \<noteq> KCP_STATE_SYN_SENT \<and> \<not> sockaddr_equal (remote_host c) host"
    using assms that by (simp add: on_kcp_read_event_def)
  ultimately show ?thesis using read_moves [OF assms] by blast
qed

definition sample_env :: kcp_env where
  "sample_env = \<lparr>env_xxh32 = (\<lambda>d. le_word (take 4 d)), env_xxh64 = (\<lambda>d. of_nat (length d)), env_raw = zero_connection,
     env_stack = replicate 40 0, env_word = 0, env_time = 0, env_push = sample_mem\<rparr>"

definition sample_rst :: kcp_proto_header where
  "sample_rst = session_header KCP_CMD_RST (Packet_data 0 0 0 0 0 []) sample_conn"

theorem read_state_machine_witness:
  "on_kcp_read_event sample_env no_callbacks [] sample_rst (remote_host sample_conn) sample_conn sample_io =
     Some (False, sample_conn\<lparr>state := KCP_STATE_DISCONNECTED\<rparr>, sample_io) \<and>
   conn_move (state sample_conn) (hd_cmd sample_rst) KCP_STATE_DISCONNECTED"
proof -
  have r: "on_kcp_read_event sample_env no_callbacks [] sample_rst (remote_host sample_conn) sample_conn sample_io =
     Some (False, sample_conn\<lparr>state := KCP_STATE_DISCONNECTED\<rparr>, sample_io)"
    by (simp add: on_kcp_read_event_def sample_rst_def session_header_def read_rst_def notify_def no_callbacks_def
        sample_conn_def init_defs)
  show ?thesis using read_state_machine [OF r] r by simp
qed

end
