(* ===== verification/Kcp_Handshake.thy ===== *)
theory Kcp_Handshake
  imports Kcp_Session
begin

text \<open>
  Connecting, accepting and closing, and the callbacks of the event loop: the rest of
  \<^verbatim>\<open>kcp/src/kcpp.c\<close>, \<open>on_kcp_syn_received\<close>, \<open>on_kcp_write_event\<close> and
  \<open>on_fin_packet_timeout_cb\<close> of \<^verbatim>\<open>kcp/src/kcp_protocol.c\<close>, and the ICMP handlers of
  \<^verbatim>\<open>kcp/src/kcp_mtu.c\<close>. The functions work on the context and the outside world; a timer gets
  the address of its connection.
\<close>

section \<open>Accepting\<close>

definition syn_header :: "kcp_env \<Rightarrow> u64 \<Rightarrow> u64 \<Rightarrow> u32 \<Rightarrow> int \<Rightarrow> kcp_connection \<Rightarrow> kcp_proto_header" where
  "syn_header env packet_ts ts packet_sn m c =
     (session_header KCP_CMD_SYN (Syn_fin_data packet_ts ts packet_sn (env_xxh32 env (le_bytes 8 ts))) c)
       \<lparr>hd_opt := KCP_CMD_OPT, hd_options := [mtu_option m]\<rparr>"

definition accept_fail ::
    "kcp_error \<Rightarrow> kcp_connection \<Rightarrow> kcp_context \<Rightarrow> kcp_io \<Rightarrow> kcp_error \<times> kcp_context \<times> kcp_io" where
  "accept_fail e c ctx io = (e, kcp_connection_destroy c ctx io)"

text \<open>The part of \<open>kcp_accept\<close> from the SYN on: the answer is sent and the timer is set.\<close>

definition accept_syn ::
    "kcp_env \<Rightarrow> syn_node \<Rightarrow> kcp_connection \<Rightarrow> kcp_context \<Rightarrow> kcp_io \<Rightarrow> kcp_error \<times> kcp_context \<times> kcp_io" where
  "accept_syn env syn c ctx io =
     (case kcp_time_monotonic_us io of (now, io1) \<Rightarrow>
      case malloc io1 of (ok, io2) \<Rightarrow>
        if \<not> ok then accept_fail NO_MEMORY c ctx io2
        else
          let h = syn_header env now now (sn_rand_sn syn) (udp_mtu ctx) c;
              c1 = append_header h c;
              m = option_mtu (u32_of_i32 (udp_mtu ctx)) (sn_options syn);
              (st, io3) = kcp_send_packet c1 [syn_packet h] io2;
              io4 = arm_timer Syn_timer c1 io3
          in if st \<noteq> Inr 1
             then if io_errno io4 = EAGAIN then kcp_add_write_event (conn_addr c1) (put_conn c1 ctx) io4
                  else accept_fail WRITE_ERROR c1 ctx io4
             else
               let m' = min (mtu c1) m
               in (NO_ERROR, put_conn (c1\<lparr>mtu := m', mss := m' - of_nat KCP_HEADER_SIZE\<rparr>) ctx, io4))"

text \<open>Between the insertion into the set and the SYN: the id, the timer and the header are allocated.\<close>

definition accept_setup ::
    "kcp_env \<Rightarrow> u32 \<Rightarrow> syn_node \<Rightarrow> kcp_connection \<Rightarrow> kcp_context \<Rightarrow> kcp_io \<Rightarrow> kcp_error \<times> kcp_context \<times> kcp_io" where
  "accept_setup env timeout_ms syn c ctx io =
     (case kcp_alloc_local_scid 2 ctx io of
        (Inl e, ctx1, io1) \<Rightarrow> accept_fail e c ctx1 io1
      | (Inr cid, ctx1, io1) \<Rightarrow>
          let c1 = c\<lparr>scid := cid\<rparr>
          in (case malloc io1 of (ok1, io2) \<Rightarrow>
                if \<not> ok1 then accept_fail NO_MEMORY c1 ctx1 io2
                else
                  let c2 = c1\<lparr>syn_timer_event := True, state := KCP_STATE_SYN_RECEIVED, receive_timeout := timeout_ms\<rparr>
                  in (case malloc io2 of (ok2, io3) \<Rightarrow>
                        if \<not> ok2 then accept_fail NO_MEMORY c2 ctx1 io3
                        else accept_syn env syn c2 ctx1 io3)))"

definition kcp_accept :: "kcp_env \<Rightarrow> u32 \<Rightarrow> kcp_context \<Rightarrow> kcp_io \<Rightarrow> kcp_error \<times> kcp_context \<times> kcp_io" where
  "kcp_accept env timeout_ms ctx io =
     (case syn_queue ctx of
        [] \<Rightarrow> (NO_PENDING_CONNECTION, ctx, io)
      | syn # _ \<Rightarrow>
          (case malloc io of (ok, io1) \<Rightarrow>
             if \<not> ok then (NO_MEMORY, ctx, io1)
             else
               (case kcp_time_monotonic_us io1 of (now, io2) \<Rightarrow>
                  let c = (kcp_connection_init zero_connection (sn_remote_host syn) (udp_mtu ctx) now)
                            \<lparr>conn_addr := next_addr ctx, dcid := sn_scid syn\<rparr>;
                      ctx1 = ctx\<lparr>next_addr := next_addr ctx + 1\<rparr>
                  in (case connection_set_insert c (connection_set ctx1) of
                        (False, _) \<Rightarrow> accept_fail CONNECTION_ID_CONFLICT c ctx1 io2
                      | (True, t) \<Rightarrow> accept_setup env timeout_ms syn c (ctx1\<lparr>connection_set := t\<rparr>) io2))))"

text \<open>Another SYN after a timeout: the last header with new times, the next sequence number and the options.\<close>

definition resend_header :: "u64 \<Rightarrow> kcp_proto_header \<Rightarrow> kcp_proto_header" where
  "resend_header now h =
     (case as_syn_fin_data (hd_body h) of (pts, ts, psn, rsn) \<Rightarrow> h\<lparr>hd_body := Syn_fin_data now now psn (rsn + 1)\<rparr>)"

definition resend_syn :: "u64 \<Rightarrow> kcp_connection \<Rightarrow> kcp_connection" where
  "resend_syn now c =
     (let hs = kcp_proto_header_list c
      in c\<lparr>kcp_proto_header_list := butlast hs @ [(last hs)\<lparr>hd_options := []\<rparr>, resend_header now (last hs)]\<rparr>)"

definition kcp_accept_timeout :: "nat \<Rightarrow> kcp_context \<Rightarrow> kcp_io \<Rightarrow> kcp_context \<times> kcp_io" where
  "kcp_accept_timeout a ctx io =
     (case conn_at a ctx of
        None \<Rightarrow> (ctx, io)
      | Some c0 \<Rightarrow>
          let c = c0\<lparr>syn_retries := syn_retries c0 - 1\<rparr>
          in if syn_retries c0 > 0
             then (case malloc io of (ok, io1) \<Rightarrow>
                     if \<not> ok then (put_conn c ctx, arm_timer Syn_timer c io1)
                     else
                       (case kcp_time_monotonic_us io1 of (now, io2) \<Rightarrow>
                          let c1 = resend_syn now c;
                              (st, io3) = kcp_send_packet c1 [syn_packet (last (kcp_proto_header_list c1))] io2;
                              ctx1 = put_conn c1 ctx
                          in if status_pos st then (ctx1, arm_timer Syn_timer c1 io3)
                             else if io_errno io3 = EAGAIN
                             then (case kcp_add_write_event a ctx1 io3 of (_, ctx2, io4) \<Rightarrow> (ctx2, arm_timer Syn_timer c1 io4))
                             else (ctx1, emit (On_error (Some a) WRITE_ERROR) io3)))
             else if has_on_accepted (callback ctx)
             then
               let c1 = c\<lparr>state := KCP_STATE_DISCONNECTED\<rparr>
               in kcp_connection_destroy c1 (put_conn c1 ctx) (emit (On_accepted a TIMED_OUT) io)
             else (put_conn c ctx, io))"

section \<open>Connecting\<close>

text \<open>Each candidate is tried twice; the result is 0 when a packet was sent to one of them.\<close>

fun send_candidates ::
    "bytes \<Rightarrow> sockaddr list \<Rightarrow> bool \<Rightarrow> kcp_error + nat \<Rightarrow> kcp_io \<Rightarrow> (kcp_error + nat) \<times> kcp_io" where
  "send_candidates d [] any_sent last_error io = (if any_sent then Inr 0 else last_error, io)"
| "send_candidates d (a # as) any_sent last_error io =
     (case kcp_send_packet_raw a [d] io of (st, io1) \<Rightarrow>
        if status_pos st then send_candidates d as True last_error io1
        else (case kcp_send_packet_raw a [d] io1 of (st', io2) \<Rightarrow>
                if status_pos st' then send_candidates d as True st io2
                else send_candidates d as any_sent st' io2))"

definition kcp_send_syn_to_candidates :: "kcp_connection \<Rightarrow> bytes \<Rightarrow> kcp_io \<Rightarrow> (kcp_error + nat) \<times> kcp_io" where
  "kcp_send_syn_to_candidates c d io = send_candidates d (candidates c) False (Inl WRITE_ERROR) io"

definition KCP_P2P_MAX_CANDIDATES :: nat where "KCP_P2P_MAX_CANDIDATES = 8"

text \<open>A count where a caller returns it as a result code: only 0 occurs.\<close>

definition status_error :: "kcp_error + nat \<Rightarrow> kcp_error" where
  "status_error st = (case st of Inl e \<Rightarrow> e | Inr n \<Rightarrow> NO_ERROR)"

definition connect_syn ::
    "kcp_env \<Rightarrow> u32 \<Rightarrow> kcp_connection \<Rightarrow> kcp_context \<Rightarrow> kcp_io \<Rightarrow> kcp_error \<times> kcp_context \<times> kcp_io" where
  "connect_syn env timeout_ms c ctx io =
     (case kcp_time_monotonic_us io of (now, io1) \<Rightarrow>
        let h = syn_header env 0 now 0 (udp_mtu ctx) c;
            c1 = append_header h c;
            (st, io2) = kcp_send_syn_to_candidates c1 (syn_packet h) io1
        in if st \<noteq> Inr 0 then (status_error st, kcp_connection_destroy c1 ctx io2)
           else
             let c2 = c1\<lparr>state := KCP_STATE_SYN_SENT\<rparr>;
                 ctx1 = ctx\<lparr>callback := (callback ctx)\<lparr>has_on_connected := True, has_on_connect := False\<rparr>\<rparr>
             in (case malloc io2 of (ok, io3) \<Rightarrow>
                   if \<not> ok then (NO_MEMORY, kcp_connection_destroy c2 (put_conn c2 ctx1) io3)
                   else
                     let c3 = c2\<lparr>syn_timer_event := True, receive_timeout := timeout_ms\<rparr>
                     in (NO_ERROR, put_conn c3 ctx1, emit Read_event_add (arm_timer Syn_timer c3 io3))))"

definition kcp_connect_candidates ::
    "kcp_env \<Rightarrow> sockaddr list \<Rightarrow> u32 \<Rightarrow> kcp_context \<Rightarrow> kcp_io \<Rightarrow> kcp_error \<times> kcp_context \<times> kcp_io" where
  "kcp_connect_candidates env cands timeout_ms ctx io =
     (if cands = [] \<or> timeout_ms = 0 \<or> length cands > KCP_P2P_MAX_CANDIDATES then (INVALID_PARAM, ctx, io)
      else if \<not> sock ctx then (SOCKET_CLOSED, ctx, io)
      else if has_on_connect (callback ctx) then (INVALID_OPERATION, ctx, io)
      else (case connection_first (connection_set ctx) of
              Some c \<Rightarrow>
                (if state c = KCP_STATE_CONNECTED then NO_ERROR
                 else if state c = KCP_STATE_SYN_SENT then IN_PROGRESS else INVALID_STATE, ctx, io)
            | None \<Rightarrow>
                (case malloc io of (ok, io1) \<Rightarrow>
                   if \<not> ok then (NO_MEMORY, ctx, io1)
                   else
                     (case kcp_time_monotonic_us io1 of (now, io2) \<Rightarrow>
                        let c = (kcp_connection_init (env_raw env) (hd cands) (udp_mtu ctx) now)
                                  \<lparr>conn_addr := next_addr ctx, candidates := cands\<rparr>;
                            ctx1 = ctx\<lparr>next_addr := next_addr ctx + 1\<rparr>
                        in (case connection_set_insert c (connection_set ctx1) of
                              (False, _) \<Rightarrow> (UNKNOWN_ERROR, kcp_connection_destroy c ctx1 io2)
                            | (True, t) \<Rightarrow>
                                (case kcp_alloc_local_scid 2 (ctx1\<lparr>connection_set := t\<rparr>) io2 of
                                   (Inl e, ctx2, io3) \<Rightarrow> (e, kcp_connection_destroy c ctx2 io3)
                                 | (Inr cid, ctx2, io3) \<Rightarrow> connect_syn env timeout_ms (c\<lparr>scid := cid\<rparr>) ctx2 io3))))))"

definition kcp_connect :: "kcp_env \<Rightarrow> sockaddr \<Rightarrow> u32 \<Rightarrow> kcp_context \<Rightarrow> kcp_io \<Rightarrow> kcp_error \<times> kcp_context \<times> kcp_io" where
  "kcp_connect env addr timeout_ms ctx io = kcp_connect_candidates env [addr] timeout_ms ctx io"

definition kcp_connect_timeout :: "kcp_env \<Rightarrow> nat \<Rightarrow> kcp_context \<Rightarrow> kcp_io \<Rightarrow> kcp_context \<times> kcp_io" where
  "kcp_connect_timeout env a ctx io =
     (case conn_at a ctx of
        None \<Rightarrow> (ctx, io)
      | Some c0 \<Rightarrow>
          let c = c0\<lparr>syn_retries := syn_retries c0 - 1\<rparr>
          in if syn_retries c0 \<noteq> 0
             then (case kcp_time_monotonic_us io of (now, io1) \<Rightarrow>
                     let h = syn_header env 0 now 0 (udp_mtu ctx) c;
                         c1 = append_header h c;
                         ctx1 = put_conn c1 ctx;
                         (st, io2) = (if candidates c1 \<noteq> [] \<and> state c1 = KCP_STATE_SYN_SENT
                                      then kcp_send_syn_to_candidates c1 (syn_packet h) io1
                                      else kcp_send_packet c1 [syn_packet h] io1)
                     in if \<not> status_pos st then (ctx1, emit (On_error (Some a) WRITE_ERROR) io2)
                        else (ctx1, arm_timer Syn_timer c1 io2))
             else kcp_connection_destroy c (put_conn c ctx) (emit (On_connected a TIMED_OUT) io))"

section \<open>The SYN of the other side\<close>

text \<open>The client's answer to the server's SYN: the ids, the round-trip time, the ACK and the MTU.\<close>

definition client_established :: "u32 \<Rightarrow> kcp_connection \<Rightarrow> kcp_io \<Rightarrow> kcp_connection \<times> kcp_io" where
  "client_established remote_mtu c io =
     (let io1 = free_timer (syn_timer_event c) (conn_addr c) Syn_timer io;
          c1 = c\<lparr>syn_timer_event := False\<rparr>
      in if state c1 = KCP_STATE_SYN_SENT
         then (case kcp_time_monotonic_ms io1 of (ts, io2) \<Rightarrow>
                 let m = min remote_mtu (mtu c1)
                 in (c1\<lparr>state := KCP_STATE_CONNECTED, ts_flush := ts + u64_of_i32 (interval c1),
                        need_write_timer_event := True, mtu := m, mss := m - of_nat KCP_HEADER_SIZE,
                        ping_context := (ping_context c1)\<lparr>keepalive_next_ts :=
                          ts * 1000 + ucast (keepalive_interval (ping_context c1))\<rparr>\<rparr>,
                     emit (On_connected (conn_addr c1) NO_ERROR) (emit Refresh_write_timer io2)))
         else (c1, io1))"

definition client_syn ::
    "syn_node \<Rightarrow> kcp_proto_header \<Rightarrow> sockaddr \<Rightarrow> int \<Rightarrow> kcp_connection \<Rightarrow> kcp_io \<Rightarrow> kcp_connection \<times> kcp_io" where
  "client_syn syn pos addr m c io =
     (case as_syn_fin_data (hd_body pos) of (pts, ts, psn, rsn) \<Rightarrow>
      case kcp_time_monotonic_us io of (current_ts, io1) \<Rightarrow>
        let srtt = i32_of_u64 ((current_ts - ts) - (sn_ts syn - sn_packet_ts syn));
            c1 = c\<lparr>dcid := sn_scid syn, remote_host := addr, rx_srtt := srtt, rx_rttval := srtt sdiv 2\<rparr>
        in (case kcp_time_monotonic_us io1 of (now, io2) \<Rightarrow>
              case send_header (session_header KCP_CMD_ACK (Ack_data now now (sn_rand_sn syn) 0) c1) c1 io2 of (st, io3) \<Rightarrow>
                if status_neg st
                then if state c1 = KCP_STATE_SYN_SENT \<and> length (candidates c1) > 1 then (c1, io3)
                     else (c1\<lparr>state := KCP_STATE_DISCONNECTED\<rparr>, emit (On_error (Some (conn_addr c1)) WRITE_ERROR) io3)
                else client_established (option_mtu (u32_of_i32 m) (sn_options syn)) c1 io3))"

definition rst_packet :: "kcp_env \<Rightarrow> u64 \<Rightarrow> kcp_context \<Rightarrow> bytes" where
  "rst_packet env now ctx =
     header_packet \<lparr>hd_scid = connection_id ctx, hd_dcid = 0, hd_cmd = KCP_CMD_RST, hd_opt = 0, hd_frg = 0, hd_wnd = 0,
       hd_body = Packet_data now 0 (env_word env) 0 0 [], hd_options = []\<rparr>"

text \<open>\<open>on_connect\<close> is the callback of the server.\<close>

type_synonym connect_cb = "sockaddr \<Rightarrow> kcp_context \<Rightarrow> kcp_io \<Rightarrow> bool \<times> kcp_context \<times> kcp_io"

definition on_kcp_syn_received ::
    "kcp_env \<Rightarrow> connect_cb \<Rightarrow> sockaddr \<Rightarrow> kcp_context \<Rightarrow> kcp_io \<Rightarrow> kcp_context \<times> kcp_io" where
  "on_kcp_syn_received env on_connect addr ctx io =
     (let (ctx1, io1) =
            (if has_on_connect (callback ctx)
             then (case on_connect addr ctx (emit (On_connect addr) io) of
                     (True, ctx', io') \<Rightarrow> (ctx', io')
                   | (False, ctx', io') \<Rightarrow>
                       (case kcp_time_monotonic_us io' of (now, io'') \<Rightarrow>
                          (ctx', snd (kcp_send_packet_raw addr [rst_packet env now ctx'] io''))))
             else
               (case connection_first (connection_set ctx) of
                  None \<Rightarrow> (ctx, io)
                | Some c \<Rightarrow>
                    (case syn_queue ctx of
                       [] \<Rightarrow> (ctx, io)
                     | syn # _ \<Rightarrow>
                         (case sent_header KCP_CMD_SYN (sn_packet_sn syn) c of
                            None \<Rightarrow> (ctx, io)
                          | Some pos \<Rightarrow>
                              (case client_syn syn pos addr (udp_mtu ctx) c io of (c', io') \<Rightarrow> conn_return c' ctx io io')))))
      in (ctx1\<lparr>syn_queue := tl (syn_queue ctx1)\<rparr>, io1))"

section \<open>Closing\<close>

text \<open>The wall clock and the unset \<open>psn\<close> of the RST of \<open>kcp_shutdown\<close> are from the environment.\<close>

definition kcp_shutdown :: "kcp_env \<Rightarrow> nat \<Rightarrow> kcp_context \<Rightarrow> kcp_io \<Rightarrow> kcp_context \<times> kcp_io" where
  "kcp_shutdown env a ctx io =
     (case conn_at a ctx of
        None \<Rightarrow> (ctx, io)
      | Some c \<Rightarrow>
          let (c1, io1) =
                (if state c \<noteq> KCP_STATE_DISCONNECTED
                 then (c\<lparr>state := KCP_STATE_DISCONNECTED\<rparr>,
                       snd (send_header (session_header KCP_CMD_RST
                         (Packet_data (ucast (env_time env)) 0 (env_word env) 0 0 []) c) c io))
                 else (c, io));
              io2 = notify (has_on_closed (callback ctx)) (On_closed a NO_ERROR) io1
          in kcp_connection_destroy c1 (put_conn c1 ctx) io2)"

text \<open>Sending a FIN from the active side: \<open>kcp_close\<close> and its timer.\<close>

definition send_fin :: "kcp_env \<Rightarrow> kcp_connection \<Rightarrow> kcp_io \<Rightarrow> (kcp_error + nat) \<times> kcp_connection \<times> kcp_io" where
  "send_fin env c io =
     (case kcp_time_monotonic_us io of (now, io1) \<Rightarrow>
        let fin = fin_header env 0 now 0 c
        in (case send_header fin c io1 of (st, io2) \<Rightarrow> (st, append_header fin c, io2)))"

definition kcp_close :: "kcp_env \<Rightarrow> nat \<Rightarrow> kcp_context \<Rightarrow> kcp_io \<Rightarrow> kcp_context \<times> kcp_io" where
  "kcp_close env a ctx io =
     (case conn_at a ctx of
        None \<Rightarrow> (ctx, io)
      | Some c \<Rightarrow>
          (case state c of
             KCP_STATE_DISCONNECTED \<Rightarrow>
               kcp_connection_destroy c ctx (notify (has_on_closed (callback ctx)) (On_closed a NO_ERROR) io)
           | KCP_STATE_SYN_SENT \<Rightarrow> kcp_shutdown env a ctx io
           | KCP_STATE_SYN_RECEIVED \<Rightarrow> kcp_shutdown env a ctx io
           | KCP_STATE_CONNECTED \<Rightarrow>
               (case send_fin env c io of (st, c1, io1) \<Rightarrow>
                  let c2 = c1\<lparr>state := KCP_STATE_FIN_SENT\<rparr>;
                      c3 = c2\<lparr>fin_timer_event := True\<rparr>
                  in if status_pos st then (put_conn c3 ctx, arm_timer Fin_timer c3 io1)
                     else if io_errno io1 = EAGAIN
                     then (case kcp_add_write_event a (put_conn c3 ctx) io1 of (_, ctx2, io2) \<Rightarrow>
                             (ctx2, arm_timer Fin_timer c3 io2))
                     else (put_conn c2 ctx, emit (On_error (Some a) WRITE_ERROR) io1))
           | KCP_STATE_FIN_SENT \<Rightarrow> (ctx, io)
           | KCP_STATE_FIN_RECEIVED \<Rightarrow> (ctx, io)))"

definition kcp_close_timeout :: "kcp_env \<Rightarrow> nat \<Rightarrow> kcp_context \<Rightarrow> kcp_io \<Rightarrow> kcp_context \<times> kcp_io" where
  "kcp_close_timeout env a ctx io =
     (case conn_at a ctx of
        None \<Rightarrow> (ctx, io)
      | Some c0 \<Rightarrow>
          let c = c0\<lparr>fin_retries := fin_retries c0 - 1\<rparr>
          in if fin_retries c0 \<noteq> 0
             then (case send_fin env c io of (st, c1, io1) \<Rightarrow>
                     if st = Inr 1 then (put_conn c1 ctx, arm_timer Fin_timer c1 io1)
                     else if io_errno io1 = EAGAIN
                     then (case kcp_add_write_event a (put_conn c1 ctx) io1 of (_, ctx2, io2) \<Rightarrow>
                             (ctx2, arm_timer Fin_timer c1 io2))
                     else (put_conn c1 ctx, emit (On_error (Some a) WRITE_ERROR) io1))
             else (put_conn c ctx, io))"

text \<open>The timer of the passive side repeats its FIN with the first acknowledged sequence number.\<close>

definition fin_ack_sn :: "kcp_connection \<Rightarrow> u32" where
  "fin_ack_sn c =
     (case find (\<lambda>h. hd_cmd h = KCP_CMD_FIN) (kcp_proto_header_list c) of
        None \<Rightarrow> 0
      | Some h \<Rightarrow> (case as_syn_fin_data (hd_body h) of (pts, ts, psn, rsn) \<Rightarrow> psn))"

definition on_fin_packet_timeout_cb :: "kcp_env \<Rightarrow> nat \<Rightarrow> kcp_context \<Rightarrow> kcp_io \<Rightarrow> (kcp_fault + kcp_context \<times> kcp_io)" where
  "on_fin_packet_timeout_cb env a ctx io =
     (case conn_at a ctx of
        None \<Rightarrow> Inr (ctx, io)
      | Some c0 \<Rightarrow>
          if io_asserts io \<and> state c0 \<noteq> KCP_STATE_FIN_RECEIVED then Inl Assert_failed
          else
            let c = c0\<lparr>fin_retries := fin_retries c0 - 1\<rparr>
            in if fin_retries c0 \<noteq> 0
               then (case kcp_time_monotonic_us io of (now, io1) \<Rightarrow>
                       let fin = fin_header env now now (fin_ack_sn c) c;
                           c1 = append_header fin c;
                           io2 = emit (Timer_del a Fin_timer) (snd (send_header fin c io1))
                       in Inr (put_conn c1 ctx, arm_timer Fin_timer c1 io2))
               else if has_on_closed (callback ctx)
               then let c1 = c\<lparr>state := KCP_STATE_DISCONNECTED\<rparr>
                    in Inr (kcp_connection_destroy c1 (put_conn c1 ctx) (emit (On_closed a TIMED_OUT) io))
               else Inr (kcp_connection_destroy c (put_conn c ctx) io))"

section \<open>Lemmas\<close>

lemma send_one:
  "io_send io (io_calls io) = Sent \<Longrightarrow> d \<noteq> [] \<Longrightarrow>
     kcp_send_packet_raw a [d] io = (Inr 1, emit (Send a d) (io\<lparr>io_calls := io_calls io + 1\<rparr>))"
  by (simp add: kcp_send_packet_raw_def sendmsg_def kcp_const)

lemma header_packet_wire:
  assumes "header_wf h" and "payload_len (hd_body h) = 0" and "hd_options h = []"
  shows "header_packet h = wire_header h" and "length (header_packet h) = 32"
    and "hd_opt h AND KCP_CMD_OPT = 0 \<Longrightarrow> kcp_proto_parse (header_packet h) 32 [] = Parse_ok h 32"
proof -
  have len: "length (wire_header h) = 32" using length_wire_header [OF assms(1)] assms(2,3) by simp
  then show w: "header_packet h = wire_header h"
    using header_encode_eq [OF assms(1), of "replicate 32 0" 32] by (simp add: header_packet_def kcp_const)
  then show "length (header_packet h) = 32" using len by simp
  show "hd_opt h AND KCP_CMD_OPT = 0 \<Longrightarrow> kcp_proto_parse (header_packet h) 32 [] = Parse_ok h 32"
    using parse_wire [OF assms(1), of 32 "[]"] len by (simp add: w)
qed

text \<open>The client on the server's SYN: it answers with this ACK and is connected.\<close>

definition client_ack :: "kcp_connection \<Rightarrow> syn_node \<Rightarrow> u64 \<Rightarrow> kcp_proto_header" where
  "client_ack c syn now = \<lparr>hd_scid = scid c, hd_dcid = sn_scid syn, hd_cmd = KCP_CMD_ACK, hd_opt = 0, hd_frg = 0, hd_wnd = 0,
     hd_body = Ack_data now now (sn_rand_sn syn) 0, hd_options = []\<rparr>"

lemma client_ack_wf: "header_wf (client_ack c syn now)"
  by (simp add: client_ack_def header_wf_def kcp_cmd_defs)

lemma client_ack_packet:
  "header_packet (client_ack c syn now) \<noteq> []"
  "kcp_proto_parse (header_packet (client_ack c syn now)) 32 [] = Parse_ok (client_ack c syn now) 32"
  using header_packet_wire(2,3) [OF client_ack_wf, of c syn now] by (auto simp: client_ack_def)

lemma client_syn_connects:
  assumes st: "state c = KCP_STATE_SYN_SENT" and net: "\<forall>n. io_send io n = Sent"
  shows "\<exists>c' io' now. client_syn syn pos addr m c io = (c', io') \<and> state c' = KCP_STATE_CONNECTED \<and>
    conn_addr c' = conn_addr c \<and> dcid c' = sn_scid syn \<and> scid c' = scid c \<and> remote_host c' = addr \<and>
    (\<exists>es. io_trace io' = io_trace io @ Send addr (header_packet (client_ack c syn now)) # es \<and> On_connected (conn_addr c) NO_ERROR \<in> set es)"
proof -
  obtain pts ts psn rsn where b: "as_syn_fin_data (hd_body pos) = (pts, ts, psn, rsn)" by (metis prod.exhaust)
  obtain t1 io1 where 1: "kcp_time_monotonic_us io = (t1, io1)" by (metis prod.exhaust)
  obtain t2 io2 where 2: "kcp_time_monotonic_us io1 = (t2, io2)" by (metis prod.exhaust)
  have same: "io_send io2 = io_send io" "io_calls io2 = io_calls io" "io_trace io2 = io_trace io"
    using 1 2 by (auto simp: kcp_time_monotonic_us_def split: prod.splits)
  let ?r = "i32_of_u64 ((t1 - ts) - (sn_ts syn - sn_packet_ts syn))"
  let ?c = "c\<lparr>dcid := sn_scid syn, remote_host := addr, rx_srtt := ?r, rx_rttval := ?r sdiv 2\<rparr>"
  let ?h = "session_header KCP_CMD_ACK (Ack_data t2 t2 (sn_rand_sn syn) 0) ?c"
  have h: "?h = client_ack c syn t2" by (simp add: session_header_def client_ack_def)
  have s: "send_header ?h ?c io2 = (Inr 1, emit (Send addr (header_packet (client_ack c syn t2))) (io2\<lparr>io_calls := io_calls io2 + 1\<rparr>))"
    using net same by (simp add: send_header_def kcp_send_packet_def h send_one client_ack_packet(1))
  let ?io = "emit (Send addr (header_packet (client_ack c syn t2))) (io2\<lparr>io_calls := io_calls io2 + 1\<rparr>)"
  obtain c' io' where e: "client_established (option_mtu (u32_of_i32 m) (sn_options syn)) ?c ?io = (c', io')" by (metis prod.exhaust)
  have "client_syn syn pos addr m c io = (c', io')"
    using e by (simp add: client_syn_def b 1 2 Let_def s status_neg_def)
  moreover have "state c' = KCP_STATE_CONNECTED \<and> conn_addr c' = conn_addr c \<and> dcid c' = sn_scid syn \<and> scid c' = scid c \<and>
      remote_host c' = addr"
    using e st by (auto simp: client_established_def Let_def split: prod.splits)
  moreover have "\<exists>es. io_trace io' = io_trace ?io @ es \<and> On_connected (conn_addr c) NO_ERROR \<in> set es"
    using e st by (auto simp: client_established_def Let_def free_timer_def kcp_time_monotonic_ms_def split: prod.splits if_splits)
  ultimately show ?thesis using same(3) by (intro exI [where x = c'] exI [where x = io'] exI [where x = t2]) auto
qed

lemma server_ack_accepts:
  assumes "state s = KCP_STATE_SYN_RECEIVED" and "sockaddr_equal (remote_host s) host" and "hd_cmd h = KCP_CMD_ACK"
  shows "\<exists>s' io'. on_kcp_read_event env cbs behind h host s io = Some (False, s', io') \<and> state s' = KCP_STATE_CONNECTED \<and>
    conn_addr s' = conn_addr s \<and> need_write_timer_event s' \<and> Refresh_write_timer \<in> set (drop (length (io_trace io)) (io_trace io'))"
  using assms
  by (auto simp: on_kcp_read_event_def kcp_cmd_defs read_syn_received_def Let_def free_timer_def kcp_time_monotonic_ms_def
      split: prod.splits)

lemma send_candidates_not_pos:
  "\<not> status_pos err \<Longrightarrow> \<not> status_pos (fst (send_candidates d as b err io))"
proof (induction as arbitrary: b err io)
  case (Cons a as)
  obtain st io1 where 1: "kcp_send_packet_raw a [d] io = (st, io1)" by (metis prod.exhaust)
  obtain st' io2 where 2: "kcp_send_packet_raw a [d] io1 = (st', io2)" by (metis prod.exhaust)
  show ?case using Cons 1 2 by (auto simp: status_pos_def split: sum.splits)
qed (simp add: status_pos_def)

lemma send_candidates_trace:
  "\<exists>es. io_trace (snd (send_candidates d as b err io)) = io_trace io @ es \<and> (\<forall>e \<in> set es. \<exists>p d. e = Send p d)"
proof (induction as arbitrary: b err io)
  case (Cons a as)
  have raw: "\<exists>es. io_trace (snd (kcp_send_packet_raw a [d] io)) = io_trace io @ es \<and> (\<forall>e \<in> set es. \<exists>p d. e = Send p d)" for io
    by (auto simp: kcp_send_packet_raw_def sendmsg_def Let_def kcp_const split: send_outcome.splits errno.splits)
  obtain st io1 where 1: "kcp_send_packet_raw a [d] io = (st, io1)" by (metis prod.exhaust)
  obtain st' io2 where 2: "kcp_send_packet_raw a [d] io1 = (st', io2)" by (metis prod.exhaust)
  obtain e1 e2 where e: "io_trace io1 = io_trace io @ e1" "\<forall>e \<in> set e1. \<exists>p d. e = Send p d" "io_trace io2 = io_trace io1 @ e2"
      "\<forall>e \<in> set e2. \<exists>p d. e = Send p d" using raw [of io] raw [of io1] 1 2 by auto
  obtain e3 e4 where "io_trace (snd (send_candidates d as True err io1)) = io_trace io1 @ e3" "\<forall>e \<in> set e3. \<exists>p d. e = Send p d"
     "io_trace (snd (send_candidates d as (status_pos st' \<or> b) (if status_pos st' then st else st') io2)) = io_trace io2 @ e4" "\<forall>e \<in> set e4. \<exists>p d. e = Send p d"
    using Cons.IH by meson
  then show ?case using e by (cases "status_pos st"; cases "status_pos st'") (auto simp: 1 2)
qed simp

lemma session_packet:
  assumes "hd_options h = []" "hd_opt h = 0" "payload_len (hd_body h) = 0" "body_wf (hd_cmd h) (hd_body h)"
  shows "header_packet h \<noteq> []" and "kcp_proto_parse (header_packet h) 32 [] = Parse_ok h 32"
proof -
  have wf: "header_wf h" using assms by (simp add: header_wf_def)
  show "header_packet h \<noteq> []" "kcp_proto_parse (header_packet h) 32 [] = Parse_ok h 32"
    using header_packet_wire(2,3) [OF wf assms(3,1)] assms(2) by auto
qed

lemma fin_packet:
  "header_packet (fin_header env pts ts sn c) \<noteq> []"
  "kcp_proto_parse (header_packet (fin_header env pts ts sn c)) 32 [] = Parse_ok (fin_header env pts ts sn c) 32"
  by (rule session_packet; simp add: fin_header_def session_header_def kcp_cmd_defs)+

lemma last_ack_packet:
  "header_packet (session_header KCP_CMD_ACK (Ack_data pts ts sn una) c) \<noteq> []"
  "kcp_proto_parse (header_packet (session_header KCP_CMD_ACK (Ack_data pts ts sn una) c)) 32 [] =
     Parse_ok (session_header KCP_CMD_ACK (Ack_data pts ts sn una) c) 32"
  by (rule session_packet; simp add: session_header_def kcp_cmd_defs)+

lemma send_header_ok:
  "\<forall>n. io_send io n = Sent \<Longrightarrow> header_packet h \<noteq> [] \<Longrightarrow>
     send_header h c io = (Inr 1, emit (Send (remote_host c) (header_packet h)) (io\<lparr>io_calls := io_calls io + 1\<rparr>))"
  by (simp add: send_header_def kcp_send_packet_def send_one)

lemma clock_reads: "kcp_time_monotonic_us io = (ts, io1) \<Longrightarrow> io_send io1 = io_send io \<and> io_trace io1 = io_trace io"
  by (auto simp: kcp_time_monotonic_us_def split: prod.splits)

lemma sent_header_appended:
  "h \<in> set (kcp_proto_header_list c) \<Longrightarrow> as_syn_fin_data (hd_body h) = (pts, ts, psn, sn) \<Longrightarrow> sent_header (hd_cmd h) sn c \<noteq> None"
  by (auto simp: sent_header_def find_None_iff)

lemma fin_header_body: "as_syn_fin_data (hd_body (fin_header env pts ts sn c)) = (pts, ts, sn, env_xxh32 env (le_bytes 8 ts))"
  by (simp add: fin_header_def session_header_def as_syn_fin_data_def)

text \<open>The first step: \<open>kcp_close\<close> sends a FIN and waits.\<close>

lemma close_sends_fin:
  assumes "conn_at a ctx = Some c" "state c = KCP_STATE_CONNECTED" "\<forall>n. io_send io n = Sent"
  obtains now io' es where
    "kcp_close env a ctx io = (put_conn ((append_header (fin_header env 0 now 0 c) c)
       \<lparr>state := KCP_STATE_FIN_SENT, fin_timer_event := True\<rparr>) ctx, io')"
    "io_trace io' = io_trace io @ Send (remote_host c) (header_packet (fin_header env 0 now 0 c)) # es"
    "\<forall>n. io_send io' n = Sent"
proof -
  obtain now io1 where t: "kcp_time_monotonic_us io = (now, io1)" by (metis prod.exhaust)
  let ?io = "emit (Send (remote_host c) (header_packet (fin_header env 0 now 0 c))) (io1\<lparr>io_calls := io_calls io1 + 1\<rparr>)"
  have "send_fin env c io = (Inr 1, append_header (fin_header env 0 now 0 c) c, ?io)"
    using t clock_reads [OF t] assms(3) send_header_ok [of io1 "fin_header env 0 now 0 c" c] fin_packet(1)
    by (simp add: send_fin_def Let_def)
  then show thesis
    using that assms t clock_reads [OF t]
    by (simp add: kcp_close_def Let_def status_pos_def arm_timer_def emit_def)
qed

text \<open>The second: the other side answers with a FIN that names the first.\<close>

lemma fin_answered:
  assumes "hd_cmd h = KCP_CMD_FIN" "as_syn_fin_data (hd_body h) = (pts, ts, psn, sn)"
    and "state s = KCP_STATE_CONNECTED" "sockaddr_equal (remote_host s) host" "\<forall>n. io_send io n = Sent"
  obtains now s' io' es where
    "on_kcp_read_event env cbs behind h host s io = Some (False, s', io')"
    "state s' = KCP_STATE_FIN_RECEIVED" "remote_host s' = remote_host s" "conn_addr s' = conn_addr s"
    "kcp_proto_header_list s' = kcp_proto_header_list s @ [fin_header env now now sn s]"
    "io_trace io' = io_trace io @ Send (remote_host s) (header_packet (fin_header env now now sn s)) # es"
proof -
  obtain now io1 where t: "kcp_time_monotonic_us io = (now, io1)" by (metis prod.exhaust)
  define fin where "fin = fin_header env now now sn s"
  let ?io = "emit (Send (remote_host s) (header_packet fin)) (io1\<lparr>io_calls := io_calls io1 + 1\<rparr>)"
  have s: "send_header fin s io1 = (Inr 1, ?io)"
    using clock_reads [OF t] assms(5) send_header_ok [of io1 fin s] fin_packet(1) by (simp add: fin_def)
  obtain e s' io' where f: "on_kcp_fin_pcaket env h now s io1 = (e, s', io')" by (metis prod.exhaust)
  have "state s' = KCP_STATE_FIN_RECEIVED \<and> remote_host s' = remote_host s \<and> conn_addr s' = conn_addr s \<and>
      kcp_proto_header_list s' = kcp_proto_header_list s @ [fin] \<and> (\<exists>es. io_trace io' = io_trace ?io @ es)"
    using f assms(2) s unfolding on_kcp_fin_pcaket_def fin_def [symmetric]
    by (auto simp: Let_def fin_def [symmetric] malloc_def arm_timer_def append_header_def split: if_splits)
  moreover have "on_kcp_read_event env cbs behind h host s io = Some (False, s', io')"
    using assms(1,3,4) t f by (simp add: on_kcp_read_event_def kcp_input_pcaket_def kcp_cmd_defs)
  ultimately show thesis
    using that [of s' io' now] clock_reads [OF t] by (auto simp: fin_def)
qed

text \<open>The third: the active side acknowledges that FIN and is closed.\<close>

lemma fin_sent_closes:
  assumes "hd_cmd h = KCP_CMD_FIN" "as_syn_fin_data (hd_body h) = (pts, ts, psn, sn)"
    and "state c = KCP_STATE_FIN_SENT" "sockaddr_equal (remote_host c) host" "\<forall>n. io_send io n = Sent"
    and "sent_header KCP_CMD_FIN psn c \<noteq> None"
  obtains now io' where
    "on_kcp_read_event env cbs behind h host c io = Some (False, c\<lparr>state := KCP_STATE_DISCONNECTED\<rparr>, io')"
    "io_trace io' = io_trace io @ Send (remote_host c) (header_packet (session_header KCP_CMD_ACK (Ack_data pts now sn 0) c)) #
       (if has_on_closed cbs then [On_closed (conn_addr c) NO_ERROR] else [])"
proof -
  obtain now io1 where t: "kcp_time_monotonic_us io = (now, io1)" by (metis prod.exhaust)
  have s: "send_header (session_header KCP_CMD_ACK (Ack_data pts now sn 0) c) c io1 =
      (Inr 1, emit (Send (remote_host c) (header_packet (session_header KCP_CMD_ACK (Ack_data pts now sn 0) c)))
         (io1\<lparr>io_calls := io_calls io1 + 1\<rparr>))"
    using clock_reads [OF t] assms(5) send_header_ok [OF _ last_ack_packet(1), of io1] by simp
  have "on_kcp_read_event env cbs behind h host c io = Some (False, read_fin_sent cbs h c io)"
    using assms(1,3,4) by (simp add: on_kcp_read_event_def kcp_cmd_defs)
  then show thesis
    using that [of _ now] clock_reads [OF t] assms(1,2,6)
    by (simp add: read_fin_sent_def t s Let_def notify_def emit_def)
qed

text \<open>The last: the acknowledgement closes the passive side.\<close>

lemma last_ack_closes:
  assumes "hd_cmd h = KCP_CMD_ACK" "as_ack_data (hd_body h) = (pts, ts, sn, una)"
    and "state s = KCP_STATE_FIN_RECEIVED" "sockaddr_equal (remote_host s) host" "sent_header KCP_CMD_FIN sn s \<noteq> None"
  shows "on_kcp_read_event env cbs behind h host s io =
    Some (False, s\<lparr>state := KCP_STATE_DISCONNECTED\<rparr>, notify (has_on_closed cbs) (On_closed (conn_addr s) NO_ERROR) io)"
  using assms by (simp add: on_kcp_read_event_def read_fin_received_def kcp_cmd_defs)

text \<open>
  The client's half of the handshake, from the SYN of the server in the queue on: the client is
  connected to the address the SYN came from and with the id of the server's connection, the
  application is told, and what it sent is a packet which parses as an ACK for that connection.
\<close>

lemma client_handshake:
  assumes "connections ctx = [c]" and "\<not> has_on_connect (callback ctx)" and "state c = KCP_STATE_SYN_SENT"
    and "syn_queue ctx = syn # rest" and "sent_header KCP_CMD_SYN (sn_packet_sn syn) c = Some pos"
    and "\<forall>n. io_send io n = Sent"
  shows "\<exists>ctx' io' c' h d.
    on_kcp_syn_received env on_connect addr ctx io = (ctx', io') \<and> connections ctx' = [c'] \<and> syn_queue ctx' = rest \<and>
    state c' = KCP_STATE_CONNECTED \<and> dcid c' = sn_scid syn \<and> remote_host c' = addr \<and>
    On_connected (conn_addr c) NO_ERROR \<in> set (io_trace io') \<and>
    Send addr d \<in> set (io_trace io') \<and> kcp_proto_parse d 32 [] = Parse_ok h 32 \<and>
    hd_cmd h = KCP_CMD_ACK \<and> hd_scid h = scid c \<and> hd_dcid h = sn_scid syn"
proof -
  obtain c' io1 now es where cl: "client_syn syn pos addr (udp_mtu ctx) c io = (c', io1)" "state c' = KCP_STATE_CONNECTED"
      "conn_addr c' = conn_addr c" "dcid c' = sn_scid syn" "remote_host c' = addr"
      "io_trace io1 = io_trace io @ Send addr (header_packet (client_ack c syn now)) # es" "On_connected (conn_addr c) NO_ERROR \<in> set es"
    using client_syn_connects [OF assms(3,6), of syn pos addr "udp_mtu ctx"] by blast
  obtain ctx1 io2 where r: "conn_return c' ctx io io1 = (ctx1, io2)" by (metis prod.exhaust)
  have t: "set (io_trace io1) \<subseteq> set (io_trace io2)" "ctx1 = put_conn c' ctx"
    using r by (auto simp: conn_return_def Let_def kcp_refresh_write_timer_def kcp_time_monotonic_ms_def split: if_splits prod.splits)
  have first: "connection_first (connection_set ctx) = Some c"
    using assms(1) by (auto simp: connections_def connection_first_def rb_first_inorder)
  have "on_kcp_syn_received env on_connect addr ctx io = (ctx1\<lparr>syn_queue := tl (syn_queue ctx1)\<rparr>, io2)"
    using assms(2,4,5) cl(1) r first by (simp add: on_kcp_syn_received_def)
  moreover have "connections (ctx1\<lparr>syn_queue := x\<rparr>) = [c']" for x
    using assms(1) cl(3) connections_put_conn [of c' ctx] t(2) by (simp add: connections_def)
  moreover have "syn_queue ctx1 = syn # rest" using t(2) assms(4) by (simp add: put_conn_def)
  ultimately show ?thesis
    using cl t(1) client_ack_packet(2) [of c syn now]
    by (intro exI [where x = "ctx1\<lparr>syn_queue := tl (syn_queue ctx1)\<rparr>"] exI [where x = io2] exI [where x = c']
        exI [where x = "client_ack c syn now"] exI [where x = "header_packet (client_ack c syn now)"])
       (auto simp: client_ack_def)
qed

section \<open>Properties\<close>

definition sample_client :: kcp_connection where
  "sample_client = sample_conn\<lparr>state := KCP_STATE_SYN_SENT,
     kcp_proto_header_list := [session_header KCP_CMD_SYN (Syn_fin_data 0 1000 0 77) sample_conn]\<rparr>"

definition sample_syn :: syn_node where
  "sample_syn = \<lparr>sn_scid = 12, sn_dcid = 5, sn_rand_sn = 99, sn_packet_sn = 77, sn_packet_ts = 1500, sn_ts = 1500,
     sn_remote_host = Sockaddr_in 9000 1, sn_options = []\<rparr>"

definition sample_net :: kcp_io where
  "sample_net = sample_io\<lparr>io_send := \<lambda>n. Sent\<rparr>"

text \<open>
  C6. The closing handshake completes on both sides. \<open>kcp_close\<close> of an established connection
  sends a FIN; the other side, on the packet as it parses it, answers with a FIN of its own; that one
  closes the side that began and makes it acknowledge; and this acknowledgement closes the other. Each
  application that asked for it is told, without an error. The network takes every packet; a failed
  allocation of the timer does not matter.
\<close>

theorem close_completes:
  assumes "conn_at a ctx = Some c" "state c = KCP_STATE_CONNECTED" "\<forall>n. io_send io n = Sent"
    and "sockaddr_equal (remote_host c) server_addr"
    and "state s = KCP_STATE_CONNECTED" "\<forall>n. io_send ios n = Sent" "sockaddr_equal (remote_host s) client_addr"
  shows "\<exists>ctx1 c1 io1 d1 h1 s1 ios1 d2 h2 c2 io2 d3 h3 s2 ios2 es1 es2 es3.
    (kcp_close env a ctx io = (ctx1, io1) \<and> conn_at a ctx1 = Some c1 \<and> state c1 = KCP_STATE_FIN_SENT \<and>
      io_trace io1 = io_trace io @ Send (remote_host c) d1 # es1 \<and> kcp_proto_parse d1 32 [] = Parse_ok h1 32) \<and>
    (on_kcp_read_event env' cbs' b1 h1 client_addr s ios = Some (False, s1, ios1) \<and> state s1 = KCP_STATE_FIN_RECEIVED \<and>
      io_trace ios1 = io_trace ios @ Send (remote_host s) d2 # es2 \<and> kcp_proto_parse d2 32 [] = Parse_ok h2 32) \<and>
    (on_kcp_read_event env cbs b2 h2 server_addr c1 io1 = Some (False, c2, io2) \<and> state c2 = KCP_STATE_DISCONNECTED \<and>
      io_trace io2 = io_trace io1 @ Send (remote_host c) d3 # es3 \<and> kcp_proto_parse d3 32 [] = Parse_ok h3 32 \<and>
      (has_on_closed cbs \<longrightarrow> es3 = [On_closed a NO_ERROR])) \<and>
    (on_kcp_read_event env' cbs' b3 h3 client_addr s1 ios1 = Some (False, s2, ios2) \<and> state s2 = KCP_STATE_DISCONNECTED \<and>
      (has_on_closed cbs' \<longrightarrow> io_trace ios2 = io_trace ios1 @ [On_closed (conn_addr s) NO_ERROR]))"
proof -
  have a: "conn_addr c = a" using assms(1) by (auto simp: conn_at_def find_Some_iff)
  obtain now io1 es1 where 1: "kcp_close env a ctx io = (put_conn ((append_header (fin_header env 0 now 0 c) c)
       \<lparr>state := KCP_STATE_FIN_SENT, fin_timer_event := True\<rparr>) ctx, io1)"
    "io_trace io1 = io_trace io @ Send (remote_host c) (header_packet (fin_header env 0 now 0 c)) # es1"
    "\<forall>n. io_send io1 n = Sent"
    by (rule close_sends_fin [OF assms(1-3)])
  define h1 where "h1 = fin_header env 0 now 0 c"
  define c1 where "c1 = (append_header h1 c)\<lparr>state := KCP_STATE_FIN_SENT, fin_timer_event := True\<rparr>"
  define sn1 where "sn1 = env_xxh32 env (le_bytes 8 now)"
  have f1: "hd_cmd h1 = KCP_CMD_FIN" "as_syn_fin_data (hd_body h1) = (0, now, 0, sn1)"
    by (simp_all add: h1_def sn1_def fin_header_body) (simp add: fin_header_def session_header_def)
  have c1: "state c1 = KCP_STATE_FIN_SENT" "remote_host c1 = remote_host c" "conn_addr c1 = a" "h1 \<in> set (kcp_proto_header_list c1)"
    by (simp_all add: c1_def append_header_def a)
  obtain now2 s1 ios1 es2 where 2: "on_kcp_read_event env' cbs' b1 h1 client_addr s ios = Some (False, s1, ios1)"
    "state s1 = KCP_STATE_FIN_RECEIVED" "remote_host s1 = remote_host s" "conn_addr s1 = conn_addr s"
    "kcp_proto_header_list s1 = kcp_proto_header_list s @ [fin_header env' now2 now2 sn1 s]"
    "io_trace ios1 = io_trace ios @ Send (remote_host s) (header_packet (fin_header env' now2 now2 sn1 s)) # es2"
    by (rule fin_answered [OF f1 assms(5,7,6)])
  define h2 where "h2 = fin_header env' now2 now2 sn1 s"
  define sn2 where "sn2 = env_xxh32 env' (le_bytes 8 now2)"
  have f2: "hd_cmd h2 = KCP_CMD_FIN" "as_syn_fin_data (hd_body h2) = (now2, now2, sn1, sn2)"
    by (simp_all add: h2_def sn2_def fin_header_body) (simp add: fin_header_def session_header_def)
  have sent1: "sent_header KCP_CMD_FIN sn1 c1 \<noteq> None"
    using sent_header_appended [OF c1(4) f1(2)] f1(1) by simp
  have r1: "sockaddr_equal (remote_host c1) server_addr" using c1(2) assms(4) by simp
  obtain now3 io2 where 3: "on_kcp_read_event env cbs b2 h2 server_addr c1 io1 = Some (False, c1\<lparr>state := KCP_STATE_DISCONNECTED\<rparr>, io2)"
    "io_trace io2 = io_trace io1 @ Send (remote_host c1) (header_packet (session_header KCP_CMD_ACK (Ack_data now2 now3 sn2 0) c1)) #
       (if has_on_closed cbs then [On_closed (conn_addr c1) NO_ERROR] else [])"
    by (rule fin_sent_closes [OF f2 c1(1) r1 1(3) sent1])
  define h3 where "h3 = session_header KCP_CMD_ACK (Ack_data now2 now3 sn2 0) c1"
  have f3: "hd_cmd h3 = KCP_CMD_ACK" "as_ack_data (hd_body h3) = (now2, now3, sn2, 0)"
    by (simp_all add: h3_def session_header_def as_ack_data_def)
  have sent2: "sent_header KCP_CMD_FIN sn2 s1 \<noteq> None"
    using sent_header_appended [of h2 s1, OF _ f2(2)] f2(1) 2(5) by (simp add: h2_def)
  have r2: "sockaddr_equal (remote_host s1) client_addr" using 2(3) assms(7) by simp
  note 4 = last_ack_closes [OF f3 2(2) r2 sent2, of env' cbs' b3 ios1]
  have p: "kcp_proto_parse (header_packet h1) 32 [] = Parse_ok h1 32" "kcp_proto_parse (header_packet h2) 32 [] = Parse_ok h2 32"
    "kcp_proto_parse (header_packet h3) 32 [] = Parse_ok h3 32"
    by (simp_all add: h1_def h2_def h3_def fin_packet last_ack_packet)
  show ?thesis
    by (rule exI [where x = "put_conn c1 ctx"], rule exI [where x = c1], rule exI [where x = io1],
        rule exI [where x = "header_packet h1"], rule exI [where x = h1], rule exI [where x = s1], rule exI [where x = ios1],
        rule exI [where x = "header_packet h2"], rule exI [where x = h2],
        rule exI [where x = "c1\<lparr>state := KCP_STATE_DISCONNECTED\<rparr>"], rule exI [where x = io2],
        rule exI [where x = "header_packet h3"], rule exI [where x = h3],
        rule exI [where x = "s1\<lparr>state := KCP_STATE_DISCONNECTED\<rparr>"],
        rule exI [where x = "notify (has_on_closed cbs') (On_closed (conn_addr s1) NO_ERROR) ios1"],
        rule exI [where x = es1], rule exI [where x = es2],
        rule exI [where x = "if has_on_closed cbs then [On_closed a NO_ERROR] else []"], intro conjI)
       (use 1(1) [folded h1_def, folded c1_def] 1(2) [folded h1_def] 2 [folded h2_def] 3 [folded h3_def] 4 c1 p in
         \<open>simp_all add: conn_at_put_conn [OF assms(1)] notify_def emit_def\<close>)
qed

definition sample_closing_ctx :: kcp_context where
  "sample_closing_ctx = sample_ctx\<lparr>connection_set := Rb RB_BLACK Rb_Null sample_conn Rb_Null\<rparr>"

theorem close_completes_witness:
  "\<exists>ctx1 c1 io1 h1 s1 ios1 h2 c2 io2 h3 s2 ios2.
    kcp_close sample_env (conn_addr sample_conn) sample_closing_ctx sample_net = (ctx1, io1) \<and>
    conn_at (conn_addr sample_conn) ctx1 = Some c1 \<and> state c1 = KCP_STATE_FIN_SENT \<and>
    on_kcp_read_event sample_env no_callbacks [] h1 (remote_host sample_conn) sample_conn sample_net = Some (False, s1, ios1) \<and>
    state s1 = KCP_STATE_FIN_RECEIVED \<and>
    on_kcp_read_event sample_env no_callbacks [] h2 (remote_host sample_conn) c1 io1 = Some (False, c2, io2) \<and>
    state c2 = KCP_STATE_DISCONNECTED \<and>
    on_kcp_read_event sample_env no_callbacks [] h3 (remote_host sample_conn) s1 ios1 = Some (False, s2, ios2) \<and>
    state s2 = KCP_STATE_DISCONNECTED"
proof -
  have "conn_at (conn_addr sample_conn) sample_closing_ctx = Some sample_conn"
    by (simp add: conn_at_def connections_def sample_closing_ctx_def)
  moreover have "state sample_conn = KCP_STATE_CONNECTED" "\<forall>n. io_send sample_net n = Sent"
    "sockaddr_equal (remote_host sample_conn) (remote_host sample_conn)"
    by (simp_all add: sample_conn_def init_defs sample_net_def)
  ultimately show ?thesis
    using close_completes [of "conn_addr sample_conn" sample_closing_ctx sample_conn sample_net "remote_host sample_conn" sample_conn
        sample_net "remote_host sample_conn" sample_env sample_env no_callbacks "[]" no_callbacks "[]" "[]"] by blast
qed

text \<open>
  C39. A repeated SYN empties the connection set: when \<open>kcp_accept\<close> is called for a SYN whose source
  id is that of a connection in the set, it returns the conflict and destroys the connection it has
  just made, which was never linked; \<open>rb_erase\<close> of the unlinked node leaves an empty tree, so that
  every connection of the context is lost.
\<close>

theorem accept_conflict_empties_set:
  assumes "ctx_wf ctx" and "syn_queue ctx = syn # rest" and "fst (malloc io)"
    and "connection_set_search (ucast (sn_scid syn)) (connection_set ctx) \<noteq> None"
  shows "\<exists>ctx' io'. kcp_accept env timeout ctx io = (CONNECTION_ID_CONFLICT, ctx', io') \<and>
    connections ctx \<noteq> [] \<and> connections ctx' = []"
proof -
  obtain io1 where m: "malloc io = (True, io1)" using assms(3) by (cases "malloc io") auto
  obtain now io2 where t: "kcp_time_monotonic_us io1 = (now, io2)" by (metis prod.exhaust)
  let ?c = "(kcp_connection_init zero_connection (sn_remote_host syn) (udp_mtu ctx) now)
      \<lparr>conn_addr := next_addr ctx, dcid := sn_scid syn\<rparr>"
  let ?ctx = "ctx\<lparr>next_addr := next_addr ctx + 1\<rparr>"
  have "connection_set_insert ?c (connection_set ctx) = (False, connection_set ctx)"
    using assms(4) by (simp add: connection_set_insert_def conn_key_def)
  then have a: "kcp_accept env timeout ctx io = accept_fail CONNECTION_ID_CONFLICT ?c ?ctx io2"
    using m t assms(2) by (simp add: kcp_accept_def Let_def)
  have "conn_addr ?c \<notin> conn_addr ` set (rb_inorder (connection_set ctx))"
    using assms(1) by (auto simp: ctx_wf_def conn_addrs_def connections_def)
  then have "connections (fst (kcp_connection_destroy ?c ?ctx io2)) = []"
    by (simp add: connections_def destroy_eq erase_node_unlinked)
  moreover have "connections ctx \<noteq> []" using assms(4) by (auto simp: connections_def connection_set_search_def)
  ultimately show ?thesis unfolding a accept_fail_def by (metis prod.collapse)
qed

theorem accept_conflict_empties_set_witness:
  "\<exists>ctx' io'. kcp_accept sample_env 1000 (sample_server\<lparr>syn_queue := [sample_syn\<lparr>sn_scid := 6\<rparr>]\<rparr>) sample_io =
      (CONNECTION_ID_CONFLICT, ctx', io') \<and> connections (sample_server\<lparr>syn_queue := [sample_syn\<lparr>sn_scid := 6\<rparr>]\<rparr>) \<noteq> [] \<and>
      connections ctx' = []"
proof (rule accept_conflict_empties_set)
  show "ctx_wf (sample_server\<lparr>syn_queue := [sample_syn\<lparr>sn_scid := 6\<rparr>]\<rparr>)"
    using sample_server_wf(1) by (simp add: ctx_wf_def conn_addrs_def connections_def)
  show "syn_queue (sample_server\<lparr>syn_queue := [sample_syn\<lparr>sn_scid := 6\<rparr>]\<rparr>) = sample_syn\<lparr>sn_scid := 6\<rparr> # []" by simp
  show "fst (malloc sample_io)" by (simp add: malloc_def sample_io_def)
  show "connection_set_search (ucast (sn_scid (sample_syn\<lparr>sn_scid := 6\<rparr>)))
      (connection_set (sample_server\<lparr>syn_queue := [sample_syn\<lparr>sn_scid := 6\<rparr>]\<rparr>)) \<noteq> None"
    by (simp add: connection_set_search_def sample_server_def sample_peer_def conn_key_def)
qed

text \<open>
  The retransmission of a SYN stops after its first round: when the timer of a connecting client
  fires and retries are left, the SYN goes out to the candidates again, but whatever the outcome the
  application is told of a write error and the timer is not set again, since sending to candidates
  reports success as 0 and the caller expects a positive number.
\<close>

lemma connect_timeout_gives_up:
  assumes "conn_at a ctx = Some c" and "state c = KCP_STATE_SYN_SENT" and "candidates c \<noteq> []" and "syn_retries c \<noteq> 0"
  shows "\<exists>ctx' io' es. kcp_connect_timeout env a ctx io = (ctx', io') \<and>
    io_trace io' = io_trace io @ es @ [On_error (Some a) WRITE_ERROR] \<and> (\<forall>e \<in> set es. \<exists>p d. e = Send p d)"
proof -
  obtain now io1 where t: "kcp_time_monotonic_us io = (now, io1)" by (metis prod.exhaust)
  let ?c = "c\<lparr>syn_retries := syn_retries c - 1\<rparr>"
  let ?h = "syn_header env 0 now 0 (udp_mtu ctx) ?c"
  let ?c1 = "append_header ?h ?c"
  obtain st io2 where s: "kcp_send_syn_to_candidates ?c1 (syn_packet ?h) io1 = (st, io2)" by (metis prod.exhaust)
  have "\<not> status_pos st"
    using send_candidates_not_pos [of "Inl WRITE_ERROR" "syn_packet ?h" "candidates ?c1" False io1] s
    by (simp add: kcp_send_syn_to_candidates_def status_pos_def)
  then have r: "kcp_connect_timeout env a ctx io = (put_conn ?c1 ctx, emit (On_error (Some a) WRITE_ERROR) io2)"
    using assms t s by (simp add: kcp_connect_timeout_def Let_def append_header_def)
  have "io_trace io1 = io_trace io" using t by (auto simp: kcp_time_monotonic_us_def split: prod.splits)
  moreover have "\<exists>es. io_trace io2 = io_trace io1 @ es \<and> (\<forall>e \<in> set es. \<exists>p d. e = Send p d)"
    using send_candidates_trace [of "syn_packet ?h" "candidates ?c1" False "Inl WRITE_ERROR" io1] s
    by (simp add: kcp_send_syn_to_candidates_def)
  ultimately show ?thesis using r by auto
qed

end
