(* ===== verification/Kcp_Dispatch.thy ===== *)
theory Kcp_Dispatch
  imports Kcp_Handshake
begin

text \<open>
  The callbacks of the event loop: received datagrams (\<open>kcp_read_cb\<close>, \<open>kcp_parse_packet\<close>), ICMP
  errors, the write event (\<open>kcp_write_cb\<close>, \<open>on_kcp_write_event\<close>) and the write timer
  (\<open>kcp_write_timeout\<close>), and \<open>kcp_context_destroy\<close>.
\<close>

section \<open>The write callback of a connection\<close>

definition set_syn_ts :: "u64 \<Rightarrow> kcp_proto_header \<Rightarrow> kcp_proto_header" where
  "set_syn_ts now h =
     (case as_syn_fin_data (hd_body h) of (pts, ts, psn, rsn) \<Rightarrow> h\<lparr>hd_body := Syn_fin_data pts now psn rsn\<rparr>)"

text \<open>The states of the handshake: the last SYN again, with a new time.\<close>

definition write_syn :: "kcp_connection \<Rightarrow> kcp_io \<Rightarrow> kcp_error \<times> kcp_connection \<times> kcp_io" where
  "write_syn c io =
     (case kcp_time_monotonic_us io of (now, io1) \<Rightarrow>
        let hs = kcp_proto_header_list c;
            h = set_syn_ts now (last hs);
            c1 = c\<lparr>kcp_proto_header_list := butlast hs @ [h]\<rparr>;
            (st1, io2) = send_header h c1 io1;
            (st, io3) = (if state c1 = KCP_STATE_SYN_SENT \<and> candidates c1 \<noteq> []
                         then kcp_send_syn_to_candidates c1 (header_packet h) io2 else (st1, io2))
        in if st \<noteq> Inr 1 \<and> st \<noteq> Inr 0 then (write_status io3, c1, io3)
           else (NO_ERROR, c1, arm_timer Syn_timer c1 (emit (Timer_del (conn_addr c1) Syn_timer) io3)))"

definition write_fin :: "kcp_connection \<Rightarrow> kcp_io \<Rightarrow> kcp_error \<times> kcp_connection \<times> kcp_io" where
  "write_fin c io =
     (case send_header (last (kcp_proto_header_list c)) c io of (st, io1) \<Rightarrow>
        (if st \<noteq> Inr 1 then write_status io1 else NO_ERROR, c, io1))"

definition on_kcp_write_event ::
    "kcp_env \<Rightarrow> u64 \<Rightarrow> kcp_connection \<Rightarrow> kcp_io \<Rightarrow> (kcp_error \<times> kcp_connection \<times> kcp_io) option" where
  "on_kcp_write_event env timestamp c io =
     (if timestamp > 0 then on_kcp_write_timeout (env_xxh64 env) timestamp c io
      else case state c of
        KCP_STATE_DISCONNECTED \<Rightarrow> Some (CONNECTION_CLOSED, c, io)
      | KCP_STATE_SYN_SENT \<Rightarrow> Some (write_syn c io)
      | KCP_STATE_SYN_RECEIVED \<Rightarrow> Some (write_syn c io)
      | KCP_STATE_CONNECTED \<Rightarrow>
          (case kcp_time_monotonic_us io of (now, io1) \<Rightarrow> on_kcp_write_timeout (env_xxh64 env) now c io1)
      | KCP_STATE_FIN_SENT \<Rightarrow> Some (write_fin c io)
      | KCP_STATE_FIN_RECEIVED \<Rightarrow> Some (write_fin c io))"

section \<open>Write events and the write timer\<close>

text \<open>The loop of \<open>kcp_write_cb\<close> over the connections that wait for the socket.\<close>

fun write_loop :: "kcp_env \<Rightarrow> nat list \<Rightarrow> kcp_context \<Rightarrow> kcp_io \<Rightarrow> kcp_fault + kcp_context \<times> kcp_io" where
  "write_loop env [] ctx io = Inr (ctx, io)"
| "write_loop env (a # as) ctx io =
     (case conn_at a ctx of
        None \<Rightarrow> Inl Use_after_free
      | Some c \<Rightarrow>
          (case on_kcp_write_event env 0 c io of
             None \<Rightarrow> Inl No_return
           | Some (status, c', io') \<Rightarrow>
               (case conn_return c' ctx io io' of (ctx1, io1) \<Rightarrow>
                  if status = NO_ERROR
                  then write_loop env as (ctx1\<lparr>conn_write_event_queue := remove1 a (conn_write_event_queue ctx1)\<rparr>) io1
                  else if status = OP_TRY_AGAIN then Inr (ctx1, io1)
                  else Inr (ctx1, emit (On_error (Some a) status) io1))))"

definition kcp_write_cb :: "kcp_env \<Rightarrow> kcp_context \<Rightarrow> kcp_io \<Rightarrow> kcp_fault + kcp_context \<times> kcp_io" where
  "kcp_write_cb env ctx io =
     (case write_loop env (conn_write_event_queue ctx) ctx io of
        Inl e \<Rightarrow> Inl e
      | Inr (ctx1, io1) \<Rightarrow> Inr (ctx1, if conn_write_event_queue ctx1 = [] then emit Write_event_del io1 else io1))"

fun timeout_loop :: "kcp_env \<Rightarrow> u64 \<Rightarrow> nat list \<Rightarrow> kcp_context \<Rightarrow> kcp_io \<Rightarrow> kcp_fault + kcp_context \<times> kcp_io" where
  "timeout_loop env now [] ctx io = Inr (ctx, io)"
| "timeout_loop env now (a # as) ctx io =
     (case conn_at a ctx of
        None \<Rightarrow> Inl Use_after_free
      | Some c \<Rightarrow>
          if need_write_timer_event c \<and> state c \<noteq> KCP_STATE_DISCONNECTED \<and> ts_flush c \<le> now div 1000
          then (case on_kcp_write_event env now c io of
                  None \<Rightarrow> Inl No_return
                | Some (_, c', io') \<Rightarrow>
                    (case conn_return c' ctx io io' of (ctx1, io1) \<Rightarrow> timeout_loop env now as ctx1 io1))
          else timeout_loop env now as ctx io)"

definition kcp_write_timeout :: "kcp_env \<Rightarrow> kcp_context \<Rightarrow> kcp_io \<Rightarrow> kcp_fault + kcp_context \<times> kcp_io" where
  "kcp_write_timeout env ctx io =
     (case kcp_time_monotonic_us io of (now, io1) \<Rightarrow>
        case timeout_loop env now (map conn_addr (connections ctx)) ctx io1 of
          Inl e \<Rightarrow> Inl e
        | Inr (ctx1, io2) \<Rightarrow> Inr (ctx1, kcp_refresh_write_timer ctx1 io2))"

section \<open>Received datagrams\<close>

definition ascii :: "string \<Rightarrow> bytes" where
  "ascii s = map of_char s"

definition kcp_is_text_probe_packet :: "bytes \<Rightarrow> bool" where
  "kcp_is_text_probe_packet d =
     (\<exists>p \<in> set [ascii ''NTRS_KCP_PUNCH|'', ascii ''NTRS_FILTER_PROBE|'']. take (length p) d = p)"

text \<open>What follows the handling of one packet: the next packet, the end of the datagram, or the end of the call.\<close>

datatype parse_next = Next_packet | Stop

text \<open>The connection of a packet: by its source id, and for a client the only connection there is.\<close>

definition packet_connection :: "kcp_proto_header \<Rightarrow> kcp_context \<Rightarrow> kcp_connection option" where
  "packet_connection h ctx =
     (case connection_set_search (ucast (hd_scid h)) (connection_set ctx) of
        Some c \<Rightarrow> Some c
      | None \<Rightarrow> if has_on_connected (callback ctx) then connection_first (connection_set ctx) else None)"

definition packet_misdirected :: "kcp_proto_header \<Rightarrow> kcp_context \<Rightarrow> bool" where
  "packet_misdirected h ctx =
     (hd_dcid h \<noteq> 0 \<and>
      (case packet_connection h ctx of
         Some c \<Rightarrow> hd_dcid h \<noteq> scid c
       | None \<Rightarrow> hd_dcid h \<noteq> connection_id ctx \<and> \<not> bitmap_get (conv_bitmap ctx) (ucast (hd_dcid h))))"

definition packet_syn ::
    "kcp_env \<Rightarrow> connect_cb \<Rightarrow> kcp_proto_header \<Rightarrow> sockaddr \<Rightarrow> kcp_context \<Rightarrow> kcp_io \<Rightarrow>
     kcp_fault + parse_next \<times> kcp_context \<times> kcp_io" where
  "packet_syn env on_connect h addr ctx io =
     (case malloc io of (ok, io1) \<Rightarrow>
        if \<not> ok then Inr (Stop, ctx, emit (On_error None NO_MEMORY) io1)
        else if io_asserts io1 \<and> hd_dcid h \<noteq> 0 then Inl Assert_failed
        else
          (case as_syn_fin_data (hd_body h) of (pts, ts, psn, rsn) \<Rightarrow>
             let syn = \<lparr>sn_scid = hd_scid h, sn_dcid = hd_dcid h, sn_rand_sn = rsn, sn_packet_sn = psn,
                        sn_packet_ts = pts, sn_ts = ts, sn_remote_host = addr, sn_options = hd_options h\<rparr>
             in Inr (Next_packet,
                     on_kcp_syn_received env on_connect addr (ctx\<lparr>syn_queue := syn_queue ctx @ [syn]\<rparr>) io1)))"

definition packet_unknown ::
    "kcp_env \<Rightarrow> kcp_proto_header \<Rightarrow> sockaddr \<Rightarrow> kcp_context \<Rightarrow> kcp_io \<Rightarrow> parse_next \<times> kcp_context \<times> kcp_io" where
  "packet_unknown env h addr ctx io =
     (if hd_cmd h = KCP_CMD_RST then (Stop, ctx, io)
      else (case kcp_time_monotonic_us io of (now, io1) \<Rightarrow>
              (Next_packet, ctx, snd (kcp_send_packet_raw addr [rst_packet (env\<lparr>env_word := 0\<rparr>) now ctx] io1))))"

text \<open>\<open>read_cb\<close>; reading the state of a connection that it destroyed is a fault.\<close>

definition packet_read ::
    "kcp_env \<Rightarrow> bytes \<Rightarrow> kcp_proto_header \<Rightarrow> sockaddr \<Rightarrow> kcp_connection \<Rightarrow> kcp_context \<Rightarrow> kcp_io \<Rightarrow>
     kcp_fault + parse_next \<times> kcp_context \<times> kcp_io" where
  "packet_read env behind h addr c ctx io =
     (case on_kcp_read_event env (callback ctx) behind h addr c io of
        None \<Rightarrow> Inl No_return
      | Some (True, c', io') \<Rightarrow> Inl Use_after_free
      | Some (False, c', io') \<Rightarrow>
          (case conn_return c' ctx io io' of (ctx1, io1) \<Rightarrow>
             if state c' = KCP_STATE_DISCONNECTED then Inr (Stop, kcp_connection_destroy c' ctx1 io1)
             else Inr (Next_packet, ctx1, io1)))"

definition packet_handle ::
    "kcp_env \<Rightarrow> connect_cb \<Rightarrow> bytes \<Rightarrow> kcp_proto_header \<Rightarrow> sockaddr \<Rightarrow> kcp_context \<Rightarrow> kcp_io \<Rightarrow>
     kcp_fault + parse_next \<times> kcp_context \<times> kcp_io" where
  "packet_handle env on_connect behind h addr ctx io =
     (if packet_misdirected h ctx then Inr (Stop, ctx, io)
      else if hd_cmd h = KCP_CMD_SYN then packet_syn env on_connect h addr ctx io
      else (case packet_connection h ctx of
              None \<Rightarrow> Inr (packet_unknown env h addr ctx io)
            | Some c \<Rightarrow> packet_read env behind h addr c ctx io))"

text \<open>
  The loop over the packets of a datagram of \<open>n\<close> bytes in the read buffer \<open>mem\<close>, from offset \<open>off\<close>,
  with fuel; a packet has at least 32 bytes.
\<close>

primrec parse_loop ::
    "nat \<Rightarrow> kcp_env \<Rightarrow> connect_cb \<Rightarrow> bytes \<Rightarrow> nat \<Rightarrow> nat \<Rightarrow> sockaddr \<Rightarrow> kcp_context \<Rightarrow> kcp_io \<Rightarrow>
     kcp_fault + kcp_context \<times> kcp_io" where
  "parse_loop 0 env on_connect mem n off addr ctx io = Inl Out_of_fuel"
| "parse_loop (Suc fuel) env on_connect mem n off addr ctx io =
     (case kcp_proto_parse (drop off mem) (n - off) [] of
        Parse_fault \<Rightarrow> Inl Bad_load
      | Parse_error e \<Rightarrow> Inr (ctx, io)
      | Parse_ok h len \<Rightarrow>
          (case packet_handle env on_connect (drop (off + len) mem) h addr ctx io of
             Inl e \<Rightarrow> Inl e
           | Inr (Stop, ctx', io') \<Rightarrow> Inr (ctx', io')
           | Inr (Next_packet, ctx', io') \<Rightarrow>
               if off + len < n then parse_loop fuel env on_connect mem n (off + len) addr ctx' io' else Inr (ctx', io')))"

definition kcp_parse_packet ::
    "kcp_env \<Rightarrow> connect_cb \<Rightarrow> bytes \<Rightarrow> nat \<Rightarrow> sockaddr \<Rightarrow> kcp_context \<Rightarrow> kcp_io \<Rightarrow> kcp_fault + kcp_context \<times> kcp_io" where
  "kcp_parse_packet env on_connect mem n addr ctx io =
     (if kcp_is_text_probe_packet (take n mem) then Inr (ctx, io)
      else if n < KCP_HEADER_SIZE then Inr (ctx, io)
      else parse_loop (n div KCP_HEADER_SIZE + 1) env on_connect mem n 0 addr ctx io)"

section \<open>ICMP\<close>

definition parse_icmp_payload :: "bytes \<Rightarrow> sockaddr \<Rightarrow> kcp_context \<Rightarrow> kcp_connection option" where
  "parse_icmp_payload d addr ctx =
     (if length d < KCP_HEADER_SIZE then None
      else (case connection_set_search (ucast (load_le 2 0 d :: u16)) (connection_set ctx) of
              None \<Rightarrow> None
            | Some c \<Rightarrow> if sockaddr_equal (remote_host c) addr then Some c else None))"

definition kcp_process_icmp_fragmentation ::
    "kcp_env \<Rightarrow> bytes \<Rightarrow> sockaddr \<Rightarrow> u16 \<Rightarrow> kcp_context \<Rightarrow> kcp_io \<Rightarrow> kcp_fault + kcp_context \<times> kcp_io" where
  "kcp_process_icmp_fragmentation env d addr next_hop_mtu ctx io =
     (case parse_icmp_payload d addr ctx of
        None \<Rightarrow> Inr (ctx, io)
      | Some c \<Rightarrow>
          (case icmp_fragmentation (env_xxh64 env) next_hop_mtu c io of
             None \<Rightarrow> Inl No_return
           | Some (c', io') \<Rightarrow> Inr (conn_return c' ctx io io')))"

definition icmp_disconnect :: "kcp_error \<Rightarrow> bytes \<Rightarrow> sockaddr \<Rightarrow> kcp_context \<Rightarrow> kcp_io \<Rightarrow> kcp_context \<times> kcp_io" where
  "icmp_disconnect e d addr ctx io =
     (case parse_icmp_payload d addr ctx of
        None \<Rightarrow> (ctx, io)
      | Some c \<Rightarrow>
          if state c = KCP_STATE_SYN_SENT \<and> length (candidates c) > 1 then (ctx, io)
          else (put_conn (c\<lparr>state := KCP_STATE_DISCONNECTED\<rparr>) ctx, emit (On_error (Some (conn_addr c)) e) io))"

definition kcp_process_icmp_unreach :: "bytes \<Rightarrow> sockaddr \<Rightarrow> kcp_context \<Rightarrow> kcp_io \<Rightarrow> kcp_context \<times> kcp_io" where
  "kcp_process_icmp_unreach d addr ctx io = icmp_disconnect UDP_UNREACH d addr ctx io"

definition kcp_process_icmp_error :: "bytes \<Rightarrow> sockaddr \<Rightarrow> kcp_context \<Rightarrow> kcp_io \<Rightarrow> kcp_context \<times> kcp_io" where
  "kcp_process_icmp_error d addr ctx io = icmp_disconnect ICMP_ERROR d addr ctx io"

text \<open>
  What \<open>kcp_read_cb\<close> finds: the messages of the error queue, each with the payload of the packet it
  is about and the address, and then the datagrams. A read that fails ends the loop.
\<close>

datatype icmp_kind = Icmp_frag_needed u16 | Icmp_unreach | Icmp_unreach_other | Icmp_other | Not_icmp

datatype error_queue_item = Error_message icmp_kind bytes sockaddr | Error_read_failed

fun icmp_loop :: "kcp_env \<Rightarrow> error_queue_item list \<Rightarrow> kcp_context \<Rightarrow> kcp_io \<Rightarrow> kcp_fault + kcp_context \<times> kcp_io" where
  "icmp_loop env [] ctx io = Inr (ctx, io)"
| "icmp_loop env (Error_read_failed # ms) ctx io = Inr (ctx, emit (On_error None READ_ERROR) io)"
| "icmp_loop env (Error_message kind d addr # ms) ctx io =
     (case kind of
        Icmp_frag_needed m \<Rightarrow>
          (case kcp_process_icmp_fragmentation env d addr m ctx io of
             Inl e \<Rightarrow> Inl e
           | Inr (ctx', io') \<Rightarrow> icmp_loop env ms ctx' io')
      | Icmp_unreach \<Rightarrow> (case kcp_process_icmp_unreach d addr ctx io of (ctx', io') \<Rightarrow> icmp_loop env ms ctx' io')
      | Icmp_other \<Rightarrow> (case kcp_process_icmp_error d addr ctx io of (ctx', io') \<Rightarrow> icmp_loop env ms ctx' io')
      | _ \<Rightarrow> icmp_loop env ms ctx io)"

text \<open>A datagram: the read buffer after the read, the number of bytes read, and the sender.\<close>

fun datagram_loop ::
    "kcp_env \<Rightarrow> connect_cb \<Rightarrow> (bytes \<times> nat \<times> sockaddr) list \<Rightarrow> kcp_context \<Rightarrow> kcp_io \<Rightarrow> kcp_fault + kcp_context \<times> kcp_io" where
  "datagram_loop env on_connect [] ctx io = Inr (ctx, io)"
| "datagram_loop env on_connect ((mem, n, addr) # ds) ctx io =
     (case kcp_parse_packet env on_connect mem n addr ctx io of
        Inl e \<Rightarrow> Inl e
      | Inr (ctx', io') \<Rightarrow> datagram_loop env on_connect ds ctx' io')"

definition kcp_read_cb ::
    "kcp_env \<Rightarrow> connect_cb \<Rightarrow> error_queue_item list \<Rightarrow> (bytes \<times> nat \<times> sockaddr) list \<Rightarrow> kcp_context \<Rightarrow> kcp_io \<Rightarrow>
     kcp_fault + kcp_context \<times> kcp_io" where
  "kcp_read_cb env on_connect errors datagrams ctx io =
     (case icmp_loop env errors ctx io of
        Inl e \<Rightarrow> Inl e
      | Inr (ctx', io') \<Rightarrow> datagram_loop env on_connect datagrams ctx' io')"

section \<open>Destroying a context\<close>

fun destroy_loop :: "kcp_env \<Rightarrow> nat list \<Rightarrow> kcp_context \<Rightarrow> kcp_io \<Rightarrow> kcp_context \<times> kcp_io" where
  "destroy_loop env [] ctx io = (ctx, io)"
| "destroy_loop env (a # as) ctx io =
     (case conn_at a ctx of
        None \<Rightarrow> destroy_loop env as ctx io
      | Some c \<Rightarrow>
          (case (if state c \<noteq> KCP_STATE_DISCONNECTED then kcp_shutdown env a ctx io else kcp_connection_destroy c ctx io) of
             (ctx', io') \<Rightarrow> destroy_loop env as ctx' io'))"

definition kcp_context_destroy :: "kcp_env \<Rightarrow> kcp_context \<Rightarrow> kcp_io \<Rightarrow> kcp_context \<times> kcp_io" where
  "kcp_context_destroy env ctx io =
     (case destroy_loop env (map conn_addr (connections ctx)) ctx io of (ctx1, io1) \<Rightarrow>
        (ctx1\<lparr>syn_queue := [], read_event := False, write_event := False, sock := False,
              conv_bitmap := (conv_bitmap ctx1)\<lparr>bm_array := []\<rparr>\<rparr>, io1))"

section \<open>Lemmas\<close>

lemma proto_parse_len: "kcp_proto_parse mem n opts = Parse_ok h len \<Longrightarrow> 32 \<le> len"
proof -
  have o: "kcp_parse_options mem n off acc = Inl (os, off') \<Longrightarrow> off \<le> off'" for off acc os off'
  proof (induction mem n off acc rule: kcp_parse_options.induct)
    case (1 mem n off acc)
    from "1.prems" show ?case
      by (subst (asm) kcp_parse_options.simps) (use "1.IH" [of "mem ! off" "mem ! (off + 1)" "off + 2"] in \<open>auto simp: Let_def split: if_splits\<close>)
  qed
  assume "kcp_proto_parse mem n opts = Parse_ok h len"
  then show ?thesis
    using o by (auto simp: kcp_proto_parse_def Let_def kcp_const split: if_splits sum.splits option.splits kcp_body.splits) force+
qed







text \<open>A datagram with one packet; the two texts of the probes have a command that no packet has.\<close>

lemma text_probe_command:
  assumes "kcp_is_text_probe_packet (take n mem)" and "kcp_proto_parse mem n opts = Parse_ok h len"
  shows "hd_cmd h = 15"
proof -
  obtain p where p: "p \<in> set [ascii ''NTRS_KCP_PUNCH|'', ascii ''NTRS_FILTER_PROBE|'']" "take (length p) (take n mem) = p"
    using assms(1) unfolding kcp_is_text_probe_packet_def by blast
  have f: "4 < length p" "p ! 4 = 0x5F" using p(1) by (auto simp: ascii_def)
  have "length (take (length p) (take n mem)) = length p" using p(2) by simp
  then have "4 < n" using f(1) by simp
  moreover have "take (length p) (take n mem) ! 4 = 0x5F" using p(2) f(2) by simp
  ultimately have "mem ! 4 = 0x5F" using f(1) by simp
  then show ?thesis
    using assms(2) by (auto simp: kcp_proto_parse_def Let_def split: if_splits sum.splits option.splits kcp_body.splits)
qed

lemma parse_one_packet:
  assumes "kcp_proto_parse mem n [] = Parse_ok h n" and "hd_cmd h \<noteq> 15"
  shows "kcp_parse_packet env on_connect mem n addr ctx io =
    (case packet_handle env on_connect (drop n mem) h addr ctx io of
       Inl e \<Rightarrow> Inl e | Inr (_, ctx', io') \<Rightarrow> Inr (ctx', io'))"
proof -
  have "\<not> kcp_is_text_probe_packet (take n mem)" using text_probe_command assms by blast
  moreover have "\<not> n < KCP_HEADER_SIZE" using proto_parse_len [OF assms(1)] by (simp add: kcp_const)
  ultimately show ?thesis
    using assms(1) by (simp add: kcp_parse_packet_def split: sum.splits prod.splits parse_next.splits)
qed


subsection \<open>The two halves of the handshake\<close>

lemma client_connection:
  assumes "connections ctx = [c]" and "has_on_connected (callback ctx)"
  shows "packet_connection h ctx = Some c"
proof -
  have i: "rb_inorder (connection_set ctx) = [c]" using assms(1) by (simp add: connections_def)
  obtain col l v r where t: "connection_set ctx = Rb col l v r" using i by (cases "connection_set ctx") auto
  then have "rb_inorder l = [] \<and> v = c \<and> rb_inorder r = []" using i by (auto simp: append_eq_Cons_conv)
  then have "l = Rb_Null" "v = c" "r = Rb_Null" by (cases l; cases r; simp)+
  then show ?thesis
    using t i assms(2)
    by (auto simp: packet_connection_def connection_set_search_def connection_first_def rb_first_inorder split: option.splits if_splits)
qed

lemma find_distinct: "distinct (map f xs) \<Longrightarrow> x \<in> set xs \<Longrightarrow> find (\<lambda>y. f y = f x) xs = Some x"
  by (induction xs) auto

lemma server_connection:
  assumes "ctx_wf ctx" and "s \<in> set (connections ctx)" and "dcid s = hd_scid h"
  shows "packet_connection h ctx = Some s" and "conn_at (conn_addr s) ctx = Some s"
proof -
  have "rb_index conn_key (connection_set ctx)" using assms(1) by (simp add: ctx_wf_def)
  then have "connection_set_search (ucast (hd_scid h)) (connection_set ctx) = Some s"
    using assms(2,3) by (simp add: connection_set_search_def rbt.search_Some_iff connections_def conn_key_def)
  then show "packet_connection h ctx = Some s" by (simp add: packet_connection_def)
  show "conn_at (conn_addr s) ctx = Some s"
    using assms(1,2) by (simp add: conn_at_def find_distinct ctx_wf_def conn_addrs_def)
qed

text \<open>The ACK of the client, as a datagram, establishes the connection of the server.\<close>

lemma server_datagram:
  assumes p: "kcp_proto_parse d n [] = Parse_ok h n" and h: "hd_cmd h = KCP_CMD_ACK" "hd_dcid h = scid s" "hd_scid h = dcid s"
    and ctx: "ctx_wf ctx" "s \<in> set (connections ctx)"
    and s: "state s = KCP_STATE_SYN_RECEIVED" "sockaddr_equal (remote_host s) addr"
  shows "\<exists>ctx' io' s'. kcp_parse_packet env on_connect d n addr ctx io = Inr (ctx', io') \<and>
    conn_at (conn_addr s) ctx' = Some s' \<and> state s' = KCP_STATE_CONNECTED"
proof -
  note c = server_connection [OF ctx h(3) [symmetric]]
  obtain s' io1 where r: "on_kcp_read_event env (callback ctx) (drop n d) h addr s io = Some (False, s', io1)"
      "state s' = KCP_STATE_CONNECTED" "conn_addr s' = conn_addr s"
    using server_ack_accepts [OF s h(1)] by blast
  obtain ctx1 io2 where t: "conn_return s' ctx io io1 = (ctx1, io2)" by (metis prod.exhaust)
  then have "ctx1 = put_conn s' ctx" by (auto simp: conn_return_def Let_def)
  then have "conn_at (conn_addr s) ctx1 = Some s'" using conn_at_put_conn [OF c(2) r(3)] by simp
  moreover have "packet_handle env on_connect (drop n d) h addr ctx io = Inr (Next_packet, ctx1, io2)"
    using c(1) r t h by (simp add: packet_handle_def packet_misdirected_def packet_read_def kcp_cmd_defs)
  moreover have "hd_cmd h \<noteq> 15" using h(1) by (simp add: kcp_cmd_defs)
  ultimately show ?thesis
    using parse_one_packet [OF p, of env on_connect addr ctx io] r(2) by simp
qed

text \<open>The SYN of the server, as a datagram: what \<open>kcp_parse_packet\<close> leaves to \<open>on_kcp_syn_received\<close>.\<close>

definition syn_of :: "sockaddr \<Rightarrow> kcp_proto_header \<Rightarrow> syn_node" where
  "syn_of addr h =
     (case as_syn_fin_data (hd_body h) of (pts, ts, psn, rsn) \<Rightarrow>
        \<lparr>sn_scid = hd_scid h, sn_dcid = hd_dcid h, sn_rand_sn = rsn, sn_packet_sn = psn,
         sn_packet_ts = pts, sn_ts = ts, sn_remote_host = addr, sn_options = hd_options h\<rparr>)"

lemma client_datagram:
  assumes p: "kcp_proto_parse mem n [] = Parse_ok h n" and h: "hd_cmd h = KCP_CMD_SYN" "hd_dcid h = scid c"
    and ctx: "connections ctx = [c]" "has_on_connected (callback ctx)" and m: "malloc io = (True, io1)"
  shows "kcp_parse_packet env on_connect mem n addr ctx io =
    (if io_asserts io \<and> scid c \<noteq> 0 then Inl Assert_failed
     else Inr (on_kcp_syn_received env on_connect addr (ctx\<lparr>syn_queue := syn_queue ctx @ [syn_of addr h]\<rparr>) io1))"
proof -
  have "hd_cmd h \<noteq> 15" using h(1) by (simp add: kcp_cmd_defs)
  moreover have "io_asserts io1 = io_asserts io" using m by (auto simp: malloc_def)
  ultimately show ?thesis
    using parse_one_packet [OF p] client_connection [OF ctx, of h] m h
    by (auto simp: packet_handle_def packet_misdirected_def packet_syn_def syn_of_def split: prod.splits)
qed

section \<open>Properties\<close>

text \<open>
  C5. The handshake completes, from datagram to datagram: a client that waits for its SYN to be
  answered reads a datagram with the SYN of the server, addressed to its id and naming the number of
  one of the SYNs it sent. When memory and network allow, \<open>kcp_parse_packet\<close> returns with the client
  connected to the address the SYN came from and to the id of the server's connection, and the
  application told; it has sent a datagram which, read by the server, establishes the connection of
  the server that waits for it. This holds for a build with \<open>NDEBUG\<close>. In a build with assertions the
  same datagram ends the client: \<open>kcp_parse_packet\<close> asserts that a SYN has no destination id, which
  the SYN of a server always has.
\<close>

theorem handshake_completes:
  assumes "kcp_proto_parse mem n [] = Parse_ok h n" and "hd_cmd h = KCP_CMD_SYN" and "hd_dcid h = scid c"
    and "connections ctx = [c]" and "has_on_connected (callback ctx)" and "\<not> has_on_connect (callback ctx)"
    and "syn_queue ctx = []" and "state c = KCP_STATE_SYN_SENT"
    and "sent_header KCP_CMD_SYN (sn_packet_sn (syn_of addr h)) c = Some pos"
    and "\<forall>n. io_send io n = Sent" and "io_alloc io (io_allocs io)"
    and "ctx_wf sctx" and "s \<in> set (connections sctx)" and "scid s = hd_scid h" and "dcid s = scid c"
    and "state s = KCP_STATE_SYN_RECEIVED" and "sockaddr_equal (remote_host s) client_addr"
  shows "if io_asserts io \<and> scid c \<noteq> 0
    then kcp_parse_packet env on_connect mem n addr ctx io = Inl Assert_failed
    else \<exists>ctx' io' c' d sctx' ios' s'.
      kcp_parse_packet env on_connect mem n addr ctx io = Inr (ctx', io') \<and>
      connections ctx' = [c'] \<and> syn_queue ctx' = [] \<and>
      state c' = KCP_STATE_CONNECTED \<and> dcid c' = hd_scid h \<and> remote_host c' = addr \<and>
      On_connected (conn_addr c) NO_ERROR \<in> set (io_trace io') \<and> Send addr d \<in> set (io_trace io') \<and>
      kcp_parse_packet env' on_connect' d 32 client_addr sctx ios = Inr (sctx', ios') \<and>
      conn_at (conn_addr s) sctx' = Some s' \<and> state s' = KCP_STATE_CONNECTED"
proof -
  let ?ctx = "ctx\<lparr>syn_queue := syn_queue ctx @ [syn_of addr h]\<rparr>"
  obtain io1 where m: "malloc io = (True, io1)" and net: "\<forall>n. io_send io1 n = Sent"
    using assms(10,11) by (simp add: malloc_def)
  note dg = client_datagram [OF assms(1-5) m, of env on_connect addr]
  have q: "connections ?ctx = [c]" "\<not> has_on_connect (callback ?ctx)" "syn_queue ?ctx = syn_of addr h # []"
    using assms(4,6,7) by (simp_all add: connections_def)
  have id: "sn_scid (syn_of addr h) = hd_scid h" by (simp add: syn_of_def split: prod.splits)
  obtain ctx' io' c' k d where cl: "on_kcp_syn_received env on_connect addr ?ctx io1 = (ctx', io')" "connections ctx' = [c']"
      "syn_queue ctx' = []" "state c' = KCP_STATE_CONNECTED" "dcid c' = hd_scid h" "remote_host c' = addr"
      "On_connected (conn_addr c) NO_ERROR \<in> set (io_trace io')" "Send addr d \<in> set (io_trace io')"
      "kcp_proto_parse d 32 [] = Parse_ok k 32" "hd_cmd k = KCP_CMD_ACK" "hd_scid k = scid c" "hd_dcid k = hd_scid h"
    using client_handshake [OF q(1,2) assms(8) q(3) assms(9) net, of env on_connect addr] id by auto
  have k: "hd_dcid k = scid s" "hd_scid k = dcid s" using cl(11,12) assms(14,15) by simp_all
  show ?thesis
  proof (cases "io_asserts io \<and> scid c \<noteq> 0")
    case True
    then show ?thesis using dg by simp
  next
    case False
    then have "kcp_parse_packet env on_connect mem n addr ctx io = Inr (ctx', io')" using dg cl(1) by simp
    then show ?thesis
      using False cl server_datagram [OF cl(9,10) k assms(12,13,16,17), of env' on_connect' ios] by simp blast
  qed
qed

text \<open>A client that waits for the answer to its SYN, and the server that has answered.\<close>

definition sample_answer :: kcp_proto_header where
  "sample_answer = \<lparr>hd_scid = 12, hd_dcid = 5, hd_cmd = KCP_CMD_SYN, hd_opt = 0, hd_frg = 0, hd_wnd = 0,
     hd_body = Syn_fin_data 1500 1500 77 99, hd_options = []\<rparr>"

definition sample_waiting_ctx :: kcp_context where
  "sample_waiting_ctx = sample_ctx\<lparr>callback := no_callbacks\<lparr>has_on_connected := True\<rparr>,
     connection_set := Rb RB_BLACK Rb_Null sample_client Rb_Null\<rparr>"

definition sample_accepted :: kcp_connection where
  "sample_accepted = zero_connection\<lparr>conn_addr := 1, scid := 12, dcid := 5, state := KCP_STATE_SYN_RECEIVED,
     remote_host := Sockaddr_in 7000 2\<rparr>"

definition sample_accepting_ctx :: kcp_context where
  "sample_accepting_ctx = sample_ctx\<lparr>connection_set := Rb RB_BLACK Rb_Null sample_accepted Rb_Null, next_addr := 2\<rparr>"

lemma sample_answer_parses: "kcp_proto_parse (header_packet sample_answer) 32 [] = Parse_ok sample_answer 32"
  by (rule header_packet_wire(3)) (simp_all add: sample_answer_def header_wf_def kcp_cmd_defs)

lemma sample_accepting_wf: "ctx_wf sample_accepting_ctx" "sample_accepted \<in> set (connections sample_accepting_ctx)"
  using sample_ctx_bitmap
  by (simp_all add: ctx_wf_def sample_accepting_ctx_def sample_ctx_def sample_accepted_def conn_addrs_def connections_def
      rb_index_def rb_ok_def)

lemma sample_waiting:
  "connections sample_waiting_ctx = [sample_client]" "has_on_connected (callback sample_waiting_ctx)"
  "\<not> has_on_connect (callback sample_waiting_ctx)" "syn_queue sample_waiting_ctx = []" "state sample_client = KCP_STATE_SYN_SENT"
  "hd_dcid sample_answer = scid sample_client"
  "sent_header KCP_CMD_SYN (sn_packet_sn (syn_of addr sample_answer)) sample_client =
     Some (session_header KCP_CMD_SYN (Syn_fin_data 0 1000 0 77) sample_conn)"
  by (simp_all add: sample_waiting_ctx_def connections_def sample_ctx_def no_callbacks_def sample_client_def sent_header_def
      session_header_def syn_of_def sample_answer_def as_syn_fin_data_def sample_conn_def)

theorem handshake_completes_witness:
  "(\<exists>ctx' io' c' d sctx' ios' s'.
      kcp_parse_packet sample_env (\<lambda>a x i. (False, x, i)) (header_packet sample_answer) 32 (Sockaddr_in 9000 1)
        sample_waiting_ctx sample_net = Inr (ctx', io') \<and>
      connections ctx' = [c'] \<and> state c' = KCP_STATE_CONNECTED \<and> dcid c' = 12 \<and> Send (Sockaddr_in 9000 1) d \<in> set (io_trace io') \<and>
      kcp_parse_packet sample_env (\<lambda>a x i. (False, x, i)) d 32 (Sockaddr_in 7000 2) sample_accepting_ctx sample_net = Inr (sctx', ios') \<and>
      conn_at 1 sctx' = Some s' \<and> state s' = KCP_STATE_CONNECTED) \<and>
   kcp_parse_packet sample_env (\<lambda>a x i. (False, x, i)) (header_packet sample_answer) 32 (Sockaddr_in 9000 1)
     sample_waiting_ctx (sample_net\<lparr>io_asserts := True\<rparr>) = Inl Assert_failed"
proof -
  have cmd: "hd_cmd sample_answer = KCP_CMD_SYN" and ids: "scid sample_accepted = hd_scid sample_answer"
      "dcid sample_accepted = scid sample_client" "hd_scid sample_answer = 12" "scid sample_client = 5" "conn_addr sample_accepted = 1"
    by (simp_all add: sample_answer_def sample_accepted_def sample_client_def sample_conn_def)
  have st: "state sample_accepted = KCP_STATE_SYN_RECEIVED" "sockaddr_equal (remote_host sample_accepted) (Sockaddr_in 7000 2)"
    by (simp_all add: sample_accepted_def)
  have net: "\<forall>n. io_send (sample_net\<lparr>io_asserts := b\<rparr>) n = Sent"
      "io_alloc (sample_net\<lparr>io_asserts := b\<rparr>) (io_allocs (sample_net\<lparr>io_asserts := b\<rparr>))" for b
    by (simp_all add: sample_net_def sample_io_def)
  note hs = handshake_completes [where env = sample_env and on_connect = "\<lambda>a x i. (False, x, i)" and addr = "Sockaddr_in 9000 1"
      and env' = sample_env and on_connect' = "\<lambda>a x i. (False, x, i)" and ios = sample_net,
      OF sample_answer_parses cmd sample_waiting(6,1,2,3,4,5,7) _ _ sample_accepting_wf ids(1,2) st]
  have eq: "sample_net\<lparr>io_asserts := False\<rparr> = sample_net" and na: "(io_asserts sample_net \<and> (5 :: u16) \<noteq> 0) = False"
    by (simp_all add: sample_net_def sample_io_def)
  show ?thesis
  proof
    show "kcp_parse_packet sample_env (\<lambda>a x i. (False, x, i)) (header_packet sample_answer) 32 (Sockaddr_in 9000 1)
     sample_waiting_ctx (sample_net\<lparr>io_asserts := True\<rparr>) = Inl Assert_failed"
      using hs [OF net [of True]] by (simp add: ids)
  qed (use hs [OF net [of False], unfolded ids eq na if_False] in blast)
qed



text \<open>
  C40. A refused packet of the handshake is a use after free: when a packet that is neither an ACK, a
  PUSH, an RST nor a SYN arrives for a connection in \<open>KCP_STATE_SYN_RECEIVED\<close> from its peer, the read
  callback destroys the connection, and \<open>kcp_parse_packet\<close> then reads its state.
\<close>

theorem refused_packet_use_after_free:
  assumes "\<not> packet_misdirected h ctx" and "packet_connection h ctx = Some c" and "state c = KCP_STATE_SYN_RECEIVED"
    and "sockaddr_equal (remote_host c) addr" and "hd_cmd h \<notin> {KCP_CMD_SYN, KCP_CMD_ACK, KCP_CMD_PUSH, KCP_CMD_RST}"
  shows "packet_handle env on_connect behind h addr ctx io = Inl Use_after_free"
  using assms by (auto simp: packet_handle_def packet_read_def on_kcp_read_event_def split: prod.splits)

definition sample_half_open :: kcp_connection where
  "sample_half_open = sample_peer\<lparr>state := KCP_STATE_SYN_RECEIVED, remote_host := Sockaddr_in 7000 2\<rparr>"

definition sample_half_open_ctx :: kcp_context where
  "sample_half_open_ctx = sample_ctx\<lparr>connection_set := Rb RB_BLACK Rb_Null sample_half_open Rb_Null\<rparr>"

definition sample_ping :: kcp_proto_header where
  "sample_ping = \<lparr>hd_scid = 6, hd_dcid = 5, hd_cmd = KCP_CMD_PING, hd_opt = 0, hd_frg = 0, hd_wnd = 0,
     hd_body = Ping_data 0 0 1, hd_options = []\<rparr>"

lemma sample_half_open_found:
  "packet_connection sample_ping sample_half_open_ctx = Some sample_half_open" "\<not> packet_misdirected sample_ping sample_half_open_ctx"
proof -
  show f: "packet_connection sample_ping sample_half_open_ctx = Some sample_half_open"
    by (simp add: packet_connection_def connection_set_search_def sample_half_open_ctx_def sample_half_open_def sample_peer_def
        conn_key_def sample_ping_def)
  show "\<not> packet_misdirected sample_ping sample_half_open_ctx"
    by (simp add: packet_misdirected_def f) (simp add: sample_ping_def sample_half_open_def sample_peer_def)
qed

theorem refused_packet_use_after_free_witness:
  "packet_handle sample_env (\<lambda>a x i. (False, x, i)) [] sample_ping (Sockaddr_in 7000 2) sample_half_open_ctx sample_io =
     Inl Use_after_free"
  by (rule refused_packet_use_after_free [OF sample_half_open_found(2,1)])
     (simp_all add: sample_half_open_def sample_ping_def kcp_cmd_defs)

end
