(* ===== verification/Kcp_Stream.thy ===== *)
theory Kcp_Stream
  imports Kcp_Recv
begin

text \<open>
  Reassembly of a stream. The sender has a sequence of messages, each cut into fragments; the
  segments are numbered through, and the network may lose, repeat and reorder them. The receiver
  runs \<open>on_kcp_push_pcaket\<close> on what arrives and \<open>kcp_recv\<close> whenever the application reads. The
  theory shows that what the application gets is always a prefix of the messages, in order, each
  once and whole.

  The reachable states are the inductive predicate \<open>rx_reach\<close>; \<open>rx_inv\<close> is its invariant.
\<close>

section \<open>Streams\<close>

text \<open>A stream: the payloads of the fragments of each message. \<open>start_of M j\<close> is the number of its first segment.\<close>

type_synonym stream = "bytes list list"

definition start_of :: "stream \<Rightarrow> nat \<Rightarrow> nat" where
  "start_of M j = sum_list (map length (take j M))"

definition stream_ok :: "stream \<Rightarrow> bool" where
  "stream_ok M \<longleftrightarrow> start_of M (length M) < 2 ^ 31 - 1 \<and> (\<forall>m \<in> set M. m \<noteq> [] \<and> int (length m) \<le> KCP_PACKET_SIZE)"

text \<open>Fragment \<open>i\<close> of message \<open>j\<close>, as a received header and as a segment.\<close>

definition header_at :: "stream \<Rightarrow> nat \<Rightarrow> nat \<Rightarrow> kcp_proto_header \<Rightarrow> bool" where
  "header_at M j i h \<longleftrightarrow> j < length M \<and> i < length (M ! j) \<and>
     (case as_packet_data (hd_body h) of (ts, sn, psn, una, len, dat) \<Rightarrow>
        sn = of_nat (start_of M j + i) \<and> psn = of_nat j \<and> take (unat len) dat = M ! j ! i) \<and>
     hd_frg h = of_nat i \<and> (i = 0 \<longrightarrow> hd_wnd h = of_nat (length (M ! j)))"

definition seg_at :: "stream \<Rightarrow> nat \<Rightarrow> nat \<Rightarrow> kcp_segment \<Rightarrow> bool" where
  "seg_at M j i s \<longleftrightarrow> j < length M \<and> i < length (M ! j) \<and> seg_sn s = of_nat (start_of M j + i) \<and>
     seg_psn s = of_nat j \<and> seg_frg s = of_nat i \<and> seg_payload s = M ! j ! i \<and>
     (i = 0 \<longrightarrow> (ucast (seg_wnd s) :: u16) = of_nat (length (M ! j)))"

definition packet_at :: "stream \<Rightarrow> nat \<Rightarrow> kcp_packet_assembly \<Rightarrow> bool" where
  "packet_at M j q \<longleftrightarrow> j < length M \<and> pk_psn q = of_nat j \<and> pk_start_sn q = of_nat (start_of M j) \<and>
     (pk_has_head q \<longrightarrow> pk_expected_frags q = of_nat (length (M ! j)))"

section \<open>Positions\<close>

lemma start_of_Suc: "j < length M \<Longrightarrow> start_of M (Suc j) = start_of M j + length (M ! j)"
  by (simp add: start_of_def take_Suc_conv_app_nth)

lemma start_of_mono: "j \<le> j' \<Longrightarrow> start_of M j \<le> start_of M j'"
proof -
  assume "j \<le> j'"
  then have "take j' M = take j M @ take (j' - j) (drop j M)" by (metis le_add_diff_inverse take_add)
  then show ?thesis by (simp add: start_of_def)
qed

lemma start_of_total: "start_of M j \<le> start_of M (length M)"
  using start_of_mono [of j "length M" M] by (cases "j \<le> length M") (simp_all add: start_of_def)

lemma start_of_message: "stream_ok M \<Longrightarrow> j < j' \<Longrightarrow> j' \<le> length M \<Longrightarrow> start_of M j < start_of M j'"
proof -
  assume ok: "stream_ok M" and lt: "j < j'" and le: "j' \<le> length M"
  then have "M ! j \<noteq> []" by (simp add: stream_ok_def)
  then have "start_of M j < start_of M (Suc j)" using lt le by (simp add: start_of_Suc)
  also have "\<dots> \<le> start_of M j'" using lt by (intro start_of_mono) simp
  finally show ?thesis .
qed

lemma position_bound: "j < length M \<Longrightarrow> i < length (M ! j) \<Longrightarrow> start_of M j + i < start_of M (Suc j)"
  by (simp add: start_of_Suc)

lemma position_total: "j < length M \<Longrightarrow> i < length (M ! j) \<Longrightarrow> start_of M j + i < start_of M (length M)"
  using position_bound start_of_total [of M "Suc j"] by (meson order_less_le_trans)

lemma stream_small:
  assumes "stream_ok M"
  shows "j \<le> length M \<Longrightarrow> j < 2 ^ 31" and "start_of M j < 2 ^ 31" and "j < length M \<Longrightarrow> length (M ! j) \<le> 64"
proof -
  show "start_of M j < 2 ^ 31" using start_of_total [of M j] assms by (simp add: stream_ok_def)
  show "j < length M \<Longrightarrow> length (M ! j) \<le> 64" using assms nth_mem [of j M] by (auto simp: stream_ok_def kcp_const)
  have "j \<le> start_of M j" if "j \<le> length M" for j
    using that
  proof (induction j)
    case (Suc j)
    then show ?case using start_of_message [OF assms, of j "Suc j"] by simp
  qed simp
  then show "j \<le> length M \<Longrightarrow> j < 2 ^ 31" using \<open>start_of M j < 2 ^ 31\<close> by (meson order_le_less_trans)
qed

text \<open>Sequence numbers and message numbers are read back from their words.\<close>

lemma small_inj: "a < 2 ^ 31 \<Longrightarrow> b < 2 ^ 31 \<Longrightarrow> (of_nat a :: u32) = of_nat b \<longleftrightarrow> a = b"
  by (rule of_nat_u32_inj) simp_all

lemma small_unat: "a < 2 ^ 31 \<Longrightarrow> unat (of_nat a :: u32) = a"
  by (rule unat_of_nat_u32) simp

lemma seg_at_position: "stream_ok M \<Longrightarrow> seg_at M j i s \<Longrightarrow> unat (seg_sn s) = start_of M j + i"
  using position_total [of j M i] small_unat [of "start_of M j + i"] by (simp add: seg_at_def stream_ok_def)

lemma position_message:
  assumes "stream_ok M" "j < length M" "i < length (M ! j)" "start_of M k \<le> start_of M j + i" 
  shows "k \<le> j"
proof (rule ccontr)
  assume "\<not> k \<le> j"
  then have "start_of M (Suc j) \<le> start_of M k" by (intro start_of_mono) simp
  then show False using assms position_bound [of j M i] by simp
qed

lemma seg_at_unique:
  assumes "stream_ok M" "seg_at M j i s" "seg_psn s = of_nat j'" "j' < length M"
  shows "j = j'"
  using assms small_inj [of j j'] stream_small(1) [OF assms(1), of j] stream_small(1) [OF assms(1), of j']
  by (simp add: seg_at_def)

section \<open>The invariant\<close>

text \<open>
  \<open>k\<close> messages have been delivered. What is buffered belongs to later messages; the packets are
  listed by their start; and everything from the first undelivered segment to \<open>rcv_nxt\<close> is there.
\<close>

definition rx_inv :: "stream \<Rightarrow> nat \<Rightarrow> 'a kcp_rcv_scheme \<Rightarrow> bool" where
  "rx_inv M k c \<longleftrightarrow> rcv_wf c \<and> k \<le> length M \<and>
     (\<forall>s \<in> set (rb_inorder (rcv_buf c)). \<exists>j i. k \<le> j \<and> seg_at M j i s) \<and>
     (\<forall>q \<in> set (rb_inorder (rcv_packet c)). \<exists>j. k \<le> j \<and> packet_at M j q) \<and>
     sorted (map (packet_start (rcv_packet c)) (rcv_packet_list c)) \<and>
     start_of M k \<le> unat (rcv_nxt c) \<and> unat (rcv_nxt c) \<le> start_of M (length M) \<and>
     (\<forall>p. start_of M k \<le> p \<and> p < unat (rcv_nxt c) \<longrightarrow> of_nat p \<in> seg_sn ` set (rb_inorder (rcv_buf c)))"

lemma rx_inv_view: "rcv_view c = rcv_view c' \<Longrightarrow> rx_inv M k c = rx_inv M k c'"
  by (simp add: rx_inv_def rcv_wf_def rcv_view_def)

lemma packet_start_eq:
  assumes "rb_index pk_psn t" "q \<in> set (rb_inorder t)"
  shows "packet_start t (pk_psn q) = pk_start_sn q"
proof -
  have "rb_search pk_psn (pk_psn q) t = Some q" using rbt.search_Some_iff [OF assms(1)] assms(2) by blast
  then show ?thesis by (simp add: packet_start_def)
qed

lemma order_insert_sorted: "sorted (map f l) \<Longrightarrow> sorted (map f (order_insert f x l))"
proof (induction l)
  case (Cons y l)
  have "\<forall>z \<in> set (order_insert f x l). f y \<le> f z" if "\<not> f x < f y"
    using Cons.prems that by auto
  then show ?case using Cons by auto
qed simp

lemma sorted_remove1: "sorted (map f l) \<Longrightarrow> sorted (map f (remove1 x l))"
  by (induction l) (auto dest: notin_set_remove1 set_remove1_subset [THEN subsetD])

lemma sorted_map_cong: "(\<And>x. x \<in> set l \<Longrightarrow> f x = g x) \<Longrightarrow> sorted (map f l) = sorted (map g l)"
  by (metis map_cong)


section \<open>Storing a fragment\<close>

text \<open>The part of the invariant that does not mention \<open>rcv_nxt\<close>.\<close>

definition rx_core :: "stream \<Rightarrow> nat \<Rightarrow> kcp_segment rb_node \<Rightarrow> kcp_packet_assembly rb_node \<Rightarrow> u32 list \<Rightarrow> bool" where
  "rx_core M k b p l \<longleftrightarrow>
     (\<forall>s \<in> set (rb_inorder b). \<exists>j i. k \<le> j \<and> seg_at M j i s) \<and>
     (\<forall>q \<in> set (rb_inorder p). \<exists>j. k \<le> j \<and> packet_at M j q) \<and>
     sorted (map (packet_start p) l)"

lemma seg_at_push_segment:
  assumes ok: "stream_ok M" and h: "header_at M j i h"
  shows "seg_at M j i (push_segment h raw)"
proof -
  obtain ts sn psn una len dat where d: "as_packet_data (hd_body h) = (ts, sn, psn, una, len, dat)"
    by (metis prod.exhaust)
  have "i < 256" using h stream_small(3) [OF ok, of j] by (simp add: header_at_def)
  then have "unat (ucast (of_nat i :: u8) :: u32) = unat (of_nat i :: u32)"
    by (simp add: unsigned_ucast_eq unat_of_nat take_bit_nat_eq_self)
  then have "(ucast (of_nat i :: u8) :: u32) = of_nat i" by (simp only: word_unat_eq_iff)
  moreover have "take (unat len) dat = M ! j ! i" using h d by (simp add: header_at_def)
  then have "length (M ! j ! i) \<le> unat len" by (metis length_take min.cobounded2)
  moreover have "(ucast (ucast w :: u32) :: u16) = w" for w :: u16
    by (rule bit_word_eqI) (simp add: bit_simps)
  ultimately show ?thesis using h d by (simp add: header_at_def seg_at_def push_segment_def seg_payload_def)
qed

lemma seg_at_frg:
  assumes "stream_ok M" "seg_at M j i s"
  shows "seg_frg s = 0 \<longleftrightarrow> i = 0"
proof -
  have "i < 2 ^ 31" using assms stream_small(3) [OF assms(1), of j] by (simp add: seg_at_def)
  then show ?thesis using assms small_inj [of i 0] by (simp add: seg_at_def)
qed

lemma packet_start_map:
  fixes f :: "kcp_packet_assembly \<Rightarrow> kcp_packet_assembly"
  assumes "rb_index pk_psn p" "q \<in> set (rb_inorder p)" "\<And>x. pk_psn (f x) = pk_psn x"
  shows "packet_start (rb_map f p) (pk_psn q) = pk_start_sn (f q)"
  using packet_start_eq [OF rb_index_map [OF assms(1), of f], of "f q"] assms by (simp add: rb_inorder_map)

lemma core_create:
  assumes core: "rx_core M k b p l" and st: "rcv_struct b p l" and none: "rb_search pk_psn (pk_psn q) p = None"
    and q: "packet_at M j q" "k \<le> j"
  shows "rx_core M k b (rb_insert pk_psn q p) (order_insert (packet_start (rb_insert pk_psn q p)) (pk_psn q) l)"
proof -
  have ip: "rb_index pk_psn p" using st by (simp add: rcv_struct_def)
  have "pk_psn q \<notin> set l" using st none rbt.search_None_iff [OF ip] by (simp add: rcv_struct_def)
  then have "packet_start (rb_insert pk_psn q p) x = packet_start p x" if "x \<in> set l" for x
    using that rbt.search_insert [OF ip none, of x] by (auto simp: packet_start_def)
  then have "sorted (map (packet_start (rb_insert pk_psn q p)) l)"
    using core sorted_map_cong [of l "packet_start (rb_insert pk_psn q p)" "packet_start p"] by (simp add: rx_core_def)
  then show ?thesis
    using core q rbt.set_entries_insert [OF ip, of q] by (auto simp: rx_core_def intro: order_insert_sorted)
qed

lemma core_head:
  assumes ok: "stream_ok M" and core: "rx_core M k b p l" and st: "rcv_struct b p l" and seg: "seg_at M j i seg"
  shows "rx_core M k b (rb_map (head_update seg) p) l"
proof -
  have ip: "rb_index pk_psn p" using st by (simp add: rcv_struct_def)
  have upd: "pk_start_sn (head_update seg q) = pk_start_sn q \<and> (\<exists>j. k \<le> j \<and> packet_at M j (head_update seg q))"
    if q: "q \<in> set (rb_inorder p)" for q
  proof -
    obtain j' where j': "k \<le> j'" "packet_at M j' q" using core q by (auto simp: rx_core_def)
    show ?thesis
    proof (cases "seg_frg seg = 0 \<and> pk_psn q = seg_psn seg")
      case True
      then have "j = j'" using seg_at_unique [OF ok seg, of j'] j' by (simp add: packet_at_def)
      moreover have "i = 0" using True seg_at_frg [OF ok seg] by simp
      ultimately show ?thesis using True j' seg by (auto simp: head_update_def packet_at_def seg_at_def)
    next
      case False
      then show ?thesis using j' by (auto simp: head_update_def)
    qed
  qed
  have "packet_start (rb_map (head_update seg) p) x = packet_start p x" if x: "x \<in> set l" for x
  proof -
    obtain q where q: "q \<in> set (rb_inorder p)" "x = pk_psn q" using x st by (auto simp: rcv_struct_def)
    then show ?thesis using packet_start_map [OF ip q(1), of "head_update seg"] packet_start_eq [OF ip q(1)] upd by simp
  qed
  then have "sorted (map (packet_start (rb_map (head_update seg) p)) l)"
    using core sorted_map_cong [of l "packet_start (rb_map (head_update seg) p)" "packet_start p"] by (simp add: rx_core_def)
  then show ?thesis using core upd by (auto simp: rx_core_def rb_inorder_map)
qed

lemma core_fragment:
  assumes core: "rx_core M k b p l" and st: "rcv_struct b p l" and seg: "seg_at M j i seg" "k \<le> j"
  shows "rx_core M k (rb_insert seg_sn seg b) (rb_map (add_fragment seg) p) l"
proof -
  have ip: "rb_index pk_psn p" and ib: "rb_index seg_sn b" using st by (simp_all add: rcv_struct_def)
  have "packet_start (rb_map (add_fragment seg) p) x = packet_start p x" if x: "x \<in> set l" for x
  proof -
    obtain q where q: "q \<in> set (rb_inorder p)" "x = pk_psn q" using x st by (auto simp: rcv_struct_def)
    then show ?thesis using packet_start_map [OF ip q(1), of "add_fragment seg"] packet_start_eq [OF ip q(1)] by simp
  qed
  then have "sorted (map (packet_start (rb_map (add_fragment seg) p)) l)"
    using core sorted_map_cong [of l "packet_start (rb_map (add_fragment seg) p)" "packet_start p"] by (simp add: rx_core_def)
  moreover have "packet_at M j (add_fragment seg q) = packet_at M j q" for j q by (simp add: packet_at_def)
  ultimately show ?thesis
    using core seg rbt.set_entries_insert [OF ib, of seg] by (auto simp: rx_core_def rb_inorder_map)
qed

lemma core_store:
  assumes ok: "stream_ok M" and core: "rx_core M k (rcv_buf c) (rcv_packet c) (rcv_packet_list c)"
    and st: "rcv_struct (rcv_buf c) (rcv_packet c) (rcv_packet_list c)" and seg: "seg_at M j i seg" "k \<le> j"
    and there: "seg_psn seg \<in> pk_psn ` set (rb_inorder (rcv_packet c))"
  shows "rx_core M k (rcv_buf (push_fragment seg (push_head seg c))) (rcv_packet (push_fragment seg (push_head seg c)))
    (rcv_packet_list (push_fragment seg (push_head seg c)))"
proof -
  let ?p = "rb_map (head_update seg) (rcv_packet c)"
  let ?l = "rcv_packet_list (push_head seg c)"
  have c1: "rx_core M k (rcv_buf c) ?p (rcv_packet_list c)" by (rule core_head [OF ok core st seg(1)])
  have s1: "rcv_struct (rcv_buf c) ?p (rcv_packet_list c)" by (rule struct_map [OF st]) simp_all
  have "rx_core M k (rcv_buf c) ?p ?l"
    using c1 by (auto simp: rx_core_def push_head_fields intro: order_insert_sorted sorted_remove1)
  moreover have "rcv_struct (rcv_buf c) ?p ?l"
  proof (rule struct_list [OF s1])
    have "seg_psn seg \<in> set (rcv_packet_list c)" "distinct (rcv_packet_list c)"
      using st there by (simp_all add: rcv_struct_def)
    then show "set ?l = set (rcv_packet_list c)" "distinct ?l" by (auto simp: push_head_fields)
  qed
  ultimately show ?thesis
    using core_fragment [OF _ _ seg] by (simp add: push_fragment_fields push_head_fields)
qed

section \<open>Advancing\<close>

text \<open>From a number that is there on, the numbers that are there are consecutive and in the stream.\<close>

lemma present_position:
  assumes "stream_ok M" "rx_core M k b p l" "x \<in> seg_sn ` set (rb_inorder b)"
  shows "unat x < start_of M (length M)"
proof -
  obtain s j i where s: "x = seg_sn s" "seg_at M j i s" using assms by (auto simp: rx_core_def)
  have "unat x = start_of M j + i" using seg_at_position [OF assms(1) s(2)] s(1) by simp
  moreover have "j < length M" "i < length (M ! j)" using s(2) by (simp_all add: seg_at_def)
  ultimately show ?thesis using position_total by simp
qed

lemma present_run:
  fixes n :: u32
  assumes ok: "stream_ok M" and core: "rx_core M k b p l"
    and run: "\<And>i. i < r \<Longrightarrow> n + of_nat i \<in> seg_sn ` set (rb_inorder b)" and n: "unat n \<le> start_of M (length M)"
  shows "unat (n + of_nat r) = unat n + r \<and> unat n + r \<le> start_of M (length M)"
  using run
proof (induction r)
  case 0
  then show ?case using n by simp
next
  case (Suc r)
  then have IH: "unat (n + of_nat r) = unat n + r" by simp
  then have lt: "unat n + r < start_of M (length M)"
    using present_position [OF ok core, of "n + of_nat r"] Suc.prems [of r] by simp
  then have "unat n + r + 1 < 2 ^ 32" using ok by (simp add: stream_ok_def)
  then have "unat (n + of_nat r + 1) = unat (n + of_nat r) + 1"
    using IH by (simp add: unat_word_ariths)
  then show ?case using IH lt by (simp add: add_ac)
qed

lemma advance_range:
  assumes ok: "stream_ok M" and core: "rx_core M k (rcv_buf c) p l" and ib: "rb_index seg_sn (rcv_buf c)"
    and small: "length (rb_inorder (rcv_buf c)) < 2 ^ 31" and seg: "seg \<in> set (rb_inorder (rcv_buf c))"
    and lo: "start_of M k \<le> unat (rcv_nxt c)" and hi: "unat (rcv_nxt c) \<le> start_of M (length M)"
    and range: "\<forall>x. start_of M k \<le> x \<and> x < unat (rcv_nxt c) \<longrightarrow> of_nat x \<in> seg_sn ` set (rb_inorder (rcv_buf c))"
  shows "start_of M k \<le> unat (rcv_nxt (push_advance seg c)) \<and>
    unat (rcv_nxt (push_advance seg c)) \<le> start_of M (length M) \<and>
    (\<forall>x. start_of M k \<le> x \<and> x < unat (rcv_nxt (push_advance seg c)) \<longrightarrow> of_nat x \<in> seg_sn ` set (rb_inorder (rcv_buf c)))"
proof (cases "seg_sn seg = rcv_nxt c")
  case False
  then show ?thesis using lo hi range by (simp add: push_advance_def)
next
  case True
  let ?K = "seg_sn ` set (rb_inorder (rcv_buf c))"
  obtain r where r: "rcv_nxt (push_advance seg c) = rcv_nxt c + 1 + of_nat r"
    "\<forall>i < r. rb_search seg_sn (rcv_nxt c + 1 + of_nat i) (rcv_buf c) \<noteq> None"
    using advance_nxt_stops(2) [OF ib small, of "rcv_nxt c + 1"] True by (auto simp: push_advance_def)
  have run: "rcv_nxt c + of_nat i \<in> ?K" if i: "i < Suc r" for i
  proof (cases i)
    case 0
    then have "rcv_nxt c + of_nat i = seg_sn seg" using True by simp
    then show ?thesis using seg by blast
  next
    case (Suc i')
    then have "rb_search seg_sn (rcv_nxt c + 1 + of_nat i') (rcv_buf c) \<noteq> None" using i r(2) by simp
    then show ?thesis using Suc rbt.search_None_iff [OF ib] by (simp add: add_ac)
  qed
  have nxt: "rcv_nxt (push_advance seg c) = rcv_nxt c + of_nat (Suc r)" using r(1) by (simp add: add_ac)
  have pos: "unat (rcv_nxt (push_advance seg c)) = unat (rcv_nxt c) + Suc r"
    "unat (rcv_nxt c) + Suc r \<le> start_of M (length M)"
    using present_run [OF ok core run hi, of "Suc r"] unfolding nxt by blast+
  have "of_nat x \<in> ?K" if x: "start_of M k \<le> x" "x < unat (rcv_nxt (push_advance seg c))" for x
  proof (cases "x < unat (rcv_nxt c)")
    case True
    then show ?thesis using range x by blast
  next
    case False
    then have "of_nat x = (of_nat (unat (rcv_nxt c)) :: u32) + of_nat (x - unat (rcv_nxt c))"
      by (simp only: of_nat_add [symmetric]) simp
    then have "of_nat x = rcv_nxt c + of_nat (x - unat (rcv_nxt c))" by simp
    moreover have "x - unat (rcv_nxt c) < Suc r" using x(2) pos(1) False by linarith
    ultimately show ?thesis using run by simp
  qed
  then show ?thesis using pos lo by auto
qed


section \<open>Delivering a message\<close>

lemma consecutive_nth: "frags_consecutive n fs \<Longrightarrow> t < length fs \<Longrightarrow> seg_sn (fs ! t) = n + of_nat t"
proof (induction fs arbitrary: n t)
  case (Cons s fs)
  then show ?case by (cases t) (auto split: if_splits simp: add_ac)
qed simp

lemma complete_message:
  assumes ok: "stream_ok M" and q: "packet_at M j q" and wf: "packet_wf q" and comp: "kcp_rcv_packet_is_complete q"
    and segs: "\<forall>s \<in> set (pk_fragments q). \<exists>j i. seg_at M j i s"
  shows "map seg_payload (pk_fragments q) = M ! j" and "pk_expected_frags q = of_nat (length (M ! j))"
proof -
  let ?fs = "pk_fragments q" and ?n = "length (M ! j)"
  have j: "j < length M" using q by (simp add: packet_at_def)
  have head: "pk_has_head q" "pk_expected_frags q = pk_received_frags q" "frags_consecutive (pk_start_sn q) ?fs"
    using comp by (auto simp: kcp_rcv_packet_is_complete_def split: if_splits)
  show exp: "pk_expected_frags q = of_nat ?n" using q head by (simp add: packet_at_def)
  have at: "seg_at M j t (?fs ! t)" if t: "t < length ?fs" "t \<le> 64" for t
  proof -
    obtain j' i where s: "seg_at M j' i (?fs ! t)" using segs nth_mem [OF t(1)] by blast
    have "seg_psn (?fs ! t) = of_nat j" using wf q t by (simp add: packet_wf_def packet_at_def)
    then have "j' = j" using seg_at_unique [OF ok s] j by simp
    then have i: "i < ?n" "(of_nat (start_of M j + i) :: u32) = of_nat (start_of M j) + of_nat t"
      using s consecutive_nth [OF head(3) t(1)] q by (simp_all add: seg_at_def packet_at_def)
    then have "(of_nat i :: u32) = of_nat t" by simp
    then have "i = t" using i(1) t(2) stream_small(3) [OF ok j] small_inj [of i t] by simp
    then show ?thesis using s \<open>j' = j\<close> by simp
  qed
  have n: "?n \<le> 64" by (rule stream_small(3) [OF ok j])
  have le: "length ?fs \<le> ?n"
  proof (rule ccontr)
    assume "\<not> length ?fs \<le> ?n"
    then have "seg_at M j ?n (?fs ! ?n)" using at n by simp
    then show False by (simp add: seg_at_def)
  qed
  have "(of_nat (length ?fs) :: u16) = of_nat ?n" using wf exp head(2) by (simp add: packet_wf_def)
  then have "unat (of_nat (length ?fs) :: u16) = unat (of_nat ?n :: u16)" by simp
  then have len: "length ?fs = ?n" using le n by (simp add: unat_of_nat take_bit_nat_eq_self)
  show "map seg_payload ?fs = M ! j"
    using at n len by (intro nth_equalityI) (simp_all add: seg_at_def)
qed

text \<open>The head of the list is the next message when it can be delivered at all.\<close>

lemma head_is_next:
  assumes ok: "stream_ok M" and inv: "rx_inv M k c" and l: "rcv_packet_list c = pk_psn q # rest"
    and q: "q \<in> set (rb_inorder (rcv_packet c))" "packet_at M j q" "k \<le> j"
    and le: "start_of M j + length (M ! j) \<le> unat (rcv_nxt c)"
  shows "j = k"
proof (rule ccontr)
  assume "j \<noteq> k"
  then have kj: "k < j" "j < length M" using q by (simp_all add: packet_at_def)
  have st: "rcv_struct (rcv_buf c) (rcv_packet c) (rcv_packet_list c)" using inv by (simp add: rx_inv_def rcv_wf_def)
  then have ip: "rb_index pk_psn (rcv_packet c)" by (simp add: rcv_struct_def)
  have lt: "start_of M k < start_of M j" using start_of_message [OF ok kj(1)] kj(2) by simp
  then have "of_nat (start_of M k) \<in> seg_sn ` set (rb_inorder (rcv_buf c))"
    using inv le by (simp add: rx_inv_def)
  then obtain s where s: "s \<in> set (rb_inorder (rcv_buf c))" "seg_sn s = of_nat (start_of M k)" by auto
  obtain j' i where at: "seg_at M j' i s" "k \<le> j'" using inv s by (auto simp: rx_inv_def)
  have "start_of M j' + i = start_of M k"
    using seg_at_position [OF ok at(1)] s(2) small_unat [OF stream_small(2) [OF ok, of k]] by simp
  then have "j' = k" using start_of_message [OF ok, of k j'] at by (cases "j' = k") (simp_all add: seg_at_def)
  obtain q' where q': "q' \<in> set (rb_inorder (rcv_packet c))" "s \<in> set (pk_fragments q')"
    using struct_fragment_of [OF st s(1)] by blast
  obtain j'' where q'': "packet_at M j'' q'" using inv q'(1) by (auto simp: rx_inv_def)
  have "seg_psn s = pk_psn q'" using struct_packet(1) [OF st q'(1)] q'(2) by (simp add: packet_wf_def)
  then have "j'' = k" using seg_at_unique [OF ok at(1), of j''] q'' \<open>j' = k\<close> by (simp add: packet_at_def)
  then have k': "pk_start_sn q' = of_nat (start_of M k)" using q'' by (simp add: packet_at_def)
  have "q' \<noteq> q" using q'' q \<open>j'' = k\<close> kj small_inj [of j k] stream_small(1) [OF ok, of j] stream_small(1) [OF ok, of k]
    by (auto simp: packet_at_def)
  then have "pk_psn q' \<in> set rest"
    using struct_packet(3) [OF st q'(1)] l struct_packet_unique [OF st q'(1) q(1)] by auto
  then have "packet_start (rcv_packet c) (pk_psn q) \<le> packet_start (rcv_packet c) (pk_psn q')"
    using inv l by (simp add: rx_inv_def)
  then have "(of_nat (start_of M j) :: u32) \<le> of_nat (start_of M k)"
    using packet_start_eq [OF ip q(1)] packet_start_eq [OF ip q'(1)] q(2) k' by (simp add: packet_at_def)
  then show False
    using lt small_unat [OF stream_small(2) [OF ok, of j]] small_unat [OF stream_small(2) [OF ok, of k]]
    by (simp add: word_le_nat_alt)
qed

lemma expected_end:
  assumes ok: "stream_ok M" and q: "packet_at M j q" and e: "pk_expected_frags q = of_nat (length (M ! j))"
  shows "unat (pk_start_sn q + ucast (pk_expected_frags q)) = start_of M j + length (M ! j)"
proof -
  have j: "j < length M" using q by (simp add: packet_at_def)
  have n: "length (M ! j) \<le> 64" by (rule stream_small(3) [OF ok j])
  have "unat (ucast (of_nat (length (M ! j)) :: u16) :: u32) = length (M ! j)"
    using n by (simp add: unsigned_ucast_eq unat_of_nat take_bit_nat_eq_self)
  moreover have "start_of M j + length (M ! j) < 2 ^ 31"
    using stream_small(2) [OF ok, of "Suc j"] start_of_Suc [OF j] by simp
  ultimately show ?thesis
    using q e small_unat [OF stream_small(2) [OF ok, of j]] by (simp add: packet_at_def unat_word_ariths)
qed

lemma deliver_inv:
  assumes ok: "stream_ok M" and inv: "rx_inv M k c" and k: "k < length M"
    and q: "q \<in> set (rb_inorder (rcv_packet c))" "packet_at M k q"
    and le: "start_of M k + length (M ! k) \<le> unat (rcv_nxt c)"
    and l: "rcv_packet_list c = pk_psn q # rest"
    and wf: "rcv_wf (kcp_rcv_packet_destroy (pk_psn q) (foldl deliver_fragment c (pk_fragments q)))"
  shows "rx_inv M (Suc k) (kcp_rcv_packet_destroy (pk_psn q) (foldl deliver_fragment c (pk_fragments q)))"
proof -
  let ?d = "kcp_rcv_packet_destroy (pk_psn q) (foldl deliver_fragment c (pk_fragments q))"
  have st: "rcv_struct (rcv_buf c) (rcv_packet c) (rcv_packet_list c)" using inv by (simp add: rx_inv_def rcv_wf_def)
  then have ip: "rb_index pk_psn (rcv_packet c)" and ib: "rb_index seg_sn (rcv_buf c)" by (simp_all add: rcv_struct_def)
  have v: "rcv_buf ?d = foldl erase_segment (rcv_buf c) (pk_fragments q)"
    "rcv_packet ?d = rb_erase_where (\<lambda>p. pk_psn p = pk_psn q) (rcv_packet c)" "rcv_packet_list ?d = rest"
    "rcv_nxt ?d = rcv_nxt c"
    using deliver_fields [of c "pk_fragments q"] l by (simp_all add: kcp_rcv_packet_destroy_def rcv_view_def)
  note B = conjunct2 [OF erase_segments [OF ib, of "pk_fragments q"]]
  note P = rbt.set_entries_erase_key [OF ip, of "pk_psn q"]
  have later: "\<exists>j. Suc k \<le> j \<and> packet_at M j x" if "x \<in> set (rb_inorder (rcv_packet ?d))" for x
  proof -
    have x: "x \<in> set (rb_inorder (rcv_packet c))" "pk_psn x \<noteq> pk_psn q" using that P by (auto simp: v)
    then obtain j where "k \<le> j" "packet_at M j x" using inv by (auto simp: rx_inv_def)
    moreover have "j \<noteq> k" using x(2) q(2) calculation by (auto simp: packet_at_def)
    ultimately show ?thesis by (intro exI [where x = j]) simp
  qed
  have segs: "\<exists>j i. Suc k \<le> j \<and> seg_at M j i s" if s: "s \<in> set (rb_inorder (rcv_buf ?d))" for s
  proof -
    have sd: "rcv_struct (rcv_buf ?d) (rcv_packet ?d) (rcv_packet_list ?d)" using wf by (simp add: rcv_wf_def)
    obtain x where x: "x \<in> set (rb_inorder (rcv_packet ?d))" "s \<in> set (pk_fragments x)"
      using struct_fragment_of [OF sd s] by blast
    obtain j where j: "Suc k \<le> j" "packet_at M j x" using later [OF x(1)] by blast
    have "seg_psn s = pk_psn x" using struct_packet(1) [OF sd x(1)] x(2) by (simp add: packet_wf_def)
    moreover obtain j' i where "seg_at M j' i s" using inv s B by (auto simp: rx_inv_def v)
    ultimately show ?thesis using seg_at_unique [OF ok, of j' i s j] j by (auto simp: packet_at_def)
  qed
  have start: "packet_start (rcv_packet ?d) x = packet_start (rcv_packet c) x" if "x \<in> set rest" for x
  proof -
    have "x \<noteq> pk_psn q" using that l st by (auto simp: rcv_struct_def)
    then show ?thesis using rbt.search_erase_key [OF ip, of x "pk_psn q"] by (simp add: packet_start_def v)
  qed
  have sorted: "sorted (map (packet_start (rcv_packet ?d)) rest)"
    using inv l sorted_map_cong [of rest "packet_start (rcv_packet ?d)" "packet_start (rcv_packet c)"] start
    by (simp add: rx_inv_def)
  have range: "of_nat p \<in> seg_sn ` set (rb_inorder (rcv_buf ?d))"
    if p: "start_of M (Suc k) \<le> p" "p < unat (rcv_nxt c)" for p
  proof -
    have "start_of M k \<le> p" using p start_of_mono [of k "Suc k" M] by simp
    then obtain s where s: "s \<in> set (rb_inorder (rcv_buf c))" "seg_sn s = of_nat p"
      using inv p by (fastforce simp: rx_inv_def)
    have "p < 2 ^ 31" using p inv stream_small(2) [OF ok, of "length M"] by (simp add: rx_inv_def)
    then have up: "unat (seg_sn s) = p" using s small_unat by simp
    have "seg_sn s \<notin> seg_sn ` set (pk_fragments q)"
    proof
      assume "seg_sn s \<in> seg_sn ` set (pk_fragments q)"
      then obtain x where x: "x \<in> set (pk_fragments q)" "seg_sn s = seg_sn x" by auto
      then have xb: "x \<in> set (rb_inorder (rcv_buf c))" "seg_psn x = of_nat k"
        using struct_packet [OF st q(1)] q(2) by (auto simp: packet_wf_def packet_at_def)
      obtain j i where at: "seg_at M j i x" using inv xb by (auto simp: rx_inv_def)
      then have "j = k" using seg_at_unique [OF ok at xb(2) k] by simp
      then show False
        using at p(1) up x(2) seg_at_position [OF ok at] position_bound [of k M i] by (simp add: seg_at_def)
    qed
    then have "s \<in> set (rb_inorder (rcv_buf ?d))" using s(1) B by (simp add: v)
    then show ?thesis using s(2) by (intro rev_image_eqI [of s]) simp_all
  qed
  show ?thesis
    unfolding rx_inv_def using wf k later segs sorted range inv le start_of_Suc [OF k]
    by (auto simp: v rx_inv_def)
qed

text \<open>The receive buffer holds each segment of the stream at most once.\<close>

lemma rx_inv_small:
  assumes ok: "stream_ok M" and inv: "rx_inv M k c"
  shows "nrcv_buf c < 2 ^ 31 - 1"
proof -
  let ?xs = "map seg_sn (rb_inorder (rcv_buf c))" and ?n = "start_of M (length M)"
  have wf: "rcv_wf c" using inv by (simp add: rx_inv_def)
  then have "distinct ?xs" by (intro rbt.distinct_keys) (simp add: rcv_wf_def rcv_struct_def)
  moreover have "set ?xs \<subseteq> of_nat ` {..<?n}"
  proof
    fix x assume "x \<in> set ?xs"
    then obtain s j i where x: "x = seg_sn s" and s: "seg_at M j i s" using inv by (auto simp: rx_inv_def)
    then have "start_of M j + i < ?n" using position_total [of j M i] by (simp add: seg_at_def)
    moreover have "x = of_nat (start_of M j + i)" using x s by (simp add: seg_at_def)
    ultimately show "x \<in> of_nat ` {..<?n}" by blast
  qed
  then have "card (set ?xs) \<le> ?n" using surj_card_le [of "{..<?n}" "set ?xs" of_nat] by simp
  ultimately have "length ?xs \<le> ?n" by (simp only: distinct_card)
  then show ?thesis using wf ok by (simp add: rcv_wf_def stream_ok_def)
qed

lemma push_deliver_step:
  assumes ok: "stream_ok M" and inv: "rx_inv M k c"
  shows "\<exists>k'. k \<le> k' \<and> rx_inv M k' (fst (push_deliver c io)) \<and>
    map seg_payload (rcv_queue (fst (push_deliver c io))) = map seg_payload (rcv_queue c) @ concat (take (k' - k) (drop k M))"
proof (cases "fst (push_deliver c io) = c")
  case True
  then show ?thesis using inv by (intro exI [where x = k]) simp
next
  case False
  have st: "rcv_struct (rcv_buf c) (rcv_packet c) (rcv_packet_list c)" using inv by (simp add: rx_inv_def rcv_wf_def)
  then have ip: "rb_index pk_psn (rcv_packet c)" by (simp add: rcv_struct_def)
  obtain psn rest where l': "rcv_packet_list c = psn # rest"
    using False by (cases "rcv_packet_list c") (simp_all add: push_deliver_def)
  obtain q where s: "rb_search pk_psn psn (rcv_packet c) = Some q"
    using False l' by (cases "rb_search pk_psn psn (rcv_packet c)") (simp_all add: push_deliver_def kcp_rcv_packet_search_def)
  then have q: "q \<in> set (rb_inorder (rcv_packet c))" and psn: "psn = pk_psn q" using rbt.search_Some_iff [OF ip] by simp_all
  have l: "rcv_packet_list c = pk_psn q # rest" using l' psn by simp
  have comp: "kcp_rcv_packet_is_complete q" and le: "pk_start_sn q + ucast (pk_expected_frags q) \<le> rcv_nxt c"
    using False l' s by (simp_all add: push_deliver_def kcp_rcv_packet_search_def Let_def split: if_splits)
  then have d: "fst (push_deliver c io) = kcp_rcv_packet_destroy (pk_psn q) (foldl deliver_fragment c (pk_fragments q))"
    using l' s psn by (simp add: push_deliver_def kcp_rcv_packet_search_def Let_def)
  obtain j where j: "k \<le> j" "packet_at M j q" using inv q by (auto simp: rx_inv_def)
  have segs: "\<forall>s \<in> set (pk_fragments q). \<exists>j i. seg_at M j i s"
    using struct_packet(2) [OF st q] inv by (fastforce simp: rx_inv_def)
  note msg = complete_message [OF ok j(2) struct_packet(1) [OF st q] comp segs]
  have e: "start_of M j + length (M ! j) \<le> unat (rcv_nxt c)"
    using le expected_end [OF ok j(2) msg(2)] by (simp add: word_le_nat_alt)
  have jk: "j = k" by (rule head_is_next [OF ok inv l q j(2) j(1) e])
  then have k: "k < length M" using j by (simp add: packet_at_def)
  have wf: "rcv_wf (kcp_rcv_packet_destroy (pk_psn q) (foldl deliver_fragment c (pk_fragments q)))"
    using push_deliver_wf [of c io] rx_inv_small [OF ok inv] inv d by (simp add: rx_inv_def)
  have "rx_inv M (Suc k) (fst (push_deliver c io))"
    using deliver_inv [OF ok inv k q _ _ l wf] j e jk d by simp
  moreover have "rcv_queue (fst (push_deliver c io)) = rcv_queue c @ pk_fragments q"
    using deliver_fields [of c "pk_fragments q"] d by (simp add: kcp_rcv_packet_destroy_def rcv_view_def)
  moreover have "take (Suc k - k) (drop k M) = [M ! k]" using k by (simp add: take_Suc_conv_app_nth)
  ultimately show ?thesis using msg(1) jk by (intro exI [where x = "Suc k"]) simp
qed


section \<open>Steps\<close>

lemma rx_inv_core:
  "rx_inv M k c \<longleftrightarrow> rcv_wf c \<and> k \<le> length M \<and> rx_core M k (rcv_buf c) (rcv_packet c) (rcv_packet_list c) \<and>
     start_of M k \<le> unat (rcv_nxt c) \<and> unat (rcv_nxt c) \<le> start_of M (length M) \<and>
     (\<forall>p. start_of M k \<le> p \<and> p < unat (rcv_nxt c) \<longrightarrow> of_nat p \<in> seg_sn ` set (rb_inorder (rcv_buf c)))"
  by (auto simp: rx_inv_def rx_core_def)

lemma push_stored_inv:
  assumes ok: "stream_ok M" and inv: "rx_inv M k c" and small: "nrcv_buf c < 2 ^ 31 - 1"
    and new: "rb_search seg_sn (seg_sn seg) (rcv_buf c) = None"
    and there: "seg_psn seg \<in> pk_psn ` set (rb_inorder (rcv_packet c))"
    and seg: "seg_at M j i seg" "k \<le> j"
  shows "rx_inv M k (push_advance seg (push_fragment seg (push_head seg c)))"
proof -
  let ?c = "push_fragment seg (push_head seg c)"
  have wf: "rcv_wf c" and st: "rcv_struct (rcv_buf c) (rcv_packet c) (rcv_packet_list c)"
    using inv by (simp_all add: rx_inv_def rcv_wf_def)
  then have ib: "rb_index seg_sn (rcv_buf c)" by (simp add: rcv_struct_def)
  have core: "rx_core M k (rcv_buf ?c) (rcv_packet ?c) (rcv_packet_list ?c)"
    using core_store [OF ok _ st seg there] inv by (simp add: rx_inv_core)
  have st': "rcv_struct (rcv_buf ?c) (rcv_packet ?c) (rcv_packet_list ?c)" by (rule push_struct [OF st new there])
  have buf: "set (rb_inorder (rcv_buf ?c)) = insert seg (set (rb_inorder (rcv_buf c)))"
    using rbt.set_entries_insert [OF ib] by (simp add: push_fragment_fields push_head_fields)
  have nxt: "rcv_nxt ?c = rcv_nxt c" by (simp add: push_fragment_fields push_head_fields)
  have "start_of M k \<le> unat (rcv_nxt (push_advance seg ?c)) \<and>
    unat (rcv_nxt (push_advance seg ?c)) \<le> start_of M (length M) \<and>
    (\<forall>x. start_of M k \<le> x \<and> x < unat (rcv_nxt (push_advance seg ?c)) \<longrightarrow> of_nat x \<in> seg_sn ` set (rb_inorder (rcv_buf ?c)))"
  proof (rule advance_range [OF ok core])
    show "rb_index seg_sn (rcv_buf ?c)" using st' by (simp add: rcv_struct_def)
    show "length (rb_inorder (rcv_buf ?c)) < 2 ^ 31"
      using rbt.length_insert [OF ib, of seg] wf small by (simp add: push_fragment_fields push_head_fields rcv_wf_def)
  qed (use inv buf in \<open>auto simp: nxt rx_inv_def\<close>)
  then show ?thesis
    using push_tail_wf [OF wf small new there] core inv by (simp add: rx_inv_core)
qed

lemma create_inv:
  assumes ok: "stream_ok M" and inv: "rx_inv M k c" and none: "kcp_rcv_packet_search (seg_psn seg) c = None"
    and c': "kcp_rcv_packet_create mem (seg_psn seg) (seg_sn seg - seg_frg seg) c = Some c'"
    and seg: "seg_at M j i seg" "k \<le> j"
  shows "rx_inv M k c'"
proof -
  let ?q = "\<lparr>pk_psn = seg_psn seg, pk_start_sn = seg_sn seg - seg_frg seg, pk_expected_frags = 0, pk_received_frags = 0,
             pk_total_size = 0, pk_has_head = False, pk_fragments = []\<rparr>"
  have st: "rcv_struct (rcv_buf c) (rcv_packet c) (rcv_packet_list c)" using inv by (simp add: rx_inv_def rcv_wf_def)
  note cr = create_struct [OF st none c']
  have q: "packet_at M j ?q" using seg by (simp add: packet_at_def seg_at_def)
  have "rx_core M k (rcv_buf c) (rb_insert pk_psn ?q (rcv_packet c))
      (order_insert (packet_start (rb_insert pk_psn ?q (rcv_packet c))) (seg_psn seg) (rcv_packet_list c))"
    using core_create [OF _ st _ q seg(2)] inv none by (simp add: rx_inv_core kcp_rcv_packet_search_def)
  moreover have "rcv_packet c' = rb_insert pk_psn ?q (rcv_packet c)"
    "rcv_packet_list c' = order_insert (packet_start (rb_insert pk_psn ?q (rcv_packet c))) (seg_psn seg) (rcv_packet_list c)"
    using c' by (auto simp: kcp_rcv_packet_create_def kcp_rcv_packet_order_insert_def kcp_rcv_packet_insert_def Let_def
        split: if_splits)
  ultimately have "rx_core M k (rcv_buf c) (rcv_packet c') (rcv_packet_list c')" by simp
  then show ?thesis using cr inv unfolding rx_inv_core rcv_wf_def by (elim conjE) (simp only: simp_thms)
qed

text \<open>One step: the invariant is kept, and the receive queue grows by the next messages.\<close>

definition rx_step :: "stream \<Rightarrow> nat \<Rightarrow> 'a kcp_rcv_scheme \<Rightarrow> 'a kcp_rcv_scheme \<Rightarrow> bool" where
  "rx_step M k c c' \<longleftrightarrow> (\<exists>k'. k \<le> k' \<and> rx_inv M k' c' \<and>
     map seg_payload (rcv_queue c') = map seg_payload (rcv_queue c) @ concat (take (k' - k) (drop k M)))"

lemma rx_step_same: "rx_inv M k c \<Longrightarrow> rcv_view c' = rcv_view c \<Longrightarrow> rx_step M k c c'"
  unfolding rx_step_def using rx_inv_view [of c' c M k] by (intro exI [where x = k]) (simp add: rcv_view_def)

lemma rx_step_delivers:
  assumes "rx_step M k c c'" and "out @ concat (map seg_payload (rcv_queue c)) = concat (map concat (take k M))"
  shows "\<exists>k. rx_inv M k c' \<and> out @ concat (map seg_payload (rcv_queue c')) = concat (map concat (take k M))"
proof -
  obtain k' where k': "k \<le> k'" "rx_inv M k' c'"
    "map seg_payload (rcv_queue c') = map seg_payload (rcv_queue c) @ concat (take (k' - k) (drop k M))"
    using assms(1) by (auto simp: rx_step_def)
  have t: "take k' M = take k M @ take (k' - k) (drop k M)"
    using k'(1) by (metis le_add_diff_inverse take_add)
  have cc: "concat (map concat xs) = concat (concat xs)" for xs :: "bytes list list" by (induction xs) auto
  show ?thesis using assms(2) k' by (intro exI [where x = k']) (simp add: t cc flip: append_assoc)
qed

lemma push_store_step:
  assumes ok: "stream_ok M" and inv: "rx_inv M k c" and small: "nrcv_buf c < 2 ^ 31 - 1"
    and seg: "seg_at M j i seg" "k \<le> j"
  shows "rx_step M k c (fst (snd (push_store mem seg ack c io)))"
proof (cases "kcp_rcv_segment_search (seg_sn seg) c = None")
  case False
  then show ?thesis using inv by (simp add: push_store_def rx_step_same)
next
  case new: True
  let ?created = "if kcp_rcv_packet_search (seg_psn seg) c \<noteq> None then Some c
                  else kcp_rcv_packet_create (mem_packet mem) (seg_psn seg) (seg_sn seg - seg_frg seg) c"
  have st: "rcv_struct (rcv_buf c) (rcv_packet c) (rcv_packet_list c)" using inv by (simp add: rx_inv_def rcv_wf_def)
  then have ip: "rb_index pk_psn (rcv_packet c)" by (simp add: rcv_struct_def)
  show ?thesis
  proof (cases ?created)
    case None
    then show ?thesis using new inv by (simp add: push_store_def Let_def rx_step_same)
  next
    case (Some c1)
    have c1: "rx_inv M k c1 \<and> seg_psn seg \<in> pk_psn ` set (rb_inorder (rcv_packet c1)) \<and> rcv_buf c1 = rcv_buf c \<and>
        nrcv_buf c1 = nrcv_buf c \<and> rcv_queue c1 = rcv_queue c"
    proof (cases "kcp_rcv_packet_search (seg_psn seg) c = None")
      case True
      then show ?thesis
        using create_struct [OF st True, of "mem_packet mem" "seg_sn seg - seg_frg seg" c1]
          create_inv [OF ok inv True _ seg, of "mem_packet mem" c1] Some by simp
    next
      case False
      then show ?thesis
        using Some inv rbt.search_None_iff [OF ip, of "seg_psn seg"] by (simp add: kcp_rcv_packet_search_def)
    qed
    let ?c2 = "c1\<lparr>ack_item := ack_item c1 @ [ack]\<rparr>"
    let ?c3 = "push_advance seg (push_fragment seg (push_head seg ?c2))"
    have "rx_inv M k ?c2" using c1 rx_inv_view [of ?c2 c1] by simp
    then have "rx_inv M k ?c3"
      using c1 small new seg by (intro push_stored_inv [OF ok]) (simp_all add: kcp_rcv_segment_search_def)
    moreover have "rcv_queue ?c3 = rcv_queue c" using c1 by (simp add: push_fragment_fields push_head_fields)
    ultimately have "rx_step M k c (fst (push_deliver ?c3 io))"
      using push_deliver_step [OF ok, of k ?c3 io] by (simp add: rx_step_def)
    then show ?thesis using new Some by (simp add: push_store_def Let_def split: prod.splits)
  qed
qed

lemma push_step:
  assumes ok: "stream_ok M" and inv: "rx_inv M k c" and small: "nrcv_buf c < 2 ^ 31 - 1" and h: "header_at M j i h"
  shows "rx_step M k c (fst (snd (on_kcp_push_pcaket mem h ts c io)))"
proof -
  obtain pts sn psn una len dat where d: "as_packet_data (hd_body h) = (pts, sn, psn, una, len, dat)"
    by (metis prod.exhaust)
  let ?c = "ping_refresh ts c"
  obtain r c1 where g: "kcp_segment_recv_get (mem_segment mem) ?c = (r, c1)" by (metis prod.exhaust)
  have v: "rcv_view c1 = rcv_view c" using rcv_view_get [OF g] by simp
  have same: "rx_step M k c ?c" "rx_step M k c (?c\<lparr>probe := x\<rparr>)" "rx_step M k c c1" for x
    using inv v by (simp_all add: rx_step_same)
  have store: "rx_step M k c (fst (snd (push_store mem (push_segment h raw) ack c1 io)))" if win: "\<not> sn < rcv_nxt ?c" for raw ack
  proof -
    have at: "seg_at M j i (push_segment h raw)" by (rule seg_at_push_segment [OF ok h])
    have "unat sn = start_of M j + i" using seg_at_position [OF ok at] d by (simp add: push_segment_def)
    then have "start_of M k \<le> start_of M j + i"
      using win inv by (simp add: rx_inv_def ping_refresh_def word_less_nat_alt)
    then have "k \<le> j" using position_message [OF ok, of j i k] h by (simp add: header_at_def)
    moreover have "rx_inv M k c1" using rx_inv_view [OF v] inv by simp
    moreover have "nrcv_buf c1 < 2 ^ 31 - 1" "rcv_queue c1 = rcv_queue c" using v small by (simp_all add: rcv_view_def)
    ultimately show ?thesis using push_store_step [OF ok _ _ at, of k c1 mem ack io] by (simp add: rx_step_def)
  qed
  show ?thesis
    by (cases rule: push_state_cases [OF d g, of io]) (use same store in simp_all)
qed

section \<open>Reachable states\<close>

text \<open>
  \<open>rx_reach M c0 c out\<close>: from the initial state \<open>c0\<close>, segments of \<open>M\<close> have arrived in some order, any
  number of times, and the application has read \<open>out\<close>. Other handlers of the connection may run in
  between, as long as they leave the receive side alone.
\<close>

inductive rx_reach :: "stream \<Rightarrow> kcp_connection \<Rightarrow> kcp_connection \<Rightarrow> bytes \<Rightarrow> bool" for M c0 where
  rx_start: "rx_reach M c0 c0 []"
| rx_push: "rx_reach M c0 c out \<Longrightarrow> header_at M j i h \<Longrightarrow>
    rx_reach M c0 (fst (snd (on_kcp_push_pcaket mem h ts c io))) out"
| rx_read: "rx_reach M c0 c out \<Longrightarrow> kcp_recv so sz c = (Inr dat, c') \<Longrightarrow> rx_reach M c0 c' (out @ dat)"
| rx_other: "rx_reach M c0 c out \<Longrightarrow> rcv_view c' = rcv_view c \<Longrightarrow> rx_reach M c0 c' out"

inductive_cases rx_reachE: "rx_reach M c0 c out"

lemma recv_inv:
  assumes inv: "rx_inv M k c" and r: "kcp_recv so sz c = (Inr dat, c')"
  shows "rx_inv M k c'" and "rcv_queue c' = []" and "dat = concat (map seg_payload (rcv_queue c))"
proof -
  have wf: "rcv_wf c" using inv by (simp add: rx_inv_def)
  note v = kcp_recv_ok [OF r wf]
  then show "rcv_queue c' = []" "dat = concat (map seg_payload (rcv_queue c))" by (simp_all add: rcv_view_def)
  have "rcv_wf c'" using v wf by (simp add: rcv_wf_def rcv_view_def)
  then show "rx_inv M k c'" using v inv by (simp add: rx_inv_def rcv_view_def)
qed

lemma rx_inv_start:
  "rcv_view c0 = (Rb_Null, Rb_Null, [], [], 0, 0, 0, 0) \<Longrightarrow> rx_inv M 0 c0"
  by (simp add: rx_inv_def rcv_wf_def rcv_view_def rcv_struct_def start_of_def)

lemma rx_reach_inv:
  assumes ok: "stream_ok M" and start: "rcv_view c0 = (Rb_Null, Rb_Null, [], [], 0, 0, 0, 0)"
    and reach: "rx_reach M c0 c out"
  shows "\<exists>k. rx_inv M k c \<and> out @ concat (map seg_payload (rcv_queue c)) = concat (map concat (take k M))"
  using reach
proof (induction rule: rx_reach.induct)
  case rx_start
  then show ?case using rx_inv_start [OF start, of M] start by (intro exI [where x = 0]) (simp add: rcv_view_def)
next
  case (rx_push c out j i h mem ts io)
  then obtain k where k: "rx_inv M k c" "out @ concat (map seg_payload (rcv_queue c)) = concat (map concat (take k M))"
    by blast
  show ?case
    using k(2) push_step [OF ok k(1) rx_inv_small [OF ok k(1)] rx_push.hyps(2), of mem ts io] by (intro rx_step_delivers)
next
  case (rx_read c out so sz dat c')
  then obtain k where k: "rx_inv M k c" "out @ concat (map seg_payload (rcv_queue c)) = concat (map concat (take k M))"
    by blast
  then show ?case using recv_inv [OF k(1) rx_read.hyps(2)] by (intro exI [where x = k]) simp
next
  case (rx_other c out c')
  then show ?case using rx_inv_view [of c' c] by (auto simp: rcv_view_def)
qed

section \<open>Properties\<close>

text \<open>
  C3. Reassembly: whatever the order in which the segments of the messages \<open>M\<close> arrive, however
  often each arrives and whichever are lost, what the application has read, followed by what waits
  in the receive queue, is the concatenation of the first \<open>k\<close> messages for some \<open>k\<close>: messages come
  out in order, each whole and once.
\<close>

theorem stream_prefix:
  assumes "stream_ok M" and "rcv_view c0 = (Rb_Null, Rb_Null, [], [], 0, 0, 0, 0)" and "rx_reach M c0 c out"
  shows "\<exists>k \<le> length M. out @ concat (map seg_payload (rcv_queue c)) = concat (map concat (take k M))"
  using rx_reach_inv [OF assms] by (auto simp: rx_inv_def)

text \<open>One message of two fragments that arrive in reverse order.\<close>

definition sample_received :: kcp_connection where
  "sample_received =
     (let c1 = fst (snd (on_kcp_push_pcaket sample_mem (sample_push 1 1 0 128) 2000 sample_conn sample_io))
      in fst (snd (on_kcp_push_pcaket sample_mem (sample_push 0 0 0 2) 2000 c1 sample_io)))"

lemma sample_stream_ok: "stream_ok [[[65], [66]]]"
  by (simp add: stream_ok_def start_of_def kcp_const)

lemma sample_received_reach: "rx_reach [[[65], [66]]] sample_conn sample_received []"
  unfolding sample_received_def Let_def
  by (rule rx_push [where j = 0 and i = 0, OF rx_push [where j = 0 and i = 1, OF rx_start]])
     (simp_all add: header_at_def sample_push_def start_of_def)

theorem stream_prefix_witness:
  "rx_reach [[[65], [66]]] sample_conn sample_received [] \<and>
   (\<exists>k \<le> length [[[65], [66 :: u8]]]. [] @ concat (map seg_payload (rcv_queue sample_received)) =
      concat (map concat (take k [[[65], [66 :: u8]]])))"
  by (intro conjI sample_received_reach stream_prefix [OF sample_stream_ok sample_fresh sample_received_reach])

end
