(* ===== verification/Kcp_Transmit.thy ===== *)
theory Kcp_Transmit
  imports Kcp_Flush
begin

text \<open>
  The data a flush sends. \<open>due_segments\<close> says which segments of the send buffer are due, by the decision of
  \<open>flush_decide\<close> and the pacing credit, and \<open>over_limit\<close> which are past the limit of retransmissions. The
  scan with its cache of packets is shown to send exactly the segments that are due, in order, several to a datagram,
  and each datagram is read back as those segments by the parser.
\<close>

section \<open>Reference definitions\<close>

definition segment_bytes :: "kcp_segment \<Rightarrow> bytes" where
  "segment_bytes s = wire_header (segment_header s)"

definition datagram_of :: "kcp_segment list \<Rightarrow> bytes" where
  "datagram_of segs = concat (map segment_bytes segs)"

text \<open>A segment as \<open>kcp_send\<close> and the flush make it, that fits into a packet of \<open>m\<close> bytes.\<close>

definition sendable :: "nat \<Rightarrow> kcp_segment \<Rightarrow> bool" where
  "sendable m s \<longleftrightarrow> seg_cmd s = ucast KCP_CMD_PUSH \<and> length (seg_data s) = unat (seg_len s) \<and> 32 + unat (seg_len s) \<le> m"

fun due_segments :: "u64 \<Rightarrow> u32 \<Rightarrow> u32 \<Rightarrow> kcp_connection \<Rightarrow> u64 \<Rightarrow> kcp_segment list \<Rightarrow> kcp_segment list" where
  "due_segments ts resent rtomin c credit [] = []"
| "due_segments ts resent rtomin c credit (s # ss) =
     (let d = flush_decide ts resent rtomin c credit s;
          credit' = (if xd_send d \<and> xd_retransmit d \<and> xd_credit d \<ge> ucast (seg_len s)
                     then xd_credit d - ucast (seg_len s) else xd_credit d);
          rest = due_segments ts resent rtomin c credit' ss
      in if xd_send d then xd_segment d # rest else rest)"

definition over_limit :: "u64 \<Rightarrow> u32 \<Rightarrow> kcp_connection \<Rightarrow> kcp_segment \<Rightarrow> bool" where
  "over_limit ts resent c s \<longleftrightarrow>
     (if seg_xmit s \<noteq> 0 \<and> (ts \<ge> seg_resendts s \<or>
           seg_fastack s \<ge> resent \<and> (seg_xmit s \<le> u32_of_i32 (fastlimit c) \<or> fastlimit c \<le> 0))
      then seg_xmit s + 1 else seg_xmit s) > KCP_RETRANSMISSION_MAX"

definition flush_resent :: "kcp_connection \<Rightarrow> u32" where
  "flush_resent c = (if fastresend c > 0 then u32_of_i32 (fastresend c) else - 1)"

definition flush_rtomin :: "kcp_connection \<Rightarrow> u32" where
  "flush_rtomin c = (if nodelay c = 0 then u32_of_i32 (drop_bit 3 (rx_rto c)) else 0)"

text \<open>The headers of the packets of a datagram, read one after the other as \<open>kcp_parse_packet\<close> does.\<close>

fun datagram_headers :: "nat \<Rightarrow> bytes \<Rightarrow> kcp_proto_header list option" where
  "datagram_headers 0 d = None"
| "datagram_headers (Suc n) d =
     (if d = [] then Some []
      else (case kcp_proto_parse d (length d) [] of
              Parse_ok h k \<Rightarrow> map_option ((#) h) (datagram_headers n (drop k d))
            | Parse_error e \<Rightarrow> None | Parse_fault \<Rightarrow> None))"

section \<open>Lemmas\<close>

lemma length_segment_bytes: "sendable m s \<Longrightarrow> length (segment_bytes s) = 32 + unat (seg_len s)"
  using length_wire_header [OF segment_header_wf, of s] by (simp add: sendable_def segment_bytes_def segment_header_def)

lemma datagram_of_simps [simp]:
  "datagram_of [] = []" "datagram_of (g @ g') = datagram_of g @ datagram_of g'" "datagram_of (s # g) = segment_bytes s @ datagram_of g"
  by (simp_all add: datagram_of_def)

lemma datagram_of_Nil: "\<forall>s \<in> set g. sendable m s \<Longrightarrow> datagram_of g = [] \<longleftrightarrow> g = []"
  by (cases g) (auto dest!: length_segment_bytes)

lemma datagrams_not_empty:
  assumes "\<forall>g \<in> set gs. g \<noteq> [] \<and> (\<forall>s \<in> set g. sendable m s)"
  shows "[] \<notin> set (map datagram_of gs)"
proof
  assume "[] \<in> set (map datagram_of gs)"
  then obtain g where "g \<in> set gs" "datagram_of g = []" by auto
  then show False using assms datagram_of_Nil [of g m] by auto
qed

lemma sendable_encode:
  assumes "sendable m s" "m < 2 ^ 31" "n \<le> m"
  shows "kcp_segment_encode s (replicate n 0) n =
    (if 32 + unat (seg_len s) \<le> n then (Inr (int (32 + unat (seg_len s))), segment_bytes s @ drop (32 + unat (seg_len s)) (replicate n 0))
     else (Inl BUFFER_TOO_SMALL, replicate n 0))"
proof (cases "32 + unat (seg_len s) \<le> n")
  case True
  then show ?thesis using segment_encode_eq [of s n "replicate n 0"] assms by (simp add: sendable_def segment_bytes_def)
next
  case False
  have "unat (32 + seg_len s) = 32 + unat (seg_len s)" using assms by (simp add: sendable_def unat_word_ariths)
  then show ?thesis using False by (simp add: kcp_segment_encode_def kcp_const)
qed

lemma network_takes_all:
  assumes "\<forall>n. io_send io n = Sent" "[] \<notin> set ds" "ds \<noteq> []" "length ds \<le> KCP_PACKET_COUNT"
  shows "\<exists>io'. kcp_send_packet_raw host ds io = (Inr (length ds), io') \<and> io_send io' = io_send io \<and>
    io_trace io' = io_trace io @ map (Send host) ds"
proof -
  have loop: "\<exists>io'. kcp_send_loop host ds k io = (Inr (k + length ds), io') \<and> io_send io' = io_send io \<and>
      io_trace io' = io_trace io @ map (Send host) ds" if "\<forall>n. io_send io n = Sent" "[] \<notin> set ds" for k io
    using that
  proof (induction ds arbitrary: k io)
    case (Cons d ds)
    let ?io = "emit (Send host d) (io\<lparr>io_calls := io_calls io + 1\<rparr>)"
    have "sendmsg host d io = (Sent, ?io)" using Cons.prems by (simp add: sendmsg_def)
    then show ?case using Cons.IH [of ?io "k + 1"] Cons.prems by auto
  qed simp
  have mmsg: "\<exists>io'. sendmmsg host ds k io = (k + length ds, io') \<and> io_send io' = io_send io \<and>
      io_trace io' = io_trace io @ map (Send host) ds" if "\<forall>n. io_send io n = Sent" for k io
    using that
  proof (induction ds arbitrary: k io)
    case (Cons d ds)
    let ?io = "emit (Send host d) (io\<lparr>io_calls := io_calls io + 1\<rparr>)"
    have "sendmsg host d io = (Sent, ?io)" using Cons.prems by (simp add: sendmsg_def)
    then show ?case using Cons.IH [of ?io "k + 1"] Cons.prems by auto
  qed simp
  have "int (length ds) \<le> KCP_PACKET_SIZE" using assms(4) by (simp add: kcp_const)
  then show ?thesis
    using loop [OF assms(1,2), of 0] mmsg [OF assms(1), of 0] assms(3) by (auto simp: kcp_send_packet_raw_def)
qed

text \<open>One segment: it goes into the current packet or opens a new one, and a full cache is sent before.\<close>

lemma place_segment_groups:
  assumes s: "sendable m s" "m < 2 ^ 31" and net: "\<forall>n. io_send io n = Sent"
    and full: "length fg < KCP_PACKET_COUNT" "[] \<notin> set fg" "\<forall>g \<in> set (cg # fg). \<forall>s \<in> set g. sendable m s"
    and cur: "length (datagram_of cg) \<le> m"
  shows "\<exists>sent fg' cg' io'. place_segment flush_fuel host m s (map datagram_of fg) (datagram_of cg) io =
       Placed (map datagram_of fg') (datagram_of cg') io' \<and>
     io_trace io' = io_trace io @ map (\<lambda>g. Send host (datagram_of g)) sent \<and> (\<forall>n. io_send io' n = Sent) \<and>
     concat sent @ concat fg' @ cg' = concat fg @ cg @ [s] \<and> cg' \<noteq> [] \<and> [] \<notin> set (sent @ fg') \<and>
     length fg' < KCP_PACKET_COUNT \<and> length (datagram_of cg') \<le> m"
proof -
  define n where "n = m - length (datagram_of cg)"
  define f where "f = flush_fuel - 2"
  have fuel: "flush_fuel = Suc (Suc f)" by (simp add: f_def flush_fuel_def)
  have nm: "n \<le> m" by (simp add: n_def)
  have len: "length (segment_bytes s) = 32 + unat (seg_len s)" using s length_segment_bytes by blast
  show ?thesis
  proof (cases "32 + unat (seg_len s) \<le> n")
    case True
    have "place_segment flush_fuel host m s (map datagram_of fg) (datagram_of cg) io =
        Placed (map datagram_of fg) (datagram_of (cg @ [s])) io"
      using True full(1) len sendable_encode [OF s nm]
      by (simp add: fuel Let_def n_def [symmetric] status_neg_def nat_add_distrib)
    then show ?thesis
      using net full len True cur
      by (intro exI [where x = "[]"] exI [where x = fg] exI [where x = "cg @ [s]"] exI [where x = io]) (auto simp: n_def)
  next
    case False
    have m: "32 + unat (seg_len s) \<le> m" using s by (simp add: sendable_def)
    then have cg: "cg \<noteq> []" using False by (auto simp: n_def)
    have 1: "place_segment flush_fuel host m s (map datagram_of fg) (datagram_of cg) io =
        place_segment (Suc f) host m s (map datagram_of (fg @ [cg])) [] io"
      using False full(1) sendable_encode [OF s nm]
      by (simp add: fuel place_segment.simps(2) [of "Suc f"] Let_def n_def [symmetric] status_neg_def del: place_segment.simps)
    have e: "kcp_segment_encode s (replicate m 0) m =
        (Inr (int (32 + unat (seg_len s))), segment_bytes s @ drop (32 + unat (seg_len s)) (replicate m 0))"
      using sendable_encode [OF s order_refl] m by simp
    show ?thesis
    proof (cases "length (fg @ [cg]) < KCP_PACKET_COUNT")
      case True
      have "place_segment flush_fuel host m s (map datagram_of fg) (datagram_of cg) io =
          Placed (map datagram_of (fg @ [cg])) (datagram_of [s]) io"
        unfolding 1 using True e len by (simp add: Let_def status_neg_def nat_add_distrib)
      then show ?thesis
        using net full True cg len m
        by (intro exI [where x = "[]"] exI [where x = "fg @ [cg]"] exI [where x = "[s]"] exI [where x = io]) auto
    next
      case False
      have "[] \<notin> set (map datagram_of (fg @ [cg]))"
        using full(2,3) cg by (intro datagrams_not_empty [of _ m]) auto
      then obtain io' where io': "kcp_send_packet_raw host (map datagram_of (fg @ [cg])) io = (Inr (length (fg @ [cg])), io')"
          "io_send io' = io_send io" "io_trace io' = io_trace io @ map (Send host) (map datagram_of (fg @ [cg]))"
        using network_takes_all [OF net, of "map datagram_of (fg @ [cg])" host] full(1) by auto
      have "place_segment flush_fuel host m s (map datagram_of fg) (datagram_of cg) io = Placed (map datagram_of []) (datagram_of [s]) io'"
        unfolding 1 using False full(1) io'(1) e len by (simp add: Let_def status_neg_def nat_add_distrib)
      then show ?thesis
        using net full cg len m io'
        by (intro exI [where x = "fg @ [cg]"] exI [where x = "[]"] exI [where x = "[s]"] exI [where x = io'])
           (auto simp: comp_def kcp_const)
    qed
  qed
qed

lemma flush_decide_sendable [simp]: "sendable m (xd_segment (flush_decide ts r rm c cr s)) = sendable m s"
  by (simp add: sendable_def flush_decide_def Let_def)

lemma flush_decide_over: "seg_xmit (xd_segment (flush_decide ts r rm c cr s)) > KCP_RETRANSMISSION_MAX \<longleftrightarrow> over_limit ts r c s"
  by (auto simp: flush_decide_def over_limit_def Let_def kcp_const)

text \<open>
  The scan: \<open>fg\<close> and \<open>cg\<close> are the segments in the full packets of the cache and in the current one. It ends in
  \<open>Scan_dead\<close> exactly when a segment is past the limit, and otherwise has sent or cached what is due.
\<close>

definition scan_sends :: "kcp_connection \<Rightarrow> kcp_effect list \<Rightarrow> kcp_segment list \<Rightarrow> bool \<Rightarrow> scan_result \<Rightarrow> scan \<Rightarrow> bool" where
  "scan_sends c t due over res sc \<longleftrightarrow>
     (\<forall>n. io_send (sc_io sc) n = Sent) \<and> res = (if over then Scan_dead else Scan_end) \<and>
     (\<exists>sent fg cg. io_trace (sc_io sc) = t @ map (\<lambda>g. Send (remote_host c) (datagram_of g)) sent \<and> [] \<notin> set sent \<and>
        (res = Scan_end \<longrightarrow> sc_full sc = map datagram_of fg \<and> sc_cur sc = datagram_of cg \<and> length fg < KCP_PACKET_COUNT \<and>
           [] \<notin> set fg \<and> (sc_flush sc \<longleftrightarrow> cg \<noteq> []) \<and> (cg = [] \<longrightarrow> fg = []) \<and> concat sent @ concat fg @ cg = due))"

lemma flush_scan_groups:
  assumes "\<forall>s \<in> set ss. sendable (unat (mtu c)) s" "unat (mtu c) < 2 ^ 31" "\<forall>n. io_send (sc_io sc) n = Sent"
    and "sc_full sc = map datagram_of fg" "sc_cur sc = datagram_of cg" "length fg < KCP_PACKET_COUNT" "[] \<notin> set fg"
    and "\<forall>g \<in> set (cg # fg). \<forall>s \<in> set g. sendable (unat (mtu c)) s" "length (datagram_of cg) \<le> unat (mtu c)"
    and "sc_flush sc \<longleftrightarrow> cg \<noteq> []" "cg = [] \<Longrightarrow> fg = []"
    and "flush_scan ts r rm c ss sc = (res, sc')"
  shows "scan_sends c (io_trace (sc_io sc)) (concat fg @ cg @ due_segments ts r rm c (sc_credit sc) ss)
    (\<exists>s \<in> set ss. over_limit ts r c s) res sc'"
  using assms
proof (induction ss arbitrary: sc fg cg)
  case Nil
  then have "res = Scan_end" "sc' = sc" by simp_all
  then show ?case
    using Nil unfolding scan_sends_def by (intro conjI, simp, simp, rule_tac exI [where x = "[]"], rule_tac exI [where x = fg], rule_tac exI [where x = cg]) auto
next
  case (Cons s ss)
  define d where "d = flush_decide ts r rm c (sc_credit sc) s"
  define sc1 where "sc1 = sc\<lparr>sc_credit := xd_credit d, sc_lost := sc_lost sc \<or> xd_lost d\<rparr>"
  define credit where "credit = (if xd_send d \<and> xd_retransmit d \<and> xd_credit d \<ge> ucast (seg_len s)
    then xd_credit d - ucast (seg_len s) else xd_credit d)"
  have seg: "seg_len (xd_segment d) = seg_len s" "sendable (unat (mtu c)) (xd_segment d)"
    "seg_xmit (xd_segment d) > KCP_RETRANSMISSION_MAX \<longleftrightarrow> over_limit ts r c s"
    using Cons.prems(1) by (simp_all add: d_def flush_decide_over)
  show ?case
  proof (cases "over_limit ts r c s")
    case True
    then have "(res, sc') = (Scan_dead, sc1\<lparr>sc_done := sc_done sc @ xd_segment d # ss\<rparr>)"
      using Cons.prems(12) seg(3) by (simp add: Let_def d_def [symmetric] sc1_def)
    then show ?thesis using True Cons.prems(3) by (auto simp: scan_sends_def sc1_def intro!: exI [where x = "[]"])
  next
    case over: False
    show ?thesis
    proof (cases "xd_send d")
      case False
      let ?sc = "sc1\<lparr>sc_done := sc_done sc @ [xd_segment d]\<rparr>"
      have "flush_scan ts r rm c ss ?sc = (res, sc')"
        using Cons.prems(12) seg(3) over False by (simp add: Let_def d_def [symmetric] sc1_def)
      from Cons.IH [OF _ _ _ _ _ Cons.prems(6,7,8,9) _ _ this] show ?thesis
        using Cons.prems over False by (simp add: sc1_def Let_def d_def [symmetric])
    next
      case True
      obtain sent fg' cg' io' where p: "place_segment flush_fuel (remote_host c) (unat (mtu c)) (xd_segment d) (sc_full sc) (sc_cur sc) (sc_io sc) =
          Placed (map datagram_of fg') (datagram_of cg') io'"
        "io_trace io' = io_trace (sc_io sc) @ map (\<lambda>g. Send (remote_host c) (datagram_of g)) sent" "\<forall>n. io_send io' n = Sent"
        "concat sent @ concat fg' @ cg' = concat fg @ cg @ [xd_segment d]" "cg' \<noteq> []" "[] \<notin> set (sent @ fg')"
        "length fg' < KCP_PACKET_COUNT" "length (datagram_of cg') \<le> unat (mtu c)"
        using place_segment_groups [OF seg(2) Cons.prems(2,3,6,7,8,9), of "remote_host c"] Cons.prems(4,5) by auto
      let ?sc = "sc1\<lparr>sc_credit := credit, sc_flush := True, sc_done := sc_done sc @ [xd_segment d],
        sc_full := map datagram_of fg', sc_cur := datagram_of cg', sc_io := io'\<rparr>"
      have cr: "credit = (if xd_retransmit d \<and> xd_credit d \<ge> ucast (seg_len (xd_segment d))
          then xd_credit d - ucast (seg_len (xd_segment d)) else xd_credit d)"
        using True by (simp add: credit_def seg(1))
      have 1: "flush_scan ts r rm c ss ?sc = (res, sc')"
        using Cons.prems(12) seg(3) over True p(1) by (simp add: Let_def d_def [symmetric] sc1_def cr)
      have "set (concat fg') \<union> set cg' \<subseteq> set (concat fg) \<union> set cg \<union> {xd_segment d}"
        using arg_cong [OF p(4), of set] by auto
      then have 2: "\<forall>g \<in> set (cg' # fg'). \<forall>s \<in> set g. sendable (unat (mtu c)) s"
        using Cons.prems(8) seg(2) by fastforce
      have "scan_sends c (io_trace io') (concat fg' @ cg' @ due_segments ts r rm c credit ss) (\<exists>s \<in> set ss. over_limit ts r c s) res sc'"
        using Cons.IH [OF _ Cons.prems(2) _ _ _ p(7) _ 2 p(8) _ _ 1] Cons.prems(1) p by simp
      then obtain sent' fg'' cg'' where q: "\<forall>n. io_send (sc_io sc') n = Sent" "res = (if \<exists>s \<in> set ss. over_limit ts r c s then Scan_dead else Scan_end)"
        "io_trace (sc_io sc') = io_trace io' @ map (\<lambda>g. Send (remote_host c) (datagram_of g)) sent'" "[] \<notin> set sent'"
        "res = Scan_end \<longrightarrow> sc_full sc' = map datagram_of fg'' \<and> sc_cur sc' = datagram_of cg'' \<and>
         length fg'' < KCP_PACKET_COUNT \<and> [] \<notin> set fg'' \<and> (sc_flush sc' \<longleftrightarrow> cg'' \<noteq> []) \<and> (cg'' = [] \<longrightarrow> fg'' = []) \<and>
         concat sent' @ concat fg'' @ cg'' = concat fg' @ cg' @ due_segments ts r rm c credit ss"
        unfolding scan_sends_def by blast
      have due: "due_segments ts r rm c (sc_credit sc) (s # ss) = xd_segment d # due_segments ts r rm c credit ss"
        using True by (simp add: Let_def d_def [symmetric] credit_def)
      have "concat (sent @ sent') @ concat fg'' @ cg'' = concat fg @ cg @ due_segments ts r rm c (sc_credit sc) (s # ss)"
        if "res = Scan_end"
        unfolding due using q(5) that p(4) by (metis append.assoc append_Cons append_Nil concat_append)
      then show ?thesis
        using q p over unfolding scan_sends_def by (intro conjI exI [where x = "sent @ sent'"] exI [where x = fg''] exI [where x = cg'']) auto
    qed
  qed
qed

lemma due_sendable: "\<forall>s \<in> set ss. sendable m s \<Longrightarrow> \<forall>s \<in> set (due_segments ts r rm c cr ss). sendable m s"
  by (induction ss arbitrary: cr) (auto simp: Let_def)

text \<open>A datagram of segments is read back as their headers.\<close>

lemma datagram_of_headers:
  assumes "\<forall>s \<in> set g. sendable m s" "length (datagram_of g) < 2 ^ 64"
  shows "datagram_headers (Suc (length g)) (datagram_of g) = Some (map segment_header g)"
  using assms
proof (induction g)
  case (Cons s g)
  have wf: "header_wf (segment_header s)" using Cons.prems(1) by (simp add: sendable_def segment_header_wf)
  have "hd_opt (segment_header s) AND KCP_CMD_OPT = 0" by (simp add: segment_header_def)
  then have p: "kcp_proto_parse (datagram_of (s # g)) (length (datagram_of (s # g))) [] =
      Parse_ok (segment_header s) (length (segment_bytes s))"
    using parse_wire [OF wf _ Cons.prems(2), of "datagram_of g"] by (simp add: segment_bytes_def)
  moreover have "datagram_of (s # g) \<noteq> []" using datagram_of_Nil [OF Cons.prems(1)] by blast
  moreover have "drop (length (segment_bytes s)) (datagram_of (s # g)) = datagram_of g" by simp
  ultimately show ?case
    using Cons by (subst datagram_headers.simps(2)) (simp del: datagram_headers.simps)
qed simp

text \<open>The transmitting part of the flush, as a function of the result of the scan.\<close>

lemma flush_transmit_scan:
  assumes "\<forall>s \<in> set (snd_buf c). sendable (unat (mtu c)) s" "unat (mtu c) < 2 ^ 31" "\<forall>n. io_send io n = Sent"
  obtains sc groups where
    "flush_scan ts (flush_resent c) (flush_rtomin c) c (snd_buf c)
       \<lparr>sc_done = [], sc_credit = bbr_pacing_credit c, sc_lost = False, sc_flush = False, sc_full = [], sc_cur = [], sc_io = io\<rparr> =
     (if \<exists>s \<in> set (snd_buf c). over_limit ts (flush_resent c) c s then Scan_dead else Scan_end, sc)"
    "[] \<notin> set groups"
    "\<exists>s \<in> set (snd_buf c). over_limit ts (flush_resent c) c s \<Longrightarrow>
       io_trace (sc_io sc) = io_trace io @ map (\<lambda>g. Send (remote_host c) (datagram_of g)) groups"
    "\<not> (\<exists>s \<in> set (snd_buf c). over_limit ts (flush_resent c) c s) \<Longrightarrow>
       concat groups = due_segments ts (flush_resent c) (flush_rtomin c) c (bbr_pacing_credit c) (snd_buf c) \<and>
       (\<exists>st io'. (if sc_flush sc then kcp_send_packet (c\<lparr>snd_buf := sc_done sc, bbr_pacing_credit := sc_credit sc\<rparr>)
            (sc_full sc @ [sc_cur sc]) (sc_io sc) else (Inr 0, sc_io sc)) = (Inr st, io') \<and>
          io_trace io' = io_trace io @ map (\<lambda>g. Send (remote_host c) (datagram_of g)) groups)"
proof -
  let ?sc = "\<lparr>sc_done = [], sc_credit = bbr_pacing_credit c, sc_lost = False, sc_flush = False, sc_full = [], sc_cur = [], sc_io = io\<rparr>"
  let ?r = "flush_resent c" and ?rm = "flush_rtomin c"
  let ?over = "\<exists>s \<in> set (snd_buf c). over_limit ts ?r c s"
  obtain res sc where s: "flush_scan ts ?r ?rm c (snd_buf c) ?sc = (res, sc)" by (metis prod.exhaust)
  have "scan_sends c (io_trace io) (due_segments ts ?r ?rm c (bbr_pacing_credit c) (snd_buf c)) ?over res sc"
    using flush_scan_groups [OF assms(1,2), of ?sc "[]" "[]" ts ?r ?rm res sc] s assms(3) by (simp add: kcp_const)
  then obtain sent fg cg where q: "\<forall>n. io_send (sc_io sc) n = Sent" "res = (if ?over then Scan_dead else Scan_end)"
    "io_trace (sc_io sc) = io_trace io @ map (\<lambda>g. Send (remote_host c) (datagram_of g)) sent" "[] \<notin> set sent"
    "res = Scan_end \<Longrightarrow> sc_full sc = map datagram_of fg \<and> sc_cur sc = datagram_of cg \<and> length fg < KCP_PACKET_COUNT \<and> [] \<notin> set fg \<and>
       (sc_flush sc \<longleftrightarrow> cg \<noteq> []) \<and> (cg = [] \<longrightarrow> fg = []) \<and>
       concat sent @ concat fg @ cg = due_segments ts ?r ?rm c (bbr_pacing_credit c) (snd_buf c)"
    unfolding scan_sends_def by blast
  show thesis
  proof (cases ?over)
    case True
    then show ?thesis using that [of sc sent] s q by simp
  next
    case over: False
    then have e: "sc_full sc = map datagram_of fg" "sc_cur sc = datagram_of cg" "length fg < KCP_PACKET_COUNT" "[] \<notin> set fg"
       "sc_flush sc \<longleftrightarrow> cg \<noteq> []" "cg = [] \<longrightarrow> fg = []"
       "concat sent @ concat fg @ cg = due_segments ts ?r ?rm c (bbr_pacing_credit c) (snd_buf c)"
      using q(2,5) by auto
    show ?thesis
    proof (cases "cg = []")
      case True
      then show ?thesis using that [of sc sent] s q(2,3,4) e over by simp
    next
      case False
      have "set (concat (sent @ fg @ [cg])) \<subseteq> {s. sendable (unat (mtu c)) s}"
        using due_sendable [OF assms(1), of ts ?r ?rm c "bbr_pacing_credit c"] e(7) by auto
      then have "[] \<notin> set (map datagram_of (fg @ [cg]))"
        using e(4) False by (intro datagrams_not_empty [of _ "unat (mtu c)"]) auto
      then obtain io' where "kcp_send_packet_raw (remote_host c) (map datagram_of (fg @ [cg])) (sc_io sc) = (Inr (length (fg @ [cg])), io')"
        "io_trace io' = io_trace (sc_io sc) @ map (Send (remote_host c)) (map datagram_of (fg @ [cg]))"
        using network_takes_all [OF q(1), of "map datagram_of (fg @ [cg])" "remote_host c"] e(3) by auto
      then show ?thesis
        using that [of sc "sent @ fg @ [cg]"] s q(2,3,4) e over False by (auto simp: kcp_send_packet_def comp_def)
    qed
  qed
qed

section \<open>The control part\<close>

lemma sends_keep_network:
  "io_send (snd (kcp_send_loop a ds n io)) = io_send io" "io_send (snd (sendmmsg a ds n io)) = io_send io"
  "io_send (snd (kcp_send_packet_raw a ds io)) = io_send io"
proof -
  have m: "io_send (snd (sendmsg a d io)) = io_send io" for d io
    by (simp add: sendmsg_def Let_def emit_def split: send_outcome.splits)
  have m': "sendmsg a d io = (res, io1) \<Longrightarrow> io_send io1 = io_send io" for d io res io1 using m [of d io] by simp
  have l: "io_send (snd (kcp_send_loop a ds n io)) = io_send io" for n io
  proof (induction ds arbitrary: n io)
    case (Cons d ds)
    obtain res io1 where s: "sendmsg a d io = (res, io1)" by (cases "sendmsg a d io")
    then show ?case using Cons m' [OF s] by (auto split: errno.splits)
  qed simp
  have k: "io_send (snd (sendmmsg a ds n io)) = io_send io" for n io
  proof (induction ds arbitrary: n io)
    case (Cons d ds)
    obtain res io1 where s: "sendmsg a d io = (res, io1)" by (cases "sendmsg a d io")
    then show ?case using Cons m' [OF s] by (auto split: send_outcome.splits)
  qed simp
  show "io_send (snd (kcp_send_loop a ds n io)) = io_send io" "io_send (snd (sendmmsg a ds n io)) = io_send io" by (fact l k)+
  show "io_send (snd (kcp_send_packet_raw a ds io)) = io_send io"
    using l [of 0 io] k [of 0 io] by (auto simp: kcp_send_packet_raw_def split: prod.splits)
qed

text \<open>The control part only sends: \<open>only_sends\<close> is what it may do to the outside world.\<close>

definition only_sends :: "kcp_io \<Rightarrow> kcp_io \<Rightarrow> bool" where
  "only_sends io io' \<longleftrightarrow> io_send io' = io_send io \<and> (\<exists>es. io_trace io' = io_trace io @ es \<and> (\<forall>e \<in> set es. \<exists>a d. e = Send a d))"

lemma only_sends_refl [simp]: "only_sends io io"
  by (simp add: only_sends_def)

lemma only_sends_trans [trans]: "only_sends io io' \<Longrightarrow> only_sends io' io'' \<Longrightarrow> only_sends io io''"
  unfolding only_sends_def by (elim conjE exE, intro conjI, simp, rule_tac x = "es @ esa" in exI) auto

lemma only_sends_raw: "only_sends io (snd (kcp_send_packet_raw a ds io))"
  using out.trace_send [of a ds io] by (fastforce simp: only_sends_def sends_keep_network)

text \<open>The control part changes nothing of a connection but its acknowledgements, probes and pings.\<close>

definition flush_core :: "kcp_connection \<Rightarrow> kcp_connection" where
  "flush_core c = c\<lparr>ack_item := [], probe_wait := 0, win_ts_probe := 0, probe := 0, ping_context := ping_context zero_connection\<rparr>"

lemma flush_core_get:
  "state (flush_core c) = state c" "fastresend (flush_core c) = fastresend c" "fastlimit (flush_core c) = fastlimit c" "conn_addr (flush_core c) = conn_addr c"
  "snd_wnd (flush_core c) = snd_wnd c" "rmt_wnd (flush_core c) = rmt_wnd c" "nocwnd (flush_core c) = nocwnd c" "cwnd (flush_core c) = cwnd c"
  "bbr_last_send_ts (flush_core c) = bbr_last_send_ts c" "bbr_pacing_rate (flush_core c) = bbr_pacing_rate c" "bbr_pacing_credit (flush_core c) = bbr_pacing_credit c" "mss (flush_core c) = mss c"
  "snd_nxt (flush_core c) = snd_nxt c" "snd_una (flush_core c) = snd_una c"
  "bbr_bdp_bytes (flush_core c) g = bbr_bdp_bytes c g"
  by (simp_all add: flush_core_def bbr_bdp_bytes_def bbr_min_cwnd_pkts_def Let_def)

lemma flush_core_fields:
  assumes "flush_core c' = flush_core c"
  shows "state c' = state c" "fastresend c' = fastresend c" "fastlimit c' = fastlimit c" "conn_addr c' = conn_addr c"
    "snd_wnd c' = snd_wnd c" "rmt_wnd c' = rmt_wnd c" "nocwnd c' = nocwnd c" "cwnd c' = cwnd c"
    "bbr_last_send_ts c' = bbr_last_send_ts c" "bbr_pacing_rate c' = bbr_pacing_rate c" "bbr_pacing_credit c' = bbr_pacing_credit c"
    "mss c' = mss c" "bbr_bdp_bytes c' g = bbr_bdp_bytes c g" "snd_nxt c' = snd_nxt c" "snd_una c' = snd_una c"
  using arg_cong [OF assms, of state] arg_cong [OF assms, of fastresend] arg_cong [OF assms, of fastlimit]
    arg_cong [OF assms, of conn_addr] arg_cong [OF assms, of snd_wnd] arg_cong [OF assms, of rmt_wnd]
    arg_cong [OF assms, of nocwnd] arg_cong [OF assms, of cwnd] arg_cong [OF assms, of bbr_last_send_ts]
    arg_cong [OF assms, of bbr_pacing_rate] arg_cong [OF assms, of bbr_pacing_credit] arg_cong [OF assms, of mss]
    arg_cong [OF assms, of "\<lambda>c. bbr_bdp_bytes c g"] arg_cong [OF assms, of snd_nxt] arg_cong [OF assms, of snd_una]
  by (simp_all add: flush_core_get)

lemma flush_pieces [simp]:
  "fl_conn (flush_if_full f) = fl_conn f" "only_sends (fl_io f) (fl_io (flush_if_full f))"
  "fl_conn (put_header h f) = fl_conn f" "fl_io (put_header h f) = fl_io f"
  "fl_conn (flush_rest f) = fl_conn f" "only_sends (fl_io f) (fl_io (flush_rest f))"
  by (simp_all add: flush_if_full_def flush_send_def put_header_def flush_rest_def Let_def kcp_send_packet_def only_sends_raw)

lemma flush_acks_keeps: "flush_core (fl_conn (flush_acks ts f)) = flush_core (fl_conn f) \<and> ping_context (fl_conn (flush_acks ts f)) = ping_context (fl_conn f) \<and> only_sends (fl_io f) (fl_io (flush_acks ts f))"
proof -
  have "fl_conn (foldl (flush_ack ts) f as) = fl_conn f \<and> only_sends (fl_io f) (fl_io (foldl (flush_ack ts) f as))" for as
  proof (induction as arbitrary: f)
    case (Cons a as)
    have "only_sends (fl_io f) (fl_io (flush_ack ts f a))"
      using flush_pieces(2) [of "put_header (ack_header ts (fl_conn f) a) f"] by (simp add: flush_ack_def)
    then show ?case using Cons [of "flush_ack ts f a"] by (auto simp: flush_ack_def intro: only_sends_trans)
  qed simp
  then show ?thesis by (simp add: flush_acks_def Let_def flush_core_def)
qed

lemma flush_window_keeps: "fl_conn (flush_window_commands ts f) = fl_conn f \<and> only_sends (fl_io f) (fl_io (flush_window_commands ts f))"
proof -
  let ?f = "put_header (window_header ts KCP_CMD_WASK 0 (fl_conn f)) (flush_if_full f)"
  have "only_sends (fl_io f) (fl_io (flush_if_full ?f))"
    using only_sends_trans [OF flush_pieces(2) [of f]] flush_pieces(2) [of ?f] by simp
  then show ?thesis by (simp add: flush_window_commands_def Let_def)
qed

lemma flush_pings_keep:
  "only_sends (fl_io f) (fl_io (flush_ping_request x ts f))" "only_sends (fl_io f) (fl_io (flush_pong ts f))"
  using flush_pieces(2) [of f] flush_pieces(2) [of "f\<lparr>fl_conn := _\<rparr>"] by (simp_all add: flush_ping_request_def flush_pong_def Let_def)

lemma flush_control_keeps:
  assumes "ping_request_queue (ping_context c) = []"
  obtains c1 io1 where "flush_control x ts c io = (False, c1, io1)" "flush_core c1 = flush_core c" "only_sends io io1"
proof -
  let ?f0 = "\<lparr>fl_conn = c, fl_io = io, fl_ptr = [], fl_header = replicate KCP_HEADER_SIZE 0\<rparr>"
  let ?f1 = "flush_acks ts ?f0"
  let ?f2 = "flush_window_commands ts (?f1\<lparr>fl_conn := flush_window_probe ts (fl_conn ?f1)\<rparr>)"
  have "flush_core (flush_window_probe ts c') = flush_core c'" "ping_context (flush_window_probe ts c') = ping_context c'" for c'
    by (simp_all add: flush_window_probe_def flush_core_def Let_def)
  then have f2: "flush_core (fl_conn ?f2) = flush_core c" "ping_context (fl_conn ?f2) = ping_context c" "only_sends io (fl_io ?f2)"
    using flush_acks_keeps [of ts ?f0] flush_window_keeps [of ts "?f1\<lparr>fl_conn := flush_window_probe ts (fl_conn ?f1)\<rparr>"]
    by (auto intro: only_sends_trans)
  then have p: "on_kcp_ping_timeout ts (fl_conn ?f2) (fl_io ?f2) = (False, fl_conn ?f2, fl_io ?f2)"
    using assms by (simp add: on_kcp_ping_timeout_def Let_def)
  let ?f3 = "flush_ping_request x ts ?f2"
  let ?f4 = "flush_rest (flush_pong ts ?f3)"
  have "flush_control x ts c io = (False, fl_conn ?f4, fl_io ?f4)"
    using p by (simp add: flush_control_def Let_def)
  moreover have "only_sends io (fl_io ?f4)"
    using f2(3) flush_pings_keep(1) [of ?f2 x ts] flush_pings_keep(2) [of ?f3 ts] flush_pieces(6) [of "flush_pong ts ?f3"]
    by (blast intro: only_sends_trans)
  moreover have "flush_core (fl_conn (flush_ping_request x ts f)) = flush_core (fl_conn f)"
    "flush_core (fl_conn (flush_pong ts f)) = flush_core (fl_conn f)" for f
    by (simp_all add: flush_pong_def flush_ping_request_def Let_def flush_core_def)
  then have "flush_core (fl_conn ?f4) = flush_core c" using f2(1) by simp
  ultimately show thesis using that by blast
qed

text \<open>Moving segments into the send buffer: the new ones were never sent.\<close>

lemma flush_move_ctl [simp]:
  fixes c :: kcp_connection
  shows "state (flush_move ts w q c) = state c" "fastresend (flush_move ts w q c) = fastresend c"
    "fastlimit (flush_move ts w q c) = fastlimit c" "conn_addr (flush_move ts w q c) = conn_addr c"
  by (induction ts w q c rule: flush_move.induct) simp_all

definition fresh_from :: "kcp_segment list \<Rightarrow> kcp_segment \<Rightarrow> bool" where
  "fresh_from q s \<longleftrightarrow> seg_xmit s = 0 \<and> seg_cmd s = ucast KCP_CMD_PUSH \<and>
     (\<exists>s' \<in> set q. seg_data s = seg_data s' \<and> seg_len s = seg_len s')"

lemma fresh_from_stamp: "fresh_from (s # q) (stamp_segment ts s c)" and fresh_from_Cons: "fresh_from q s \<Longrightarrow> fresh_from (x # q) s"
  by (auto simp: fresh_from_def stamp_segment_def)

lemma flush_move_buffer:
  "set (snd_buf c) \<subseteq> set (snd_buf (flush_move ts w q c)) \<and>
   (\<forall>s \<in> set (snd_buf (flush_move ts w q c)). s \<in> set (snd_buf c) \<or> fresh_from q s)"
proof (induction ts w q c rule: flush_move.induct)
  case (2 ts w seg queue c)
  show ?case
  proof (cases "uint (snd_nxt c) - (uint (snd_una c) + w) < 0")
    case True
    then show ?thesis using "2.IH" [OF True] fresh_from_stamp [of seg queue ts c] fresh_from_Cons by auto
  qed simp
qed simp

lemma flush_credit_ctl [simp]:
  fixes c :: kcp_connection
  shows "state (flush_credit ts c) = state c" "fastresend (flush_credit ts c) = fastresend c"
    "fastlimit (flush_credit ts c) = fastlimit c" "conn_addr (flush_credit ts c) = conn_addr c"
  by (simp_all add: flush_credit_def Let_def)

section \<open>The result of the transmission\<close>

lemma bbr_on_loss_state [simp]: "state (bbr_on_loss c) = state c" "conn_addr (bbr_on_loss c) = conn_addr c"
  for c :: kcp_connection
  by (simp_all add: bbr_on_loss_def Let_def)

lemma flush_tail_effects:
  assumes "flush_tail ts lost c io = (c', io')"
  shows "state c' = state c" and "conn_addr c' = conn_addr c"
    and "\<exists>es. io_trace io' = io_trace io @ es \<and> (\<forall>a d. Send a d \<notin> set es) \<and> On_error (Some (conn_addr c)) TOO_MANY_RETRANS \<notin> set es"
  using assms by (auto simp: flush_tail_def Let_def split: if_splits)

lemma flush_transmit_dead:
  assumes "\<forall>s \<in> set (snd_buf c). sendable (unat (mtu c)) s" "unat (mtu c) < 2 ^ 31" "\<forall>n. io_send io n = Sent"
    and over: "\<exists>s \<in> set (snd_buf c). over_limit ts (flush_resent c) c s"
  shows "\<exists>c' io' ds. flush_transmit ts c io = Some (NO_ERROR, c', io') \<and> state c' = KCP_STATE_DISCONNECTED \<and>
    io_trace io' = io_trace io @ map (Send (remote_host c)) ds @ [On_error (Some (conn_addr c)) TOO_MANY_RETRANS]"
proof -
  obtain sc groups where s: "flush_scan ts (flush_resent c) (flush_rtomin c) c (snd_buf c)
       \<lparr>sc_done = [], sc_credit = bbr_pacing_credit c, sc_lost = False, sc_flush = False, sc_full = [], sc_cur = [], sc_io = io\<rparr> =
     (if \<exists>s \<in> set (snd_buf c). over_limit ts (flush_resent c) c s then Scan_dead else Scan_end, sc)"
    "\<exists>s \<in> set (snd_buf c). over_limit ts (flush_resent c) c s \<Longrightarrow>
       io_trace (sc_io sc) = io_trace io @ map (\<lambda>g. Send (remote_host c) (datagram_of g)) groups"
    by (rule flush_transmit_scan [OF assms(1-3)]) blast
  let ?c = "c\<lparr>snd_buf := sc_done sc, bbr_pacing_credit := sc_credit sc, state := KCP_STATE_DISCONNECTED\<rparr>"
  have "flush_transmit ts c io = Some (flush_end ?c (sc_io sc))"
    unfolding flush_transmit_def flush_resent_def [symmetric] flush_rtomin_def [symmetric] Let_def s(1) using over by simp
  then show ?thesis
    using s(2) [OF over] by (auto simp: flush_end_def intro!: exI [where x = "map datagram_of groups"])
qed

lemma flush_transmit_due:
  assumes "\<forall>s \<in> set (snd_buf c). sendable (unat (mtu c)) s" "unat (mtu c) < 2 ^ 31" "\<forall>n. io_send io n = Sent"
    and alive: "\<not> (\<exists>s \<in> set (snd_buf c). over_limit ts (flush_resent c) c s)" "state c \<noteq> KCP_STATE_DISCONNECTED"
  shows "\<exists>c' io' groups es. flush_transmit ts c io = Some (NO_ERROR, c', io') \<and> state c' = state c \<and>
    io_trace io' = io_trace io @ map (\<lambda>g. Send (remote_host c) (datagram_of g)) groups @ es \<and>
    (\<forall>a d. Send a d \<notin> set es) \<and> On_error (Some (conn_addr c)) TOO_MANY_RETRANS \<notin> set es \<and> [] \<notin> set groups \<and>
    concat groups = due_segments ts (flush_resent c) (flush_rtomin c) c (bbr_pacing_credit c) (snd_buf c)"
proof -
  obtain sc groups where s: "flush_scan ts (flush_resent c) (flush_rtomin c) c (snd_buf c)
       \<lparr>sc_done = [], sc_credit = bbr_pacing_credit c, sc_lost = False, sc_flush = False, sc_full = [], sc_cur = [], sc_io = io\<rparr> =
     (if \<exists>s \<in> set (snd_buf c). over_limit ts (flush_resent c) c s then Scan_dead else Scan_end, sc)" "[] \<notin> set groups"
    "\<not> (\<exists>s \<in> set (snd_buf c). over_limit ts (flush_resent c) c s) \<Longrightarrow>
       concat groups = due_segments ts (flush_resent c) (flush_rtomin c) c (bbr_pacing_credit c) (snd_buf c) \<and>
       (\<exists>st io'. (if sc_flush sc then kcp_send_packet (c\<lparr>snd_buf := sc_done sc, bbr_pacing_credit := sc_credit sc\<rparr>)
            (sc_full sc @ [sc_cur sc]) (sc_io sc) else (Inr 0, sc_io sc)) = (Inr st, io') \<and>
          io_trace io' = io_trace io @ map (\<lambda>g. Send (remote_host c) (datagram_of g)) groups)"
    by (rule flush_transmit_scan [OF assms(1-3)]) blast
  let ?c = "c\<lparr>snd_buf := sc_done sc, bbr_pacing_credit := sc_credit sc\<rparr>"
  obtain st io1 where io1: "(if sc_flush sc then kcp_send_packet ?c (sc_full sc @ [sc_cur sc]) (sc_io sc) else (Inr 0, sc_io sc)) = (Inr st, io1)"
    "io_trace io1 = io_trace io @ map (\<lambda>g. Send (remote_host c) (datagram_of g)) groups"
    using s(3) [OF alive(1)] by blast
  obtain c2 io2 where t: "flush_tail ts (sc_lost sc) ?c io1 = (c2, io2)" by (metis prod.exhaust)
  have st: "state c2 = state c" using flush_tail_effects(1) [OF t] by simp
  obtain es where es: "io_trace io2 = io_trace io1 @ es" "\<forall>a d. Send a d \<notin> set es" "On_error (Some (conn_addr c)) TOO_MANY_RETRANS \<notin> set es"
    using flush_tail_effects(3) [OF t] by auto
  have "flush_transmit ts c io = Some (flush_end c2 io2)"
    unfolding flush_transmit_def flush_resent_def [symmetric] flush_rtomin_def [symmetric] Let_def s(1)
    using alive(1) io1(1) t by (simp add: status_neg_def)
  then show ?thesis
    using st es io1(2) s(2) s(3) [OF alive(1)] alive(2)
    by (intro exI [where x = c2] exI [where x = io2] exI [where x = groups] exI [where x = es]) (simp add: flush_end_def)
qed

text \<open>What was transmitted is short enough, and reads back.\<close>

lemma transmitted_fits:
  assumes "flush_transmit ts c io = Some (e, c', io')"
    and "io_trace io' = io_trace io @ map (\<lambda>g. Send (remote_host c) (datagram_of g)) groups @ es" and "g \<in> set groups"
  shows "length (datagram_of g) \<le> unat (mtu c)"
  using flush_transmit_within [OF assms(1)] assms(2,3) by (auto simp: grows_def)

lemma transmitted_readable:
  assumes "\<forall>s \<in> set (snd_buf c). sendable (unat (mtu c)) s" and "unat (mtu c) < 2 ^ 31"
    and "flush_transmit ts c io = Some (e, c', io')"
    and "io_trace io' = io_trace io @ map (\<lambda>g. Send (remote_host c) (datagram_of g)) groups @ es"
    and "concat groups = due_segments ts r rm c credit (snd_buf c)" and g: "g \<in> set groups"
  shows "datagram_headers (Suc (length g)) (datagram_of g) = Some (map segment_header g)"
proof (rule datagram_of_headers)
  have "set g \<subseteq> set (concat groups)" using g by auto
  then show "\<forall>s \<in> set g. sendable (unat (mtu c)) s" using due_sendable [OF assms(1), of ts r rm c credit] assms(5) by auto
  show "length (datagram_of g) < 2 ^ 64" using transmitted_fits [OF assms(3,4) g] assms(2) by simp
qed

section \<open>Properties\<close>

text \<open>
  C7. What the transmission of a flush puts on the wire: with a network that takes every packet and no
  segment past the limit of retransmissions, the scan of the send buffer with its cache of packets and its loop at
  \<open>label_send\<close> sends exactly the segments that are due, in order and none twice, packed into datagrams;
  each datagram goes to the peer, holds at least one segment and is read by the parser as the headers of its segments.
\<close>

theorem flush_sends_due_segments:
  assumes "\<forall>s \<in> set (snd_buf c). sendable (unat (mtu c)) s" and "unat (mtu c) < 2 ^ 31" and "\<forall>n. io_send io n = Sent"
    and "\<forall>s \<in> set (snd_buf c). \<not> over_limit ts (flush_resent c) c s" and "state c \<noteq> KCP_STATE_DISCONNECTED"
  shows "\<exists>c' io' groups es. flush_transmit ts c io = Some (NO_ERROR, c', io') \<and>
    io_trace io' = io_trace io @ map (\<lambda>g. Send (remote_host c) (datagram_of g)) groups @ es \<and> (\<forall>a d. Send a d \<notin> set es) \<and>
    concat groups = due_segments ts (flush_resent c) (flush_rtomin c) c (bbr_pacing_credit c) (snd_buf c) \<and>
    (\<forall>g \<in> set groups. g \<noteq> [] \<and> length (datagram_of g) \<le> unat (mtu c) \<and>
       datagram_headers (Suc (length g)) (datagram_of g) = Some (map segment_header g))"
proof -
  have alive: "\<not> (\<exists>s \<in> set (snd_buf c). over_limit ts (flush_resent c) c s)" using assms(4) by blast
  obtain c' io' groups es where r: "flush_transmit ts c io = Some (NO_ERROR, c', io')"
    "io_trace io' = io_trace io @ map (\<lambda>g. Send (remote_host c) (datagram_of g)) groups @ es" "\<forall>a d. Send a d \<notin> set es" "[] \<notin> set groups"
    "concat groups = due_segments ts (flush_resent c) (flush_rtomin c) c (bbr_pacing_credit c) (snd_buf c)"
    using flush_transmit_due [OF assms(1-3) alive assms(5)] by blast
  have "g \<noteq> [] \<and> length (datagram_of g) \<le> unat (mtu c) \<and> datagram_headers (Suc (length g)) (datagram_of g) = Some (map segment_header g)"
    if "g \<in> set groups" for g
    using transmitted_fits [OF r(1,2) that] transmitted_readable [OF assms(1,2) r(1,2,5) that] r(4) that by auto
  then show ?thesis
    using r by (intro exI [where x = c'] exI [where x = io'] exI [where x = groups] exI [where x = es]) metis
qed

definition sample_due :: kcp_connection where
  "sample_due = sample_conn\<lparr>snd_buf := [sample_segment\<lparr>seg_sn := 0\<rparr>, sample_segment\<lparr>seg_sn := 1\<rparr>, sample_segment\<lparr>seg_sn := 2, seg_xmit := 1, seg_resendts := 9000000\<rparr>],
     bbr_pacing_credit := 100\<rparr>"

theorem flush_sends_due_segments_witness:
  "map seg_sn (due_segments 5000000 (flush_resent sample_due) (flush_rtomin sample_due) sample_due 100 (snd_buf sample_due)) = [0, 1] \<and>
   (\<exists>c' io' groups es. flush_transmit 5000000 sample_due (sample_io\<lparr>io_send := \<lambda>n. Sent\<rparr>) = Some (NO_ERROR, c', io') \<and>
      io_trace io' = map (\<lambda>g. Send (remote_host sample_due) (datagram_of g)) groups @ es \<and>
      map seg_sn (concat groups) = [0, 1])"
proof -
  have a: "\<forall>s \<in> set (snd_buf sample_due). sendable (unat (mtu sample_due)) s"
    "\<forall>s \<in> set (snd_buf sample_due). \<not> over_limit 5000000 (flush_resent sample_due) sample_due s"
    "state sample_due \<noteq> KCP_STATE_DISCONNECTED" "bbr_pacing_credit sample_due = 100" "io_trace sample_io = []"
    by code_simp+
  have m: "unat (mtu sample_due) < 2 ^ 31" by (simp add: sample_due_def sample_conn_def init_defs u32_of_i32_def)
  have d: "map seg_sn (due_segments 5000000 (flush_resent sample_due) (flush_rtomin sample_due) sample_due 100 (snd_buf sample_due)) = [0, 1]"
    by code_simp
  have n: "\<forall>n. io_send (sample_io\<lparr>io_send := \<lambda>n. Sent\<rparr>) n = Sent" by simp
  show ?thesis using flush_sends_due_segments [OF a(1) m n a(2,3)] d a(4,5) by fastforce
qed

text \<open>
  C8. A dead peer is found: a flush that is due disconnects the connection and reports
  \<open>TOO_MANY_RETRANS\<close> exactly when a segment of the send buffer was sent more often than
  \<open>KCP_RETRANSMISSION_MAX\<close> times, or would now be; otherwise the connection stays established and no such error
  is reported. New segments from the send queue never count.
\<close>

theorem dead_link_detected:
  assumes "state c = KCP_STATE_CONNECTED" and "ts_flush c \<le> ts div 1000" and "ping_request_queue (ping_context c) = []"
    and "32 \<le> unat (mtu c)" and "unat (mtu c) < 2 ^ 31" and "\<forall>n. io_send io n = Sent"
    and "\<forall>s \<in> set (snd_buf c). sendable (unat (mtu c)) s"
    and "\<forall>s \<in> set (snd_queue c). length (seg_data s) = unat (seg_len s) \<and> 32 + unat (seg_len s) \<le> unat (mtu c)"
  shows "\<exists>c' io' es. on_kcp_write_timeout xxh64 ts c io = Some (NO_ERROR, c', io') \<and> io_trace io' = io_trace io @ es \<and>
    (if \<exists>s \<in> set (snd_buf c). over_limit ts (flush_resent c) c s
     then state c' = KCP_STATE_DISCONNECTED \<and> last es = On_error (Some (conn_addr c)) TOO_MANY_RETRANS
     else state c' = KCP_STATE_CONNECTED \<and> On_error (Some (conn_addr c)) TOO_MANY_RETRANS \<notin> set es)"
proof -
  obtain c1 io1 where k: "flush_control xxh64 ts c io = (False, c1, io1)" "flush_core c1 = flush_core c" "only_sends io io1"
    by (rule flush_control_keeps [OF assms(3)])
  have fr: "snd_queue c1 = snd_queue c" "snd_buf c1 = snd_buf c" "mtu c1 = mtu c"
    using flush_control_ok(1) [OF k(1) assms(4)] by (simp_all add: flush_frame_def)
  define d where "d = flush_credit ts (flush_move ts (flush_cwnd c1) (snd_queue c1) c1)"
  note mv = flush_move_buffer [of c1 ts "flush_cwnd c1" "snd_queue c1"]
  have d: "mtu d = mtu c" "state d = state c" "flush_resent d = flush_resent c" "fastlimit d = fastlimit c" "conn_addr d = conn_addr c"
    using fr by (simp_all add: d_def flush_resent_def flush_core_fields [OF k(2)])
  have buf: "s \<in> set (snd_buf c) \<or> fresh_from (snd_queue c) s" if "s \<in> set (snd_buf d)" for s
    using mv that fr by (simp add: d_def)
  have sub: "set (snd_buf c) \<subseteq> set (snd_buf d)" using mv fr by (simp add: d_def)
  have send: "\<forall>s \<in> set (snd_buf d). sendable (unat (mtu d)) s"
  proof
    fix s assume "s \<in> set (snd_buf d)"
    then show "sendable (unat (mtu d)) s"
      using buf [of s] assms(7,8) d(1) by (auto simp: sendable_def fresh_from_def)
  qed
  have net: "\<forall>n. io_send io1 n = Sent" "unat (mtu d) < 2 ^ 31" using k(3) assms(5,6) d(1) by (auto simp: only_sends_def)
  have "over_limit ts (flush_resent d) d s = over_limit ts (flush_resent c) c s" for s using d by (simp add: over_limit_def)
  moreover have "\<not> over_limit ts r c s" if "fresh_from q s" for r s q
    using that by (simp add: fresh_from_def over_limit_def kcp_const)
  ultimately have over: "(\<exists>s \<in> set (snd_buf d). over_limit ts (flush_resent d) d s) =
      (\<exists>s \<in> set (snd_buf c). over_limit ts (flush_resent c) c s)"
    using buf sub by blast
  obtain es1 where es1: "io_trace io1 = io_trace io @ es1" "\<forall>e \<in> set es1. \<exists>a d. e = Send a d" using k(3) by (auto simp: only_sends_def)
  have w: "on_kcp_write_timeout xxh64 ts c io = flush_transmit ts d io1"
    using assms(1) leD [OF assms(2)] k(1) by (simp add: on_kcp_write_timeout_def Let_def d_def)
  show ?thesis
  proof (cases "\<exists>s \<in> set (snd_buf c). over_limit ts (flush_resent c) c s")
    case True
    obtain c' io' ds where "flush_transmit ts d io1 = Some (NO_ERROR, c', io')" "state c' = KCP_STATE_DISCONNECTED"
      "io_trace io' = io_trace io1 @ map (Send (remote_host d)) ds @ [On_error (Some (conn_addr d)) TOO_MANY_RETRANS]"
      using flush_transmit_dead [OF send net(2,1)] over True by blast
    then show ?thesis using True w es1(1) d(5)
      by (intro exI [where x = c'] exI [where x = io']
          exI [where x = "es1 @ map (Send (remote_host d)) ds @ [On_error (Some (conn_addr d)) TOO_MANY_RETRANS]"]) simp
  next
    case False
    obtain c' io' groups es where r: "flush_transmit ts d io1 = Some (NO_ERROR, c', io')" "state c' = state d"
      "io_trace io' = io_trace io1 @ map (\<lambda>g. Send (remote_host d) (datagram_of g)) groups @ es"
      "On_error (Some (conn_addr d)) TOO_MANY_RETRANS \<notin> set es"
      using flush_transmit_due [OF send net(2,1), of ts] over False d(2) assms(1) by auto
    have "On_error (Some (conn_addr d)) TOO_MANY_RETRANS \<notin> set es1" using es1(2) by auto
    then show ?thesis using False w es1(1) d r assms(1)
      by (intro exI [where x = c'] exI [where x = io']
          exI [where x = "es1 @ map (\<lambda>g. Send (remote_host d) (datagram_of g)) groups @ es"]) auto
  qed
qed

definition sample_dead :: kcp_connection where
  "sample_dead = sample_conn\<lparr>snd_buf := [sample_segment\<lparr>seg_sn := 0, seg_xmit := 10, seg_resendts := 4000000\<rparr>]\<rparr>"

theorem dead_link_detected_witness:
  "\<exists>c' io' es. on_kcp_write_timeout (\<lambda>d. 0) 5000000 sample_dead (sample_io\<lparr>io_send := \<lambda>n. Sent\<rparr>) = Some (NO_ERROR, c', io') \<and>
     io_trace io' = es \<and> state c' = KCP_STATE_DISCONNECTED \<and> last es = On_error (Some (conn_addr sample_dead)) TOO_MANY_RETRANS"
proof -
  have a: "state sample_dead = KCP_STATE_CONNECTED" "ts_flush sample_dead \<le> 5000000 div 1000" "ping_request_queue (ping_context sample_dead) = []"
    "32 \<le> unat (mtu sample_dead)"
    "\<forall>s \<in> set (snd_buf sample_dead). sendable (unat (mtu sample_dead)) s"
    "\<forall>s \<in> set (snd_queue sample_dead). length (seg_data s) = unat (seg_len s) \<and> 32 + unat (seg_len s) \<le> unat (mtu sample_dead)"
    "\<exists>s \<in> set (snd_buf sample_dead). over_limit 5000000 (flush_resent sample_dead) sample_dead s" "io_trace sample_io = []"
    by code_simp+
  have m: "unat (mtu sample_dead) < 2 ^ 31" by (simp add: sample_dead_def sample_conn_def init_defs u32_of_i32_def)
  have n: "\<forall>n. io_send (sample_io\<lparr>io_send := \<lambda>n. Sent\<rparr>) n = Sent" by simp
  show ?thesis using dead_link_detected [OF a(1-4) m n a(5,6), of "\<lambda>d. 0"] a(7,8) by simp
qed

end
