(* ===== verification/Kcp_Link.thy ===== *)
theory Kcp_Link
  imports Kcp_Stream Kcp_Transmit
begin

text \<open>
  Two endpoints and a network between them, for one direction of the data. The theory follows the
  bytes from \<open>kcp_send\<close> through the flush, the encoder, the network and the decoder into
  \<open>on_kcp_push_pcaket\<close> and out of \<open>kcp_recv\<close>. \<open>tx_inv\<close> says where each segment of the sender stands in
  the stream and is kept by sending, flushing and acknowledging; \<open>rx_inv\<close> of \<open>Kcp_Stream\<close> is the
  receiver's half; \<open>link_reach\<close> are the reachable states of the pair, and \<open>link_inv\<close> its invariant.
\<close>

section \<open>The segments of the sender\<close>

text \<open>Segment \<open>s\<close> is the fragment at position \<open>p\<close> of the stream.\<close>

definition frag_pos :: "stream \<Rightarrow> nat \<Rightarrow> kcp_segment \<Rightarrow> bool" where
  "frag_pos M p s \<longleftrightarrow> (\<exists>j i. j < length M \<and> i < length (M ! j) \<and> p = start_of M j + i \<and>
     seg_psn s = of_nat j \<and> seg_frg s = of_nat i \<and> seg_data s = M ! j ! i \<and> length (seg_data s) = unat (seg_len s) \<and>
     (i = 0 \<longrightarrow> seg_wnd s = of_nat (length (M ! j))))"

definition tx_inv :: "stream \<Rightarrow> kcp_connection \<Rightarrow> bool" where
  "tx_inv M c \<longleftrightarrow> stream_ok M \<and> psn_nxt c = of_nat (length M) \<and> snd_wf c \<and>
     (\<exists>p. snd_nxt c = of_nat p \<and> p + length (snd_queue c) = start_of M (length M) \<and>
        (\<forall>t < length (snd_queue c). frag_pos M (p + t) (snd_queue c ! t)) \<and>
        (\<forall>s \<in> set (snd_buf c). \<exists>q < p. seg_sn s = of_nat q \<and> seg_cmd s = ucast KCP_CMD_PUSH \<and> frag_pos M q s))"

text \<open>The part of a segment that goes over the wire.\<close>

definition wire_of :: "kcp_segment \<Rightarrow> kcp_segment" where
  "wire_of s = s\<lparr>seg_rto := 0, seg_resendts := 0, seg_fastack := 0, seg_xmit := 0\<rparr>"

lemma wire_of_fields [simp]:
  "seg_sn (wire_of s) = seg_sn s" "seg_cmd (wire_of s) = seg_cmd s" "frag_pos M p (wire_of s) = frag_pos M p s"
  by (simp_all add: wire_of_def frag_pos_def)

lemma wire_of_strip: "strip s = strip s' \<Longrightarrow> wire_of s = wire_of s'"
  by (cases s; cases s') (simp add: strip_def wire_of_def)

lemma start_of_append: "j \<le> length M \<Longrightarrow> start_of (M @ M') j = start_of M j"
  by (simp add: start_of_def)

lemma frag_pos_append: "frag_pos M p s \<Longrightarrow> frag_pos (M @ M') p s"
proof -
  assume "frag_pos M p s"
  then obtain j i where "j < length M \<and> i < length (M ! j) \<and> p = start_of M j + i \<and>
     seg_psn s = of_nat j \<and> seg_frg s = of_nat i \<and> seg_data s = M ! j ! i \<and> length (seg_data s) = unat (seg_len s) \<and>
     (i = 0 \<longrightarrow> seg_wnd s = of_nat (length (M ! j)))" unfolding frag_pos_def by blast
  then show ?thesis
    unfolding frag_pos_def by (rule_tac exI [where x = j], rule_tac exI [where x = i]) (simp add: nth_append start_of_append)
qed

lemma buf_wire:
  assumes "\<forall>s \<in> set b. P (seg_sn s) (seg_cmd s) (wire_of s)" and "wire_of ` set b' \<subseteq> wire_of ` set b"
  shows "\<forall>s \<in> set b'. P (seg_sn s) (seg_cmd s) (wire_of s)"
proof
  fix s assume "s \<in> set b'"
  then obtain s' where "s' \<in> set b" "wire_of s = wire_of s'" using assms(2) by blast
  then show "P (seg_sn s) (seg_cmd s) (wire_of s)" using assms(1) by (metis wire_of_fields(1,2))
qed

text \<open>The invariant depends on this much of the state; the send buffer may lose segments and be rescheduled.\<close>

lemma tx_inv_same:
  assumes "tx_inv M c" and "snd_wf c'" and "psn_nxt c' = psn_nxt c" "snd_nxt c' = snd_nxt c" "snd_queue c' = snd_queue c"
    and "wire_of ` set (snd_buf c') \<subseteq> wire_of ` set (snd_buf c)"
  shows "tx_inv M c'"
proof -
  obtain p where p: "snd_nxt c = of_nat p" "p + length (snd_queue c) = start_of M (length M)"
    "\<forall>t < length (snd_queue c). frag_pos M (p + t) (snd_queue c ! t)"
    "\<forall>s \<in> set (snd_buf c). \<exists>q < p. seg_sn s = of_nat q \<and> seg_cmd s = ucast KCP_CMD_PUSH \<and> frag_pos M q s"
    using assms(1) by (auto simp: tx_inv_def)
  have "\<forall>s \<in> set (snd_buf c'). \<exists>q < p. seg_sn s = of_nat q \<and> seg_cmd s = ucast KCP_CMD_PUSH \<and> frag_pos M q (wire_of s)"
    using buf_wire [of "snd_buf c" "\<lambda>sn cmd w. \<exists>q < p. sn = of_nat q \<and> cmd = ucast KCP_CMD_PUSH \<and> frag_pos M q w", OF _ assms(6)]
      p(4) by simp
  then show ?thesis using assms p unfolding tx_inv_def by (intro conjI exI [where x = p]) auto
qed

lemma tx_inv_ack:
  assumes inv: "tx_inv M c"
  shows "tx_inv M (on_kcp_ack_pcaket h ts c)"
proof -
  obtain pts ats sn una where body: "as_ack_data (hd_body h) = (pts, ats, sn, una)" by (metis prod.exhaust)
  have wf: "snd_wf c" using inv by (simp add: tx_inv_def)
  note wf' = on_kcp_ack_wf [OF wf, of h ts]
  show ?thesis
  proof (cases "state c = KCP_STATE_DISCONNECTED \<or> sn < snd_una c \<or> sn > snd_nxt c")
    case True
    then have "on_kcp_ack_pcaket h ts c = c \<or> on_kcp_ack_pcaket h ts c = ping_refresh ts c"
      using on_kcp_ack_ignored [OF body, of c ts] by (auto simp: on_kcp_ack_pcaket_def body)
    then show ?thesis using inv wf' by (auto intro!: tx_inv_same [OF inv] simp: ping_refresh_def)
  next
    case False
    let ?c = "on_kcp_ack_pcaket h ts c"
    have srt: "sorted_wrt (<) (map seg_sn (snd_buf c))" using wf by (simp add: snd_wf_def)
    have f: "map strip (snd_buf ?c) = filter (\<lambda>s. \<not> acked_by sn una s) (map strip (snd_buf c))"
      "snd_nxt ?c = snd_nxt c" "snd_queue ?c = snd_queue c" "psn_nxt ?c = psn_nxt c"
      using on_kcp_ack_filter [OF _ body _ _ srt, of ts] False by blast+
    have "strip ` set (snd_buf ?c) \<subseteq> strip ` set (snd_buf c)"
      using arg_cong [OF f(1), of set] by auto
    then have "wire_of ` set (snd_buf ?c) \<subseteq> wire_of ` set (snd_buf c)"
      using wire_of_strip by (smt (verit) image_iff subset_iff)
    then show ?thesis using f wf' by (intro tx_inv_same [OF inv]) auto
  qed
qed

lemma tx_inv_send_fails:
  assumes "tx_inv M c" and "kcp_send so mem dat c = (e, c')" and "e \<noteq> NO_ERROR"
  shows "tx_inv M c'"
  using kcp_send_cases [OF assms(2)] assms kcp_send_wf [of c so mem dat e c']
  by (intro tx_inv_same [OF assms(1)]) (auto simp: tx_inv_def)

lemma tx_inv_send:
  assumes inv: "tx_inv M c" and sent: "kcp_send so mem dat c = (NO_ERROR, c')" and mss: "mss c \<noteq> 0"
    and q: "snd_queue c' = snd_queue c @ segs"
    and room: "start_of (M @ [map seg_data segs]) (Suc (length M)) < 2 ^ 31 - 1"
  shows "tx_inv (M @ [map seg_data segs]) c'" and "concat (map seg_data segs) = dat"
proof -
  let ?m = "map seg_data segs"
  have f: "concat ?m = dat" "psn_nxt c' = psn_nxt c + 1" "segs \<noteq> []" "int (length segs) \<le> KCP_PACKET_SIZE"
    using kcp_send_message [OF sent mss] q by auto
  have fr: "is_fragment c (length segs) i (seg_data (segs ! i)) (segs ! i) \<and> length (seg_data (segs ! i)) \<le> unat (mss c)"
    if "i < length segs" for i
    using kcp_send_message [OF sent mss] q that by auto
  have same: "snd_buf c' = snd_buf c" "snd_nxt c' = snd_nxt c" using kcp_send_cases [OF sent] by auto
  show "concat ?m = dat" by (fact f(1))
  obtain p where p: "snd_nxt c = of_nat p" "p + length (snd_queue c) = start_of M (length M)"
    "\<forall>t < length (snd_queue c). frag_pos M (p + t) (snd_queue c ! t)"
    "\<forall>s \<in> set (snd_buf c). \<exists>q < p. seg_sn s = of_nat q \<and> seg_cmd s = ucast KCP_CMD_PUSH \<and> frag_pos M q s"
    using inv by (auto simp: tx_inv_def)
  have new: "frag_pos (M @ [?m]) (start_of M (length M) + i) (segs ! i)" if "i < length segs" for i
  proof -
    have "unat (of_nat (length (seg_data (segs ! i))) :: u32) = length (seg_data (segs ! i))"
      using fr [OF that] unat_u32_less [of "mss c"] by (intro unat_of_nat_u32) simp
    then show ?thesis
      unfolding frag_pos_def using fr [OF that] that inv
      by (rule_tac exI [where x = "length M"], rule_tac exI [where x = i])
        (auto simp: is_fragment_def tx_inv_def start_of_append)
  qed
  have ok: "stream_ok (M @ [?m])" using inv room f by (simp add: tx_inv_def stream_ok_def)
  have wf: "snd_wf c'" using kcp_send_wf [OF _ sent] inv by (simp add: tx_inv_def)
  have all: "frag_pos (M @ [?m]) (p + t) (snd_queue c' ! t)" if "t < length (snd_queue c')" for t
  proof (cases "t < length (snd_queue c)")
    case True
    then show ?thesis using p(3) frag_pos_append by (simp add: q nth_append)
  next
    case False
    then have "p + t = start_of M (length M) + (t - length (snd_queue c))" using p(2) by simp
    then show ?thesis using False that new [of "t - length (snd_queue c)"] by (simp add: q nth_append)
  qed
  have tot: "p + length (snd_queue c') = start_of (M @ [?m]) (length (M @ [?m]))"
    using p(2) by (simp add: q start_of_def)
  have buf: "\<forall>s \<in> set (snd_buf c'). \<exists>q < p. seg_sn s = of_nat q \<and> seg_cmd s = ucast KCP_CMD_PUSH \<and> frag_pos (M @ [?m]) q s"
    unfolding same using p(4) frag_pos_append by blast
  have psn: "psn_nxt c' = of_nat (length (M @ [?m]))" using f(2) inv by (simp add: tx_inv_def)
  show "tx_inv (M @ [?m]) c'"
    unfolding tx_inv_def using ok psn wf tot all buf p(1) same(2) by (intro conjI exI [where x = p]) auto
qed

subsection \<open>Flushing\<close>

lemma flush_decide_wire: "wire_of (xd_segment (flush_decide ts r rm c cr s)) = wire_of s"
  by (simp add: flush_decide_def wire_of_def Let_def)

lemma flush_scan_wire:
  "flush_scan ts r rm c ss sc = (res, sc') \<Longrightarrow> map wire_of (sc_done sc') = map wire_of (sc_done sc @ ss)"
proof (induction ss arbitrary: sc)
  case (Cons s ss)
  from Cons.prems show ?case
    by (cases rule: flush_scan_Cons) (simp_all add: flush_decide_wire Cons.IH)
qed simp

lemma flush_move_psn [simp]: "psn_nxt (flush_move ts w q c) = psn_nxt c"
  by (induction ts w q c rule: flush_move.induct) auto

lemma bbr_on_loss_snd [simp]:
  "snd_queue (bbr_on_loss c) = snd_queue c" "snd_buf (bbr_on_loss c) = snd_buf c" "snd_nxt (bbr_on_loss c) = snd_nxt c"
  "snd_una (bbr_on_loss c) = snd_una c" "nsnd_que (bbr_on_loss c) = nsnd_que c" "nsnd_buf (bbr_on_loss c) = nsnd_buf c"
  "psn_nxt (bbr_on_loss c) = psn_nxt c"
  by (simp_all add: bbr_on_loss_def Let_def)

text \<open>What the transmission does to the send side: nothing but the schedule of the segments.\<close>

lemma flush_transmit_snd:
  assumes "flush_transmit ts c io = Some (e, c', io')"
  shows "map wire_of (snd_buf c') = map wire_of (snd_buf c) \<and> snd_queue c' = snd_queue c \<and> snd_nxt c' = snd_nxt c \<and>
    snd_una c' = snd_una c \<and> nsnd_que c' = nsnd_que c \<and> nsnd_buf c' = nsnd_buf c \<and> psn_nxt c' = psn_nxt c"
proof -
  let ?sc = "\<lparr>sc_done = [], sc_credit = bbr_pacing_credit c, sc_lost = False, sc_flush = False, sc_full = [], sc_cur = [], sc_io = io\<rparr>"
  obtain res sc where s: "flush_scan ts (if fastresend c > 0 then u32_of_i32 (fastresend c) else - 1)
      (if nodelay c = 0 then u32_of_i32 (drop_bit 3 (rx_rto c)) else 0) c (snd_buf c) ?sc = (res, sc)" by (metis prod.exhaust)
  let ?c = "c\<lparr>snd_buf := sc_done sc, bbr_pacing_credit := sc_credit sc\<rparr>"
  have w: "map wire_of (sc_done sc) = map wire_of (snd_buf c)" using flush_scan_wire [OF s] by simp
  obtain st io1 where r: "(if sc_flush sc then kcp_send_packet ?c (sc_full sc @ [sc_cur sc]) (sc_io sc) else (Inr 0, sc_io sc)) = (st, io1)"
    by (metis prod.exhaust)
  note tr = assms [unfolded flush_transmit_def Let_def s prod.case r]
  show ?thesis
    using tr w by (cases res) (auto simp: flush_tail_def flush_end_def Let_def split: if_splits)
qed

lemma snd_wf_wire:
  assumes "snd_wf c" and "map wire_of (snd_buf c') = map wire_of (snd_buf c)" "snd_nxt c' = snd_nxt c" "snd_una c' = snd_una c"
    "nsnd_que c' = nsnd_que c" "nsnd_buf c' = nsnd_buf c" "snd_queue c' = snd_queue c"
  shows "snd_wf c'"
proof -
  have "map seg_sn (snd_buf c') = map seg_sn (snd_buf c)"
    using arg_cong [OF assms(2), of "map seg_sn"] by (simp add: comp_def)
  moreover from this have "seg_sn ` set (snd_buf c') = seg_sn ` set (snd_buf c)" by (metis set_map)
  moreover have "length (snd_buf c') = length (snd_buf c)" using arg_cong [OF assms(2), of length] by simp
  moreover have "first_sn n b = (case map seg_sn b of [] \<Rightarrow> n | x # xs \<Rightarrow> x)" for n b by (cases b) auto
  moreover have "seg_sn s < snd_nxt c" if "s \<in> set (snd_buf c')" for s
    using calculation(2) that assms(1) by (auto simp: snd_wf_def dest!: equalityD1)
  ultimately show ?thesis using assms unfolding snd_wf_def by simp
qed

lemma frag_pos_stamp: "frag_pos M p s \<Longrightarrow> frag_pos M p ((stamp_segment ts s c)\<lparr>seg_sn := x\<rparr>)"
proof -
  assume "frag_pos M p s"
  then obtain j i where "j < length M \<and> i < length (M ! j) \<and> p = start_of M j + i \<and>
     seg_psn s = of_nat j \<and> seg_frg s = of_nat i \<and> seg_data s = M ! j ! i \<and> length (seg_data s) = unat (seg_len s) \<and>
     (i = 0 \<longrightarrow> seg_wnd s = of_nat (length (M ! j)))" unfolding frag_pos_def by blast
  then show ?thesis
    unfolding frag_pos_def by (rule_tac exI [where x = j], rule_tac exI [where x = i]) (simp add: stamp_segment_def)
qed

lemma tx_inv_move:
  assumes inv: "tx_inv M c"
  shows "tx_inv M (flush_move ts w (snd_queue c) c)"
proof -
  let ?c = "flush_move ts w (snd_queue c) c" and ?n = "flush_room w c"
  obtain p where p: "snd_nxt c = of_nat p" "p + length (snd_queue c) = start_of M (length M)"
    "\<forall>t < length (snd_queue c). frag_pos M (p + t) (snd_queue c ! t)"
    "\<forall>s \<in> set (snd_buf c). \<exists>q < p. seg_sn s = of_nat q \<and> seg_cmd s = ucast KCP_CMD_PUSH \<and> frag_pos M q s"
    using inv by (auto simp: tx_inv_def)
  have small: "p + length (snd_queue c) < 2 ^ 31" using p(2) stream_small(2) [of M "length M"] inv by (simp add: tx_inv_def)
  then have u: "unat (snd_nxt c) = p" unfolding p(1) by (intro small_unat) simp
  then have room: "unat (snd_nxt c) + length (snd_queue c) < 2 ^ 32" using small by simp
  obtain segs where s: "snd_buf ?c = snd_buf c @ segs" "length segs = ?n"
      "\<forall>i < ?n. segs ! i = (stamp_segment ts (snd_queue c ! i) c)\<lparr>seg_sn := snd_nxt c + of_nat i\<rparr>"
    and e: "snd_queue ?c = drop ?n (snd_queue c)" "snd_nxt ?c = snd_nxt c + of_nat ?n"
    using flush_move_eq [OF refl room, of ts w] by (auto simp: Let_def)
  have n: "?n \<le> length (snd_queue c)" by (simp add: flush_room_def)
  have fp: "frag_pos M (p + i) ((stamp_segment ts (snd_queue c ! i) c)\<lparr>seg_sn := x\<rparr>)" if "i < ?n" for i x
    using p(3) that n by (intro frag_pos_stamp) simp
  have new: "\<exists>q < p + ?n. seg_sn s = of_nat q \<and> seg_cmd s = ucast KCP_CMD_PUSH \<and> frag_pos M q s" if "s \<in> set segs" for s
  proof -
    obtain i where i: "i < length segs" "s = segs ! i" using \<open>s \<in> set segs\<close> by (auto simp: in_set_conv_nth)
    then have "s = (stamp_segment ts (snd_queue c ! i) c)\<lparr>seg_sn := snd_nxt c + of_nat i\<rparr>" using s(2,3) by simp
    then show ?thesis
      using fp [of i "snd_nxt c + of_nat i"] p(1) i s(2) by (intro exI [where x = "p + i"]) (simp add: stamp_segment_def)
  qed
  have "\<forall>s \<in> set (snd_buf ?c). \<exists>q < p + ?n. seg_sn s = of_nat q \<and> seg_cmd s = ucast KCP_CMD_PUSH \<and> frag_pos M q s"
    unfolding s(1) set_append using p(4) new by (meson UnE trans_less_add1)
  moreover have "\<forall>t < length (snd_queue ?c). frag_pos M (p + ?n + t) (snd_queue ?c ! t)"
    using p(3) n by (simp add: e add.assoc)
  moreover have "snd_wf ?c" using flush_move_wf [OF _ room, of ts w] inv by (simp add: tx_inv_def)
  ultimately show ?thesis
    using inv p n unfolding tx_inv_def by (intro conjI exI [where x = "p + ?n"]) (auto simp: e)
qed

lemma flush_credit_snd [simp]:
  "snd_queue (flush_credit ts c) = snd_queue c" "snd_nxt (flush_credit ts c) = snd_nxt c" "snd_una (flush_credit ts c) = snd_una c"
  "nsnd_que (flush_credit ts c) = nsnd_que c" "nsnd_buf (flush_credit ts c) = nsnd_buf c" "psn_nxt (flush_credit ts c) = psn_nxt c"
  by (simp_all add: flush_credit_def Let_def)

lemma tx_inv_flush:
  assumes inv: "tx_inv M c" and f: "on_kcp_write_timeout x ts c io = Some (e, c', io')" and mtu: "32 \<le> unat (mtu c)"
  shows "tx_inv M c'"
proof -
  have keep: "tx_inv M d'" if "tx_inv M d" "map wire_of (snd_buf d') = map wire_of (snd_buf d)" "snd_queue d' = snd_queue d"
      "snd_nxt d' = snd_nxt d" "snd_una d' = snd_una d" "nsnd_que d' = nsnd_que d" "nsnd_buf d' = nsnd_buf d"
      "psn_nxt d' = psn_nxt d" for d d'
    using that snd_wf_wire [of d d'] by (intro tx_inv_same [OF that(1)]) (auto simp: tx_inv_def simp flip: set_map)
  obtain g c1 io1 where fc: "flush_control x ts c io = (g, c1, io1)" by (metis prod.exhaust)
  have c1: "tx_inv M c1"
    using flush_control_ok(1) [OF fc mtu] by (intro keep [OF inv]) (simp_all add: flush_frame_def)
  let ?c = "flush_credit ts (flush_move ts (flush_cwnd c1) (snd_queue c1) c1)"
  have "tx_inv M ?c" by (rule keep [OF tx_inv_move [OF c1]]) simp_all
  moreover consider "c' = c" | "c' = c1" | "flush_transmit ts ?c io1 = Some (e, c', io')"
    using f fc by (auto simp: on_kcp_write_timeout_def Let_def split: if_splits bool.splits)
  ultimately show ?thesis using inv c1 keep flush_transmit_snd by cases metis+
qed

section \<open>From the sender to the receiver\<close>

text \<open>A segment of the send buffer arrives as the header of its place in the stream.\<close>

lemma frag_pos_header:
  assumes ok: "stream_ok M" and s: "frag_pos M p s" "seg_sn s = of_nat p"
  shows "\<exists>j i. header_at M j i (segment_header s)"
proof -
  obtain j i where f: "j < length M" "i < length (M ! j)" "p = start_of M j + i"
     "seg_psn s = of_nat j" "seg_frg s = of_nat i" "seg_data s = M ! j ! i" "length (seg_data s) = unat (seg_len s)"
     "i = 0 \<longrightarrow> seg_wnd s = of_nat (length (M ! j))" using s(1) unfolding frag_pos_def by blast
  have "(ucast (of_nat n :: u32) :: u8) = of_nat n" "(ucast (of_nat n :: u32) :: u16) = of_nat n" for n
    by (rule bit_word_eqI, simp add: bit_simps)+
  then have "header_at M j i (segment_header s)"
    using f s(2) by (simp add: header_at_def segment_header_def)
  then show ?thesis by blast
qed

lemma transmitted_header:
  assumes inv: "tx_inv M c" and s: "s \<in> set (snd_buf c)" and fits: "32 + unat (seg_len s) \<le> n" "n \<le> length buf" "n < 2 ^ 31"
    and enc: "kcp_segment_encode s buf n = (Inr k, buf')"
    and parse: "kcp_proto_parse (take (nat k) buf' @ rest) m [] = Parse_ok h used" and m: "nat k \<le> m" "m < 2 ^ 64"
  shows "\<exists>j i. header_at M j i h"
proof -
  obtain q where q: "seg_sn s = of_nat q" "seg_cmd s = ucast KCP_CMD_PUSH" "frag_pos M q s"
    using inv s by (auto simp: tx_inv_def)
  then have len: "length (seg_data s) = unat (seg_len s)" by (auto simp: frag_pos_def)
  have wf: "header_wf (segment_header s)" by (rule segment_header_wf [OF q(2) len])
  have wl: "length (wire_header (segment_header s)) = 32 + unat (seg_len s)"
    using length_wire_header [OF wf] by (simp add: segment_header_def)
  have "nat k = 32 + unat (seg_len s)" "take (nat k) buf' = wire_header (segment_header s)"
    using enc segment_encode_eq [OF q(2) len fits(1,2,3)] wl by (auto simp del: of_nat_add)
  then have "h = segment_header s"
    using parse parse_wire [OF wf, of m rest] m wl by (simp add: segment_header_def)
  moreover have "stream_ok M" using inv by (simp add: tx_inv_def)
  ultimately show ?thesis using frag_pos_header [OF _ q(3,1)] by simp
qed

text \<open>The stream only grows, and what holds of the receiver stays.\<close>

lemma header_at_append: "header_at M j i h \<Longrightarrow> header_at (M @ M') j i h"
  by (simp add: header_at_def nth_append start_of_append)

lemma rx_inv_append:
  assumes "rx_inv M k c"
  shows "rx_inv (M @ M') k c"
proof -
  have k: "k \<le> length M" using assms by (simp add: rx_inv_def)
  have s: "seg_at M j i s \<Longrightarrow> seg_at (M @ M') j i s" for j i s by (simp add: seg_at_def nth_append start_of_append)
  have q: "packet_at M j p \<Longrightarrow> packet_at (M @ M') j p" for j p by (simp add: packet_at_def nth_append start_of_append)
  have "start_of M (length M) \<le> start_of (M @ M') (length (M @ M'))" by (simp add: start_of_def)
  then show ?thesis
    using assms s q k unfolding rx_inv_def start_of_append [OF k] by (simp) (meson order_trans)
qed

text \<open>
  Two endpoints and the network between them, for one direction of the data. \<open>D\<close> are the messages
  \<open>kcp_send\<close> has accepted, \<open>H\<close> the headers that have been put on the wire, \<open>out\<close> what the receiving
  application has read. The network may deliver any header of \<open>H\<close> at any time, any number of times
  or never; the sender may be given any acknowledgement, also a wrong one.
\<close>

definition snd_view :: "kcp_connection \<Rightarrow> kcp_segment list \<times> kcp_segment list \<times> int \<times> int \<times> u32 \<times> u32 \<times> u32" where
  "snd_view c = (snd_queue c, snd_buf c, nsnd_que c, nsnd_buf c, snd_nxt c, snd_una c, psn_nxt c)"

inductive link_reach ::
    "kcp_connection \<Rightarrow> kcp_connection \<Rightarrow> kcp_connection \<Rightarrow> kcp_connection \<Rightarrow> bytes list \<Rightarrow> kcp_proto_header set \<Rightarrow> bytes \<Rightarrow> bool"
  for s0 r0 where
  link_start: "link_reach s0 r0 s0 r0 [] {} []"
| link_send: "link_reach s0 r0 s r D H out \<Longrightarrow> mss s \<noteq> 0 \<Longrightarrow> kcp_send so mem dat s = (NO_ERROR, s') \<Longrightarrow>
    unat (snd_nxt s') + length (snd_queue s') < 2 ^ 31 - 1 \<Longrightarrow> link_reach s0 r0 s' r (D @ [dat]) H out"
| link_send_fails: "link_reach s0 r0 s r D H out \<Longrightarrow> kcp_send so mem dat s = (e, s') \<Longrightarrow> e \<noteq> NO_ERROR \<Longrightarrow>
    link_reach s0 r0 s' r D H out"
| link_ack: "link_reach s0 r0 s r D H out \<Longrightarrow> link_reach s0 r0 (on_kcp_ack_pcaket h ts s) r D H out"
| link_flush: "link_reach s0 r0 s r D H out \<Longrightarrow> 32 \<le> unat (mtu s) \<Longrightarrow>
    on_kcp_write_timeout xxh64 ts s io = Some (e, s', io') \<Longrightarrow> link_reach s0 r0 s' r D H out"
| link_transmit: "link_reach s0 r0 s r D H out \<Longrightarrow> seg \<in> set (snd_buf s) \<Longrightarrow>
    32 + unat (seg_len seg) \<le> n \<Longrightarrow> n \<le> length buf \<Longrightarrow> n < 2 ^ 31 \<Longrightarrow> kcp_segment_encode seg buf n = (Inr k, buf') \<Longrightarrow>
    kcp_proto_parse (take (nat k) buf' @ rest) m [] = Parse_ok h used \<Longrightarrow> nat k \<le> m \<Longrightarrow> m < 2 ^ 64 \<Longrightarrow>
    link_reach s0 r0 s r D (insert h H) out"
| link_deliver: "link_reach s0 r0 s r D H out \<Longrightarrow> h \<in> H \<Longrightarrow>
    link_reach s0 r0 s (fst (snd (on_kcp_push_pcaket mem h ts r io))) D H out"
| link_read: "link_reach s0 r0 s r D H out \<Longrightarrow> kcp_recv so sz r = (Inr dat, r') \<Longrightarrow> link_reach s0 r0 s r' D H (out @ dat)"
| link_other: "link_reach s0 r0 s r D H out \<Longrightarrow> snd_view s' = snd_view s \<Longrightarrow> rcv_view r' = rcv_view r \<Longrightarrow>
    link_reach s0 r0 s' r' D H out"

definition link_inv :: "kcp_connection \<Rightarrow> kcp_connection \<Rightarrow> bytes list \<Rightarrow> kcp_proto_header set \<Rightarrow> bytes \<Rightarrow> bool" where
  "link_inv s r D H out \<longleftrightarrow> (\<exists>M. map concat M = D \<and> tx_inv M s \<and> (\<forall>h \<in> H. \<exists>j i. header_at M j i h) \<and>
     (\<exists>k. rx_inv M k r \<and> out @ concat (map seg_payload (rcv_queue r)) = concat (map concat (take k M))))"

lemma link_inv_sender:
  assumes "link_inv s r D H out" and "\<And>M. tx_inv M s \<Longrightarrow> tx_inv M s'"
  shows "link_inv s' r D H out"
  using assms unfolding link_inv_def by blast

lemma link_inv_receiver:
  assumes "link_inv s r D H out" and "\<And>M k. tx_inv M s \<Longrightarrow> (\<forall>h \<in> H. \<exists>j i. header_at M j i h) \<Longrightarrow> rx_inv M k r \<Longrightarrow>
      out @ concat (map seg_payload (rcv_queue r)) = concat (map concat (take k M)) \<Longrightarrow>
      (\<exists>k'. rx_inv M k' r' \<and> out' @ concat (map seg_payload (rcv_queue r')) = concat (map concat (take k' M)))"
  shows "link_inv s r' D H out'"
  using assms unfolding link_inv_def by blast

lemma link_inv_send:
  assumes inv: "link_inv s r D H out" and mss: "mss s \<noteq> 0" and sent: "kcp_send so mem dat s = (NO_ERROR, s')"
    and room: "unat (snd_nxt s') + length (snd_queue s') < 2 ^ 31 - 1"
  shows "link_inv s' r (D @ [dat]) H out"
proof -
  obtain M k where M: "map concat M = D" "tx_inv M s" "\<forall>h \<in> H. \<exists>j i. header_at M j i h" "rx_inv M k r"
    "out @ concat (map seg_payload (rcv_queue r)) = concat (map concat (take k M))"
    using inv unfolding link_inv_def by blast
  obtain segs where q: "snd_queue s' = snd_queue s @ segs" using kcp_send_message [OF sent mss] by blast
  obtain p where p: "snd_nxt s = of_nat p" "p + length (snd_queue s) = start_of M (length M)"
    using M(2) by (auto simp: tx_inv_def)
  have "p < 2 ^ 31" using p(2) stream_small(2) [of M "length M"] M(2) by (simp add: tx_inv_def)
  moreover have "snd_nxt s' = snd_nxt s" using kcp_send_cases [OF sent] by auto
  ultimately have "unat (snd_nxt s') = p" using p(1) small_unat by simp
  then have "start_of (M @ [map seg_data segs]) (Suc (length M)) < 2 ^ 31 - 1"
    using room p(2) by (simp add: q start_of_def)
  note tx = tx_inv_send [OF M(2) sent mss q this]
  have "k \<le> length M" using M(4) by (simp add: rx_inv_def)
  then show ?thesis
    using M tx rx_inv_append [OF M(4), of "[map seg_data segs]"] header_at_append unfolding link_inv_def
    by (intro exI [where x = "M @ [map seg_data segs]"] conjI exI [where x = k]) (simp_all, blast)
qed

lemma link_inv_start:
  assumes "snd_view s0 = ([], [], 0, 0, 0, 0, 0)" and "rcv_view r0 = (Rb_Null, Rb_Null, [], [], 0, 0, 0, 0)"
  shows "link_inv s0 r0 [] {} []"
  using assms rx_inv_start [OF assms(2), of "[]"] unfolding link_inv_def
  by (intro exI [where x = "[]"]) (auto simp: tx_inv_def snd_view_def snd_wf_def stream_ok_def start_of_def rcv_view_def)

lemma link_reach_inv:
  assumes "snd_view s0 = ([], [], 0, 0, 0, 0, 0)" and "rcv_view r0 = (Rb_Null, Rb_Null, [], [], 0, 0, 0, 0)"
    and "link_reach s0 r0 s r D H out"
  shows "link_inv s r D H out"
  using assms(3)
proof (induction rule: link_reach.induct)
  case link_start
  show ?case by (rule link_inv_start [OF assms(1,2)])
next
  case (link_send s r D H out so mem dat s')
  then show ?case by (intro link_inv_send)
next
  case (link_send_fails s r D H out so mem dat e s')
  show ?case using tx_inv_send_fails [OF _ link_send_fails.hyps(2,3)] by (rule link_inv_sender [OF link_send_fails.IH])
next
  case (link_ack s r D H out h ts)
  show ?case using tx_inv_ack by (rule link_inv_sender [OF link_ack.IH])
next
  case (link_flush s r D H out xxh64 ts io e s' io')
  show ?case using tx_inv_flush [OF _ link_flush.hyps(3,2)] by (rule link_inv_sender [OF link_flush.IH])
next
  case (link_transmit s r D H out seg n buf k buf' rest m h used)
  obtain M where M: "map concat M = D" "tx_inv M s" "\<forall>h \<in> H. \<exists>j i. header_at M j i h"
    "\<exists>k. rx_inv M k r \<and> out @ concat (map seg_payload (rcv_queue r)) = concat (map concat (take k M))"
    using link_transmit.IH unfolding link_inv_def by blast
  then show ?case
    using transmitted_header [OF M(2) link_transmit.hyps(2-9)] unfolding link_inv_def by blast
next
  case (link_deliver s r D H out h mem ts io)
  show ?case
  proof (rule link_inv_receiver [OF link_deliver.IH])
    fix M k
    assume a: "tx_inv M s" "\<forall>h \<in> H. \<exists>j i. header_at M j i h" "rx_inv M k r"
      "out @ concat (map seg_payload (rcv_queue r)) = concat (map concat (take k M))"
    then have ok: "stream_ok M" by (simp add: tx_inv_def)
    obtain j i where "header_at M j i h" using a(2) link_deliver.hyps(2) by blast
    then show "\<exists>k'. rx_inv M k' (fst (snd (on_kcp_push_pcaket mem h ts r io))) \<and>
        out @ concat (map seg_payload (rcv_queue (fst (snd (on_kcp_push_pcaket mem h ts r io))))) = concat (map concat (take k' M))"
      using push_step [OF ok a(3) rx_inv_small [OF ok a(3)], of j i h mem ts io] a(4) by (auto dest: rx_step_delivers)
  qed
next
  case (link_read s r D H out so sz dat r')
  show ?case
    using recv_inv [OF _ link_read.hyps(2)] by (intro link_inv_receiver [OF link_read.IH]) fastforce
next
  case (link_other s r D H out s' r')
  have "link_inv s' r D H out"
    using link_other.hyps(2) snd_wf_wire [of s s'] tx_inv_same [of _ s s']
    by (intro link_inv_sender [OF link_other.IH]) (simp add: snd_view_def tx_inv_def)
  then show ?case
    using link_other.hyps(3) rx_inv_view [OF link_other.hyps(3)]
    by (elim link_inv_receiver) (auto simp: rcv_view_def)
qed

section \<open>Properties\<close>

text \<open>
  C1. End to end: the sender's application hands messages to \<open>kcp_send\<close>, which cuts them into
  segments; the flush numbers and moves them into the window; what is on the wire are encodings of
  segments of the send buffer; the network loses, repeats and reorders; the sender is fed
  acknowledgements of any kind; the receiver reassembles and its application reads with \<open>kcp_recv\<close>.
  In every reachable state what the receiving application has read, with what is ready for it, is
  the concatenation of the first \<open>k\<close> messages that were sent, for some \<open>k\<close>.
\<close>

theorem end_to_end:
  assumes "snd_view s0 = ([], [], 0, 0, 0, 0, 0)" and "rcv_view r0 = (Rb_Null, Rb_Null, [], [], 0, 0, 0, 0)"
    and "link_reach s0 r0 s r D H out"
  shows "\<exists>k \<le> length D. out @ concat (map seg_payload (rcv_queue r)) = concat (take k D)"
proof -
  obtain M k where "map concat M = D" "rx_inv M k r"
    "out @ concat (map seg_payload (rcv_queue r)) = concat (map concat (take k M))"
    using link_reach_inv [OF assms] unfolding link_inv_def by blast
  then show ?thesis by (intro exI [where x = k]) (auto simp: rx_inv_def take_map)
qed

lemma sample_snd_view: "snd_view sample_conn = ([], [], 0, 0, 0, 0, 0)"
  by (simp add: snd_view_def sample_conn_def init_defs zero_connection_def)

text \<open>One byte on its way: sent, flushed, transmitted, delivered and read.\<close>

definition sample_message_sent :: kcp_connection where
  "sample_message_sent = snd (kcp_send True (\<lambda>i. Some sample_segment) [65] sample_conn)"

definition sample_message_flushed :: kcp_connection where
  "sample_message_flushed = fst (snd (the (on_kcp_write_timeout (\<lambda>d. 0) 5000000 sample_message_sent sample_io)))"

definition sample_message_header :: kcp_proto_header where
  "sample_message_header = segment_header (hd (snd_buf sample_message_flushed))"

definition sample_message_delivered :: kcp_connection where
  "sample_message_delivered = fst (snd (on_kcp_push_pcaket sample_mem sample_message_header 6000000 sample_conn sample_io))"

lemma sample_message_sent_eq:
  "kcp_send True (\<lambda>i. Some sample_segment) [65] sample_conn = (NO_ERROR, sample_conn\<lparr>
     snd_queue := [sample_segment\<lparr>seg_data := [65], seg_wnd := 1, seg_frg := 0, seg_scid := scid sample_conn,
       seg_dcid := dcid sample_conn, seg_len := 1, seg_psn := 0\<rparr>], nsnd_que := 1, psn_nxt := 1\<rparr>)"
proof -
  have "psn_nxt sample_conn = 0" "snd_queue sample_conn = []" "nsnd_que sample_conn = 0"
    by (simp_all add: sample_conn_def init_defs zero_connection_def)
  then show ?thesis
    by (simp add: kcp_send_def kcp_fragmentation_def sample_conn_mss kcp_const kcp_segment_send_get_def fill_segment_def)
qed

lemma sample_message_sent_fields:
  "(snd_nxt sample_message_sent, mtu sample_message_sent, length (snd_queue sample_message_sent)) = (0, 40, 1)"
  unfolding sample_message_sent_def sample_message_sent_eq by (simp add: sample_conn_def init_defs zero_connection_def u32_of_i32_def)

lemma sample_message_flush:
  "map_option (\<lambda>(e, c, io). map (\<lambda>s. (seg_cmd s, seg_len s, seg_data s)) (snd_buf c))
     (on_kcp_write_timeout (\<lambda>d. 0) 5000000 sample_message_sent sample_io) = Some [(3, 1, [65])]"
  by code_simp

lemma sample_message_flush_returns: "on_kcp_write_timeout (\<lambda>d. 0) 5000000 sample_message_sent sample_io \<noteq> None"
  using sample_message_flush by auto

lemma sample_message_flushed_segments:
  "map (\<lambda>s. (seg_cmd s, seg_len s, seg_data s)) (snd_buf sample_message_flushed) = [(3, 1, [65])]"
  using sample_message_flush unfolding sample_message_flushed_def
  by (cases "on_kcp_write_timeout (\<lambda>d. 0) 5000000 sample_message_sent sample_io") (simp_all add: case_prod_beta)

lemma sample_message_read: "fst (kcp_recv True 8 sample_message_delivered) = Inr [65]"
  by code_simp

lemma sample_message_sent_reach: "link_reach sample_conn sample_conn sample_message_sent sample_conn [[65]] {} []"
proof -
  have "kcp_send True (\<lambda>i. Some sample_segment) [65] sample_conn = (NO_ERROR, sample_message_sent)"
    unfolding sample_message_sent_def sample_message_sent_eq by (simp only: snd_conv)
  then show ?thesis
    using link_send [OF link_start, of sample_conn True "\<lambda>i. Some sample_segment" "[65]" sample_message_sent]
      sample_message_sent_fields by (simp add: sample_conn_mss)
qed

lemma sample_message_reach:
  "link_reach sample_conn sample_conn sample_message_flushed (snd (kcp_recv True 8 sample_message_delivered)) [[65]]
     {sample_message_header} [65]"
proof -
  note r1 = sample_message_sent_reach
  obtain e io where "on_kcp_write_timeout (\<lambda>d. 0) 5000000 sample_message_sent sample_io = Some (e, sample_message_flushed, io)"
    using sample_message_flush_returns by (auto simp: sample_message_flushed_def)
  then have r2: "link_reach sample_conn sample_conn sample_message_flushed sample_conn [[65]] {} []"
    using link_flush [OF r1] sample_message_sent_fields by simp
  let ?s = "hd (snd_buf sample_message_flushed)"
  have s: "?s \<in> set (snd_buf sample_message_flushed)" "seg_cmd ?s = 3" "seg_len ?s = 1" "seg_data ?s = [65]"
    using sample_message_flushed_segments by (cases "snd_buf sample_message_flushed"; simp)+
  then have cmd: "seg_cmd ?s = ucast KCP_CMD_PUSH" and len: "length (seg_data ?s) = unat (seg_len ?s)"
    by (simp_all add: kcp_cmd_defs)
  have wf: "header_wf (segment_header ?s)" by (rule segment_header_wf [OF cmd len])
  have wl: "length (wire_header (segment_header ?s)) = 33"
    using length_wire_header [OF wf] s by (simp add: segment_header_def)
  have enc: "kcp_segment_encode ?s (replicate 40 0) 40 = (Inr 33, wire_header (segment_header ?s) @ drop 33 (replicate 40 0))"
    using segment_encode_eq [OF cmd len, of 40 "replicate 40 0"] s by simp
  have parse: "kcp_proto_parse (take (nat 33) (wire_header (segment_header ?s) @ drop 33 (replicate 40 0)) @ []) 33 [] =
      Parse_ok sample_message_header 33"
    using parse_wire [OF wf, of 33 "[]"] wl by (simp add: sample_message_header_def)
  have "link_reach sample_conn sample_conn sample_message_flushed sample_conn [[65]] (insert sample_message_header {}) []"
    using s(3) by (intro link_transmit [OF r2 s(1) _ _ _ enc parse]) simp_all
  then have r3: "link_reach sample_conn sample_conn sample_message_flushed sample_conn [[65]] {sample_message_header} []" by simp
  have r4: "link_reach sample_conn sample_conn sample_message_flushed sample_message_delivered [[65]] {sample_message_header} []"
    unfolding sample_message_delivered_def by (rule link_deliver [OF r3]) simp
  show ?thesis using link_read [OF r4, of True 8 "[65]"] sample_message_read by (simp add: prod_eq_iff)
qed

theorem end_to_end_witness:
  "link_reach sample_conn sample_conn sample_message_flushed (snd (kcp_recv True 8 sample_message_delivered)) [[65]]
     {sample_message_header} [65] \<and>
   (\<exists>k \<le> length [[65 :: u8]]. [65] @ concat (map seg_payload (rcv_queue (snd (kcp_recv True 8 sample_message_delivered)))) =
      concat (take k [[65]]))"
  by (intro conjI sample_message_reach end_to_end [OF sample_snd_view sample_fresh sample_message_reach])

end
