(* ===== verification/Kcp_Progress.thy ===== *)
theory Kcp_Progress
  imports Kcp_Stream
begin

text \<open>
  Progress of the reassembly. \<open>Kcp_Stream\<close> shows that nothing wrong is delivered; this theory shows that
  messages are delivered. \<open>rx_frags\<close> is an invariant of the packets under reassembly that only
  progress needs: fragments are listed by their index, and a packet that has its first fragment knows how many there are.
  With it, a packet all of whose fragments are there is complete, and when \<open>rcv_nxt\<close> is past the next message, the push
  delivers it.
\<close>

section \<open>Arrivals\<close>

record arrival =
  arr_mem :: push_mem
  arr_header :: kcp_proto_header
  arr_ts :: u64
  arr_io :: kcp_io

definition arr_mem_ok :: "arrival \<Rightarrow> bool" where
  "arr_mem_ok a \<longleftrightarrow> mem_ack (arr_mem a) \<and> mem_segment (arr_mem a) \<noteq> None \<and> mem_packet (arr_mem a)"

text \<open>The handler run on packets that arrive one after the other.\<close>

definition receive_all :: "arrival list \<Rightarrow> kcp_connection \<Rightarrow> kcp_connection" where
  "receive_all as c = foldl (\<lambda>c a. fst (snd (on_kcp_push_pcaket (arr_mem a) (arr_header a) (arr_ts a) c (arr_io a)))) c as"

text \<open>Every fragment of the stream, in order.\<close>

definition in_order :: "stream \<Rightarrow> kcp_proto_header list \<Rightarrow> bool" where
  "in_order M hs \<longleftrightarrow> length hs = start_of M (length M) \<and>
     (\<forall>j < length M. \<forall>i < length (M ! j). header_at M j i (hs ! (start_of M j + i)))"

definition frags_ok :: "kcp_packet_assembly \<Rightarrow> bool" where
  "frags_ok q \<longleftrightarrow> sorted (map seg_frg (pk_fragments q)) \<and> ((\<exists>s \<in> set (pk_fragments q). seg_frg s = 0) \<longrightarrow> pk_has_head q)"

definition rx_frags :: "'a kcp_rcv_scheme \<Rightarrow> bool" where
  "rx_frags c \<longleftrightarrow> (\<forall>q \<in> set (rb_inorder (rcv_packet c)). frags_ok q)"

section \<open>A packet with all its fragments is complete\<close>

lemma frag_insert_sorted: "sorted (map seg_frg l) \<Longrightarrow> sorted (map seg_frg (frag_insert s l))"
proof (induction l)
  case (Cons x l)
  then show ?case by (cases "seg_frg s < seg_frg x") auto
qed simp

lemma frags_ok_stored: "frags_ok q \<Longrightarrow> frags_ok (add_fragment seg (head_update seg q))"
  by (auto simp: frags_ok_def add_fragment_def head_update_def frag_insert_sorted)

lemma consecutive_intro: "(\<And>t. t < length fs \<Longrightarrow> seg_sn (fs ! t) = n + of_nat t) \<Longrightarrow> frags_consecutive n fs"
proof (induction fs arbitrary: n)
  case (Cons s fs)
  have "seg_sn s = n" using Cons.prems [of 0] by simp
  moreover have "seg_sn (fs ! t) = (n + 1) + of_nat t" if "t < length fs" for t using Cons.prems [of "Suc t"] that by (simp add: add_ac)
  ultimately show ?case using Cons.IH by simp
qed simp

lemma fragments_of_message:
  assumes ok: "stream_ok M" and k: "k < length M" and q: "packet_at M k q" "packet_wf q" "frags_ok q"
    and segs: "\<forall>s \<in> set (pk_fragments q). \<exists>j i. seg_at M j i s"
    and all: "\<forall>i < length (M ! k). \<exists>s \<in> set (pk_fragments q). seg_at M k i s"
  shows "length (pk_fragments q) = length (M ! k)" and "\<And>t. t < length (M ! k) \<Longrightarrow> seg_at M k t (pk_fragments q ! t)"
proof -
  let ?fs = "pk_fragments q" and ?n = "length (M ! k)"
  have n: "?n \<le> 64" by (rule stream_small(3) [OF ok k])
  have at: "\<exists>i < ?n. seg_at M k i s" if x: "s \<in> set ?fs" for s
  proof -
    obtain j i where s: "seg_at M j i s" using segs x by blast
    have "seg_psn s = of_nat k" using q x by (simp add: packet_wf_def packet_at_def)
    then have "j = k" using seg_at_unique [OF ok s] k by simp
    then show ?thesis using s by (auto simp: seg_at_def)
  qed
  have set: "set (map seg_frg ?fs) = of_nat ` {..<?n}"
  proof
    show "set (map seg_frg ?fs) \<subseteq> of_nat ` {..<?n}" using at by (fastforce simp: seg_at_def)
    show "of_nat ` {..<?n} \<subseteq> set (map seg_frg ?fs)"
    proof
      fix x :: u32 assume "x \<in> of_nat ` {..<?n}"
      then obtain i where i: "i < ?n" "x = of_nat i" by auto
      then obtain s where s: "s \<in> set ?fs" "seg_at M k i s" using all by blast
      then have "seg_frg s = x" using i(2) by (simp add: seg_at_def)
      then show "x \<in> set (map seg_frg ?fs)" using s(1) by auto
    qed
  qed
  have inj: "inj_on (of_nat :: nat \<Rightarrow> u32) {..<?n}" using n small_inj by (intro inj_onI) auto
  have "inj_on seg_frg (set ?fs)"
  proof (rule inj_onI)
    fix s s' assume a: "s \<in> set ?fs" "s' \<in> set ?fs" "seg_frg s = seg_frg s'"
    obtain i i' where i: "i < ?n" "seg_at M k i s" "i' < ?n" "seg_at M k i' s'" using at a by meson
    then have "(of_nat i :: u32) = of_nat i'" using a(3) by (simp add: seg_at_def)
    then have "i = i'" using inj i by (auto dest: inj_onD)
    then have "seg_sn s = seg_sn s'" using i by (simp add: seg_at_def)
    then show "s = s'" using q(2) a by (auto simp: packet_wf_def distinct_map dest: inj_onD)
  qed
  moreover have "distinct ?fs" using q(2) by (simp add: packet_wf_def distinct_map)
  ultimately have d: "distinct (map seg_frg ?fs)" by (simp add: distinct_map)
  have s: "sorted (map of_nat [0..<?n] :: u32 list)"
    using n small_unat by (auto simp: sorted_iff_nth_mono word_le_nat_alt)
  have eq: "map seg_frg ?fs = map of_nat [0..<?n]"
  proof (rule sorted_distinct_set_unique)
    show "sorted (map seg_frg ?fs)" using q(3) by (simp add: frags_ok_def)
    show "distinct (map of_nat [0..<?n] :: u32 list)" using inj by (simp add: distinct_map atLeast0LessThan)
  qed (use d s set in \<open>auto simp: atLeast0LessThan\<close>)
  then show len: "length ?fs = ?n" by (metis length_map length_upt minus_nat.diff_0)
  show "seg_at M k t (?fs ! t)" if t: "t < ?n" for t
  proof -
    obtain i where i: "i < ?n" "seg_at M k i (?fs ! t)" using at [of "?fs ! t"] t len by auto
    have "seg_frg (?fs ! t) = of_nat t" using arg_cong [OF eq, of "\<lambda>l. l ! t"] t len by simp
    then have "i = t" using i t inj by (auto simp: seg_at_def dest: inj_onD)
    then show ?thesis using i by simp
  qed
qed

lemma message_complete:
  assumes ok: "stream_ok M" and k: "k < length M" and q: "packet_at M k q" "packet_wf q" "frags_ok q"
    and segs: "\<forall>s \<in> set (pk_fragments q). \<exists>j i. seg_at M j i s"
    and all: "\<forall>i < length (M ! k). \<exists>s \<in> set (pk_fragments q). seg_at M k i s"
  shows "kcp_rcv_packet_is_complete q" and "pk_expected_frags q = of_nat (length (M ! k))"
proof -
  note f = fragments_of_message [OF assms]
  let ?fs = "pk_fragments q" and ?n = "length (M ! k)"
  have n: "?n \<le> 64" "0 < ?n" using stream_small(3) [OF ok k] ok k nth_mem [OF k] by (auto simp: stream_ok_def)
  have "seg_at M k 0 (?fs ! 0)" using f(2) [of 0] n by simp
  then have "seg_frg (?fs ! 0) = 0" "?fs ! 0 \<in> set ?fs" using f(1) n by (simp_all add: seg_at_def)
  then have h: "pk_has_head q" using q(3) by (auto simp: frags_ok_def)
  then show e: "pk_expected_frags q = of_nat ?n" using q(1) by (simp add: packet_at_def)
  have "unat (of_nat ?n :: u16) = ?n" using n by (simp add: unat_of_nat take_bit_nat_eq_self)
  then have "pk_expected_frags q \<noteq> 0" using e n by auto
  moreover have "pk_expected_frags q = pk_received_frags q" using e q(2) f(1) by (simp add: packet_wf_def)
  moreover have "frags_consecutive (pk_start_sn q) ?fs"
    using f q(1) by (intro consecutive_intro) (simp add: packet_at_def seg_at_def)
  ultimately show "kcp_rcv_packet_is_complete q" using h by (simp add: kcp_rcv_packet_is_complete_def)
qed

section \<open>The next message is delivered\<close>

lemma buffered_at:
  assumes ok: "stream_ok M" and inv: "rx_inv M k c" and k: "k < length M" and i: "i < length (M ! k)"
    and s: "s \<in> set (rb_inorder (rcv_buf c))" "seg_sn s = of_nat (start_of M k + i)"
  shows "seg_at M k i s"
proof -
  obtain j i' where at: "seg_at M j i' s" "k \<le> j" using inv s by (auto simp: rx_inv_def)
  have "start_of M k + i < 2 ^ 31" using position_total [OF k i] stream_small(2) [OF ok, of "length M"] by simp
  then have p: "start_of M j + i' = start_of M k + i" using seg_at_position [OF ok at(1)] s(2) small_unat by (simp del: of_nat_add)
  have "j = k"
  proof (rule ccontr)
    assume "j \<noteq> k"
    then have "start_of M (Suc k) \<le> start_of M j" using at(2) by (intro start_of_mono) simp
    then show False using p position_bound [OF k i] by simp
  qed
  then show ?thesis using p at by simp
qed

lemma next_packet:
  assumes ok: "stream_ok M" and inv: "rx_inv M k c" and k: "k < length M" and fr: "rx_frags c"
    and le: "start_of M (Suc k) \<le> unat (rcv_nxt c)"
  obtains q rest where "q \<in> set (rb_inorder (rcv_packet c))" "rcv_packet_list c = pk_psn q # rest" "kcp_rcv_packet_is_complete q"
    "pk_start_sn q + ucast (pk_expected_frags q) \<le> rcv_nxt c" "pk_fragments q \<noteq> []"
proof -
  have st: "rcv_struct (rcv_buf c) (rcv_packet c) (rcv_packet_list c)" using inv by (simp add: rx_inv_def rcv_wf_def)
  then have ip: "rb_index pk_psn (rcv_packet c)" by (simp add: rcv_struct_def)
  have n: "0 < length (M ! k)" using ok nth_mem [OF k] by (auto simp: stream_ok_def)
  have there: "\<exists>s \<in> set (rb_inorder (rcv_buf c)). seg_at M k i s" if "i < length (M ! k)" for i
  proof -
    have "start_of M k + i < unat (rcv_nxt c)" using position_bound [OF k that] le by simp
    then have "of_nat (start_of M k + i) \<in> seg_sn ` set (rb_inorder (rcv_buf c))"
      using inv unfolding rx_inv_def by (meson le_add1)
    then obtain s where s: "s \<in> set (rb_inorder (rcv_buf c))" "seg_sn s = of_nat (start_of M k + i)" unfolding image_iff by metis
    show ?thesis using buffered_at [OF ok inv k that s] s(1) by blast
  qed
  have packet: "\<exists>q \<in> set (rb_inorder (rcv_packet c)). s \<in> set (pk_fragments q) \<and> packet_at M k q"
    if s: "s \<in> set (rb_inorder (rcv_buf c))" "seg_at M k i s" for s i
  proof -
    obtain q where q: "q \<in> set (rb_inorder (rcv_packet c))" "s \<in> set (pk_fragments q)" using struct_fragment_of [OF st s(1)] by blast
    obtain j where j: "packet_at M j q" using inv q(1) by (auto simp: rx_inv_def)
    have "seg_psn s = pk_psn q" using struct_packet(1) [OF st q(1)] q(2) by (simp add: packet_wf_def)
    then have "j = k" using seg_at_unique [OF ok s(2), of j] j by (simp add: packet_at_def)
    then show ?thesis using q j by blast
  qed
  obtain s0 where s0: "s0 \<in> set (rb_inorder (rcv_buf c))" "seg_at M k 0 s0" using there [OF n] by blast
  obtain q where q: "q \<in> set (rb_inorder (rcv_packet c))" "s0 \<in> set (pk_fragments q)" "packet_at M k q" using packet [OF s0] by blast
  have all: "\<forall>i < length (M ! k). \<exists>s \<in> set (pk_fragments q). seg_at M k i s"
  proof (intro allI impI)
    fix i assume i: "i < length (M ! k)"
    obtain s where s: "s \<in> set (rb_inorder (rcv_buf c))" "seg_at M k i s" using there [OF i] by blast
    obtain q' where q': "q' \<in> set (rb_inorder (rcv_packet c))" "s \<in> set (pk_fragments q')" "packet_at M k q'" using packet [OF s] by blast
    have "q' = q" using struct_packet_unique [OF st q'(1) q(1)] q q' by (simp add: packet_at_def)
    then show "\<exists>s \<in> set (pk_fragments q). seg_at M k i s" using q' s by blast
  qed
  have wf: "packet_wf q" "frags_ok q" using struct_packet(1) [OF st q(1)] fr q(1) by (auto simp: rx_frags_def)
  have segs: "\<forall>s \<in> set (pk_fragments q). \<exists>j i. seg_at M j i s" using struct_packet(2) [OF st q(1)] inv by (fastforce simp: rx_inv_def)
  note comp = message_complete [OF ok k q(3) wf segs all]
  obtain psn rest where l: "rcv_packet_list c = psn # rest"
    using struct_packet(3) [OF st q(1)] by (cases "rcv_packet_list c") auto
  have "psn = pk_psn q"
  proof (rule ccontr)
    assume ne: "psn \<noteq> pk_psn q"
    have "psn \<in> pk_psn ` set (rb_inorder (rcv_packet c))" using st l unfolding rcv_struct_def by (metis list.set_intros(1))
    then obtain q0 where q0: "q0 \<in> set (rb_inorder (rcv_packet c))" "pk_psn q0 = psn" by auto
    obtain j where j: "k \<le> j" "packet_at M j q0" using inv q0(1) by (auto simp: rx_inv_def)
    moreover have "j \<noteq> k" using ne q0(2) q(3) j(2) by (auto simp: packet_at_def)
    ultimately have kj: "k < j" "j < length M" by (simp_all add: packet_at_def)
    have "pk_psn q \<in> set rest" using struct_packet(3) [OF st q(1)] l ne by simp
    then have "packet_start (rcv_packet c) psn \<le> packet_start (rcv_packet c) (pk_psn q)" using inv l by (simp add: rx_inv_def)
    then have "pk_start_sn q0 \<le> pk_start_sn q" using packet_start_eq [OF ip q0(1)] packet_start_eq [OF ip q(1)] q0(2) by simp
    then have "start_of M j \<le> start_of M k"
      using j(2) q(3) small_unat [OF stream_small(2) [OF ok, of j]] small_unat [OF stream_small(2) [OF ok, of k]]
      by (simp add: packet_at_def word_le_nat_alt)
    then show False using start_of_message [OF ok kj(1)] kj(2) by simp
  qed
  moreover have "pk_start_sn q + ucast (pk_expected_frags q) \<le> rcv_nxt c"
    using expected_end [OF ok q(3) comp(2)] le start_of_Suc [OF k] by (simp add: word_le_nat_alt)
  moreover have "pk_fragments q \<noteq> []" using q(2) by auto
  ultimately show thesis using that [OF q(1), of rest] l comp(1) by simp
qed

text \<open>The delivery at the end of a push, when \<open>rcv_nxt\<close> is past the next message.\<close>

lemma push_deliver_progress:
  assumes ok: "stream_ok M" and inv: "rx_inv M k c" and k: "k < length M" and fr: "rx_frags c"
    and le: "start_of M (Suc k) \<le> unat (rcv_nxt c)"
  shows "\<exists>k' > k. rx_inv M k' (fst (push_deliver c io)) \<and>
    map seg_payload (rcv_queue (fst (push_deliver c io))) = map seg_payload (rcv_queue c) @ concat (take (k' - k) (drop k M))"
proof -
  obtain q rest where q: "q \<in> set (rb_inorder (rcv_packet c))" "rcv_packet_list c = pk_psn q # rest" "kcp_rcv_packet_is_complete q"
    "pk_start_sn q + ucast (pk_expected_frags q) \<le> rcv_nxt c" "pk_fragments q \<noteq> []"
    by (rule next_packet [OF ok inv k fr le])
  have ip: "rb_index pk_psn (rcv_packet c)" using inv by (simp add: rx_inv_def rcv_wf_def rcv_struct_def)
  then have "rb_search pk_psn (pk_psn q) (rcv_packet c) = Some q" using rbt.search_Some_iff [OF ip] q(1) by blast
  then have "fst (push_deliver c io) = kcp_rcv_packet_destroy (pk_psn q) (foldl deliver_fragment c (pk_fragments q))"
    using q by (simp add: push_deliver_def kcp_rcv_packet_search_def Let_def)
  then have more: "length (rcv_queue (fst (push_deliver c io))) > length (rcv_queue c)"
    using deliver_fields [of c "pk_fragments q"] q(5) by (simp add: kcp_rcv_packet_destroy_def rcv_view_def)
  obtain k' where k': "k \<le> k'" "rx_inv M k' (fst (push_deliver c io))"
    "map seg_payload (rcv_queue (fst (push_deliver c io))) = map seg_payload (rcv_queue c) @ concat (take (k' - k) (drop k M))"
    using push_deliver_step [OF ok inv, of io] by blast
  have "k' \<noteq> k" using arg_cong [OF k'(3), of length] more by auto
  then show ?thesis using k' by (intro exI [where x = k']) simp
qed

lemma rx_frags_deliver:
  assumes "rx_frags c" "rcv_wf c"
  shows "rx_frags (fst (push_deliver c io))"
proof -
  have ip: "rb_index pk_psn (rcv_packet c)" using assms(2) by (simp add: rcv_wf_def rcv_struct_def)
  have f: "rcv_packet (foldl deliver_fragment c fs) = rcv_packet c" for fs
    using deliver_fields [of c fs] by (simp add: rcv_view_def)
  have "set (rb_inorder (rcv_packet (fst (push_deliver c io)))) \<subseteq> set (rb_inorder (rcv_packet c))"
    using rbt.set_entries_erase_key [OF ip] f
    by (auto simp: push_deliver_def Let_def kcp_rcv_packet_destroy_def split: list.splits option.splits if_splits)
  then show ?thesis using assms(1) by (auto simp: rx_frags_def)
qed

lemma rx_frags_store:
  assumes "rx_frags c"
  shows "rx_frags (push_advance seg (push_fragment seg (push_head seg (c\<lparr>ack_item := a\<rparr>))))"
  using assms frags_ok_stored by (auto simp: rx_frags_def push_fragment_fields push_head_fields rb_inorder_map)

lemma rx_frags_create:
  assumes "kcp_rcv_packet_create m psn sn c = Some c'" "rb_index pk_psn (rcv_packet c)" "rx_frags c"
  shows "rx_frags c'"
  using assms rbt.set_entries_insert [OF assms(2)]
  by (auto simp: rx_frags_def kcp_rcv_packet_create_def kcp_rcv_packet_order_insert_def kcp_rcv_packet_insert_def Let_def
      frags_ok_def split: if_splits)

text \<open>A push of the segment that is expected next.\<close>

lemma push_new_segment:
  assumes "as_packet_data (hd_body h) = (pts, sn, psn, una, len, dat)" "sn = rcv_nxt c" "rcv_nxt c < rcv_nxt c + u32_of_i32 (rcv_wnd c)"
    and "mem_ack mem" "mem_segment mem \<noteq> None"
  obtains raw ack c1 where "on_kcp_push_pcaket mem h ts c io = push_store mem (push_segment h raw) ack c1 io"
    "rcv_view c1 = rcv_view c" "rcv_wnd c1 = rcv_wnd c"
proof -
  obtain r c1 where g: "kcp_segment_recv_get (mem_segment mem) (ping_refresh ts c) = (r, c1)" by (metis prod.exhaust)
  then have "r \<noteq> None" using assms(5) by (cases "rcv_buf_unused (ping_refresh ts c)") (auto simp: kcp_segment_recv_get_def)
  then obtain raw where raw: "r = Some raw" by blast
  have "rcv_wnd c1 = rcv_wnd c" using g by (auto simp: kcp_segment_recv_get_def ping_refresh_def split: list.splits if_splits)
  moreover have "rcv_view c1 = rcv_view c" using rcv_view_get [OF g] by simp
  moreover have "rcv_nxt (ping_refresh ts c) = rcv_nxt c" "rcv_wnd (ping_refresh ts c) = rcv_wnd c" by (simp_all add: ping_refresh_def)
  then have "on_kcp_push_pcaket mem h ts c io = push_store mem (push_segment h raw) \<lparr>ack_sn = sn, ack_psn = psn, ack_ts = ts\<rparr> c1 io"
    using assms(1,2,4) leD [of "rcv_nxt c + u32_of_i32 (rcv_wnd c)" "rcv_nxt c"] assms(3) g raw
    by (auto simp: on_kcp_push_pcaket_def Let_def)
  ultimately show thesis using that by blast
qed

lemma push_store_new:
  assumes ok: "stream_ok M" and inv: "rx_inv M k c" and fr: "rx_frags c" and seg: "seg_at M j i seg" "k \<le> j"
    and new: "rb_search seg_sn (seg_sn seg) (rcv_buf c) = None" and mem: "mem_packet mem"
  obtains c3 where "fst (snd (push_store mem seg ack c io)) = fst (push_deliver c3 io)" "rx_inv M k c3" "rx_frags c3"
    "rcv_queue c3 = rcv_queue c" "set (rb_inorder (rcv_buf c3)) = insert seg (set (rb_inorder (rcv_buf c)))" "rcv_wnd c3 = rcv_wnd c"
    "seg_sn seg = rcv_nxt c \<Longrightarrow> \<exists>m < 2 ^ 31. rcv_nxt c3 = rcv_nxt c + 1 + of_nat m"
proof -
  have small: "nrcv_buf c < 2 ^ 31 - 1" by (rule rx_inv_small [OF ok inv])
  have wf: "rcv_wf c" using inv by (simp add: rx_inv_def)
  then have st: "rcv_struct (rcv_buf c) (rcv_packet c) (rcv_packet_list c)" by (simp add: rcv_wf_def)
  then have ip: "rb_index pk_psn (rcv_packet c)" and ib: "rb_index seg_sn (rcv_buf c)" by (simp_all add: rcv_struct_def)
  let ?created = "if kcp_rcv_packet_search (seg_psn seg) c \<noteq> None then Some c
                  else kcp_rcv_packet_create (mem_packet mem) (seg_psn seg) (seg_sn seg - seg_frg seg) c"
  have "\<exists>c1. ?created = Some c1 \<and> rx_inv M k c1 \<and> rx_frags c1 \<and> seg_psn seg \<in> pk_psn ` set (rb_inorder (rcv_packet c1)) \<and>
      rcv_buf c1 = rcv_buf c \<and> nrcv_buf c1 = nrcv_buf c \<and> rcv_queue c1 = rcv_queue c \<and> rcv_wnd c1 = rcv_wnd c \<and> rcv_nxt c1 = rcv_nxt c"
  proof (cases "kcp_rcv_packet_search (seg_psn seg) c = None")
    case True
    obtain c1 where c1: "kcp_rcv_packet_create (mem_packet mem) (seg_psn seg) (seg_sn seg - seg_frg seg) c = Some c1"
      using mem by (simp add: kcp_rcv_packet_create_def Let_def)
    have "rcv_wnd c1 = rcv_wnd c" "rcv_nxt c1 = rcv_nxt c"
      using c1 by (auto simp: kcp_rcv_packet_create_def kcp_rcv_packet_order_insert_def kcp_rcv_packet_insert_def Let_def split: if_splits)
    then show ?thesis
      using True c1 create_struct [OF st True c1] create_inv [OF ok inv True c1 seg] rx_frags_create [OF c1 ip fr] by simp
  next
    case False
    then show ?thesis using inv fr rbt.search_None_iff [OF ip, of "seg_psn seg"] by (simp add: kcp_rcv_packet_search_def)
  qed
  then obtain c1 where c1: "?created = Some c1" "rx_inv M k c1" "rx_frags c1" "seg_psn seg \<in> pk_psn ` set (rb_inorder (rcv_packet c1))"
      "rcv_buf c1 = rcv_buf c" "nrcv_buf c1 = nrcv_buf c" "rcv_queue c1 = rcv_queue c" "rcv_wnd c1 = rcv_wnd c" "rcv_nxt c1 = rcv_nxt c"
    by blast
  define c2 where "c2 = c1\<lparr>ack_item := ack_item c1 @ [ack]\<rparr>"
  define c3 where "c3 = push_advance seg (push_fragment seg (push_head seg c2))"
  have i2: "rx_inv M k c2" using c1(2) rx_inv_view [of c2 c1] by (simp add: c2_def)
  have f2: "rcv_buf c2 = rcv_buf c" "nrcv_buf c2 = nrcv_buf c" "rcv_queue c2 = rcv_queue c" "rcv_wnd c2 = rcv_wnd c" "rcv_nxt c2 = rcv_nxt c"
      "rcv_packet c2 = rcv_packet c1" using c1 by (simp_all add: c2_def)
  have "rx_inv M k c3" unfolding c3_def
    using f2 c1(4) small new seg by (intro push_stored_inv [OF ok i2]) simp_all
  moreover have "rx_frags c3" unfolding c3_def c2_def by (rule rx_frags_store [OF c1(3)])
  moreover have b: "rcv_buf c3 = rb_insert seg_sn seg (rcv_buf c)"
    by (simp add: c3_def push_fragment_fields push_head_fields f2)
  moreover have "rcv_queue c3 = rcv_queue c" by (simp add: c3_def push_fragment_fields push_head_fields f2)
  moreover have "rcv_wnd c3 = rcv_wnd c"
    by (simp add: c3_def push_advance_def push_fragment_def push_head_def kcp_rcv_segment_insert_def update_packet_def
        kcp_rcv_packet_order_insert_def Let_def f2)
  moreover have "\<exists>m < 2 ^ 31. rcv_nxt c3 = rcv_nxt c + 1 + of_nat m" if "seg_sn seg = rcv_nxt c"
  proof -
    let ?t = "rb_insert seg_sn seg (rcv_buf c)"
    have l: "length (rb_inorder ?t) < 2 ^ 31"
      using rbt.length_insert [OF ib, of seg] wf small by (simp add: rcv_wf_def)
    obtain m where "advance_nxt (length (rb_inorder ?t) + 1) ?t (rcv_nxt c + 1) = rcv_nxt c + 1 + of_nat m" "m \<le> length (rb_inorder ?t)"
      using advance_nxt_stops(2) [OF rbt.invar_insert [OF ib new] l, of "rcv_nxt c + 1"] by blast
    moreover have "rcv_nxt c3 = advance_nxt (length (rb_inorder ?t) + 1) ?t (rcv_nxt c + 1)"
      using that by (simp add: c3_def push_advance_def push_fragment_fields push_head_fields f2)
    ultimately show ?thesis using l by (intro exI [where x = m]) simp
  qed
  moreover have "fst (snd (push_store mem seg ack c io)) = fst (push_deliver c3 io)"
    using new c1(1) by (simp add: push_store_def kcp_rcv_segment_search_def Let_def c3_def c2_def split: prod.splits)
  ultimately show thesis using that [of c3] rbt.set_entries_insert [OF ib, of seg] by simp
qed

section \<open>Arrival in order\<close>

definition in_order_inv :: "stream \<Rightarrow> int \<Rightarrow> nat \<Rightarrow> kcp_connection \<Rightarrow> bool" where
  "in_order_inv M w p c \<longleftrightarrow> (\<exists>k i. p = start_of M k + i \<and> (k < length M \<and> i < length (M ! k) \<or> k = length M \<and> i = 0) \<and>
     rx_inv M k c \<and> rx_frags c \<and> unat (rcv_nxt c) = p \<and> map seg_payload (rcv_queue c) = concat (take k M) \<and>
     (\<forall>s \<in> set (rb_inorder (rcv_buf c)). unat (seg_sn s) < p) \<and> rcv_wnd c = w)"

lemma deliver_keeps [simp]: "rcv_wnd (fst (push_deliver c io)) = rcv_wnd c" "rcv_nxt (fst (push_deliver c io)) = rcv_nxt c"
proof -
  have "rcv_wnd (foldl deliver_fragment c fs) = rcv_wnd c \<and> rcv_nxt (foldl deliver_fragment c fs) = rcv_nxt c" for fs
    by (induction fs arbitrary: c) (simp_all add: deliver_fragment_def)
  then show "rcv_wnd (fst (push_deliver c io)) = rcv_wnd c" "rcv_nxt (fst (push_deliver c io)) = rcv_nxt c"
    by (simp_all add: push_deliver_def Let_def kcp_rcv_packet_destroy_def split: list.splits option.splits)
qed

lemma deliver_buffer:
  assumes "rcv_wf c"
  shows "set (rb_inorder (rcv_buf (fst (push_deliver c io)))) \<subseteq> set (rb_inorder (rcv_buf c))"
proof -
  have "rb_index seg_sn (rcv_buf c)" using assms by (simp add: rcv_wf_def rcv_struct_def)
  then have "set (rb_inorder (rcv_buf (foldl deliver_fragment c fs))) \<subseteq> set (rb_inorder (rcv_buf c))" for fs
    using erase_segments [of "rcv_buf c" fs] deliver_fields [of c fs] by (auto simp: rcv_view_def)
  then show ?thesis by (auto simp: push_deliver_def Let_def kcp_rcv_packet_destroy_def split: list.splits option.splits if_splits)
qed

lemma in_order_step:
  assumes ok: "stream_ok M" and inv: "in_order_inv M w p c" and w: "0 < w" "w < 2 ^ 31" and p: "p < start_of M (length M)"
    and h: "\<And>j i. j < length M \<Longrightarrow> i < length (M ! j) \<Longrightarrow> start_of M j + i = p \<Longrightarrow> header_at M j i h"
    and mem: "mem_ack mem" "mem_segment mem \<noteq> None" "mem_packet mem"
  shows "in_order_inv M w (Suc p) (fst (snd (on_kcp_push_pcaket mem h ts c io)))"
proof -
  obtain k i where ki: "p = start_of M k + i" "k < length M" "i < length (M ! k)" and i: "rx_inv M k c" "rx_frags c" "unat (rcv_nxt c) = p"
      "map seg_payload (rcv_queue c) = concat (take k M)" "\<forall>s \<in> set (rb_inorder (rcv_buf c)). unat (seg_sn s) < p" "rcv_wnd c = w"
    using inv p unfolding in_order_inv_def by auto
  have at: "header_at M k i h" using h ki by simp
  obtain pts sn psn una len dat where d: "as_packet_data (hd_body h) = (pts, sn, psn, una, len, dat)" by (metis prod.exhaust)
  have p31: "p < 2 ^ 31 - 1" using p ok by (simp add: stream_ok_def)
  have sn: "sn = of_nat p" using at d ki(1) by (simp add: header_at_def)
  have nxt: "rcv_nxt c = of_nat p" using i(3) p31 small_unat [of p] by (simp add: word_unat_eq_iff)
  have plus: "unat (of_nat p + of_nat n :: u32) = p + n" if "n \<le> 2 ^ 31" for n
    using unat_of_nat_u32 [of "p + n"] p31 that by simp
  have "rcv_wnd c = int (nat w)" "nat w < 2 ^ 31" "0 < nat w" using i(6) w by simp_all
  then have win: "rcv_nxt c < rcv_nxt c + u32_of_i32 (rcv_wnd c)"
    using plus [of "nat w"] small_unat [of p] p31 by (simp add: nxt u32_of_i32_def word_less_nat_alt)
  obtain raw ack c1 where u: "on_kcp_push_pcaket mem h ts c io = push_store mem (push_segment h raw) ack c1 io"
    "rcv_view c1 = rcv_view c" "rcv_wnd c1 = rcv_wnd c"
    using push_new_segment [OF d _ win mem(1,2), of ts io] sn nxt by metis
  have v: "rcv_buf c1 = rcv_buf c" "rcv_queue c1 = rcv_queue c" "rcv_nxt c1 = rcv_nxt c" "rcv_packet c1 = rcv_packet c"
    using u(2) by (simp_all add: rcv_view_def)
  let ?seg = "push_segment h raw"
  have seg: "seg_at M k i ?seg" by (rule seg_at_push_segment [OF ok at])
  then have ssn: "seg_sn ?seg = of_nat p" using ki(1) by (simp add: seg_at_def)
  have "rx_inv M k c1" "rx_frags c1" using i(1,2) rx_inv_view [OF u(2)] v(4) by (simp_all add: rx_frags_def)
  moreover have "rb_search seg_sn (seg_sn ?seg) (rcv_buf c1) = None"
    using i(1) ssn nxt v(1) by (simp add: rx_inv_def rcv_wf_def)
  ultimately obtain c3 where c3: "fst (snd (push_store mem ?seg ack c1 io)) = fst (push_deliver c3 io)" "rx_inv M k c3" "rx_frags c3"
    "rcv_queue c3 = rcv_queue c1" "set (rb_inorder (rcv_buf c3)) = insert ?seg (set (rb_inorder (rcv_buf c1)))" "rcv_wnd c3 = rcv_wnd c1"
    "seg_sn ?seg = rcv_nxt c1 \<Longrightarrow> \<exists>m < 2 ^ 31. rcv_nxt c3 = rcv_nxt c1 + 1 + of_nat m"
    using push_store_new [OF ok _ _ seg order_refl _ mem(3), of c1 ack io] by metis
  have b3: "\<forall>s \<in> set (rb_inorder (rcv_buf c3)). unat (seg_sn s) < Suc p"
    using c3(5) v(1) i(5) ssn small_unat [of p] p31 by (auto simp: less_Suc_eq)
  obtain m where m: "m < 2 ^ 31" "rcv_nxt c3 = of_nat p + of_nat (Suc m)" using c3(7) ssn nxt v(3) by (auto simp: add_ac)
  have n3: "unat (rcv_nxt c3) = Suc p"
  proof (rule ccontr)
    assume ne: "unat (rcv_nxt c3) \<noteq> Suc p"
    have "unat (rcv_nxt c3) = p + Suc m" using plus [of "Suc m"] m by (simp del: of_nat_Suc)
    then have "start_of M k \<le> Suc p \<and> Suc p < unat (rcv_nxt c3)" using ne ki(1) by simp
    then have "of_nat (Suc p) \<in> seg_sn ` set (rb_inorder (rcv_buf c3))" using c3(2) unfolding rx_inv_def by blast
    then obtain s where "s \<in> set (rb_inorder (rcv_buf c3))" "seg_sn s = of_nat (Suc p)" unfolding image_iff by metis
    then show False using b3 small_unat [of "Suc p"] p31 by (auto simp del: of_nat_Suc)
  qed
  let ?d = "fst (push_deliver c3 io)"
  have wf3: "rcv_wf c3" using c3(2) by (simp add: rx_inv_def)
  have d: "unat (rcv_nxt ?d) = Suc p" "rx_frags ?d" "\<forall>s \<in> set (rb_inorder (rcv_buf ?d)). unat (seg_sn s) < Suc p" "rcv_wnd ?d = w"
    using n3 rx_frags_deliver [OF c3(3) wf3] deliver_buffer [OF wf3, of io] b3 c3(6) u(3) i(6) by auto
  have bound: "k' \<le> length M \<and> start_of M k' \<le> Suc p" if "rx_inv M k' ?d" for k' using that d(1) by (simp add: rx_inv_def)
  have q3: "map seg_payload (rcv_queue c3) = concat (take k M)" using c3(4) v(2) i(4) by simp
  have e: "fst (snd (on_kcp_push_pcaket mem h ts c io)) = ?d" using u(1) c3(1) by simp
  show ?thesis
  proof (cases "Suc i = length (M ! k)")
    case True
    then have sp: "Suc p = start_of M (Suc k)" using ki by (simp add: start_of_Suc)
    obtain k' where k': "k < k'" "rx_inv M k' ?d"
      "map seg_payload (rcv_queue ?d) = map seg_payload (rcv_queue c3) @ concat (take (k' - k) (drop k M))"
      using push_deliver_progress [OF ok c3(2) ki(2) c3(3), of io] n3 sp by auto
    have "k' = Suc k"
    proof (rule ccontr)
      assume "k' \<noteq> Suc k"
      then have "start_of M (Suc k) < start_of M k'" using k'(1) bound [OF k'(2)] by (intro start_of_message [OF ok]) simp_all
      then show False using bound [OF k'(2)] sp by simp
    qed
    moreover have "Suc k < length M \<longrightarrow> 0 < length (M ! Suc k)" using ok by (simp add: stream_ok_def)
    ultimately show ?thesis
      unfolding e in_order_inv_def using k' d q3 sp ki(2)
      by (intro exI [where x = "Suc k"] exI [where x = 0]) (auto simp: take_Suc_conv_app_nth)
  next
    case False
    then have lt: "Suc p < start_of M (Suc k)" using ki by (simp add: start_of_Suc)
    obtain k' where k': "k \<le> k'" "rx_inv M k' ?d"
      "map seg_payload (rcv_queue ?d) = map seg_payload (rcv_queue c3) @ concat (take (k' - k) (drop k M))"
      using push_deliver_step [OF ok c3(2), of io] by auto
    have "k' = k"
    proof (rule ccontr)
      assume "k' \<noteq> k"
      then have "start_of M (Suc k) \<le> start_of M k'" using k'(1) by (intro start_of_mono) simp
      then show False using bound [OF k'(2)] lt by simp
    qed
    then show ?thesis
      unfolding e in_order_inv_def using k' d q3 ki False by (intro exI [where x = k] exI [where x = "Suc i"]) auto
  qed
qed

lemma in_order_run:
  assumes ok: "stream_ok M" and w: "0 < w" "w < 2 ^ 31" and inv: "in_order_inv M w p c" and n: "p + length as = start_of M (length M)"
    and h: "\<And>j i. j < length M \<Longrightarrow> i < length (M ! j) \<Longrightarrow> p \<le> start_of M j + i \<Longrightarrow> header_at M j i (arr_header (as ! (start_of M j + i - p)))"
    and mem: "\<forall>a \<in> set as. arr_mem_ok a"
  shows "in_order_inv M w (start_of M (length M)) (receive_all as c)"
  using inv n h mem
proof (induction as arbitrary: p c)
  case (Cons a as)
  let ?c = "fst (snd (on_kcp_push_pcaket (arr_mem a) (arr_header a) (arr_ts a) c (arr_io a)))"
  have "in_order_inv M w (Suc p) ?c"
    using Cons.prems by (intro in_order_step [OF ok Cons.prems(1) w]) (force simp: arr_mem_ok_def)+
  moreover have "header_at M j i (arr_header (as ! (start_of M j + i - Suc p)))"
    if "j < length M" "i < length (M ! j)" "Suc p \<le> start_of M j + i" for j i
  proof -
    have "start_of M j + i - p = Suc (start_of M j + i - Suc p)" using that by simp
    then show ?thesis using Cons.prems(3) [of j i] that by simp
  qed
  ultimately show ?case using Cons.IH [of "Suc p" ?c] Cons.prems by (simp add: receive_all_def)
qed (simp add: receive_all_def)

lemma in_order_result:
  assumes "stream_ok M" and "rcv_view c0 = (Rb_Null, Rb_Null, [], [], 0, 0, 0, 0)" and "0 < rcv_wnd c0" and "rcv_wnd c0 < 2 ^ 31"
    and "in_order M (map arr_header as)" and "\<forall>a \<in> set as. arr_mem_ok a"
  shows "map seg_payload (rcv_queue (receive_all as c0)) = concat M \<and> rb_inorder (rcv_buf (receive_all as c0)) = [] \<and>
    rcv_packet_list (receive_all as c0) = [] \<and> unat (rcv_nxt (receive_all as c0)) = start_of M (length M)"
proof -
  have n: "length as = start_of M (length M)" using assms(5) by (simp add: in_order_def)
  have "header_at M j i (arr_header (as ! (start_of M j + i)))" if "j < length M" "i < length (M ! j)" for j i
  proof -
    have "header_at M j i (map arr_header as ! (start_of M j + i))" using assms(5) that by (simp add: in_order_def)
    then show ?thesis using position_total [OF that] n by simp
  qed
  moreover have "in_order_inv M (rcv_wnd c0) 0 c0"
  proof -
    have "M = [] \<or> 0 < length (M ! 0)" using assms(1) by (cases M) (auto simp: stream_ok_def)
    then show ?thesis
      unfolding in_order_inv_def using rx_inv_start [OF assms(2), of M] assms(2)
      by (intro exI [where x = 0]) (auto simp: start_of_def rcv_view_def rx_frags_def)
  qed
  ultimately have "in_order_inv M (rcv_wnd c0) (start_of M (length M)) (receive_all as c0)"
    using in_order_run [OF assms(1,3,4), of 0 c0 as] n assms(6) by simp
  then obtain k i where k: "start_of M (length M) = start_of M k + i" "k < length M \<and> i < length (M ! k) \<or> k = length M \<and> i = 0"
      "rx_inv M k (receive_all as c0)" "unat (rcv_nxt (receive_all as c0)) = start_of M (length M)"
      "map seg_payload (rcv_queue (receive_all as c0)) = concat (take k M)"
    unfolding in_order_inv_def by metis
  have kl: "k = length M" using k(1,2) position_total [of k M i] by auto
  have none: "\<not> seg_at M j i s" "\<not> packet_at M j q" if "length M \<le> j" for j i s q using that by (simp_all add: seg_at_def packet_at_def)
  have b: "rb_inorder (rcv_buf (receive_all as c0)) = []" "rb_inorder (rcv_packet (receive_all as c0)) = []"
    using k(3) none unfolding rx_inv_def kl by (metis list.set_sel(1))+
  then have "rcv_packet_list (receive_all as c0) = []" using k(3) by (simp add: rx_inv_def rcv_wf_def rcv_struct_def)
  then show ?thesis using k b kl by simp
qed

lemmas in_order_all = conjunct1 [OF in_order_result]

section \<open>Properties\<close>

text \<open>
  C4. Delivery: when every fragment of the messages \<open>M\<close> arrives, in order, at a fresh receiver with an open
  window and enough memory, then every message is delivered: the receive queue holds all fragments, in order, nothing
  is left in the buffer or under reassembly, and the next expected number is the end of the stream.
\<close>

theorem in_order_delivery:
  assumes "stream_ok M" and "rcv_view c0 = (Rb_Null, Rb_Null, [], [], 0, 0, 0, 0)" and "0 < rcv_wnd c0" and "rcv_wnd c0 < 2 ^ 31"
    and "in_order M (map arr_header as)" and "\<forall>a \<in> set as. arr_mem_ok a"
  shows "\<exists>c. receive_all as c0 = c \<and> map seg_payload (rcv_queue c) = concat M \<and> rb_inorder (rcv_buf c) = [] \<and>
    rcv_packet_list c = [] \<and> unat (rcv_nxt c) = start_of M (length M)"
  using in_order_result [OF assms] by blast

definition sample_arrivals :: "arrival list" where
  "sample_arrivals = map (\<lambda>h. \<lparr>arr_mem = sample_mem, arr_header = h, arr_ts = 2000, arr_io = sample_io\<rparr>)
     [sample_push 0 0 0 2, sample_push 1 1 0 128, sample_push 0 2 1 1]"

theorem in_order_delivery_witness:
  "\<exists>c. receive_all sample_arrivals sample_conn = c \<and> map seg_payload (rcv_queue c) = [[65], [66], [65]] \<and> rb_inorder (rcv_buf c) = [] \<and>
    rcv_packet_list c = [] \<and> unat (rcv_nxt c) = 3"
proof -
  let ?M = "[[[65], [66]], [[65 :: u8]]]"
  have ok: "stream_ok ?M" by (simp add: stream_ok_def start_of_def kcp_const)
  have w: "0 < rcv_wnd sample_conn" "rcv_wnd sample_conn < 2 ^ 31" by (simp_all add: sample_conn_rcv)
  have o: "in_order ?M (map arr_header sample_arrivals)"
    by (simp add: in_order_def sample_arrivals_def header_at_def sample_push_def start_of_def All_less_Suc numeral_2_eq_2)
  have m: "\<forall>a \<in> set sample_arrivals. arr_mem_ok a" by (simp add: sample_arrivals_def arr_mem_ok_def sample_mem_def)
  show ?thesis using in_order_delivery [OF ok sample_fresh w o m] by (simp add: start_of_def)
qed

end
