(* ===== verification/Kcp_Lossless.thy ===== *)
theory Kcp_Lossless
  imports Kcp_Link Kcp_Progress
begin

text \<open>
  The two endpoints over a network that loses nothing: what \<^verbatim>\<open>on_kcp_write_timeout\<close> puts into the
  datagrams of one flush (\<open>Kcp_Transmit\<close>), handed in order to \<^verbatim>\<open>on_kcp_push_pcaket\<close> on the other side
  (\<open>Kcp_Progress\<close>), completes the stream of messages. \<open>Kcp_Link\<close> shows that what is read is never wrong;
  this theory shows that it is there to be read.
\<close>

text \<open>Positions in a stream are unique.\<close>

lemma position_unique:
  assumes "stream_ok M" "j < length M" "i < length (M ! j)" "j' < length M" "i' < length (M ! j')" "start_of M j + i = start_of M j' + i'"
  shows "j = j' \<and> i = i'"
proof -
  have "j \<le> j'" using assms by (intro position_message [OF assms(1,4,5)]) simp
  moreover have "j' \<le> j" using assms by (intro position_message [OF assms(1-3)]) simp
  ultimately show ?thesis using assms(6) by simp
qed

lemma frag_pos_header_at:
  assumes ok: "stream_ok M" and s: "frag_pos M (start_of M j + i) s" "seg_sn s = of_nat (start_of M j + i)"
    and ji: "j < length M" "i < length (M ! j)"
  shows "header_at M j i (segment_header s)"
proof -
  obtain j' i' where h: "header_at M j' i' (segment_header s)" using frag_pos_header [OF ok s] by blast
  then have b: "j' < length M" "i' < length (M ! j')" and sn: "seg_sn s = of_nat (start_of M j' + i')"
    by (auto simp: header_at_def segment_header_def)
  have "start_of M j' + i' = start_of M j + i"
    using small_inj [of "start_of M j' + i'" "start_of M j + i"] sn s(2) position_total [OF b] position_total [OF ji] stream_small(2) [OF ok, of "length M"]
    by simp
  then show ?thesis using h position_unique [OF ok b ji] by simp
qed

text \<open>Segments that were never sent are all due when the credit covers them, and go out with their contents.\<close>

lemma due_all:
  assumes "\<forall>s \<in> set ss. seg_xmit s = 0" "sum_list (map (\<lambda>s. unat (seg_len s)) ss) \<le> unat credit"
  shows "map segment_header (due_segments ts r rm c credit ss) = map segment_header ss"
  using assms
proof (induction ss arbitrary: credit)
  case (Cons s ss)
  have u: "unat (ucast (seg_len s) :: u64) = unat (seg_len s)" by (simp add: unsigned_ucast_eq take_bit_nat_eq_self_iff)
  have le: "ucast (seg_len s) \<le> credit" using Cons.prems(2) by (simp add: word_le_nat_alt u)
  define d where "d = flush_decide ts r rm c credit s"
  have d: "xd_send d" "\<not> xd_retransmit d" "xd_credit d = credit - ucast (seg_len s)" "segment_header (xd_segment d) = segment_header s"
    using Cons.prems(1) le by (simp_all add: d_def flush_decide_def segment_header_def)
  have "unat (xd_credit d) = unat credit - unat (seg_len s)" using le u by (simp add: d(3) unat_sub)
  then have "sum_list (map (\<lambda>s. unat (seg_len s)) ss) \<le> unat (xd_credit d)" using Cons.prems(2) by simp
  then show ?case using Cons.IH [of "xd_credit d"] Cons.prems(1) d by (simp add: Let_def d_def [symmetric])
qed simp

lemma bdp_frame:
  "bbr_bdp_bytes (c\<lparr>snd_queue := q, snd_nxt := n, snd_buf := b, nsnd_que := nq, nsnd_buf := nb\<rparr>) g = bbr_bdp_bytes (c :: kcp_connection) g"
  by (simp add: bbr_bdp_bytes_def bbr_min_cwnd_pkts_def Let_def)

lemma flush_move_cc [simp]:
  fixes c :: kcp_connection
  shows "bbr_last_send_ts (flush_move ts w q c) = bbr_last_send_ts c" "bbr_pacing_rate (flush_move ts w q c) = bbr_pacing_rate c"
    "bbr_pacing_credit (flush_move ts w q c) = bbr_pacing_credit c" "mss (flush_move ts w q c) = mss c"
    "bbr_bdp_bytes (flush_move ts w q c) g = bbr_bdp_bytes c g"
  by (induction ts w q c rule: flush_move.induct) (simp_all add: bdp_frame)

lemma flush_credit_cong:
  fixes c c' :: kcp_connection
  assumes "bbr_last_send_ts c' = bbr_last_send_ts c" "bbr_pacing_rate c' = bbr_pacing_rate c" "bbr_pacing_credit c' = bbr_pacing_credit c"
    "mss c' = mss c" "\<And>g. bbr_bdp_bytes c' g = bbr_bdp_bytes c g"
  shows "bbr_pacing_credit (flush_credit ts c') = bbr_pacing_credit (flush_credit ts c)"
proof -
  have "bbr_bdp_bytes (d\<lparr>bbr_last_send_ts := t\<rparr>) g = bbr_bdp_bytes d g" for d :: kcp_connection and t g
    by (simp add: bbr_bdp_bytes_def bbr_min_cwnd_pkts_def Let_def)
  then show ?thesis using assms by (simp add: flush_credit_def Let_def)
qed

lemma all_delivered:
  assumes "stream_ok M" "rcv_view r = (Rb_Null, Rb_Null, [], [], 0, 0, 0, 0)" "0 < rcv_wnd r" "rcv_wnd r < 2 ^ 31"
    and "in_order M (map arr_header as)" "\<forall>a \<in> set as. arr_mem_ok a"
  shows "concat (map seg_payload (rcv_queue (receive_all as r))) = concat (map concat M)"
proof -
  have "concat (map concat M) = concat (concat M)" by (induction M) auto
  then show ?thesis using in_order_all [OF assms] by simp
qed

lemma lossless_flush:
  assumes tx: "tx_inv M s" "snd_nxt s = 0" "snd_una s = 0" "snd_buf s = []"
    and due: "state s = KCP_STATE_CONNECTED" "ts_flush s \<le> ts div 1000" "ping_request_queue (ping_context s) = []"
    and fits: "32 \<le> unat (mtu s)" "unat (mtu s) < 2 ^ 31" "\<forall>q \<in> set (snd_queue s). 32 + unat (seg_len q) \<le> unat (mtu s)"
    and room: "int (length (snd_queue s)) \<le> flush_cwnd s"
      "sum_list (map (\<lambda>q. unat (seg_len q)) (snd_queue s)) \<le> unat (bbr_pacing_credit (flush_credit ts s))"
    and net: "\<forall>n. io_send io n = Sent"
    and rx: "rcv_view r = (Rb_Null, Rb_Null, [], [], 0, 0, 0, 0)" "0 < rcv_wnd r" "rcv_wnd r < 2 ^ 31"
  shows "\<exists>s' io' control groups es. on_kcp_write_timeout x ts s io = Some (NO_ERROR, s', io') \<and>
    io_trace io' = io_trace io @ control @ map (\<lambda>g. Send (remote_host s) (datagram_of g)) groups @ es \<and>
    (\<forall>g \<in> set groups. datagram_headers (Suc (length g)) (datagram_of g) = Some (map segment_header g)) \<and>
    (\<forall>as. map arr_header as = map segment_header (concat groups) \<and> (\<forall>a \<in> set as. arr_mem_ok a) \<longrightarrow>
       concat (map seg_payload (rcv_queue (receive_all as r))) = concat (map concat M))"
proof -
  have ok: "stream_ok M" using tx(1) by (simp add: tx_inv_def)
  obtain p where p: "snd_nxt s = of_nat p" "p + length (snd_queue s) = start_of M (length M)"
    "\<forall>t < length (snd_queue s). frag_pos M (p + t) (snd_queue s ! t)"
    using tx(1) by (auto simp: tx_inv_def)
  have p0: "p = 0" using p(1,2) tx(2) small_unat [of p] stream_small(2) [OF ok, of "length M"] by simp
  obtain c1 io1 where k: "flush_control x ts s io = (False, c1, io1)" "flush_core c1 = flush_core s" "only_sends io io1"
    by (rule flush_control_keeps [OF due(3)])
  note core = flush_core_fields [OF k(2)]
  have fr: "snd_queue c1 = snd_queue s" "snd_buf c1 = []" "mtu c1 = mtu s" "remote_host c1 = remote_host s"
    using flush_control_ok(1) [OF k(1) fits(1)] tx(4) by (simp_all add: flush_frame_def)
  let ?w = "flush_cwnd c1" and ?n = "length (snd_queue s)"
  have w: "?w = flush_cwnd s" by (simp add: flush_cwnd_def core Let_def)
  have room': "flush_room ?w c1 = ?n" using room(1) w by (simp add: flush_room_def core tx(2,3) fr)
  have n31: "?n < 2 ^ 31" using p(2) stream_small(2) [OF ok, of "length M"] by simp
  define m where "m = flush_move ts ?w (snd_queue c1) c1"
  have bound: "unat (snd_nxt c1) + length (snd_queue c1) < 2 ^ 32" using n31 by (simp add: core tx(2) fr)
  obtain segs where segs: "snd_buf m = segs" "length segs = ?n"
      "\<forall>i < ?n. segs ! i = (stamp_segment ts (snd_queue s ! i) c1)\<lparr>seg_sn := of_nat i\<rparr>"
    using flush_move_eq [OF refl bound, of ts ?w] room' fr core(14) tx(2) by (auto simp: Let_def m_def)
  define d where "d = flush_credit ts m"
  have seg: "seg_xmit q = 0" "sendable (unat (mtu s)) q" if qs: "q \<in> set segs" for q
  proof -
    obtain i where i: "i < ?n" "q = (stamp_segment ts (snd_queue s ! i) c1)\<lparr>seg_sn := of_nat i\<rparr>"
      using qs segs(2,3) by (auto simp: in_set_conv_nth)
    have "frag_pos M (p + i) (snd_queue s ! i)" using p(3) i(1) by blast
    then have "length (seg_data (snd_queue s ! i)) = unat (seg_len (snd_queue s ! i))" unfolding frag_pos_def by blast
    then show "seg_xmit q = 0" "sendable (unat (mtu s)) q" using i fits(3) by (simp_all add: stamp_segment_def sendable_def)
  qed
  have dd: "snd_buf d = segs" "mtu d = mtu s" "state d = state s" "remote_host d = remote_host s"
    using segs(1) fr by (simp_all add: d_def m_def core)
  have send: "\<forall>q \<in> set (snd_buf d). sendable (unat (mtu d)) q" using seg(2) dd by simp
  have alive: "\<not> (\<exists>q \<in> set (snd_buf d). over_limit ts (flush_resent d) d q)" "state d \<noteq> KCP_STATE_DISCONNECTED"
    using seg(1) dd due(1) by (auto simp: over_limit_def kcp_const)
  have net': "\<forall>n. io_send io1 n = Sent" "unat (mtu d) < 2 ^ 31" using k(3) net fits(2) dd(2) by (auto simp: only_sends_def)
  obtain s' io' groups es where t: "flush_transmit ts d io1 = Some (NO_ERROR, s', io')"
    "io_trace io' = io_trace io1 @ map (\<lambda>g. Send (remote_host d) (datagram_of g)) groups @ es"
    "concat groups = due_segments ts (flush_resent d) (flush_rtomin d) d (bbr_pacing_credit d) (snd_buf d)"
    using flush_transmit_due [OF send net'(2,1) alive] by blast
  have credit: "bbr_pacing_credit d = bbr_pacing_credit (flush_credit ts s)"
    unfolding d_def by (rule flush_credit_cong) (simp_all add: m_def core)
  have "map (\<lambda>q. unat (seg_len q)) segs = map (\<lambda>q. unat (seg_len q)) (snd_queue s)"
    using segs by (intro nth_equalityI) (simp_all add: stamp_segment_def)
  then have all: "map segment_header (concat groups) = map segment_header segs"
    using due_all [of segs "bbr_pacing_credit d"] seg(1) room(2) by (simp add: t(3) dd(1) credit del: map_concat)
  have "in_order M (map segment_header segs)"
    unfolding in_order_def
  proof (intro conjI allI impI)
    show "length (map segment_header segs) = start_of M (length M)" using segs(2) p(2) p0 by simp
    fix j i assume ji: "j < length M" "i < length (M ! j)"
    let ?t = "start_of M j + i"
    have t: "?t < ?n" using position_total [OF ji] p(2) p0 by simp
    have e: "segs ! ?t = (stamp_segment ts (snd_queue s ! ?t) c1)\<lparr>seg_sn := of_nat ?t\<rparr>" using segs(3) t by blast
    have "frag_pos M ?t (snd_queue s ! ?t)" using p(3) p0 t by simp
    then have "frag_pos M ?t (segs ! ?t)" "seg_sn (segs ! ?t) = of_nat ?t"
      unfolding e by (rule frag_pos_stamp) (simp add: stamp_segment_def)
    then show "header_at M j i (map segment_header segs ! ?t)" using frag_pos_header_at [OF ok _ _ ji] t segs(2) by simp
  qed
  then have recv: "concat (map seg_payload (rcv_queue (receive_all as r))) = concat (map concat M)"
    if "map arr_header as = map segment_header (concat groups)" "\<forall>a \<in> set as. arr_mem_ok a" for as
    using all_delivered [OF ok rx, of as] that all by metis
  obtain control where control: "io_trace io1 = io_trace io @ control" using k(3) by (auto simp: only_sends_def)
  have "on_kcp_write_timeout x ts s io = flush_transmit ts d io1"
    using due(1) leD [OF due(2)] k(1) by (simp add: on_kcp_write_timeout_def Let_def d_def m_def)
  moreover have "datagram_headers (Suc (length g)) (datagram_of g) = Some (map segment_header g)" if "g \<in> set groups" for g
    using transmitted_readable [OF send net'(2) t(1,2,3) that] .
  ultimately show ?thesis
    using t control recv dd(4)
    by (intro exI [where x = s'] exI [where x = io'] exI [where x = control] exI [where x = groups] exI [where x = es])
       (simp del: map_concat)
qed

section \<open>Properties\<close>

text \<open>
  C2. One flush delivers everything when it may send everything and the network loses nothing. The conditions: the sender is
  connected, has accepted the messages \<open>D\<close> from \<open>kcp_send\<close> and has sent nothing yet; the congestion window covers the number of
  queued segments and the pacing credit their bytes; the flush is due and no ping is open; every segment fits the MTU with its
  header; the network takes every datagram; the receiver is fresh and every allocation it makes succeeds. Then the flush returns
  without an error and sends datagrams, which the parser reads as the headers of all fragments, and the receiver that is given these
  headers, one after the other, has every byte of every message in its receive queue, in order. A queue beyond the window or the
  credit takes several flushes, which this theorem does not cover.
\<close>

theorem lossless_delivery:
  assumes tx: "snd_view s0 = ([], [], 0, 0, 0, 0, 0)" "link_reach s0 r s r D H out" "snd_nxt s = 0" "snd_una s = 0" "snd_buf s = []"
    and due: "state s = KCP_STATE_CONNECTED" "ts_flush s \<le> ts div 1000" "ping_request_queue (ping_context s) = []"
    and fits: "32 \<le> unat (mtu s)" "unat (mtu s) < 2 ^ 31" "\<forall>q \<in> set (snd_queue s). 32 + unat (seg_len q) \<le> unat (mtu s)"
    and room: "int (length (snd_queue s)) \<le> flush_cwnd s"
      "sum_list (map (\<lambda>q. unat (seg_len q)) (snd_queue s)) \<le> unat (bbr_pacing_credit (flush_credit ts s))"
    and net: "\<forall>n. io_send io n = Sent"
    and rx: "rcv_view r = (Rb_Null, Rb_Null, [], [], 0, 0, 0, 0)" "0 < rcv_wnd r" "rcv_wnd r < 2 ^ 31"
  shows "\<exists>s' io' control groups es. on_kcp_write_timeout x ts s io = Some (NO_ERROR, s', io') \<and>
    io_trace io' = io_trace io @ control @ map (\<lambda>g. Send (remote_host s) (datagram_of g)) groups @ es \<and>
    (\<forall>g \<in> set groups. datagram_headers (Suc (length g)) (datagram_of g) = Some (map segment_header g)) \<and>
    (\<forall>as. map arr_header as = map segment_header (concat groups) \<and> (\<forall>a \<in> set as. arr_mem_ok a) \<longrightarrow>
       concat (map seg_payload (rcv_queue (receive_all as r))) = concat D)"
proof -
  obtain M where M: "map concat M = D" "tx_inv M s" using link_reach_inv [OF tx(1) rx(1) tx(2)] unfolding link_inv_def by blast
  show ?thesis using lossless_flush [OF M(2) tx(3,4,5) due fits room net rx] unfolding M(1) .
qed

theorem lossless_delivery_witness:
  "\<exists>s' io' control groups es. on_kcp_write_timeout (\<lambda>d. 0) 5000000 sample_message_sent (sample_io\<lparr>io_send := \<lambda>n. Sent\<rparr>) = Some (NO_ERROR, s', io') \<and>
    io_trace io' = control @ map (\<lambda>g. Send (remote_host sample_message_sent) (datagram_of g)) groups @ es \<and>
    concat (map seg_payload (rcv_queue (receive_all (map (\<lambda>s. \<lparr>arr_mem = sample_mem, arr_header = segment_header s, arr_ts = 6000000,
      arr_io = sample_io\<rparr>) (concat groups)) sample_conn))) = [65]"
proof -
  have a: "snd_nxt sample_message_sent = 0" "snd_una sample_message_sent = 0" "snd_buf sample_message_sent = []"
    "state sample_message_sent = KCP_STATE_CONNECTED" "ts_flush sample_message_sent \<le> 5000000 div 1000"
    "ping_request_queue (ping_context sample_message_sent) = []" "32 \<le> unat (mtu sample_message_sent)"
    "\<forall>q \<in> set (snd_queue sample_message_sent). 32 + unat (seg_len q) \<le> unat (mtu sample_message_sent)"
    "int (length (snd_queue sample_message_sent)) \<le> flush_cwnd sample_message_sent"
    "io_trace sample_io = []"
    unfolding sample_message_sent_def sample_message_sent_eq
    by (simp_all add: sample_conn_def sample_io_def init_defs zero_connection_def u32_of_i32_def i32_of_u32_def flush_cwnd_def kcp_const)
  have m: "unat (mtu sample_message_sent) < 2 ^ 31" using sample_message_sent_fields by simp
  have c: "bbr_pacing_credit (flush_credit 5000000 sample_message_sent) = 512" "map seg_len (snd_queue sample_message_sent) = [1]"
    by code_simp+
  have l: "sum_list (map (\<lambda>q. unat (seg_len q)) (snd_queue sample_message_sent)) \<le> unat (bbr_pacing_credit (flush_credit 5000000 sample_message_sent))"
    using c by (auto simp: map_eq_Cons_conv)
  have n: "\<forall>n. io_send (sample_io\<lparr>io_send := \<lambda>n. Sent\<rparr>) n = Sent" by simp
  have w: "0 < rcv_wnd sample_conn" "rcv_wnd sample_conn < 2 ^ 31" by (simp_all add: sample_conn_rcv)
  let ?io = "sample_io\<lparr>io_send := \<lambda>n. Sent\<rparr>"
  let ?as = "\<lambda>groups. map (\<lambda>s. \<lparr>arr_mem = sample_mem, arr_header = segment_header s, arr_ts = 6000000, arr_io = sample_io\<rparr>) (concat groups)"
  obtain s' io' control groups es where r: "on_kcp_write_timeout (\<lambda>d. 0) 5000000 sample_message_sent ?io = Some (NO_ERROR, s', io')"
    "io_trace io' = io_trace ?io @ control @ map (\<lambda>g. Send (remote_host sample_message_sent) (datagram_of g)) groups @ es"
    "\<forall>as. map arr_header as = map segment_header (concat groups) \<and> (\<forall>a \<in> set as. arr_mem_ok a) \<longrightarrow>
       concat (map seg_payload (rcv_queue (receive_all as sample_conn))) = concat [[65]]"
    by (rule exE [OF lossless_delivery [OF sample_snd_view sample_message_sent_reach a(1-7) m a(8,9) l n sample_fresh w, of "\<lambda>d. 0"]])
       (elim exE conjE, rule that)
  have "map arr_header (?as groups) = map segment_header (concat groups)" "\<forall>a \<in> set (?as groups). arr_mem_ok a"
    by (simp_all add: arr_mem_ok_def sample_mem_def comp_def del: map_concat)
  then have "concat (map seg_payload (rcv_queue (receive_all (?as groups) sample_conn))) = [65]" using r(3) by (simp del: map_concat)
  moreover have "io_trace ?io = []" using a(10) by simp
  ultimately show ?thesis using r(1,2)
    by (intro exI [where x = s'] exI [where x = io'] exI [where x = control] exI [where x = groups] exI [where x = es]) (simp del: map_concat)
qed

end
