(* ===== verification/Utils_Ring.thy ===== *)
theory Utils_Ring
  imports Kcp_Prelude
begin

text \<open>
  The byte ring of \<^verbatim>\<open>utils/src/ring_buffer.cpp\<close>: the circular array, with every operation of the class, and
  what it implements, a bounded queue of bytes. Positions and sizes are natural numbers: a \<open>std::vector\<close> has fewer
  than \<open>2\<^sup>6\<^sup>3\<close> bytes, and no sum of two of them wraps. The counters of all bytes written and read are 64-bit words.

  The locale \<open>byte_queue\<close> holds the laws of a bounded queue and what follows for any sequence of operations; it is
  interpreted on the ring.
\<close>

section \<open>The class RingBuffer\<close>

record ring_buffer =
  m_capacity :: nat
  m_buffer :: bytes
  m_readPos :: nat
  m_writePos :: nat
  m_usedSize :: nat
  m_totalBytesWritten :: u64
  m_totalBytesRead :: u64

text \<open>
  The constructor throws: \<open>std::length_error\<close> from the vector for a size above its limit, \<open>std::bad_alloc\<close> when the
  allocation fails (\<open>mem\<close>), and \<open>std::invalid_argument\<close> for a capacity of zero, after the vector was built.
\<close>

datatype ring_exception = Length_error | Bad_alloc | Invalid_argument

definition vector_max_size :: nat where
  "vector_max_size = 2 ^ 63 - 1"

definition ring_new :: "bool \<Rightarrow> nat \<Rightarrow> ring_exception + ring_buffer" where
  "ring_new mem capacity =
     (if capacity > vector_max_size then Inl Length_error
      else if \<not> mem then Inl Bad_alloc
      else if capacity = 0 then Inl Invalid_argument
      else Inr \<lparr>m_capacity = capacity, m_buffer = replicate capacity 0, m_readPos = 0, m_writePos = 0, m_usedSize = 0,
                m_totalBytesWritten = 0, m_totalBytesRead = 0\<rparr>)"

definition readableSize :: "ring_buffer \<Rightarrow> nat" where
  "readableSize r = m_usedSize r"

definition writableSize :: "ring_buffer \<Rightarrow> nat" where
  "writableSize r = m_capacity r - m_usedSize r"

definition ring_isEmpty :: "ring_buffer \<Rightarrow> bool" where
  "ring_isEmpty r \<longleftrightarrow> m_usedSize r = 0"

definition ring_isFull :: "ring_buffer \<Rightarrow> bool" where
  "ring_isFull r \<longleftrightarrow> m_usedSize r = m_capacity r"

text \<open>
  A pointer to bytes that are read is \<open>None\<close> for \<open>nullptr\<close> or the bytes it points to; a pointer that is written
  through is only \<open>nullptr\<close> or not, and the result holds the bytes stored there. The \<open>memcpy\<close> of \<open>n\<close> bytes at an
  offset of the vector reads \<open>take n (drop offset m_buffer)\<close>.
\<close>

definition ring_write :: "bytes option \<Rightarrow> nat \<Rightarrow> ring_buffer \<Rightarrow> nat \<times> ring_buffer" where
  "ring_write data len r =
     (case data of
        None \<Rightarrow> (0, r)
      | Some src \<Rightarrow>
          if len = 0 then (0, r)
          else
            let to_write = min len (writableSize r)
            in if to_write = 0 then (0, r)
               else
                 let first_part = min to_write (m_capacity r - m_writePos r);
                     buf1 = store_bytes (m_writePos r) (take first_part src) (m_buffer r);
                     buf2 = (if to_write > first_part
                             then store_bytes 0 (take (to_write - first_part) (drop first_part src)) buf1 else buf1)
                 in (to_write, r\<lparr>m_buffer := buf2, m_writePos := (m_writePos r + to_write) mod m_capacity r,
                       m_usedSize := m_usedSize r + to_write,
                       m_totalBytesWritten := m_totalBytesWritten r + of_nat to_write\<rparr>))"

definition ring_copy :: "nat \<Rightarrow> nat \<Rightarrow> ring_buffer \<Rightarrow> bytes" where
  "ring_copy pos n r =
     (let first_part = min n (m_capacity r - pos)
      in take first_part (drop pos (m_buffer r)) @ (if n > first_part then take (n - first_part) (m_buffer r) else []))"

definition ring_read :: "bool \<Rightarrow> nat \<Rightarrow> ring_buffer \<Rightarrow> nat \<times> bytes \<times> ring_buffer" where
  "ring_read dst len r =
     (if \<not> dst \<or> len = 0 then (0, [], r)
      else
        let to_read = min len (readableSize r)
        in if to_read = 0 then (0, [], r)
           else (to_read, ring_copy (m_readPos r) to_read r,
                 r\<lparr>m_readPos := (m_readPos r + to_read) mod m_capacity r, m_usedSize := m_usedSize r - to_read,
                   m_totalBytesRead := m_totalBytesRead r + of_nat to_read\<rparr>))"

definition ring_peek :: "bool \<Rightarrow> nat \<Rightarrow> ring_buffer \<Rightarrow> nat \<times> bytes" where
  "ring_peek dst len r =
     (if \<not> dst \<or> len = 0 then (0, [])
      else
        let to_peek = min len (readableSize r)
        in if to_peek = 0 then (0, []) else (to_peek, ring_copy (m_readPos r) to_peek r))"

definition ring_peekAt :: "bool \<Rightarrow> nat \<Rightarrow> nat \<Rightarrow> ring_buffer \<Rightarrow> nat \<times> bytes" where
  "ring_peekAt dst len offset r =
     (if \<not> dst \<or> len = 0 \<or> offset \<ge> m_usedSize r then (0, [])
      else
        let to_peek = min len (m_usedSize r - offset)
        in if to_peek = 0 then (0, []) else (to_peek, ring_copy ((m_readPos r + offset) mod m_capacity r) to_peek r))"

definition ring_skip :: "nat \<Rightarrow> ring_buffer \<Rightarrow> nat \<times> ring_buffer" where
  "ring_skip len r =
     (let to_skip = min len (readableSize r)
      in (to_skip, r\<lparr>m_readPos := (m_readPos r + to_skip) mod m_capacity r, m_usedSize := m_usedSize r - to_skip,
            m_totalBytesRead := m_totalBytesRead r + of_nat to_skip\<rparr>))"

definition ring_clear :: "ring_buffer \<Rightarrow> ring_buffer" where
  "ring_clear r = r\<lparr>m_readPos := 0, m_writePos := 0, m_usedSize := 0\<rparr>"

definition ring_reset :: "ring_buffer \<Rightarrow> ring_buffer" where
  "ring_reset r = (ring_clear r)\<lparr>m_totalBytesWritten := 0, m_totalBytesRead := 0\<rparr>"

text \<open>
  The regions for access without a copy: the offset of the pointer into the vector (\<open>None\<close> for \<open>nullptr\<close>), the length,
  and whether there is a second region at the start of the vector.
\<close>

definition getReadableRegion :: "ring_buffer \<Rightarrow> bool \<times> nat option \<times> nat" where
  "getReadableRegion r =
     (if m_usedSize r = 0 then (False, None, 0)
      else if m_readPos r + m_usedSize r \<le> m_capacity r then (False, Some (m_readPos r), m_usedSize r)
      else (True, Some (m_readPos r), m_capacity r - m_readPos r))"

definition getWritableRegion :: "ring_buffer \<Rightarrow> bool \<times> nat option \<times> nat" where
  "getWritableRegion r =
     (let writable = writableSize r
      in if writable = 0 then (False, None, 0)
         else if m_writePos r + writable \<le> m_capacity r then (False, Some (m_writePos r), writable)
         else (True, Some (m_writePos r), m_capacity r - m_writePos r))"

definition commitWrite :: "nat \<Rightarrow> ring_buffer \<Rightarrow> ring_buffer" where
  "commitWrite len r =
     (let contiguous = min (writableSize r) (m_capacity r - m_writePos r);
          n = min len contiguous
      in r\<lparr>m_writePos := (m_writePos r + n) mod m_capacity r, m_usedSize := m_usedSize r + n,
           m_totalBytesWritten := m_totalBytesWritten r + of_nat n\<rparr>)"

definition commitRead :: "nat \<Rightarrow> ring_buffer \<Rightarrow> ring_buffer" where
  "commitRead len r =
     (let contiguous = min (readableSize r) (m_capacity r - m_readPos r);
          n = min len contiguous
      in r\<lparr>m_readPos := (m_readPos r + n) mod m_capacity r, m_usedSize := m_usedSize r - n,
           m_totalBytesRead := m_totalBytesRead r + of_nat n\<rparr>)"

section \<open>Invariant and contents\<close>

definition ring_wf :: "ring_buffer \<Rightarrow> bool" where
  "ring_wf r \<longleftrightarrow> 0 < m_capacity r \<and> length (m_buffer r) = m_capacity r \<and> m_readPos r < m_capacity r \<and>
     m_usedSize r \<le> m_capacity r \<and> m_writePos r = (m_readPos r + m_usedSize r) mod m_capacity r"

definition ring_at :: "ring_buffer \<Rightarrow> nat \<Rightarrow> u8" where
  "ring_at r i = m_buffer r ! ((m_readPos r + i) mod m_capacity r)"

definition ring_data :: "ring_buffer \<Rightarrow> bytes" where
  "ring_data r = map (ring_at r) [0..<m_usedSize r]"

text \<open>
  The operations that take bytes in or out, with what they took out of the ring and what they accepted. For the access
  without a copy, the client stores into the region, or loads from it, and then commits.
\<close>

datatype ring_op = Ring_write bytes | Ring_read nat | Ring_skip nat | Region_write bytes | Region_read nat

fun ring_step :: "ring_op \<Rightarrow> ring_buffer \<Rightarrow> bytes \<times> bytes \<times> ring_buffer" where
  "ring_step (Ring_write bs) r = (case ring_write (Some bs) (length bs) r of (n, r') \<Rightarrow> ([], take n bs, r'))"
| "ring_step (Ring_read n) r = (case ring_read True n r of (k, bs, r') \<Rightarrow> (bs, [], r'))"
| "ring_step (Ring_skip n) r = (case ring_skip n r of (k, r') \<Rightarrow> (snd (ring_peek True k r), [], r'))"
| "ring_step (Region_write bs) r =
     (case getWritableRegion r of
        (second, Some off, len) \<Rightarrow>
          ([], take len bs, commitWrite (length (take len bs)) (r\<lparr>m_buffer := store_bytes off (take len bs) (m_buffer r)\<rparr>))
      | (second, None, len) \<Rightarrow> ([], [], r))"
| "ring_step (Region_read n) r =
     (case getReadableRegion r of
        (second, Some off, len) \<Rightarrow> (take (min n len) (drop off (m_buffer r)), [], commitRead (min n len) r)
      | (second, None, len) \<Rightarrow> ([], [], r))"

section \<open>A bounded queue of bytes\<close>

text \<open>A run of operations, with all that came out and all that was accepted.\<close>

primrec queue_run :: "('op \<Rightarrow> 'q \<Rightarrow> bytes \<times> bytes \<times> 'q) \<Rightarrow> 'op list \<Rightarrow> 'q \<Rightarrow> bytes \<times> bytes \<times> 'q" where
  "queue_run step [] q = ([], [], q)"
| "queue_run step (p # ps) q =
     (case step p q of (out, acc, q1) \<Rightarrow> case queue_run step ps q1 of (outs, accs, q2) \<Rightarrow> (out @ outs, acc @ accs, q2))"

text \<open>
  \<open>data q\<close> is what the queue holds. An operation takes bytes from its front and appends bytes at its end, and it keeps the
  invariant and the bound.
\<close>

locale byte_queue =
  fixes inv :: "'q \<Rightarrow> bool" and data :: "'q \<Rightarrow> bytes" and cap :: "'q \<Rightarrow> nat" and step :: "'op \<Rightarrow> 'q \<Rightarrow> bytes \<times> bytes \<times> 'q"
  assumes bounded: "inv q \<Longrightarrow> length (data q) \<le> cap q"
    and step_ok: "inv q \<Longrightarrow> step p q = (out, acc, q') \<Longrightarrow> inv q' \<and> cap q' = cap q \<and> data q @ acc = out @ data q'"
begin

lemma run_fifo:
  "inv q \<Longrightarrow> queue_run step ps q = (out, acc, q') \<Longrightarrow> inv q' \<and> cap q' = cap q \<and> data q @ acc = out @ data q'"
proof (induction ps arbitrary: q out acc)
  case (Cons p ps)
  obtain o1 a1 q1 where s: "step p q = (o1, a1, q1)" by (metis prod_cases3)
  obtain o2 a2 q2 where t: "queue_run step ps q1 = (o2, a2, q2)" by (metis prod_cases3)
  have e: "out = o1 @ o2" "acc = a1 @ a2" "q' = q2" using Cons.prems(2) s t by simp_all
  have "inv q1" "cap q1 = cap q" "data q @ a1 = o1 @ data q1" using step_ok [OF Cons.prems(1) s] by simp_all
  then show ?case using Cons.IH [of q1 o2 a2] t e by (metis append.assoc)
qed simp

lemma run_bounds:
  assumes "inv q" "queue_run step ps q = (out, acc, q')"
  shows "length out \<le> length (data q) + length acc" "length acc \<le> length out + cap q"
proof -
  have r: "inv q'" "cap q' = cap q" "data q @ acc = out @ data q'" using run_fifo [OF assms] by simp_all
  have l: "length (data q) + length acc = length out + length (data q')" using arg_cong [OF r(3), of length] by simp
  then show "length out \<le> length (data q) + length acc" by simp
  show "length acc \<le> length out + cap q" using l bounded [OF r(1)] r(2) by linarith
qed

end

section \<open>Lemmas\<close>

lemma mod_add_if: "a < c \<Longrightarrow> b \<le> c \<Longrightarrow> (a + b) mod c = (if a + b < c then a + b else a + b - c)" for a b c :: nat
  by (simp add: mod_if)

lemma ring_copy_eq:
  assumes "pos < m_capacity r" "n \<le> m_capacity r" "length (m_buffer r) = m_capacity r"
  shows "ring_copy pos n r = map (\<lambda>i. m_buffer r ! ((pos + i) mod m_capacity r)) [0..<n]"
proof (rule nth_equalityI)
  show "length (ring_copy pos n r) = length (map (\<lambda>i. m_buffer r ! ((pos + i) mod m_capacity r)) [0..<n])"
    using assms by (auto simp: ring_copy_def Let_def min_def)
  fix i assume "i < length (ring_copy pos n r)"
  then have "i < n" using assms by (auto simp: ring_copy_def Let_def min_def split: if_splits)
  then show "ring_copy pos n r ! i = map (\<lambda>i. m_buffer r ! ((pos + i) mod m_capacity r)) [0..<n] ! i"
    using assms by (auto simp: ring_copy_def Let_def nth_append mod_add_if add.commute)
qed

text \<open>The bytes of a prefix of the contents.\<close>

lemma ring_prefix:
  assumes "ring_wf r" "n \<le> m_usedSize r"
  shows "ring_copy (m_readPos r) n r = take n (ring_data r)"
  using assms by (subst ring_copy_eq) (auto simp: ring_wf_def ring_data_def ring_at_def take_map)

lemma ring_length: "length (ring_data r) = m_usedSize r"
  by (simp add: ring_data_def)

text \<open>Taking \<open>n\<close> bytes out at the front, as \<open>read\<close>, \<open>skip\<close> and \<open>commitRead\<close> do.\<close>

lemma ring_advance:
  assumes "ring_wf r" "n \<le> m_usedSize r"
    and "r' = r\<lparr>m_readPos := (m_readPos r + n) mod m_capacity r, m_usedSize := m_usedSize r - n, m_totalBytesRead := t\<rparr>"
  shows "ring_wf r'" "ring_data r' = drop n (ring_data r)"
proof -
  have "((m_readPos r + n) mod m_capacity r + (m_usedSize r - n)) mod m_capacity r = (m_readPos r + m_usedSize r) mod m_capacity r"
    using assms(2) by (simp only: mod_add_left_eq) simp
  then show "ring_wf r'" using assms by (auto simp: ring_wf_def)
  show "ring_data r' = drop n (ring_data r)"
    by (rule nth_equalityI) (simp_all add: assms(3) ring_data_def ring_at_def mod_simps add.assoc)
qed

text \<open>Appending: the bytes of the ring after a store of \<open>bs\<close> from the write position on, around the end of the array.\<close>

definition ring_stored :: "bytes \<Rightarrow> bytes \<Rightarrow> ring_buffer \<Rightarrow> bool" where
  "ring_stored buf bs r \<longleftrightarrow> length buf = m_capacity r \<and>
     (\<forall>k < m_capacity r. buf ! k = (let j = (k + m_capacity r - m_writePos r) mod m_capacity r
                                    in if j < length bs then bs ! j else m_buffer r ! k))"

lemma ring_offset:
  fixes p u i c :: nat
  assumes "p < c" "u \<le> c" "i < c"
  shows "((p + i) mod c + c - (p + u) mod c) mod c = (if i < u then c - u + i else i - u)"
proof -
  have two: "x mod c = (if x < c then x else x - c)" if "x < 2 * c" for x
    using that by (simp add: le_mod_geq mod_less)
  have e: "(p + i) mod c = (if p + i < c then p + i else p + i - c)" "(p + u) mod c = (if p + u < c then p + u else p + u - c)"
    using assms by (simp_all add: mod_add_if)
  have l: "(p + i) mod c + c - (p + u) mod c < 2 * c" using assms e by (simp split: if_splits)
  show ?thesis unfolding two [OF l] unfolding e using assms by auto
qed

lemma ring_append:
  assumes "ring_wf r" "length bs \<le> writableSize r" "ring_stored buf bs r"
    and "r' = r\<lparr>m_buffer := buf, m_writePos := (m_writePos r + length bs) mod m_capacity r,
               m_usedSize := m_usedSize r + length bs, m_totalBytesWritten := t\<rparr>"
  shows "ring_wf r'" "ring_data r' = ring_data r @ bs"
proof -
  let ?c = "m_capacity r" and ?p = "m_readPos r" and ?u = "m_usedSize r" and ?w = "m_writePos r"
  have wf: "0 < ?c" "length (m_buffer r) = ?c" "?p < ?c" "?u \<le> ?c" "?w = (?p + ?u) mod ?c" "length bs \<le> ?c - ?u"
    using assms(1,2) by (auto simp: ring_wf_def writableSize_def)
  have l: "length buf = ?c" using assms(3) by (simp add: ring_stored_def)
  show "ring_wf r'" using wf l assms(4) by (auto simp: ring_wf_def mod_simps add.assoc)
  have off: "((?p + i) mod ?c + ?c - ?w) mod ?c = (if i < ?u then ?c - ?u + i else i - ?u)" if "i < ?c" for i
    unfolding wf(5) by (rule ring_offset [OF wf(3,4) that])
  have at: "buf ! ((?p + i) mod ?c) = (if i < ?u then ring_at r i else bs ! (i - ?u))" if "i < ?u + length bs" for i
  proof -
    have "i < ?c" "(?p + i) mod ?c < ?c" using that wf by auto
    then show ?thesis using assms(3) off [of i] that wf by (auto simp: ring_stored_def ring_at_def Let_def)
  qed
  show "ring_data r' = ring_data r @ bs"
  proof (rule nth_equalityI)
    show len: "length (ring_data r') = length (ring_data r @ bs)" by (simp add: ring_data_def assms(4))
    fix i assume "i < length (ring_data r')"
    then have i: "i < ?u + length bs" by (simp add: ring_data_def assms(4))
    then have "ring_data r' ! i = buf ! ((?p + i) mod ?c)" by (simp add: ring_data_def ring_at_def assms(4))
    then show "ring_data r' ! i = (ring_data r @ bs) ! i" using at [OF i] by (simp add: nth_append ring_data_def)
  qed
qed

lemma nth_store:
  "i + length bs \<le> length buf \<Longrightarrow> k < length buf \<Longrightarrow>
     store_bytes i bs buf ! k = (if i \<le> k \<and> k < i + length bs then bs ! (k - i) else buf ! k)"
  by (auto simp: store_bytes_def nth_append)

lemma length_store: "i + length bs \<le> length buf \<Longrightarrow> length (store_bytes i bs buf) = length buf"
  by (simp add: store_bytes_def)

lemma ring_stored_write:
  assumes "ring_wf r" "n \<le> writableSize r" "n \<le> length src" "f = min n (m_capacity r - m_writePos r)"
  shows "ring_stored (if n > f then store_bytes 0 (take (n - f) (drop f src)) (store_bytes (m_writePos r) (take f src) (m_buffer r))
     else store_bytes (m_writePos r) (take f src) (m_buffer r)) (take n src) r"
proof -
  let ?c = "m_capacity r" and ?w = "m_writePos r" and ?b = "store_bytes (m_writePos r) (take f src) (m_buffer r)"
  have wf: "length (m_buffer r) = ?c" "?w < ?c" "n \<le> ?c" "f \<le> ?c - ?w" "f \<le> length src" "f \<le> n" "n > f \<longrightarrow> f = ?c - ?w"
    using assms by (auto simp: ring_wf_def writableSize_def)
  have b: "length ?b = ?c" "k < ?c \<Longrightarrow> ?b ! k = (if ?w \<le> k \<and> k < ?w + f then src ! (k - ?w) else m_buffer r ! k)" for k
    using wf by (auto simp: length_store nth_store)
  have j: "(k + ?c - ?w) mod ?c = (if ?w \<le> k then k - ?w else k + ?c - ?w)" if "k < ?c" for k
    using that wf(2) by (simp add: mod_if)
  show ?thesis
  proof (cases "n > f")
    case True
    let ?t = "take (n - f) (drop f src)"
    have t: "length ?t = n - f" "length ?t \<le> length ?b" "f = ?c - ?w" using True wf b(1) assms(3) by simp_all
    have "store_bytes 0 ?t ?b ! k = (if (k + ?c - ?w) mod ?c < n then src ! ((k + ?c - ?w) mod ?c) else m_buffer r ! k)" if "k < ?c" for k
    proof -
      have "store_bytes 0 ?t ?b ! k = (if k < n - f then src ! (f + k) else ?b ! k)"
        using t(1,2) that b(1) assms(3) wf(5) by (subst nth_store) auto
      then show ?thesis unfolding j [OF that] b(2) [OF that] using True t(3) wf(2,3) that by (auto simp: add.commute)
    qed
    moreover have "length (store_bytes 0 ?t ?b) = ?c" using t(2) b(1) by (simp add: length_store)
    ultimately show ?thesis using True assms(3) by (simp add: ring_stored_def Let_def)
  next
    case False
    then have fn: "f = n" using wf(6) by simp
    show ?thesis using wf(2,4) assms(3) b [unfolded fn] by (auto simp: fn ring_stored_def Let_def j)
  qed
qed

lemma ring_write_ok:
  assumes "ring_wf r" "len \<le> length src" "ring_write (Some src) len r = (n, r')"
  shows "ring_wf r'" "n = min len (m_capacity r - m_usedSize r)" "ring_data r' = ring_data r @ take n src" "m_capacity r' = m_capacity r"
    "m_totalBytesWritten r' = m_totalBytesWritten r + of_nat n" "m_totalBytesRead r' = m_totalBytesRead r"
proof -
  show n: "n = min len (m_capacity r - m_usedSize r)"
    using assms(3) by (auto simp: ring_write_def writableSize_def Let_def split: if_splits)
  let ?f = "min n (m_capacity r - m_writePos r)"
  define buf where "buf = (if n > ?f then store_bytes 0 (take (n - ?f) (drop ?f src)) (store_bytes (m_writePos r) (take ?f src) (m_buffer r))
     else store_bytes (m_writePos r) (take ?f src) (m_buffer r))"
  have "n \<le> writableSize r" "n \<le> length src" using n assms(2) by (simp_all add: writableSize_def)
  then have st: "ring_stored buf (take n src) r" "length (take n src) \<le> writableSize r" "length (take n src) = n"
    using ring_stored_write [OF assms(1) _ _ refl, of n src] by (simp_all add: buf_def)
  have r': "r' = (if n = 0 then r else r\<lparr>m_buffer := buf, m_writePos := (m_writePos r + n) mod m_capacity r,
      m_usedSize := m_usedSize r + n, m_totalBytesWritten := m_totalBytesWritten r + of_nat n\<rparr>)"
    using assms(3) n unfolding ring_write_def option.case writableSize_def Let_def n [symmetric] buf_def by (simp split: if_splits)
  show "ring_wf r'" "ring_data r' = ring_data r @ take n src" "m_capacity r' = m_capacity r"
    "m_totalBytesWritten r' = m_totalBytesWritten r + of_nat n" "m_totalBytesRead r' = m_totalBytesRead r"
    using ring_append [OF assms(1) st(2,1) refl] assms(1) r' unfolding st(3) by (cases "n = 0"; simp)+
qed

lemma ring_read_ok:
  assumes "ring_wf r" "ring_read True len r = (n, bs, r')"
  shows "ring_wf r'" "n = length bs" "bs = take len (ring_data r)" "ring_data r' = drop len (ring_data r)" "m_capacity r' = m_capacity r"
    "m_totalBytesRead r' = m_totalBytesRead r + of_nat n" "m_totalBytesWritten r' = m_totalBytesWritten r"
proof -
  define k where "k = min len (m_usedSize r)"
  have k: "k \<le> m_usedSize r" "take k (ring_data r) = take len (ring_data r)" "drop k (ring_data r) = drop len (ring_data r)"
    by (simp_all add: k_def min_def ring_length)
  have eq: "n = k" "bs = take k (ring_data r)" "r' = (if k = 0 then r else r\<lparr>m_readPos := (m_readPos r + k) mod m_capacity r,
      m_usedSize := m_usedSize r - k, m_totalBytesRead := m_totalBytesRead r + of_nat k\<rparr>)"
    using assms ring_prefix [OF assms(1) k(1)] by (auto simp: ring_read_def readableSize_def Let_def k_def split: if_splits)
  show "ring_wf r'" "ring_data r' = drop len (ring_data r)" "m_capacity r' = m_capacity r"
    "m_totalBytesRead r' = m_totalBytesRead r + of_nat n" "m_totalBytesWritten r' = m_totalBytesWritten r"
    using ring_advance [OF assms(1) k(1) refl] assms(1) eq k(3) by (auto split: if_splits)
  show "n = length bs" "bs = take len (ring_data r)" using eq k by (simp_all add: ring_length k_def min.commute)
qed

lemma ring_skip_ok:
  assumes "ring_wf r" "ring_skip len r = (n, r')"
  shows "ring_wf r'" "n = min len (m_usedSize r)" "ring_data r' = drop n (ring_data r)" "m_capacity r' = m_capacity r"
    "m_totalBytesRead r' = m_totalBytesRead r + of_nat n" "m_totalBytesWritten r' = m_totalBytesWritten r"
  using assms ring_advance [OF assms(1) _ refl, of n] by (auto simp: ring_skip_def readableSize_def Let_def)

lemma ring_peek_ok: "ring_wf r \<Longrightarrow> ring_peek True len r = (min len (m_usedSize r), take len (ring_data r))"
  using ring_prefix [of r "min len (m_usedSize r)"] by (cases "m_usedSize r = 0") (auto simp: ring_peek_def readableSize_def Let_def ring_length ring_data_def min_def take_map)

lemma ring_region_write_ok:
  assumes "ring_wf r" "getWritableRegion r = (second, Some off, len)" "length bs \<le> len"
    and "r' = commitWrite (length bs) (r\<lparr>m_buffer := store_bytes off bs (m_buffer r)\<rparr>)"
  shows "ring_wf r'" "ring_data r' = ring_data r @ bs" "m_capacity r' = m_capacity r"
    "m_totalBytesWritten r' = m_totalBytesWritten r + of_nat (length bs)" "m_totalBytesRead r' = m_totalBytesRead r"
proof -
  have o: "off = m_writePos r" "length bs \<le> writableSize r" "length bs \<le> m_capacity r - m_writePos r"
    using assms(1-3) by (auto simp: getWritableRegion_def Let_def ring_wf_def split: if_splits)
  have st: "ring_stored (store_bytes off bs (m_buffer r)) bs r"
    using ring_stored_write [OF assms(1) o(2) le_refl refl] o(1,3) by (simp add: min_absorb1)
  have "r' = r\<lparr>m_buffer := store_bytes off bs (m_buffer r), m_writePos := (m_writePos r + length bs) mod m_capacity r,
      m_usedSize := m_usedSize r + length bs, m_totalBytesWritten := m_totalBytesWritten r + of_nat (length bs)\<rparr>"
    using o(2,3) by (simp add: assms(4) commitWrite_def Let_def writableSize_def min_absorb1)
  then show "ring_wf r'" "ring_data r' = ring_data r @ bs" "m_capacity r' = m_capacity r"
    "m_totalBytesWritten r' = m_totalBytesWritten r + of_nat (length bs)" "m_totalBytesRead r' = m_totalBytesRead r"
    using ring_append [OF assms(1) o(2) st] by simp_all
qed

lemma ring_region_read_ok:
  assumes "ring_wf r" "getReadableRegion r = (second, Some off, len)" "n \<le> len" "r' = commitRead n r"
  shows "ring_wf r'" "take n (drop off (m_buffer r)) = take n (ring_data r)" "ring_data r' = drop n (ring_data r)" "m_capacity r' = m_capacity r"
    "m_totalBytesRead r' = m_totalBytesRead r + of_nat n" "m_totalBytesWritten r' = m_totalBytesWritten r" "n \<le> m_usedSize r"
proof -
  have o: "off = m_readPos r" "n \<le> m_usedSize r" "n \<le> m_capacity r - m_readPos r"
    using assms(1-3) by (auto simp: getReadableRegion_def ring_wf_def split: if_splits)
  have "take n (drop off (m_buffer r)) = ring_copy (m_readPos r) n r" using o by (simp add: ring_copy_def Let_def min_absorb1)
  then show "take n (drop off (m_buffer r)) = take n (ring_data r)" using ring_prefix [OF assms(1) o(2)] by simp
  have "r' = r\<lparr>m_readPos := (m_readPos r + n) mod m_capacity r, m_usedSize := m_usedSize r - n, m_totalBytesRead := m_totalBytesRead r + of_nat n\<rparr>"
    using o by (simp add: assms(4) commitRead_def Let_def readableSize_def min_absorb1)
  then show "ring_wf r'" "ring_data r' = drop n (ring_data r)" "m_capacity r' = m_capacity r"
    "m_totalBytesRead r' = m_totalBytesRead r + of_nat n" "m_totalBytesWritten r' = m_totalBytesWritten r" "n \<le> m_usedSize r"
    using ring_advance [OF assms(1) o(2)] o(2) by simp_all
qed

text \<open>One operation of the ring; the counters of all bytes move by what went in and came out.\<close>

lemma ring_step_ok:
  assumes "ring_wf r" "ring_step p r = (out, acc, r')"
  shows "ring_wf r' \<and> m_capacity r' = m_capacity r \<and> ring_data r @ acc = out @ ring_data r' \<and>
    m_totalBytesWritten r' = m_totalBytesWritten r + of_nat (length acc) \<and> m_totalBytesRead r' = m_totalBytesRead r + of_nat (length out)"
proof (cases p)
  case (Ring_write bs)
  obtain n where n: "ring_write (Some bs) (length bs) r = (n, r')" "out = []" "acc = take n bs"
    using assms(2) Ring_write by (auto split: prod.splits)
  then show ?thesis using ring_write_ok [OF assms(1) le_refl n(1)] by simp
next
  case (Ring_read len)
  then obtain n where n: "ring_read True len r = (n, out, r')" "acc = []" using assms(2) by (auto split: prod.splits)
  then show ?thesis using ring_read_ok [OF assms(1) n(1)] by simp
next
  case (Ring_skip len)
  then obtain n where n: "ring_skip len r = (n, r')" "out = snd (ring_peek True n r)" "acc = []" using assms(2) by (auto split: prod.splits)
  then show ?thesis using ring_skip_ok [OF assms(1) n(1)] ring_peek_ok [OF assms(1), of n] by (simp add: ring_length)
next
  case (Region_write bs)
  obtain second off len where g: "getWritableRegion r = (second, off, len)" by (metis prod_cases3)
  show ?thesis
  proof (cases off)
    case (Some i)
    then have r: "out = []" "acc = take len bs" "r' = commitWrite (length acc) (r\<lparr>m_buffer := store_bytes i acc (m_buffer r)\<rparr>)"
      using assms(2) Region_write g by auto
    then show ?thesis using ring_region_write_ok [OF assms(1) g [unfolded Some] _ r(3)] by simp
  qed (use assms Region_write g in simp)
next
  case (Region_read n)
  obtain second off len where g: "getReadableRegion r = (second, off, len)" by (metis prod_cases3)
  show ?thesis
  proof (cases off)
    case (Some i)
    then have r: "out = take (min n len) (drop i (m_buffer r))" "acc = []" "r' = commitRead (min n len) r"
      using assms(2) Region_read g by auto
    then show ?thesis using ring_region_read_ok [OF assms(1) g [unfolded Some] min.cobounded2 r(3)] by (simp add: ring_length)
  qed (use assms Region_read g in simp)
qed

interpretation ring: byte_queue ring_wf ring_data m_capacity ring_step
proof unfold_locales
  show "length (ring_data r) \<le> m_capacity r" if "ring_wf r" for r using that by (simp add: ring_length ring_wf_def)
  show "ring_wf r' \<and> m_capacity r' = m_capacity r \<and> ring_data r @ acc = out @ ring_data r'"
    if "ring_wf r" "ring_step p r = (out, acc, r')" for r p out acc r'
    using ring_step_ok [OF that] by blast
qed

lemma ring_run_counts:
  "ring_wf r \<Longrightarrow> queue_run ring_step ps r = (out, acc, r') \<Longrightarrow>
     m_totalBytesWritten r' = m_totalBytesWritten r + of_nat (length acc) \<and> m_totalBytesRead r' = m_totalBytesRead r + of_nat (length out)"
proof (induction ps arbitrary: r out acc)
  case (Cons p ps)
  obtain o1 a1 r1 where s: "ring_step p r = (o1, a1, r1)" by (metis prod_cases3)
  obtain o2 a2 r2 where t: "queue_run ring_step ps r1 = (o2, a2, r2)" by (metis prod_cases3)
  have "out = o1 @ o2" "acc = a1 @ a2" "r' = r2" using Cons.prems(2) s t by simp_all
  then show ?case using Cons.IH [of r1 o2 a2] ring_step_ok [OF Cons.prems(1) s] t by simp
qed simp

lemma ring_new_ok: "ring_new mem n = Inr r \<Longrightarrow> ring_wf r \<and> ring_data r = [] \<and> m_capacity r = n \<and> m_totalBytesWritten r = 0 \<and> m_totalBytesRead r = 0"
  by (auto simp: ring_new_def ring_wf_def ring_data_def split: if_splits)

section \<open>Properties\<close>

text \<open>
  C29. The ring is a queue. From a new ring, after any sequence of writes, reads, skips and accesses through the regions, with
  their wrap-around at the end of the array, what came out followed by what is in the ring is what was accepted, in
  order; the ring never holds more than its capacity; and the two counters are the numbers of bytes accepted and taken, modulo \<open>2\<^sup>6\<^sup>4\<close>.
\<close>

theorem ring_fifo:
  assumes "ring_new mem n = Inr r" "queue_run ring_step ps r = (out, acc, r')"
  shows "acc = out @ ring_data r' \<and> length (ring_data r') = readableSize r' \<and> length acc \<le> length out + n \<and>
    m_totalBytesWritten r' = of_nat (length acc) \<and> m_totalBytesRead r' = of_nat (length out)"
proof -
  have r: "ring_wf r" "ring_data r = []" "m_capacity r = n" "m_totalBytesWritten r = 0" "m_totalBytesRead r = 0"
    using ring_new_ok [OF assms(1)] by simp_all
  show ?thesis
    using ring.run_fifo [OF r(1) assms(2)] ring.run_bounds(2) [OF r(1) assms(2)] ring_run_counts [OF r(1) assms(2)] r
    by (simp add: ring_length readableSize_def)
qed

definition sample_ring :: ring_buffer where
  "sample_ring = \<lparr>m_capacity = 4, m_buffer = [0, 0, 0, 0], m_readPos = 0, m_writePos = 0, m_usedSize = 0,
     m_totalBytesWritten = 0, m_totalBytesRead = 0\<rparr>"

definition sample_ring_ops :: "ring_op list" where
  "sample_ring_ops = [Ring_write [1, 2, 3], Ring_read 2, Region_write [4, 5, 6], Ring_write [7, 8], Region_read 9, Ring_skip 1]"

theorem ring_fifo_witness:
  "\<exists>out acc r'. ring_new True 4 = Inr sample_ring \<and> queue_run ring_step sample_ring_ops sample_ring = (out, acc, r') \<and>
     acc = [1, 2, 3, 4, 7, 8] \<and> out = [1, 2, 3, 4, 7] \<and> ring_data r' = [8] \<and> m_totalBytesRead r' = 5"
proof -
  have "replicate 4 (0 :: u8) = [0, 0, 0, 0]" by (simp add: eval_nat_numeral)
  then have r: "ring_new True 4 = Inr sample_ring" by (simp add: ring_new_def vector_max_size_def sample_ring_def)
  obtain out acc r' where q: "queue_run ring_step sample_ring_ops sample_ring = (out, acc, r')" by (metis prod_cases3)
  have "fst (queue_run ring_step sample_ring_ops sample_ring) = [1, 2, 3, 4, 7]"
    "fst (snd (queue_run ring_step sample_ring_ops sample_ring)) = [1, 2, 3, 4, 7, 8]"
    by code_simp+
  then show ?thesis using ring_fifo [OF r q] r q by simp
qed

end
