(* ===== verification/Ntrs_Frame.thy ===== *)
theory Ntrs_Frame
  imports Kcp_Prelude
begin

text \<open>
  The binary frames of the NAT traversal service, \<^verbatim>\<open>ntrs/src/ntrs_binary_protocol.cpp\<close> with
  \<^verbatim>\<open>ntrs/src/ntrs/binary_protocol.h\<close>: a header of 24 bytes and fields of a type, a length and a value (TLV), all in network
  byte order. Every function of the file is a definition; what is shown is that a frame that was built is read back, that
  searching a field is the search in the list of the fields, and that addresses survive the encoding.

  A pointer the code compares with \<open>NULL\<close> is an option. A pointer to bytes is the list of the bytes from there on. An object
  has fewer than \<open>2\<^sup>6\<^sup>3\<close> bytes, so that sums of sizes do not wrap and sizes are natural numbers; the 16-bit length of a value
  is a word. Values of the enumerations are integers, since a cast makes any integer one.
\<close>

section \<open>Byte order\<close>

definition PutU16Be :: "u16 \<Rightarrow> bytes" where
  "PutU16Be value = [ucast (drop_bit 8 value AND 0xFF), ucast (value AND 0xFF)]"

definition PutU32Be :: "u32 \<Rightarrow> bytes" where
  "PutU32Be value = [ucast (drop_bit 24 value AND 0xFF), ucast (drop_bit 16 value AND 0xFF), ucast (drop_bit 8 value AND 0xFF), ucast (value AND 0xFF)]"

definition PutU64Be :: "u64 \<Rightarrow> bytes" where
  "PutU64Be value =
     [ucast (drop_bit 56 value AND 0xFF), ucast (drop_bit 48 value AND 0xFF), ucast (drop_bit 40 value AND 0xFF), ucast (drop_bit 32 value AND 0xFF),
      ucast (drop_bit 24 value AND 0xFF), ucast (drop_bit 16 value AND 0xFF), ucast (drop_bit 8 value AND 0xFF), ucast (value AND 0xFF)]"

definition GetU16Be :: "bytes \<Rightarrow> u16" where
  "GetU16Be src = push_bit 8 (ucast (src ! 0)) OR ucast (src ! 1)"

definition GetU32Be :: "bytes \<Rightarrow> u32" where
  "GetU32Be src = push_bit 24 (ucast (src ! 0)) OR push_bit 16 (ucast (src ! 1)) OR push_bit 8 (ucast (src ! 2)) OR ucast (src ! 3)"

definition GetU64Be :: "bytes \<Rightarrow> u64" where
  "GetU64Be src =
     push_bit 56 (ucast (src ! 0)) OR push_bit 48 (ucast (src ! 1)) OR push_bit 40 (ucast (src ! 2)) OR push_bit 32 (ucast (src ! 3)) OR
     push_bit 24 (ucast (src ! 4)) OR push_bit 16 (ucast (src ! 5)) OR push_bit 8 (ucast (src ! 6)) OR ucast (src ! 7)"

section \<open>Constants and records\<close>

definition NTRS_BINARY_FRAME_MAGIC :: u32 where
  "NTRS_BINARY_FRAME_MAGIC = 0x4E545250"

definition NTRS_BINARY_FRAME_VERSION :: u8 where
  "NTRS_BINARY_FRAME_VERSION = 1"

definition kNtrsBinaryHeaderSize :: nat where
  "kNtrsBinaryHeaderSize = 24"

definition kNtrsBinaryTlvHeaderSize :: nat where
  "kNtrsBinaryTlvHeaderSize = 4"

definition kNtrsBinaryIpv4EndpointSize :: u16 where
  "kNtrsBinaryIpv4EndpointSize = 8"

definition kNtrsBinaryIpv6EndpointSize :: u16 where
  "kNtrsBinaryIpv6EndpointSize = 20"

definition NTRS_BINARY_TLV_UNKNOWN :: int where
  "NTRS_BINARY_TLV_UNKNOWN = 0"

definition NTRS_BINARY_ADDR_FAMILY_IPV4 :: u8 where
  "NTRS_BINARY_ADDR_FAMILY_IPV4 = 4"

definition NTRS_BINARY_ADDR_FAMILY_IPV6 :: u8 where
  "NTRS_BINARY_ADDR_FAMILY_IPV6 = 6"

named_theorems ntrs_const \<open>the numeric constants of the frames\<close>

declare NTRS_BINARY_FRAME_MAGIC_def [ntrs_const] NTRS_BINARY_FRAME_VERSION_def [ntrs_const] kNtrsBinaryHeaderSize_def [ntrs_const]
  kNtrsBinaryTlvHeaderSize_def [ntrs_const] kNtrsBinaryIpv4EndpointSize_def [ntrs_const] kNtrsBinaryIpv6EndpointSize_def [ntrs_const]
  NTRS_BINARY_TLV_UNKNOWN_def [ntrs_const] NTRS_BINARY_ADDR_FAMILY_IPV4_def [ntrs_const] NTRS_BINARY_ADDR_FAMILY_IPV6_def [ntrs_const]

record ntrs_binary_frame_header =
  bh_magic :: u32
  bh_version :: u8
  bh_frame_type :: u8
  bh_phase :: u8
  bh_flags :: u8
  bh_request_id :: u32
  bh_sequence :: u32
  bh_timestamp_ms :: u64

record ntrs_binary_frame =
  fr_buffer :: "bytes option"
  fr_capacity :: nat
  fr_length :: nat

record ntrs_binary_frame_view =
  vw_header :: ntrs_binary_frame_header
  vw_payload :: bytes
  vw_payload_len :: nat

record ntrs_binary_tlv_view =
  tv_type :: int
  tv_value :: "bytes option"
  tv_value_len :: u16

text \<open>\<open>ntrs_binary_frame_type_is_valid\<close> and \<open>ntrs_binary_phase_is_valid\<close>: the values with a case of the switch, by number.\<close>

definition ntrs_binary_frame_type_is_valid :: "int \<Rightarrow> bool" where
  "ntrs_binary_frame_type_is_valid frame_type \<longleftrightarrow> frame_type \<in> {1, 2, 3, 4, 5, 6}"

definition ntrs_binary_phase_is_valid :: "int \<Rightarrow> bool" where
  "ntrs_binary_phase_is_valid phase \<longleftrightarrow> phase \<in> {1, 2, 3, 4, 5}"

section \<open>Building a frame\<close>

definition ntrs_binary_frame_init ::
    "ntrs_binary_frame option \<Rightarrow> bytes option \<Rightarrow> nat \<Rightarrow> bool \<times> ntrs_binary_frame option" where
  "ntrs_binary_frame_init frame buffer capacity =
     (case (frame, buffer) of
        (Some f, Some buf) \<Rightarrow>
          if capacity < kNtrsBinaryHeaderSize then (False, frame)
          else (True, Some (f\<lparr>fr_buffer := Some (store_bytes 0 (replicate capacity 0) buf), fr_capacity := capacity, fr_length := 0\<rparr>))
      | _ \<Rightarrow> (False, frame))"

definition ntrs_binary_frame_set_header ::
    "ntrs_binary_frame option \<Rightarrow> int \<Rightarrow> int \<Rightarrow> u8 \<Rightarrow> u32 \<Rightarrow> u32 \<Rightarrow> u64 \<Rightarrow> bool \<times> ntrs_binary_frame option" where
  "ntrs_binary_frame_set_header frame frame_type phase flags request_id sequence timestamp_ms =
     (case frame of
        None \<Rightarrow> (False, frame)
      | Some f \<Rightarrow>
          (case fr_buffer f of
             None \<Rightarrow> (False, frame)
           | Some buf \<Rightarrow>
               if fr_capacity f < kNtrsBinaryHeaderSize \<or> \<not> ntrs_binary_frame_type_is_valid frame_type \<or>
                  \<not> ntrs_binary_phase_is_valid phase
               then (False, frame)
               else (True, Some (f\<lparr>fr_length := kNtrsBinaryHeaderSize,
                      fr_buffer := Some (store_bytes 0 (PutU32Be NTRS_BINARY_FRAME_MAGIC @
                        [NTRS_BINARY_FRAME_VERSION, word_of_int frame_type, word_of_int phase, flags] @
                        PutU32Be request_id @ PutU32Be sequence @ PutU64Be timestamp_ms) buf)\<rparr>))))"

definition ntrs_binary_frame_add_tlv ::
    "ntrs_binary_frame option \<Rightarrow> int \<Rightarrow> bytes option \<Rightarrow> u16 \<Rightarrow> bool \<times> ntrs_binary_frame option" where
  "ntrs_binary_frame_add_tlv frame type value value_len =
     (case frame of
        None \<Rightarrow> (False, frame)
      | Some f \<Rightarrow>
          (case (fr_buffer f, value) of
             (Some buf, Some v) \<Rightarrow>
               if fr_length f < kNtrsBinaryHeaderSize \<or> type = NTRS_BINARY_TLV_UNKNOWN then (False, frame)
               else if fr_length f + kNtrsBinaryTlvHeaderSize + unat value_len > fr_capacity f then (False, frame)
               else (True, Some (f\<lparr>fr_length := fr_length f + (kNtrsBinaryTlvHeaderSize + unat value_len),
                      fr_buffer := Some (store_bytes (fr_length f)
                        (PutU16Be (word_of_int type) @ PutU16Be value_len @ take (unat value_len) v) buf)\<rparr>))
           | _ \<Rightarrow> (False, frame)))"

section \<open>Reading a frame\<close>

definition zero_view :: ntrs_binary_frame_view where
  "zero_view = \<lparr>vw_header = \<lparr>bh_magic = 0, bh_version = 0, bh_frame_type = 0, bh_phase = 0, bh_flags = 0, bh_request_id = 0,
     bh_sequence = 0, bh_timestamp_ms = 0\<rparr>, vw_payload = [], vw_payload_len = 0\<rparr>"

definition ntrs_binary_frame_parse ::
    "bytes option \<Rightarrow> nat \<Rightarrow> ntrs_binary_frame_view option \<Rightarrow> bool \<times> ntrs_binary_frame_view option" where
  "ntrs_binary_frame_parse data data_len view =
     (case (data, view) of
        (Some d, Some v) \<Rightarrow>
          if data_len < kNtrsBinaryHeaderSize then (False, view)
          else
            let magic = GetU32Be d
            in if magic \<noteq> NTRS_BINARY_FRAME_MAGIC
               then (False, Some (zero_view\<lparr>vw_header := (vw_header zero_view)\<lparr>bh_magic := magic\<rparr>\<rparr>))
               else
                 let h = \<lparr>bh_magic = magic, bh_version = d ! 4, bh_frame_type = d ! 5, bh_phase = d ! 6, bh_flags = d ! 7,
                          bh_request_id = GetU32Be (drop 8 d), bh_sequence = GetU32Be (drop 12 d),
                          bh_timestamp_ms = GetU64Be (drop 16 d)\<rparr>
                 in if bh_version h \<noteq> NTRS_BINARY_FRAME_VERSION \<or> \<not> ntrs_binary_frame_type_is_valid (uint (bh_frame_type h)) \<or>
                       \<not> ntrs_binary_phase_is_valid (uint (bh_phase h))
                    then (False, Some (zero_view\<lparr>vw_header := h\<rparr>))
                    else (True, Some \<lparr>vw_header = h, vw_payload = drop kNtrsBinaryHeaderSize d,
                                     vw_payload_len = data_len - kNtrsBinaryHeaderSize\<rparr>)
      | _ \<Rightarrow> (False, view))"

text \<open>The cursor and the view of the field are changed only with the result true.\<close>

definition ntrs_binary_frame_next_tlv ::
    "ntrs_binary_frame_view \<Rightarrow> nat \<Rightarrow> ntrs_binary_tlv_view \<Rightarrow> bool \<times> nat \<times> ntrs_binary_tlv_view" where
  "ntrs_binary_frame_next_tlv view cursor tlv =
     (if cursor \<ge> vw_payload_len view then (False, cursor, tlv)
      else if vw_payload_len view - cursor < kNtrsBinaryTlvHeaderSize then (False, cursor, tlv)
      else
        let type = GetU16Be (drop cursor (vw_payload view));
            value_len = GetU16Be (drop (cursor + 2) (vw_payload view));
            offset = cursor + kNtrsBinaryTlvHeaderSize
        in if vw_payload_len view - offset < unat value_len then (False, cursor, tlv)
           else (True, offset + unat value_len,
                 \<lparr>tv_type = uint type, tv_value = Some (drop offset (vw_payload view)), tv_value_len = value_len\<rparr>))"

text \<open>The null pointers of the two functions that iterate.\<close>

definition next_tlv_ptr ::
    "ntrs_binary_frame_view option \<Rightarrow> nat option \<Rightarrow> ntrs_binary_tlv_view option \<Rightarrow>
     bool \<times> nat option \<times> ntrs_binary_tlv_view option" where
  "next_tlv_ptr view cursor tlv =
     (case (view, cursor, tlv) of
        (Some v, Some c, Some t) \<Rightarrow> (case ntrs_binary_frame_next_tlv v c t of (b, c', t') \<Rightarrow> (b, Some c', Some t'))
      | _ \<Rightarrow> (False, cursor, tlv))"

function find_tlv_loop ::
    "ntrs_binary_frame_view \<Rightarrow> int \<Rightarrow> nat \<Rightarrow> ntrs_binary_tlv_view \<Rightarrow> bool \<times> ntrs_binary_tlv_view" where
  "find_tlv_loop view type cursor tlv =
     (case ntrs_binary_frame_next_tlv view cursor tlv of
        (found, cursor', tlv') \<Rightarrow>
          if \<not> found then (False, tlv')
          else if tv_type tlv' = type then (True, tlv')
          else find_tlv_loop view type cursor' tlv')"
  by auto

termination
  by (relation "measure (\<lambda>(view, type, cursor, tlv). vw_payload_len view - cursor)")
     (auto simp: ntrs_binary_frame_next_tlv_def Let_def ntrs_const split: if_splits)

definition ntrs_binary_frame_find_tlv ::
    "ntrs_binary_frame_view option \<Rightarrow> int \<Rightarrow> ntrs_binary_tlv_view option \<Rightarrow> bool \<times> ntrs_binary_tlv_view option" where
  "ntrs_binary_frame_find_tlv view type tlv =
     (case (view, tlv) of
        (Some v, Some t) \<Rightarrow>
          if type = NTRS_BINARY_TLV_UNKNOWN then (False, tlv)
          else (case find_tlv_loop v type 0 t of (b, t') \<Rightarrow> (b, Some t'))
      | _ \<Rightarrow> (False, tlv))"

section \<open>Addresses\<close>

text \<open>
  A socket address: port and address as they are in memory. \<open>ntohs\<close> and \<open>htons\<close> swap the bytes, on a little-endian host; on a
  big-endian one they are the identity and the results below are the same.
\<close>

datatype ntrs_sockaddr =
  Sa_in (sin_port: u16) (sin_addr: bytes)
| Sa_in6 (sin6_port: u16) (sin6_flowinfo: u32) (sin6_addr: bytes) (sin6_scope_id: u32)
| Sa_other int

definition ntohs :: "u16 \<Rightarrow> u16" where
  "ntohs w = push_bit 8 w OR drop_bit 8 w"

definition htons :: "u16 \<Rightarrow> u16" where
  "htons w = push_bit 8 w OR drop_bit 8 w"

definition ntrs_binary_frame_add_endpoint_tlv ::
    "ntrs_binary_frame option \<Rightarrow> int \<Rightarrow> ntrs_sockaddr option \<Rightarrow> bool \<times> ntrs_binary_frame option" where
  "ntrs_binary_frame_add_endpoint_tlv frame type addr =
     (case (frame, addr) of
        (Some f, Some (Sa_in port ip)) \<Rightarrow>
          ntrs_binary_frame_add_tlv frame type
            (Some (store_bytes 4 (take 4 ip) (store_bytes 2 (PutU16Be (ntohs port))
              (store_bytes 0 [NTRS_BINARY_ADDR_FAMILY_IPV4] (replicate 20 0))))) kNtrsBinaryIpv4EndpointSize
      | (Some f, Some (Sa_in6 port flow ip scope)) \<Rightarrow>
          ntrs_binary_frame_add_tlv frame type
            (Some (store_bytes 4 (take 16 ip) (store_bytes 2 (PutU16Be (ntohs port))
              (store_bytes 0 [NTRS_BINARY_ADDR_FAMILY_IPV6] (replicate 20 0))))) kNtrsBinaryIpv6EndpointSize
      | _ \<Rightarrow> (False, frame))"

text \<open>\<open>None\<close> is false; the storage is cleared first, so that flow information and scope are zero, and the length is that of the structure.\<close>

definition ntrs_binary_tlv_parse_endpoint :: "ntrs_binary_tlv_view option \<Rightarrow> (ntrs_sockaddr \<times> nat) option" where
  "ntrs_binary_tlv_parse_endpoint tlv =
     (case tlv of
        None \<Rightarrow> None
      | Some t \<Rightarrow>
          (case tv_value t of
             None \<Rightarrow> None
           | Some v \<Rightarrow>
               if tv_value_len t < 4 then None
               else
                 let family = v ! 0; port = GetU16Be (drop 2 v)
                 in if family = NTRS_BINARY_ADDR_FAMILY_IPV4 \<and> tv_value_len t = kNtrsBinaryIpv4EndpointSize
                    then Some (Sa_in (htons port) (take 4 (drop 4 v)), 16)
                    else if family = NTRS_BINARY_ADDR_FAMILY_IPV6 \<and> tv_value_len t = kNtrsBinaryIpv6EndpointSize
                    then Some (Sa_in6 (htons port) 0 (take 16 (drop 4 v)) 0, 28)
                    else None))"

section \<open>Reference\<close>

text \<open>The fields of a payload, as a list; it ends with the first field that is not complete.\<close>

function tlv_list :: "bytes \<Rightarrow> (u16 \<times> bytes) list" where
  "tlv_list p =
     (if length p < 4 then []
      else let n = unat (GetU16Be (drop 2 p))
           in if length p - 4 < n then [] else (GetU16Be p, take n (drop 4 p)) # tlv_list (drop (4 + n) p))"
  by auto

termination
  by (relation "measure length") auto

declare tlv_list.simps [simp del] find_tlv_loop.simps [simp del]

definition tlv_bytes :: "u16 \<times> bytes \<Rightarrow> bytes" where
  "tlv_bytes tv = PutU16Be (fst tv) @ PutU16Be (of_nat (length (snd tv))) @ snd tv"

definition tlv_ok :: "u16 \<times> bytes \<Rightarrow> bool" where
  "tlv_ok tv \<longleftrightarrow> fst tv \<noteq> 0 \<and> length (snd tv) < 2 ^ 16"

text \<open>Fields added one after the other, until one is refused.\<close>

fun add_tlvs :: "(u16 \<times> bytes) list \<Rightarrow> ntrs_binary_frame option \<Rightarrow> bool \<times> ntrs_binary_frame option" where
  "add_tlvs [] frame = (True, frame)"
| "add_tlvs ((t, v) # ts) frame =
     (case ntrs_binary_frame_add_tlv frame (uint t) (Some v) (of_nat (length v)) of
        (b, frame') \<Rightarrow> if b then add_tlvs ts frame' else (False, frame'))"

text \<open>
  The loop of a caller that reads every field, \<open>while (ntrs_binary_frame_next_tlv(view, &cursor, &tlv))\<close>: the types and values it
  sees, and the cursor it ends with.
\<close>

function read_tlvs :: "ntrs_binary_frame_view \<Rightarrow> nat \<Rightarrow> ntrs_binary_tlv_view \<Rightarrow> (int \<times> bytes) list \<times> nat" where
  "read_tlvs view cursor tlv =
     (case ntrs_binary_frame_next_tlv view cursor tlv of
        (found, cursor', tlv') \<Rightarrow>
          if \<not> found then ([], cursor')
          else (case read_tlvs view cursor' tlv' of
                  (tvs, last_cursor) \<Rightarrow> ((tv_type tlv', take (unat (tv_value_len tlv')) (the (tv_value tlv'))) # tvs, last_cursor)))"
  by auto

termination
  by (relation "measure (\<lambda>(view, cursor, tlv). vw_payload_len view - cursor)")
     (auto simp: ntrs_binary_frame_next_tlv_def Let_def ntrs_const split: if_splits)

declare read_tlvs.simps [simp del]

definition header_bytes :: "int \<Rightarrow> int \<Rightarrow> u8 \<Rightarrow> u32 \<Rightarrow> u32 \<Rightarrow> u64 \<Rightarrow> bytes" where
  "header_bytes frame_type phase flags rid seq ts = PutU32Be NTRS_BINARY_FRAME_MAGIC @
     [NTRS_BINARY_FRAME_VERSION, word_of_int frame_type, word_of_int phase, flags] @ PutU32Be rid @ PutU32Be seq @ PutU64Be ts"

section \<open>Lemmas\<close>

lemma byte_AND: "(ucast (w AND 0xFF) :: u8) = ucast w" for w :: "'a::len word"
proof -
  have "w AND 0xFF = take_bit 8 w" by (simp add: take_bit_eq_mask mask_eq_exp_minus_1)
  moreover have "(ucast (take_bit 8 w) :: u8) = ucast w"
    by (rule bit_word_eqI) (auto simp: bit_simps dest: bit_imp_le_length)
  ultimately show ?thesis by simp
qed

lemma put_be_bytes:
  "PutU16Be v = rev (le_bytes 2 v)" "PutU32Be w = rev (le_bytes 4 w)" "PutU64Be x = rev (le_bytes 8 x)"
  by (simp_all add: PutU16Be_def PutU32Be_def PutU64Be_def byte_AND eval_nat_numeral drop_bit_drop_bit)

lemma get_be_bytes:
  "2 \<le> length bs \<Longrightarrow> GetU16Be bs = le_word (rev (take 2 bs))"
  "4 \<le> length bs \<Longrightarrow> GetU32Be bs = le_word (rev (take 4 bs))"
  "8 \<le> length bs \<Longrightarrow> GetU64Be bs = le_word (rev (take 8 bs))"
  by (auto simp: GetU16Be_def GetU32Be_def GetU64Be_def push_bit_or push_bit_push_bit eval_nat_numeral Suc_le_length_iff ac_simps)

lemma get_put [simp]:
  "GetU16Be (PutU16Be v @ bs) = v" "GetU32Be (PutU32Be w @ bs) = w" "GetU64Be (PutU64Be x @ bs) = x"
  by (simp_all add: put_be_bytes get_be_bytes)

lemma length_put_be [simp]: "length (PutU16Be v) = 2" "length (PutU32Be w) = 4" "length (PutU64Be x) = 8"
  by (simp_all add: put_be_bytes)

lemma length_tlv_bytes: "length (tlv_bytes tv) = 4 + length (snd tv)"
  by (simp add: tlv_bytes_def)

lemma tlv_bytes_read:
  assumes "tlv_ok tv"
  shows "GetU16Be (tlv_bytes tv @ p) = fst tv" "unat (GetU16Be (drop 2 (tlv_bytes tv @ p))) = length (snd tv)"
    "take (length (snd tv)) (drop 4 (tlv_bytes tv @ p)) = snd tv" "drop (4 + length (snd tv)) (tlv_bytes tv @ p) = p"
  using assms by (simp_all add: tlv_bytes_def tlv_ok_def unat_of_nat)

lemma tlv_list_encode: "\<forall>tv \<in> set ts. tlv_ok tv \<Longrightarrow> tlv_list (concat (map tlv_bytes ts)) = ts"
proof (induction ts)
  case (Cons tv ts)
  then show ?case
    using tlv_bytes_read [of tv "concat (map tlv_bytes ts)"]
    by (subst tlv_list.simps) (simp add: Let_def length_tlv_bytes)
qed (simp add: tlv_list.simps)

text \<open>Reading the fields of an encoded payload: each call of \<open>next_tlv\<close> gives one field and moves behind it.\<close>

lemma next_tlv_encoded:
  assumes "tlv_ok tv" "vw_payload v = pre @ tlv_bytes tv @ rest" "vw_payload_len v = length (vw_payload v)"
  shows "ntrs_binary_frame_next_tlv v (length pre) t = (True, length (pre @ tlv_bytes tv),
    \<lparr>tv_type = uint (fst tv), tv_value = Some (snd tv @ rest), tv_value_len = of_nat (length (snd tv))\<rparr>)"
proof -
  have n: "unat (of_nat (length (snd tv)) :: u16) = length (snd tv)" using assms(1) by (simp add: tlv_ok_def unat_of_nat)
  have "drop (length pre + 2) (vw_payload v) = PutU16Be (of_nat (length (snd tv))) @ snd tv @ rest"
    "drop (length pre + 4) (vw_payload v) = snd tv @ rest"
    "drop (length pre) (vw_payload v) = PutU16Be (fst tv) @ PutU16Be (of_nat (length (snd tv))) @ snd tv @ rest"
    by (simp_all add: assms(2) tlv_bytes_def)
  moreover have "vw_payload_len v = length pre + 4 + length (snd tv) + length rest"
    by (simp add: assms(2,3) length_tlv_bytes)
  ultimately show ?thesis
    by (simp add: ntrs_binary_frame_next_tlv_def ntrs_const Let_def length_tlv_bytes n)
qed

lemma read_tlvs_encoded:
  "\<forall>tv \<in> set tvs. tlv_ok tv \<Longrightarrow> vw_payload v = pre @ concat (map tlv_bytes tvs) \<Longrightarrow> vw_payload_len v = length (vw_payload v) \<Longrightarrow>
     read_tlvs v (length pre) t = (map (\<lambda>tv. (uint (fst tv), snd tv)) tvs, length (vw_payload v))"
proof (induction tvs arbitrary: pre t)
  case Nil
  then have "ntrs_binary_frame_next_tlv v (length pre) t = (False, length pre, t)" by (simp add: ntrs_binary_frame_next_tlv_def)
  then show ?case using Nil by (subst read_tlvs.simps) simp
next
  case (Cons tv tvs)
  have n: "unat (of_nat (length (snd tv)) :: u16) = length (snd tv)" using Cons.prems(1) by (simp add: tlv_ok_def unat_of_nat)
  have "ntrs_binary_frame_next_tlv v (length pre) t = (True, length (pre @ tlv_bytes tv), \<lparr>tv_type = uint (fst tv),
      tv_value = Some (snd tv @ concat (map tlv_bytes tvs)), tv_value_len = of_nat (length (snd tv))\<rparr>)"
    by (rule next_tlv_encoded) (use Cons.prems in simp_all)
  then show ?case
    using Cons.IH [of "pre @ tlv_bytes tv"] Cons.prems by (subst read_tlvs.simps) (simp add: n)
qed

lemma GetU16Be_append: "2 \<le> length xs \<Longrightarrow> GetU16Be (xs @ ys) = GetU16Be xs"
  by (auto simp: GetU16Be_def nth_append)

text \<open>One call of \<open>next_tlv\<close> is one step of the list.\<close>

lemma next_tlv_step:
  assumes "vw_payload_len v = length p" "vw_payload v = p @ rest" "c \<le> length p"
  shows "case ntrs_binary_frame_next_tlv v c t of (b, c', t') \<Rightarrow>
    if b then c < c' \<and> c' \<le> length p \<and> (\<exists>ty val. tlv_list (drop c p) = (ty, val) # tlv_list (drop c' p) \<and>
        tv_type t' = uint ty \<and> unat (tv_value_len t') = length val \<and>
        (\<exists>tl. tv_value t' = Some (val @ tl)))
    else c' = c \<and> t' = t \<and> tlv_list (drop c p) = []"
proof -
  define n where "n = unat (GetU16Be (drop 2 (drop c p)))"
  have get: "GetU16Be (drop c (p @ rest)) = GetU16Be (drop c p)" "GetU16Be (drop (c + 2) (p @ rest)) = GetU16Be (drop 2 (drop c p))"
    if "4 \<le> length p - c"
    using that assms(3) GetU16Be_append [of "drop c p" rest] GetU16Be_append [of "drop (c + 2) p" rest] by (simp_all add: add.commute)
  have l: "tlv_list (drop c p) = (if length p - c < 4 \<or> length p - c - 4 < n then []
      else (GetU16Be (drop c p), take n (drop 4 (drop c p))) # tlv_list (drop (4 + n) (drop c p)))"
    by (subst tlv_list.simps) (simp add: Let_def n_def)
  show ?thesis
  proof (cases "length p - c < 4 \<or> length p - c - 4 < n")
    case True
    then show ?thesis using assms get l
      by (auto simp: ntrs_binary_frame_next_tlv_def Let_def ntrs_const n_def)
  next
    case False
    then have b: "\<not> length p \<le> c" "\<not> length p - c < 4" "\<not> length p - (c + 4) < n" using assms(3) by auto
    have n2: "unat (GetU16Be (drop (Suc (Suc c)) p)) = n" by (simp add: n_def)
    have "tlv_list (drop c p) = (GetU16Be (drop c p), take n (drop 4 (drop c p))) # tlv_list (drop (c + 4 + n) p)"
      using l False by (simp add: ac_simps)
    moreover have "drop (c + 4) (p @ rest) = take n (drop 4 (drop c p)) @ drop n (drop (c + 4) p) @ rest"
      using b append_take_drop_id [of n "drop (c + 4) p"] by (simp add: add.commute)
    moreover have "n = length (take n (drop 4 (drop c p)))" "c + 4 + n \<le> length p" using b assms(3) by auto
    ultimately show ?thesis
      using b assms get n2 by (simp add: ntrs_binary_frame_next_tlv_def Let_def ntrs_const)
  qed
qed

lemma find_tlv_loop_find:
  assumes "vw_payload_len v = length p" "vw_payload v = p @ rest" "c \<le> length p"
  shows "case find_tlv_loop v type c t of (b, t') \<Rightarrow>
    (case find (\<lambda>tv. uint (fst tv) = type) (tlv_list (drop c p)) of
       None \<Rightarrow> \<not> b
     | Some tv \<Rightarrow> b \<and> tv_type t' = uint (fst tv) \<and> unat (tv_value_len t') = length (snd tv) \<and> (\<exists>tl. tv_value t' = Some (snd tv @ tl)))"
  using assms
proof (induction v type c t rule: find_tlv_loop.induct)
  case (1 v type c t)
  obtain b c' t' where n: "ntrs_binary_frame_next_tlv v c t = (b, c', t')" by (metis prod_cases3)
  note s = next_tlv_step [OF "1.prems", of t, unfolded n prod.case]
  show ?case
  proof (cases b)
    case True
    then obtain ty val where e: "tlv_list (drop c p) = (ty, val) # tlv_list (drop c' p)" "tv_type t' = uint ty"
        "unat (tv_value_len t') = length val" "\<exists>tl. tv_value t' = Some (val @ tl)" "c' \<le> length p" using s by auto
    show ?thesis
    proof (cases "uint ty = type")
      case True
      then show ?thesis using \<open>b\<close> e n by (subst find_tlv_loop.simps) simp
    next
      case False
      have "find_tlv_loop v type c t = find_tlv_loop v type c' t'" using \<open>b\<close> n e(2) False by (subst find_tlv_loop.simps) simp
      then show ?thesis using "1.IH" [OF n [symmetric] refl] True False e "1.prems"(1,2) by simp
    qed
  next
    case False
    then show ?thesis using s n by (subst find_tlv_loop.simps) simp
  qed
qed

lemma parse_header_bytes:
  assumes "ntrs_binary_frame_type_is_valid ft" "ntrs_binary_phase_is_valid ph"
    and "data = header_bytes ft ph fl rid seq ts @ p"
  shows "ntrs_binary_frame_parse (Some data) (length data) (Some v) = (True, Some \<lparr>vw_header = \<lparr>bh_magic = NTRS_BINARY_FRAME_MAGIC,
      bh_version = NTRS_BINARY_FRAME_VERSION, bh_frame_type = word_of_int ft, bh_phase = word_of_int ph, bh_flags = fl,
      bh_request_id = rid, bh_sequence = seq, bh_timestamp_ms = ts\<rparr>, vw_payload = p, vw_payload_len = length p\<rparr>)"
proof -
  have b: "data ! 4 = NTRS_BINARY_FRAME_VERSION" "data ! 5 = word_of_int ft" "data ! 6 = word_of_int ph" "data ! 7 = fl"
    "drop 8 data = PutU32Be rid @ PutU32Be seq @ PutU64Be ts @ p" "drop 12 data = PutU32Be seq @ PutU64Be ts @ p"
    "drop 16 data = PutU64Be ts @ p" "drop 24 data = p" "length data = 24 + length p"
    by (simp_all add: assms(3) header_bytes_def nth_append)
  have u: "uint (word_of_int ft :: u8) = ft" "uint (word_of_int ph :: u8) = ph"
    using assms(1,2) by (auto simp: ntrs_binary_frame_type_is_valid_def ntrs_binary_phase_is_valid_def)
  show ?thesis
    using assms(1,2) by (simp add: ntrs_binary_frame_parse_def Let_def b u kNtrsBinaryHeaderSize_def) (simp add: assms(3) header_bytes_def)
qed

text \<open>What a frame holds: the bytes up to its length.\<close>

definition frame_holds :: "bytes \<Rightarrow> nat \<Rightarrow> ntrs_binary_frame \<Rightarrow> bool" where
  "frame_holds bs cap f \<longleftrightarrow> fr_capacity f = cap \<and> fr_length f = length bs \<and> 24 \<le> length bs \<and> length bs \<le> cap \<and>
     (\<exists>rest. fr_buffer f = Some (bs @ rest) \<and> cap \<le> length (bs @ rest))"

lemma add_tlv_holds:
  assumes "frame_holds bs cap f" "tlv_ok tv" "length bs + length (tlv_bytes tv) \<le> cap"
  shows "\<exists>f'. ntrs_binary_frame_add_tlv (Some f) (uint (fst tv)) (Some (snd tv)) (of_nat (length (snd tv))) = (True, Some f') \<and>
    frame_holds (bs @ tlv_bytes tv) cap f'"
proof -
  obtain rest where r: "fr_buffer f = Some (bs @ rest)" "cap \<le> length (bs @ rest)" using assms(1) by (auto simp: frame_holds_def)
  have n: "unat (of_nat (length (snd tv)) :: u16) = length (snd tv)" "uint (fst tv) \<noteq> 0"
    using assms(2) by (simp_all add: tlv_ok_def unat_of_nat uint_0_iff)
  have st: "store_bytes (length bs) (tlv_bytes tv) (bs @ rest) = (bs @ tlv_bytes tv) @ drop (length (tlv_bytes tv)) rest"
    by (simp add: store_bytes_def)
  show ?thesis
    using assms(1,3) r n st
    by (auto simp: ntrs_binary_frame_add_tlv_def frame_holds_def ntrs_const length_tlv_bytes tlv_bytes_def)
qed

lemma add_tlvs_holds:
  "frame_holds bs cap f \<Longrightarrow> \<forall>tv \<in> set ts. tlv_ok tv \<Longrightarrow> length bs + length (concat (map tlv_bytes ts)) \<le> cap \<Longrightarrow>
     \<exists>f'. add_tlvs ts (Some f) = (True, Some f') \<and> frame_holds (bs @ concat (map tlv_bytes ts)) cap f'"
proof (induction ts arbitrary: bs f)
  case (Cons tv ts)
  obtain f1 where f1: "ntrs_binary_frame_add_tlv (Some f) (uint (fst tv)) (Some (snd tv)) (of_nat (length (snd tv))) = (True, Some f1)"
    "frame_holds (bs @ tlv_bytes tv) cap f1"
    using add_tlv_holds [OF Cons.prems(1), of tv] Cons.prems(2,3) by auto
  then show ?case using Cons.IH [OF f1(2)] Cons.prems(2,3) by (cases tv) auto
qed simp

lemma find_none_append: "find P xs = None \<Longrightarrow> find P (xs @ ys) = find P ys"
  by (induction xs) (auto split: if_splits)

lemma find_tlv_found:
  assumes "vw_payload_len v = length p" "vw_payload v = p @ rest" "type \<noteq> 0" "find (\<lambda>tv. uint (fst tv) = type) (tlv_list p) = Some tv"
  shows "\<exists>t'. ntrs_binary_frame_find_tlv (Some v) type (Some t) = (True, Some t') \<and>
    unat (tv_value_len t') = length (snd tv) \<and> (\<exists>tl. tv_value t' = Some (snd tv @ tl))"
  using find_tlv_loop_find [OF assms(1,2), of 0 type t] assms(3,4)
  by (cases "find_tlv_loop v type 0 t") (simp add: ntrs_binary_frame_find_tlv_def ntrs_const)

section \<open>Properties\<close>

text \<open>
  C27. A frame that is built is read back. Into a buffer with room, the header and any list of fields are written by
  \<open>init\<close>, \<open>set_header\<close> and \<open>add_tlv\<close>, all of which succeed; parsing the bytes up to the length of the frame succeeds and gives the
  header; and calling \<open>next_tlv\<close> on that view from cursor 0 until it returns false gives the types and values of the list, in
  order, and ends at the end of the payload.
\<close>

theorem ntrs_frame_roundtrip:
  assumes "24 + length (concat (map tlv_bytes tvs)) \<le> cap" "cap \<le> length buf" "\<forall>tv \<in> set tvs. tlv_ok tv"
    and "ntrs_binary_frame_type_is_valid ft" "ntrs_binary_phase_is_valid ph"
  shows "\<exists>f1 f2 f3 view. ntrs_binary_frame_init (Some f) (Some buf) cap = (True, Some f1) \<and>
    ntrs_binary_frame_set_header (Some f1) ft ph fl rid seq ts = (True, Some f2) \<and>
    add_tlvs tvs (Some f2) = (True, Some f3) \<and>
    ntrs_binary_frame_parse (Some (take (fr_length f3) (the (fr_buffer f3)))) (fr_length f3) (Some v) =
      (True, Some view) \<and>
    vw_header view = \<lparr>bh_magic = NTRS_BINARY_FRAME_MAGIC, bh_version = NTRS_BINARY_FRAME_VERSION, bh_frame_type = word_of_int ft,
      bh_phase = word_of_int ph, bh_flags = fl, bh_request_id = rid, bh_sequence = seq, bh_timestamp_ms = ts\<rparr> \<and>
    read_tlvs view 0 t = (map (\<lambda>tv. (uint (fst tv), snd tv)) tvs, vw_payload_len view)"
proof -
  let ?h = "header_bytes ft ph fl rid seq ts"
  obtain f1 where 1: "ntrs_binary_frame_init (Some f) (Some buf) cap = (True, Some f1)" "fr_capacity f1 = cap"
    "\<exists>b. fr_buffer f1 = Some b \<and> cap \<le> length b"
    using assms(1,2) by (auto simp: ntrs_binary_frame_init_def ntrs_const store_bytes_def)
  have h: "length ?h = 24" by (simp add: header_bytes_def)
  obtain f2 where 2: "ntrs_binary_frame_set_header (Some f1) ft ph fl rid seq ts = (True, Some f2)" "frame_holds ?h cap f2"
  proof -
    obtain b where b: "fr_buffer f1 = Some b" "cap \<le> length b" using 1(3) by blast
    have st: "store_bytes 0 ?h b = ?h @ drop 24 b" by (simp add: store_bytes_def h)
    let ?f = "f1\<lparr>fr_length := 24, fr_buffer := Some (store_bytes 0 ?h b)\<rparr>"
    have "ntrs_binary_frame_set_header (Some f1) ft ph fl rid seq ts = (True, Some ?f)"
      using b 1(2) assms(1,4,5) unfolding ntrs_binary_frame_set_header_def header_bytes_def [symmetric] by (simp add: kNtrsBinaryHeaderSize_def)
    moreover have "frame_holds ?h cap ?f" using st b(2) 1(2) assms(1) h by (simp add: frame_holds_def)
    ultimately show thesis using that by blast
  qed
  obtain f3 where 3: "add_tlvs tvs (Some f2) = (True, Some f3)" "frame_holds (?h @ concat (map tlv_bytes tvs)) cap f3"
    using add_tlvs_holds [OF 2(2) assms(3)] assms(1) h by auto
  then have "take (fr_length f3) (the (fr_buffer f3)) = ?h @ concat (map tlv_bytes tvs)" "fr_length f3 = length (?h @ concat (map tlv_bytes tvs))"
    by (auto simp: frame_holds_def)
  then obtain view where "ntrs_binary_frame_parse (Some (take (fr_length f3) (the (fr_buffer f3)))) (fr_length f3) (Some v) = (True, Some view)"
      "vw_header view = \<lparr>bh_magic = NTRS_BINARY_FRAME_MAGIC, bh_version = NTRS_BINARY_FRAME_VERSION, bh_frame_type = word_of_int ft,
        bh_phase = word_of_int ph, bh_flags = fl, bh_request_id = rid, bh_sequence = seq, bh_timestamp_ms = ts\<rparr>"
      "vw_payload view = concat (map tlv_bytes tvs)" "vw_payload_len view = length (vw_payload view)"
    by (intro that [where view = "\<lparr>vw_header = \<lparr>bh_magic = NTRS_BINARY_FRAME_MAGIC, bh_version = NTRS_BINARY_FRAME_VERSION,
        bh_frame_type = word_of_int ft, bh_phase = word_of_int ph, bh_flags = fl, bh_request_id = rid, bh_sequence = seq,
        bh_timestamp_ms = ts\<rparr>, vw_payload = concat (map tlv_bytes tvs), vw_payload_len = length (concat (map tlv_bytes tvs))\<rparr>"])
       (use parse_header_bytes [OF assms(4,5) refl, of fl rid seq ts "concat (map tlv_bytes tvs)" v] in simp_all)
  then show ?thesis
    using 1(1) 2(1) 3(1) read_tlvs_encoded [OF assms(3), of view "[]" t] by simp
qed

theorem ntrs_frame_roundtrip_witness:
  "\<exists>f1 f2 f3 view. ntrs_binary_frame_init (Some \<lparr>fr_buffer = None, fr_capacity = 0, fr_length = 0\<rparr>) (Some (replicate 40 7)) 40 = (True, Some f1) \<and>
    ntrs_binary_frame_set_header (Some f1) 5 5 0 9 1 1000 = (True, Some f2) \<and>
    add_tlvs [(2, [65, 66]), (4, [])] (Some f2) = (True, Some f3) \<and>
    ntrs_binary_frame_parse (Some (take (fr_length f3) (the (fr_buffer f3)))) (fr_length f3) (Some zero_view) = (True, Some view) \<and>
    bh_sequence (vw_header view) = 1 \<and>
    read_tlvs view 0 \<lparr>tv_type = 0, tv_value = None, tv_value_len = 0\<rparr> = ([(2, [65, 66]), (4, [])], vw_payload_len view)"
  using ntrs_frame_roundtrip [of "[(2, [65, 66]), (4, [])]" 40 "replicate 40 7" 5 5 "\<lparr>fr_buffer = None, fr_capacity = 0, fr_length = 0\<rparr>" 0 9 1 1000 zero_view
      "\<lparr>tv_type = 0, tv_value = None, tv_value_len = 0\<rparr>"]
  by (fastforce simp: length_tlv_bytes tlv_ok_def ntrs_binary_frame_type_is_valid_def ntrs_binary_phase_is_valid_def)

text \<open>
  C28. Searching a field is searching the list. For a view of any payload, well-formed or not, \<open>find_tlv\<close> returns; it reports the
  first field with the type among the complete fields at the front of the payload, with its value inside the payload, and
  false when there is none.
\<close>

theorem find_tlv_first:
  assumes "vw_payload_len v = length p" "vw_payload v = p @ rest" "type \<noteq> 0"
  shows "\<exists>b t'. ntrs_binary_frame_find_tlv (Some v) type (Some t) = (b, Some t') \<and>
    (case find (\<lambda>tv. uint (fst tv) = type) (tlv_list p) of
       None \<Rightarrow> \<not> b
     | Some tv \<Rightarrow> b \<and> tv_type t' = type \<and> unat (tv_value_len t') = length (snd tv) \<and> (\<exists>tl. tv_value t' = Some (snd tv @ tl)))"
proof -
  obtain b t' where r: "find_tlv_loop v type 0 t = (b, t')" by (metis surj_pair)
  then have "ntrs_binary_frame_find_tlv (Some v) type (Some t) = (b, Some t')"
    using assms(3) by (simp add: ntrs_binary_frame_find_tlv_def ntrs_const)
  moreover have "uint (fst tv) = type" if "find (\<lambda>tv. uint (fst tv) = type) (tlv_list p) = Some tv" for tv
    using that by (auto simp: find_Some_iff)
  ultimately show ?thesis using find_tlv_loop_find [OF assms(1,2), of 0 type t] r
    by (intro exI [where x = b] exI [where x = t']) (cases "find (\<lambda>tv. uint (fst tv) = type) (tlv_list p)", simp_all)
qed

definition sample_view :: ntrs_binary_frame_view where
  "sample_view = zero_view\<lparr>vw_payload := [0, 2, 0, 1, 65, 0, 6, 0, 2, 8, 9, 0, 6], vw_payload_len := 13\<rparr>"

theorem find_tlv_first_witness:
  "find (\<lambda>tv. uint (fst tv) = 6) (tlv_list (vw_payload sample_view)) = Some (6, [8, 9]) \<and>
   (\<exists>t'. ntrs_binary_frame_find_tlv (Some sample_view) 6 (Some \<lparr>tv_type = 0, tv_value = None, tv_value_len = 0\<rparr>) = (True, Some t') \<and>
      tv_type t' = 6 \<and> unat (tv_value_len t') = 2)"
proof -
  have f: "find (\<lambda>tv. uint (fst tv) = 6) (tlv_list (vw_payload sample_view)) = Some (6, [8, 9])" by code_simp
  show ?thesis
    using f find_tlv_first [of sample_view "vw_payload sample_view" "[]" 6 "\<lparr>tv_type = 0, tv_value = None, tv_value_len = 0\<rparr>"]
    by (auto simp: sample_view_def zero_view_def)
qed

text \<open>An address as the value of a field, and the address without what the field does not carry.\<close>

fun endpoint_bytes :: "ntrs_sockaddr \<Rightarrow> bytes" where
  "endpoint_bytes (Sa_in port ip) = [4, 0] @ PutU16Be (ntohs port) @ ip"
| "endpoint_bytes (Sa_in6 port flow ip scope) = [6, 0] @ PutU16Be (ntohs port) @ ip"
| "endpoint_bytes (Sa_other n) = []"

fun endpoint_of :: "ntrs_sockaddr \<Rightarrow> ntrs_sockaddr \<times> nat" where
  "endpoint_of (Sa_in port ip) = (Sa_in port ip, 16)"
| "endpoint_of (Sa_in6 port flow ip scope) = (Sa_in6 port 0 ip 0, 28)"
| "endpoint_of (Sa_other n) = (Sa_other n, 0)"

fun endpoint_ok :: "ntrs_sockaddr \<Rightarrow> bool" where
  "endpoint_ok (Sa_in port ip) \<longleftrightarrow> length ip = 4"
| "endpoint_ok (Sa_in6 port flow ip scope) \<longleftrightarrow> length ip = 16"
| "endpoint_ok (Sa_other n) \<longleftrightarrow> False"

lemma htons_ntohs: "htons (ntohs w) = w"
  by (rule bit_word_eqI) (auto simp: htons_def ntohs_def bit_simps)

lemma add_endpoint_eq:
  assumes "endpoint_ok a"
  shows "ntrs_binary_frame_add_endpoint_tlv (Some f) type (Some a) =
    ntrs_binary_frame_add_tlv (Some f) type (Some (endpoint_bytes a)) (of_nat (length (endpoint_bytes a)))"
proof (cases a)
  case (Sa_in port ip)
  have "take 8 (store_bytes 4 (take 4 ip) (store_bytes 2 (PutU16Be (ntohs port)) (store_bytes 0 [NTRS_BINARY_ADDR_FAMILY_IPV4] (replicate 20 0)))) =
      endpoint_bytes a"
    using assms Sa_in by (simp add: store_bytes_def PutU16Be_def ntrs_const eval_nat_numeral)
  then show ?thesis using assms Sa_in
    by (simp add: ntrs_binary_frame_add_endpoint_tlv_def ntrs_binary_frame_add_tlv_def ntrs_const split: option.splits)
next
  case (Sa_in6 port flow ip scope)
  have "take 20 (store_bytes 4 (take 16 ip) (store_bytes 2 (PutU16Be (ntohs port)) (store_bytes 0 [NTRS_BINARY_ADDR_FAMILY_IPV6] (replicate 20 0)))) =
      endpoint_bytes a"
    using assms Sa_in6 by (simp add: store_bytes_def PutU16Be_def ntrs_const eval_nat_numeral)
  then show ?thesis using assms Sa_in6
    by (simp add: ntrs_binary_frame_add_endpoint_tlv_def ntrs_binary_frame_add_tlv_def ntrs_const split: option.splits)
qed (use assms in simp)

lemma parse_endpoint_eq:
  assumes "endpoint_ok a" "tv_value t = Some (endpoint_bytes a @ rest)" "unat (tv_value_len t) = length (endpoint_bytes a)"
  shows "ntrs_binary_tlv_parse_endpoint (Some t) = Some (endpoint_of a)"
proof -
  have l: "tv_value_len t = of_nat (length (endpoint_bytes a))" using arg_cong [OF assms(3), of "of_nat :: nat \<Rightarrow> u16"] by simp
  show ?thesis
    using assms(1,2) by (cases a) (simp_all add: ntrs_binary_tlv_parse_endpoint_def l ntrs_const Let_def htons_ntohs)
qed

text \<open>
  An address survives the frame: added as a field to a frame that has no field of this type, found by its type in the parsed
  bytes and decoded, it is the same family, port and address. The flow information and the scope of an IPv6 address are not carried.
\<close>

lemma endpoint_roundtrip:
  assumes f: "frame_holds (header_bytes ft ph fl rid seq ts @ concat (map tlv_bytes tvs)) cap f" "\<forall>tv \<in> set tvs. tlv_ok tv \<and> fst tv \<noteq> type"
    and v: "ntrs_binary_frame_type_is_valid ft" "ntrs_binary_phase_is_valid ph"
    and a: "endpoint_ok a" "type \<noteq> 0" "fr_length f + 4 + length (endpoint_bytes a) \<le> cap"
  shows "\<exists>f' view t'. ntrs_binary_frame_add_endpoint_tlv (Some f) (uint type) (Some a) = (True, Some f') \<and>
    ntrs_binary_frame_parse (Some (take (fr_length f') (the (fr_buffer f')))) (fr_length f') (Some zero_view) = (True, Some view) \<and>
    ntrs_binary_frame_find_tlv (Some view) (uint type) (Some t) = (True, Some t') \<and>
    ntrs_binary_tlv_parse_endpoint (Some t') = Some (endpoint_of a)"
proof -
  let ?tv = "(type, endpoint_bytes a)" and ?h = "header_bytes ft ph fl rid seq ts"
  have ok: "tlv_ok ?tv" using a(1,2) by (cases a) (simp_all add: tlv_ok_def)
  have len: "length (?h @ concat (map tlv_bytes tvs)) + length (tlv_bytes ?tv) \<le> cap"
    using f(1) a(3) by (simp add: frame_holds_def length_tlv_bytes)
  obtain f' where f': "ntrs_binary_frame_add_endpoint_tlv (Some f) (uint type) (Some a) = (True, Some f')"
      "frame_holds (?h @ concat (map tlv_bytes (tvs @ [?tv]))) cap f'"
    using add_tlv_holds [OF f(1) ok len] unfolding add_endpoint_eq [OF a(1)] by auto
  define p where "p = concat (map tlv_bytes (tvs @ [?tv]))"
  obtain view where view: "ntrs_binary_frame_parse (Some (take (fr_length f') (the (fr_buffer f')))) (fr_length f') (Some zero_view) = (True, Some view)"
      "vw_payload view = p @ []" "vw_payload_len view = length p"
    using parse_header_bytes [OF v refl, of fl rid seq ts p zero_view] f'(2) unfolding p_def [symmetric] by (auto simp: frame_holds_def)
  have "tlv_list p = tvs @ [?tv]" unfolding p_def by (rule tlv_list_encode) (use f(2) ok in auto)
  moreover have "find (\<lambda>tv. uint (fst tv) = uint type) tvs = None" using f(2) by (auto simp: find_None_iff word_uint_eq_iff)
  ultimately have "find (\<lambda>tv. uint (fst tv) = uint type) (tlv_list p) = Some ?tv" by (simp add: find_none_append)
  moreover have "uint type \<noteq> 0" using a(2) by (simp add: uint_0_iff)
  ultimately obtain t' where "ntrs_binary_frame_find_tlv (Some view) (uint type) (Some t) = (True, Some t')"
      "unat (tv_value_len t') = length (endpoint_bytes a)" "\<exists>rest. tv_value t' = Some (endpoint_bytes a @ rest)"
    using find_tlv_found [OF view(3,2), of "uint type" ?tv t] by auto
  then show ?thesis using f'(1) view(1) parse_endpoint_eq [OF a(1)] by blast
qed

end
