(* ===== verification/Ntrs_Codec.thy ===== *)
theory Ntrs_Codec
  imports Ntrs_Frame
begin

text \<open>
  The messages of the NAT traversal service, \<^verbatim>\<open>ntrs/src/ntrs_codec.cpp\<close> with \<^verbatim>\<open>ntrs/src/ntrs/codec.h\<close>: a table of typed
  fields, messages that keep their fields in fixed arrays with an index by tag and a store for the bytes, and their encoding as
  a header of 16 bytes and fields of tag, length and value. Shown is that a message that is encoded and decoded is the
  same message, arrays, index and store included, and what the index by tag finds.

  A message is a value; every function returns at once for a null message. The array of fields is the list of its first \<open>field_count\<close>
  entries. A field holds its bytes as an offset into the store of the message. A C string is the list of its bytes
  before the terminator. The conventions for sizes are those of \<open>Ntrs_Frame\<close>.
\<close>

section \<open>Fields and messages\<close>

datatype FieldType = FT_BYTES | FT_BOOL | FT_U8 | FT_U16 | FT_U32 | FT_I32 | FT_U64

record FieldDef =
  fd_key :: string
  fd_tag :: u16
  fd_type :: FieldType

definition kFieldDefs :: "FieldDef list" where
  "kFieldDefs = map (\<lambda>(k, t, ty). \<lparr>fd_key = k, fd_tag = t, fd_type = ty\<rparr>)
    [
     (''assignment_backup1'', 0x0063, FT_BYTES), (''assignment_primary1'', 0x0061, FT_BYTES), (''assignment_primary2'', 0x0062, FT_BYTES),
     (''assignment_version'', 0x0060, FT_U32), (''backup1_control'', 0x0066, FT_BYTES), (''boot_id'', 0x0041, FT_BYTES),
     (''clusterVersion'', 0x0047, FT_U64), (''code'', 0x0003, FT_BYTES), (''control_endpoint'', 0x002B, FT_BYTES),
     (''connect_role'', 0x007C, FT_U8), (''device_id'', 0x0011, FT_BYTES), (''dst_device_id'', 0x0019, FT_BYTES),
     (''diff_ip_sent'', 0x003F, FT_BOOL), (''dst_peer_id'', 0x0013, FT_BYTES), (''event'', 0x0046, FT_U8),
     (''expire_at'', 0x0054, FT_U32), (''federation'', 0x0056, FT_BYTES), (''heartbeat_interval_sec'', 0x0051, FT_U32),
     (''lease_default_sec'', 0x0052, FT_U32), (''lease_sec'', 0x0050, FT_U32), (''lease_seq'', 0x0053, FT_U32),
     (''load'', 0x0044, FT_U32), (''local_ip'', 0x0020, FT_BYTES), (''local_port'', 0x0021, FT_U16),
     (''message'', 0x0004, FT_BYTES), (''nat_class'', 0x0067, FT_U16), (''nat_type'', 0x0031, FT_BYTES),
     (''node_count'', 0x0048, FT_U32), (''node_id'', 0x0040, FT_BYTES), (''nodes'', 0x0049, FT_BYTES),
     (''peer_id'', 0x0010, FT_BYTES), (''peer_device_id'', 0x001A, FT_BYTES), (''peer_nat_class'', 0x0075, FT_U16),
     (''peer_local_ip'', 0x0079, FT_BYTES), (''peer_local_port'', 0x007A, FT_U16), (''peer_srflx_ip'', 0x0071, FT_BYTES),
     (''peer_srflx_ip_2'', 0x0073, FT_BYTES), (''peer_srflx_port'', 0x0072, FT_U16), (''peer_srflx_port_2'', 0x0074, FT_U16),
     (''primary1_control'', 0x0064, FT_BYTES), (''primary2_control'', 0x0065, FT_BYTES), (''probe1'', 0x007F, FT_BYTES),
     (''probe2'', 0x0080, FT_BYTES), (''probe_endpoint'', 0x0081, FT_BYTES), (''probe_token'', 0x0082, FT_BYTES),
     (''warmup_interval_ms'', 0x007E, FT_U32), (''warmup_rounds'', 0x007D, FT_U32), (''punch_order'', 0x007B, FT_U8),
     (''probe1_distinct_mappings'', 0x003A, FT_U32), (''probe1_ok'', 0x0033, FT_BOOL), (''probe1_rtt_ms'', 0x0035, FT_I32),
     (''probe1_success_count'', 0x0038, FT_U32), (''probe2_distinct_mappings'', 0x003B, FT_U32), (''probe2_ok'', 0x0034, FT_BOOL),
     (''probe2_rtt_ms'', 0x0036, FT_I32), (''probe2_success_count'', 0x0039, FT_U32), (''probe_rounds'', 0x0037, FT_U32),
     (''query'', 0x0017, FT_BYTES), (''reason'', 0x0002, FT_U8), (''region'', 0x0042, FT_BYTES),
     (''result'', 0x0001, FT_U8), (''role'', 0x0016, FT_U8), (''same_ip_diff_port_sent'', 0x003E, FT_BOOL),
     (''selected_control'', 0x002C, FT_BYTES), (''session_id'', 0x0014, FT_BYTES), (''src_peer_id'', 0x0012, FT_BYTES),
     (''src_device_id'', 0x0018, FT_BYTES), (''srflx_ip'', 0x0022, FT_BYTES), (''srflx_ip_2'', 0x0024, FT_BYTES),
     (''srflx_port'', 0x0023, FT_U16), (''srflx_port_2'', 0x0025, FT_U16), (''status'', 0x0043, FT_U8),
     (''target_ip'', 0x0026, FT_BYTES), (''target_port'', 0x0027, FT_U16), (''token'', 0x0015, FT_BYTES),
     (''ts'', 0x0045, FT_BYTES), (''use_alt_port'', 0x002E, FT_BOOL), (''version'', 0x0055, FT_BYTES)
    ]"

text \<open>The type and the union of a field are one datatype. \<open>V_bytes\<close> is the offset of the bytes in the store.\<close>

datatype FieldValue = V_bytes nat | V_boolean u8 | V_u8 u8 | V_u16 u16 | V_u32 u32 | V_i32 int | V_u64 u64

record MessageField =
  mf_key :: "string option"
  mf_tag :: u16
  mf_value :: FieldValue
  mf_value_len :: u16

record Message =
  ms_type :: u8
  ms_request_id :: u32
  ms_fields :: "MessageField list"
  ms_tag_index :: "int list"
  ms_storage :: bytes
  ms_storage_len :: nat

definition MAX_FIELDS :: nat where
  "MAX_FIELDS = 96"

definition STORAGE_SIZE :: nat where
  "STORAGE_SIZE = 8192"

definition TAG_INDEX_SIZE :: nat where
  "TAG_INDEX_SIZE = 128"

definition FRAME_MAGIC :: u32 where
  "FRAME_MAGIC = 0x4E545253"

definition FRAME_VERSION :: u8 where
  "FRAME_VERSION = 1"

definition FRAME_HDR_SIZE :: nat where
  "FRAME_HDR_SIZE = 16"

definition TLV_HDR_SIZE :: nat where
  "TLV_HDR_SIZE = 4"

named_theorems codec_const \<open>the sizes of messages and frames\<close>

declare MAX_FIELDS_def [codec_const] TAG_INDEX_SIZE_def [codec_const] FRAME_MAGIC_def [codec_const]
  FRAME_VERSION_def [codec_const] FRAME_HDR_SIZE_def [codec_const] TLV_HDR_SIZE_def [codec_const]

section \<open>The table of fields\<close>

definition FindFieldDefByKey :: "string option \<Rightarrow> FieldDef option" where
  "FindFieldDefByKey key = (case key of None \<Rightarrow> None | Some k \<Rightarrow> find (\<lambda>d. fd_key d = k) kFieldDefs)"

text \<open>
  The static index is filled in the first call; a later entry of the table replaces an earlier one with its tag. Larger tags are
  searched in the table.
\<close>

definition field_def_index :: "(FieldDef option) list" where
  "field_def_index = foldl (\<lambda>ix d. if unat (fd_tag d) < TAG_INDEX_SIZE then ix[unat (fd_tag d) := Some d] else ix)
     (replicate TAG_INDEX_SIZE None) kFieldDefs"

definition FindFieldDefByTag :: "u16 \<Rightarrow> FieldDef option" where
  "FindFieldDefByTag tag =
     (if unat tag < TAG_INDEX_SIZE then field_def_index ! unat tag else find (\<lambda>d. fd_tag d = tag) kFieldDefs)"

section \<open>Building a message\<close>

definition MessageInit :: "u8 \<Rightarrow> u32 \<Rightarrow> Message" where
  "MessageInit type request_id =
     \<lparr>ms_type = type, ms_request_id = request_id, ms_fields = [], ms_tag_index = replicate TAG_INDEX_SIZE (- 1),
      ms_storage = replicate STORAGE_SIZE 0, ms_storage_len = 0\<rparr>"

text \<open>
  The part \<open>AppendField\<close> and \<open>AppendFieldByTag\<close> have in common, behind their checks: the new field, its value or the copy of its bytes
  with a terminator, and the index.
\<close>

definition index_field :: "u16 \<Rightarrow> Message \<Rightarrow> Message" where
  "index_field tag m =
     (if unat tag < TAG_INDEX_SIZE then m\<lparr>ms_tag_index := (ms_tag_index m)[unat tag := int (length (ms_fields m)) - 1]\<rparr> else m)"

definition store_field_bytes :: "bytes option \<Rightarrow> u16 \<Rightarrow> Message \<Rightarrow> Message" where
  "store_field_bytes data len m =
     (let s1 = (case data of
                  Some d \<Rightarrow> if len > 0 then store_bytes (ms_storage_len m) (take (unat len) d) (ms_storage m) else ms_storage m
                | None \<Rightarrow> ms_storage m)
      in m\<lparr>ms_storage := store_bytes (ms_storage_len m + unat len) [0] s1, ms_storage_len := ms_storage_len m + (unat len + 1)\<rparr>)"

definition append_value :: "string option \<Rightarrow> u16 \<Rightarrow> FieldType \<Rightarrow> bytes option \<Rightarrow> u16 \<Rightarrow> u64 \<Rightarrow> int \<Rightarrow> Message \<Rightarrow> Message" where
  "append_value key tag type data len u64_num i32_num m =
     (let add = (\<lambda>v m. index_field tag (m\<lparr>ms_fields := ms_fields m @ [\<lparr>mf_key = key, mf_tag = tag, mf_value = v, mf_value_len = len\<rparr>]\<rparr>))
      in case type of
           FT_BOOL \<Rightarrow> add (V_boolean (ucast u64_num)) m
         | FT_U8 \<Rightarrow> add (V_u8 (ucast u64_num)) m
         | FT_U16 \<Rightarrow> add (V_u16 (ucast u64_num)) m
         | FT_U32 \<Rightarrow> add (V_u32 (ucast u64_num)) m
         | FT_I32 \<Rightarrow> add (V_i32 i32_num) m
         | FT_U64 \<Rightarrow> add (V_u64 u64_num) m
         | FT_BYTES \<Rightarrow> add (V_bytes (ms_storage_len m)) (store_field_bytes data len m))"

definition AppendField ::
    "string option \<Rightarrow> FieldType \<Rightarrow> bytes option \<Rightarrow> u16 \<Rightarrow> u64 \<Rightarrow> int \<Rightarrow> Message \<Rightarrow> bool \<times> Message" where
  "AppendField key type data len u64_num i32_num m =
     (if key = None \<or> length (ms_fields m) \<ge> MAX_FIELDS then (False, m)
      else if type = FT_BYTES \<and> ms_storage_len m + unat len + 1 > STORAGE_SIZE then (False, m)
      else (case FindFieldDefByKey key of
              Some d \<Rightarrow> (True, append_value (Some (fd_key d)) (fd_tag d) type data len u64_num i32_num m)
            | None \<Rightarrow> (True, append_value key 0 type data len u64_num i32_num m)))"

definition AppendFieldByTag ::
    "u16 \<Rightarrow> FieldType \<Rightarrow> bytes option \<Rightarrow> u16 \<Rightarrow> u64 \<Rightarrow> int \<Rightarrow> Message \<Rightarrow> bool \<times> Message" where
  "AppendFieldByTag tag type data len u64_num i32_num m =
     (if length (ms_fields m) \<ge> MAX_FIELDS then (False, m)
      else if type = FT_BYTES \<and> ms_storage_len m + unat len + 1 > STORAGE_SIZE then (False, m)
      else (True, append_value (map_option fd_key (FindFieldDefByTag tag)) tag type data len u64_num i32_num m))"

text \<open>The length of a string is cast to 16 bits.\<close>

definition c_str :: "bytes option \<Rightarrow> bytes" where
  "c_str value = (case value of None \<Rightarrow> [] | Some v \<Rightarrow> v)"

definition MessageAddString :: "string option \<Rightarrow> bytes option \<Rightarrow> Message \<Rightarrow> bool \<times> Message" where
  "MessageAddString key value = AppendField key FT_BYTES (Some (c_str value)) (of_nat (length (c_str value))) 0 0"

definition MessageAddStringByTag :: "u16 \<Rightarrow> bytes option \<Rightarrow> Message \<Rightarrow> bool \<times> Message" where
  "MessageAddStringByTag tag value = AppendFieldByTag tag FT_BYTES (Some (c_str value)) (of_nat (length (c_str value))) 0 0"

definition MessageAddBytes :: "string option \<Rightarrow> bytes option \<Rightarrow> u16 \<Rightarrow> Message \<Rightarrow> bool \<times> Message" where
  "MessageAddBytes key data len m = (if data = None \<and> len \<noteq> 0 then (False, m) else AppendField key FT_BYTES data len 0 0 m)"

definition MessageAddBytesByTag :: "u16 \<Rightarrow> bytes option \<Rightarrow> u16 \<Rightarrow> Message \<Rightarrow> bool \<times> Message" where
  "MessageAddBytesByTag tag data len m = (if data = None \<and> len \<noteq> 0 then (False, m) else AppendFieldByTag tag FT_BYTES data len 0 0 m)"

definition MessageAddBool :: "string option \<Rightarrow> bool \<Rightarrow> Message \<Rightarrow> bool \<times> Message" where
  "MessageAddBool key value = AppendField key FT_BOOL None 1 (if value then 1 else 0) 0"

definition MessageAddBoolByTag :: "u16 \<Rightarrow> bool \<Rightarrow> Message \<Rightarrow> bool \<times> Message" where
  "MessageAddBoolByTag tag value = AppendFieldByTag tag FT_BOOL None 1 (if value then 1 else 0) 0"

definition MessageAddU8 :: "string option \<Rightarrow> u8 \<Rightarrow> Message \<Rightarrow> bool \<times> Message" where
  "MessageAddU8 key value = AppendField key FT_U8 None 1 (ucast value) 0"

definition MessageAddU8ByTag :: "u16 \<Rightarrow> u8 \<Rightarrow> Message \<Rightarrow> bool \<times> Message" where
  "MessageAddU8ByTag tag value = AppendFieldByTag tag FT_U8 None 1 (ucast value) 0"

definition MessageAddU16 :: "string option \<Rightarrow> u16 \<Rightarrow> Message \<Rightarrow> bool \<times> Message" where
  "MessageAddU16 key value = AppendField key FT_U16 None 2 (ucast value) 0"

definition MessageAddU16ByTag :: "u16 \<Rightarrow> u16 \<Rightarrow> Message \<Rightarrow> bool \<times> Message" where
  "MessageAddU16ByTag tag value = AppendFieldByTag tag FT_U16 None 2 (ucast value) 0"

definition MessageAddU32 :: "string option \<Rightarrow> u32 \<Rightarrow> Message \<Rightarrow> bool \<times> Message" where
  "MessageAddU32 key value = AppendField key FT_U32 None 4 (ucast value) 0"

definition MessageAddU32ByTag :: "u16 \<Rightarrow> u32 \<Rightarrow> Message \<Rightarrow> bool \<times> Message" where
  "MessageAddU32ByTag tag value = AppendFieldByTag tag FT_U32 None 4 (ucast value) 0"

definition MessageAddI32 :: "string option \<Rightarrow> int \<Rightarrow> Message \<Rightarrow> bool \<times> Message" where
  "MessageAddI32 key value = AppendField key FT_I32 None 4 0 value"

definition MessageAddI32ByTag :: "u16 \<Rightarrow> int \<Rightarrow> Message \<Rightarrow> bool \<times> Message" where
  "MessageAddI32ByTag tag value = AppendFieldByTag tag FT_I32 None 4 0 value"

definition MessageAddU64 :: "string option \<Rightarrow> u64 \<Rightarrow> Message \<Rightarrow> bool \<times> Message" where
  "MessageAddU64 key value = AppendField key FT_U64 None 8 value 0"

definition MessageAddU64ByTag :: "u16 \<Rightarrow> u64 \<Rightarrow> Message \<Rightarrow> bool \<times> Message" where
  "MessageAddU64ByTag tag value = AppendFieldByTag tag FT_U64 None 8 value 0"

section \<open>Looking up a field\<close>

definition FindField :: "string option \<Rightarrow> Message \<Rightarrow> MessageField option" where
  "FindField key m = (case key of None \<Rightarrow> None | Some k \<Rightarrow> find (\<lambda>f. mf_key f = Some k) (ms_fields m))"

text \<open>The search by tag may enter what it finds into the index, also of a message that is \<open>const\<close>.\<close>

fun find_tag_loop :: "u16 \<Rightarrow> MessageField list \<Rightarrow> nat \<Rightarrow> (nat \<times> MessageField) option" where
  "find_tag_loop tag [] i = None"
| "find_tag_loop tag (f # fs) i = (if mf_tag f = tag then Some (i, f) else find_tag_loop tag fs (i + 1))"

definition FindFieldByTag :: "u16 \<Rightarrow> Message \<Rightarrow> MessageField option \<times> Message" where
  "FindFieldByTag tag m =
     (let ix = (if unat tag < TAG_INDEX_SIZE then ms_tag_index m ! unat tag else - 1)
      in if unat tag < TAG_INDEX_SIZE \<and> ix \<ge> 0 \<and> nat ix < length (ms_fields m) then (Some (ms_fields m ! nat ix), m)
         else (case find_tag_loop tag (ms_fields m) 0 of
                 None \<Rightarrow> (None, m)
               | Some (i, f) \<Rightarrow>
                   (Some f, if unat tag < TAG_INDEX_SIZE then m\<lparr>ms_tag_index := (ms_tag_index m)[unat tag := int i]\<rparr> else m)))"

text \<open>
  The value of a field by its type. For a string, the bytes from the offset to the first zero; for bytes, as many as the length says.
  \<open>None\<close> is the result false, and the empty string for \<open>get_string\<close>.
\<close>

definition get_string :: "Message \<Rightarrow> MessageField option \<Rightarrow> bytes" where
  "get_string m fo = (case fo of Some f \<Rightarrow> (case mf_value f of V_bytes off \<Rightarrow> takeWhile (\<lambda>b. b \<noteq> 0) (drop off (ms_storage m)) | _ \<Rightarrow> []) | None \<Rightarrow> [])"

definition get_bytes :: "Message \<Rightarrow> MessageField option \<Rightarrow> bytes option" where
  "get_bytes m fo = (case fo of
     Some f \<Rightarrow> (case mf_value f of V_bytes off \<Rightarrow> Some (take (unat (mf_value_len f)) (drop off (ms_storage m))) | _ \<Rightarrow> None) | None \<Rightarrow> None)"

definition get_bool :: "MessageField option \<Rightarrow> bool option" where
  "get_bool fo = (case fo of Some f \<Rightarrow> (case mf_value f of V_boolean b \<Rightarrow> Some (b \<noteq> 0) | _ \<Rightarrow> None) | None \<Rightarrow> None)"

definition get_u8 :: "MessageField option \<Rightarrow> u8 option" where
  "get_u8 fo = (case fo of Some f \<Rightarrow> (case mf_value f of V_u8 v \<Rightarrow> Some v | _ \<Rightarrow> None) | None \<Rightarrow> None)"

definition get_u16 :: "MessageField option \<Rightarrow> u16 option" where
  "get_u16 fo = (case fo of Some f \<Rightarrow> (case mf_value f of V_u16 v \<Rightarrow> Some v | _ \<Rightarrow> None) | None \<Rightarrow> None)"

definition get_u32 :: "MessageField option \<Rightarrow> u32 option" where
  "get_u32 fo = (case fo of Some f \<Rightarrow> (case mf_value f of V_u32 v \<Rightarrow> Some v | _ \<Rightarrow> None) | None \<Rightarrow> None)"

definition get_i32 :: "MessageField option \<Rightarrow> int option" where
  "get_i32 fo = (case fo of Some f \<Rightarrow> (case mf_value f of V_i32 v \<Rightarrow> Some v | _ \<Rightarrow> None) | None \<Rightarrow> None)"

definition get_u64 :: "MessageField option \<Rightarrow> u64 option" where
  "get_u64 fo = (case fo of Some f \<Rightarrow> (case mf_value f of V_u64 v \<Rightarrow> Some v | _ \<Rightarrow> None) | None \<Rightarrow> None)"

definition MessageGetString :: "Message \<Rightarrow> string option \<Rightarrow> bytes" where
  "MessageGetString m key = get_string m (FindField key m)"

definition MessageGetStringByTag :: "Message \<Rightarrow> u16 \<Rightarrow> bytes \<times> Message" where
  "MessageGetStringByTag m tag = (case FindFieldByTag tag m of (fo, m') \<Rightarrow> (get_string m' fo, m'))"

definition MessageGetBytes :: "Message \<Rightarrow> string option \<Rightarrow> bytes option" where
  "MessageGetBytes m key = get_bytes m (FindField key m)"

definition MessageGetBytesByTag :: "Message \<Rightarrow> u16 \<Rightarrow> bytes option \<times> Message" where
  "MessageGetBytesByTag m tag = (case FindFieldByTag tag m of (fo, m') \<Rightarrow> (get_bytes m' fo, m'))"

definition MessageGetBool :: "Message \<Rightarrow> string option \<Rightarrow> bool option" where
  "MessageGetBool m key = get_bool (FindField key m)"

definition MessageGetBoolByTag :: "Message \<Rightarrow> u16 \<Rightarrow> bool option \<times> Message" where
  "MessageGetBoolByTag m tag = (case FindFieldByTag tag m of (fo, m') \<Rightarrow> (get_bool fo, m'))"

definition MessageGetU8 :: "Message \<Rightarrow> string option \<Rightarrow> u8 option" where
  "MessageGetU8 m key = get_u8 (FindField key m)"

definition MessageGetU8ByTag :: "Message \<Rightarrow> u16 \<Rightarrow> u8 option \<times> Message" where
  "MessageGetU8ByTag m tag = (case FindFieldByTag tag m of (fo, m') \<Rightarrow> (get_u8 fo, m'))"

definition MessageGetU16 :: "Message \<Rightarrow> string option \<Rightarrow> u16 option" where
  "MessageGetU16 m key = get_u16 (FindField key m)"

definition MessageGetU16ByTag :: "Message \<Rightarrow> u16 \<Rightarrow> u16 option \<times> Message" where
  "MessageGetU16ByTag m tag = (case FindFieldByTag tag m of (fo, m') \<Rightarrow> (get_u16 fo, m'))"

definition MessageGetU32 :: "Message \<Rightarrow> string option \<Rightarrow> u32 option" where
  "MessageGetU32 m key = get_u32 (FindField key m)"

definition MessageGetU32ByTag :: "Message \<Rightarrow> u16 \<Rightarrow> u32 option \<times> Message" where
  "MessageGetU32ByTag m tag = (case FindFieldByTag tag m of (fo, m') \<Rightarrow> (get_u32 fo, m'))"

definition MessageGetI32 :: "Message \<Rightarrow> string option \<Rightarrow> int option" where
  "MessageGetI32 m key = get_i32 (FindField key m)"

definition MessageGetI32ByTag :: "Message \<Rightarrow> u16 \<Rightarrow> int option \<times> Message" where
  "MessageGetI32ByTag m tag =
     (case FindFieldByTag tag m of (fo, m') \<Rightarrow> (if map_option mf_value_len fo = Some 4 then get_i32 fo else None, m'))"

definition MessageGetU64 :: "Message \<Rightarrow> string option \<Rightarrow> u64 option" where
  "MessageGetU64 m key = get_u64 (FindField key m)"

definition MessageGetU64ByTag :: "Message \<Rightarrow> u16 \<Rightarrow> u64 option \<times> Message" where
  "MessageGetU64ByTag m tag =
     (case FindFieldByTag tag m of (fo, m') \<Rightarrow> (if map_option mf_value_len fo = Some 8 then get_u64 fo else None, m'))"

definition MessageFieldEquals :: "Message \<Rightarrow> string option \<Rightarrow> bytes option \<Rightarrow> bool" where
  "MessageFieldEquals m key value \<longleftrightarrow> MessageGetString m key = c_str value"

definition MessageFieldEqualsByTag :: "Message \<Rightarrow> u16 \<Rightarrow> bytes option \<Rightarrow> bool \<times> Message" where
  "MessageFieldEqualsByTag m tag value = (case MessageGetStringByTag m tag of (s, m') \<Rightarrow> (s = c_str value, m'))"

text \<open>The names of the codes.\<close>

definition ResultCodeName :: "u8 \<Rightarrow> string" where
  "ResultCodeName code = (if code = 1 then ''ok'' else if code = 2 then ''degraded'' else if code = 3 then ''failed'' else ''unknown'')"

definition RoleCodeName :: "u8 \<Rightarrow> string" where
  "RoleCodeName code = (if code = 1 then ''initiator'' else if code = 2 then ''responder'' else ''unknown'')"

definition NodeStatusCodeName :: "u8 \<Rightarrow> string" where
  "NodeStatusCodeName code = (if code = 1 then ''registered'' else if code = 2 then ''online'' else if code = 3 then ''offline'' else ''unknown'')"

definition ReasonCodeName :: "u8 \<Rightarrow> string" where
  "ReasonCodeName code = (if code = 1 then ''startup'' else if code = 2 then ''lwt'' else if code = 3 then ''client_exit'' else ''none'')"

definition EventCodeName :: "u8 \<Rightarrow> string" where
  "EventCodeName code =
     (if code = 1 then ''assignment'' else if code = 2 then ''node_registered'' else if code = 3 then ''node_generation_replaced''
      else if code = 4 then ''node_online'' else if code = 5 then ''node_abnormal_offline'' else if code = 6 then ''node_offline''
      else if code = 7 then ''node_status_changed'' else if code = 8 then ''node_heartbeat'' else if code = 9 then ''node_evicted''
      else ''unknown'')"

section \<open>Encoding\<close>

definition encode_value :: "bytes \<Rightarrow> MessageField \<Rightarrow> bytes" where
  "encode_value storage f =
     (case mf_value f of
        V_boolean b \<Rightarrow> [b]
      | V_u8 v \<Rightarrow> [v]
      | V_u16 v \<Rightarrow> PutU16Be v
      | V_u32 v \<Rightarrow> PutU32Be v
      | V_i32 v \<Rightarrow> PutU32Be (word_of_int v)
      | V_u64 v \<Rightarrow> PutU64Be v
      | V_bytes off \<Rightarrow> if mf_value_len f > 0 then take (unat (mf_value_len f)) (drop off storage) else [])"

text \<open>The loop over the fields: \<open>Inl\<close> is the return of -2, with what is in the buffer then. Fields without a tag are left out.\<close>

fun encode_fields :: "bytes \<Rightarrow> nat \<Rightarrow> MessageField list \<Rightarrow> nat \<Rightarrow> bytes \<Rightarrow> bytes + nat \<times> bytes" where
  "encode_fields storage cap [] off out = Inr (off, out)"
| "encode_fields storage cap (f # fs) off out =
     (if mf_tag f = 0 then encode_fields storage cap fs off out
      else if off + (TLV_HDR_SIZE + unat (mf_value_len f)) > cap then Inl out
      else
        let out1 = store_bytes (off + 2) (PutU16Be (mf_value_len f)) (store_bytes off (PutU16Be (mf_tag f)) out);
            off1 = off + TLV_HDR_SIZE
        in encode_fields storage cap fs (off1 + unat (mf_value_len f)) (store_bytes off1 (encode_value storage f) out1))"

definition EncodeMessage :: "Message \<Rightarrow> bytes option \<Rightarrow> nat \<Rightarrow> int \<times> bytes option \<times> nat option" where
  "EncodeMessage m buf cap =
     (case buf of
        None \<Rightarrow> (- 1, buf, None)
      | Some out \<Rightarrow>
          if cap < FRAME_HDR_SIZE then (- 1, buf, None)
          else (case encode_fields (ms_storage m) cap (ms_fields m) FRAME_HDR_SIZE out of
                  Inl out' \<Rightarrow> (- 2, Some out', None)
                | Inr (off, out') \<Rightarrow>
                    (0, Some (store_bytes 12 (PutU32Be (of_nat (off - FRAME_HDR_SIZE)))
                          (store_bytes 8 (PutU32Be (ms_request_id m))
                          (store_bytes 6 (PutU16Be 0)
                          (store_bytes 5 [ms_type m]
                          (store_bytes 4 [FRAME_VERSION]
                          (store_bytes 0 (PutU32Be FRAME_MAGIC) out')))))), Some off)))"

section \<open>Decoding\<close>

text \<open>The size of a frame is computed with 64 bits and cut to 32.\<close>

definition FrameSizeFromHeader :: "bytes option \<Rightarrow> nat \<Rightarrow> u32 option" where
  "FrameSizeFromHeader data len =
     (case data of
        None \<Rightarrow> None
      | Some p \<Rightarrow>
          if len < FRAME_HDR_SIZE then None
          else if GetU32Be p \<noteq> FRAME_MAGIC \<or> p ! 4 \<noteq> FRAME_VERSION then None
          else Some (ucast (of_nat FRAME_HDR_SIZE + ucast (GetU32Be (drop 12 p)) :: u64)))"

definition CopyDecodedBytes :: "FieldDef \<Rightarrow> bytes \<Rightarrow> u16 \<Rightarrow> Message \<Rightarrow> bool \<times> Message" where
  "CopyDecodedBytes d data len m =
     (let bad = (case fd_type d of
            FT_BOOL \<Rightarrow> len \<noteq> 1 | FT_U8 \<Rightarrow> len \<noteq> 1 | FT_U16 \<Rightarrow> len \<noteq> 2 | FT_U32 \<Rightarrow> len \<noteq> 4 | FT_I32 \<Rightarrow> len \<noteq> 4 | FT_U64 \<Rightarrow> len \<noteq> 8
          | FT_BYTES \<Rightarrow> ms_storage_len m + unat len + 1 > STORAGE_SIZE);
          add = (\<lambda>v n m. index_field (fd_tag d) (m\<lparr>ms_fields := ms_fields m @
                  [\<lparr>mf_key = Some (fd_key d), mf_tag = fd_tag d, mf_value = v, mf_value_len = n\<rparr>]\<rparr>))
      in if length (ms_fields m) \<ge> MAX_FIELDS then (False, m)
         else if bad then (False, m)
         else (True,
           case fd_type d of
             FT_BOOL \<Rightarrow> add (V_boolean (if data ! 0 = 0 then 0 else 1)) 1 m
           | FT_U8 \<Rightarrow> add (V_u8 (data ! 0)) 1 m
           | FT_U16 \<Rightarrow> add (V_u16 (GetU16Be data)) 2 m
           | FT_U32 \<Rightarrow> add (V_u32 (GetU32Be data)) 4 m
           | FT_I32 \<Rightarrow> add (V_i32 (sint (GetU32Be data))) 4 m
           | FT_U64 \<Rightarrow> add (V_u64 (GetU64Be data)) 8 m
           | FT_BYTES \<Rightarrow>
               add (V_bytes (ms_storage_len m)) len
                 (m\<lparr>ms_storage := store_bytes (ms_storage_len m + unat len) [0]
                      (store_bytes (ms_storage_len m) (take (unat len) data) (ms_storage m)),
                    ms_storage_len := ms_storage_len m + (unat len + 1)\<rparr>)))"

text \<open>The loop over the body; \<open>e\<close> is the end of the frame. Fields with a tag that is not in the table are skipped.\<close>

function decode_fields :: "bytes \<Rightarrow> nat \<Rightarrow> nat \<Rightarrow> Message \<Rightarrow> bool \<times> Message" where
  "decode_fields p e off m =
     (if off + TLV_HDR_SIZE \<le> e then
        let tag = GetU16Be (drop off p);
            value_len = GetU16Be (drop (off + 2) p);
            off1 = off + TLV_HDR_SIZE
        in if off1 + unat value_len > e then (False, m)
           else (case FindFieldDefByTag tag of
                   None \<Rightarrow> decode_fields p e (off1 + unat value_len) m
                 | Some d \<Rightarrow>
                     (case CopyDecodedBytes d (drop off1 p) value_len m of
                        (ok, m') \<Rightarrow> if ok then decode_fields p e (off1 + unat value_len) m' else (False, m')))
      else (True, m))"
  by auto

termination
  by (relation "measure (\<lambda>(p, e, off, m). e - off)") (auto simp: TLV_HDR_SIZE_def)

definition DecodeMessage :: "bytes option \<Rightarrow> nat \<Rightarrow> Message \<Rightarrow> bool \<times> Message" where
  "DecodeMessage data len msg =
     (case data of
        None \<Rightarrow> (False, msg)
      | Some p \<Rightarrow>
          let m0 = MessageInit 0 0
          in (case FrameSizeFromHeader data len of
                None \<Rightarrow> (False, m0)
              | Some frame_size \<Rightarrow>
                  if unat frame_size > len \<or> unat frame_size < FRAME_HDR_SIZE then (False, m0)
                  else
                    let body_len = frame_size - of_nat FRAME_HDR_SIZE;
                        m1 = m0\<lparr>ms_type := p ! 5, ms_request_id := GetU32Be (drop 8 p)\<rparr>
                    in (case decode_fields p (FRAME_HDR_SIZE + unat body_len) FRAME_HDR_SIZE m1 of
                          (ok, m2) \<Rightarrow> (ok \<and> ms_type m2 \<noteq> 0, m2))))"

section \<open>Invariant\<close>

text \<open>
  The index by tag is exact: the entry of a tag is the position of the last field with the tag, and -1 when there is none; the store
  has its size and holds what was put into it.
\<close>

definition last_index :: "u16 \<Rightarrow> MessageField list \<Rightarrow> int" where
  "last_index tag fs = foldl (\<lambda>r (i, f). if mf_tag f = tag then int i else r) (- 1) (enumerate 0 fs)"

definition message_wf :: "Message \<Rightarrow> bool" where
  "message_wf m \<longleftrightarrow> length (ms_tag_index m) = TAG_INDEX_SIZE \<and> length (ms_storage m) = STORAGE_SIZE \<and> ms_storage_len m \<le> STORAGE_SIZE \<and>
     length (ms_fields m) \<le> MAX_FIELDS \<and>
     (\<forall>f \<in> set (ms_fields m). \<forall>off. mf_value f = V_bytes off \<longrightarrow> off + unat (mf_value_len f) \<le> ms_storage_len m) \<and>
     (\<forall>tag. unat tag < TAG_INDEX_SIZE \<longrightarrow> ms_tag_index m ! unat tag = last_index tag (ms_fields m))"

section \<open>Fields by tag\<close>

text \<open>The seven functions that add a field by its tag, as one operation on a typed value.\<close>

datatype field_arg = A_bytes bytes | A_bool bool | A_u8 u8 | A_u16 u16 | A_u32 u32 | A_i32 int | A_u64 u64

fun arg_type :: "field_arg \<Rightarrow> FieldType" where
  "arg_type (A_bytes v) = FT_BYTES"
| "arg_type (A_bool v) = FT_BOOL"
| "arg_type (A_u8 v) = FT_U8"
| "arg_type (A_u16 v) = FT_U16"
| "arg_type (A_u32 v) = FT_U32"
| "arg_type (A_i32 v) = FT_I32"
| "arg_type (A_u64 v) = FT_U64"

fun arg_len :: "field_arg \<Rightarrow> nat" where
  "arg_len (A_bytes v) = length v"
| "arg_len (A_bool v) = 1"
| "arg_len (A_u8 v) = 1"
| "arg_len (A_u16 v) = 2"
| "arg_len (A_u32 v) = 4"
| "arg_len (A_i32 v) = 4"
| "arg_len (A_u64 v) = 8"

fun arg_store :: "field_arg \<Rightarrow> nat" where
  "arg_store (A_bytes v) = length v + 1"
| "arg_store v = 0"

fun arg_bytes :: "field_arg \<Rightarrow> bytes" where
  "arg_bytes (A_bytes v) = v"
| "arg_bytes (A_bool v) = [if v then 1 else 0]"
| "arg_bytes (A_u8 v) = [v]"
| "arg_bytes (A_u16 v) = PutU16Be v"
| "arg_bytes (A_u32 v) = PutU32Be v"
| "arg_bytes (A_i32 v) = PutU32Be (word_of_int v)"
| "arg_bytes (A_u64 v) = PutU64Be v"

fun add_arg :: "u16 \<Rightarrow> field_arg \<Rightarrow> Message \<Rightarrow> bool \<times> Message" where
  "add_arg tag (A_bytes v) = MessageAddBytesByTag tag (Some v) (of_nat (length v))"
| "add_arg tag (A_bool v) = MessageAddBoolByTag tag v"
| "add_arg tag (A_u8 v) = MessageAddU8ByTag tag v"
| "add_arg tag (A_u16 v) = MessageAddU16ByTag tag v"
| "add_arg tag (A_u32 v) = MessageAddU32ByTag tag v"
| "add_arg tag (A_i32 v) = MessageAddI32ByTag tag v"
| "add_arg tag (A_u64 v) = MessageAddU64ByTag tag v"

fun add_args :: "(u16 \<times> field_arg) list \<Rightarrow> Message \<Rightarrow> bool \<times> Message" where
  "add_args [] m = (True, m)"
| "add_args ((tag, a) # fs) m = (case add_arg tag a m of (ok, m') \<Rightarrow> if ok then add_args fs m' else (False, m'))"

text \<open>A value that fits its field: the tag is in the table with the type, and the value is in the range of its type.\<close>

definition arg_ok :: "u16 \<times> field_arg \<Rightarrow> bool" where
  "arg_ok ta \<longleftrightarrow> fst ta \<noteq> 0 \<and> map_option fd_type (FindFieldDefByTag (fst ta)) = Some (arg_type (snd ta)) \<and>
     (case snd ta of A_i32 v \<Rightarrow> - (2 ^ 31) \<le> v \<and> v < 2 ^ 31 | _ \<Rightarrow> True)"

definition wire_field :: "u16 \<times> field_arg \<Rightarrow> bytes" where
  "wire_field ta = tlv_bytes (fst ta, arg_bytes (snd ta))"

declare decode_fields.simps [simp del]

section \<open>Lemmas\<close>

subsection \<open>The table\<close>

definition tag_index_ok :: "FieldDef option list \<Rightarrow> bool" where
  "tag_index_ok ix \<longleftrightarrow> length ix = TAG_INDEX_SIZE \<and> (\<forall>i < TAG_INDEX_SIZE. \<forall>d. ix ! i = Some d \<longrightarrow> unat (fd_tag d) = i)"

lemma tag_index_ok_add: "tag_index_ok ix \<Longrightarrow> tag_index_ok (if unat (fd_tag d) < TAG_INDEX_SIZE then ix[unat (fd_tag d) := Some d] else ix)"
  by (simp add: tag_index_ok_def nth_list_update)

lemma field_def_index_ok: "tag_index_ok field_def_index"
proof -
  have step: "tag_index_ok (foldl (\<lambda>ix d. if unat (fd_tag d) < TAG_INDEX_SIZE then ix[unat (fd_tag d) := Some d] else ix) ix ds)"
    if "tag_index_ok ix" for ix and ds :: "FieldDef list"
    using that
  proof (induction ds arbitrary: ix)
    case (Cons d ds)
    show ?case using Cons.IH [OF tag_index_ok_add [OF Cons.prems]] by simp
  qed simp
  show ?thesis unfolding field_def_index_def by (rule step) (simp add: tag_index_ok_def)
qed

lemma FindFieldDefByTag_tag: "FindFieldDefByTag tag = Some d \<Longrightarrow> fd_tag d = tag"
  using field_def_index_ok by (auto simp: FindFieldDefByTag_def tag_index_ok_def find_Some_iff word_unat_eq_iff split: if_splits)

subsection \<open>Adding a field\<close>

lemma store_nothing: "store_bytes i [] buf = buf"
  by (simp add: store_bytes_def)

lemma widen_narrow [simp]:
  "(ucast (ucast (a :: u8) :: u64) :: u8) = a" "(ucast (ucast (b :: u16) :: u64) :: u16) = b" "(ucast (ucast (c :: u32) :: u64) :: u32) = c"
  by (auto intro!: bit_word_eqI simp: bit_simps dest: bit_imp_le_length)

lemma arg_len_bytes: "length (arg_bytes a) = arg_len a"
  by (cases a) simp_all

lemma index_field_frame [simp]:
  "ms_fields (index_field t m) = ms_fields m" "ms_storage (index_field t m) = ms_storage m" "ms_type (index_field t m) = ms_type m"
  "ms_storage_len (index_field t m) = ms_storage_len m" "ms_request_id (index_field t m) = ms_request_id m"
  by (simp_all add: index_field_def)

lemmas add_by_tag_defs = MessageAddBytesByTag_def MessageAddBoolByTag_def MessageAddU8ByTag_def MessageAddU16ByTag_def MessageAddU32ByTag_def
  MessageAddI32ByTag_def MessageAddU64ByTag_def AppendFieldByTag_def append_value_def

lemma store_field_bytes_eq:
  assumes "unat len = length v"
  shows "store_field_bytes (Some v) len m = m\<lparr>ms_storage := store_bytes (ms_storage_len m + length v) [0] (store_bytes (ms_storage_len m) v (ms_storage m)),
    ms_storage_len := ms_storage_len m + (length v + 1)\<rparr>"
proof (cases "len = 0")
  case True
  then show ?thesis using assms by (simp add: store_field_bytes_def store_nothing)
next
  case False
  then show ?thesis using assms by (simp add: store_field_bytes_def word_gt_0)
qed

text \<open>What the decoder does with an encoded field is what adding it did.\<close>

lemma copy_is_add:
  assumes "arg_ok (tag, a)" "arg_len a < 2 ^ 16" "FindFieldDefByTag tag = Some d"
  shows "CopyDecodedBytes d (arg_bytes a @ rest) (of_nat (arg_len a)) m = add_arg tag a m"
proof -
  have d: "fd_tag d = tag" "fd_type d = arg_type a" using FindFieldDefByTag_tag [OF assms(3)] assms(1,3) by (auto simp: arg_ok_def)
  show ?thesis
  proof (cases a)
    case (A_bytes v)
    have "unat (of_nat (length v) :: u16) = length v" using assms(2) A_bytes by (simp add: unat_of_nat)
    then show ?thesis
      using A_bytes d assms(3) by (simp add: CopyDecodedBytes_def add_by_tag_defs store_field_bytes_eq Let_def)
  next
    case (A_i32 v)
    then have "sint (word_of_int v :: u32) = v" using assms(1) by (simp add: arg_ok_def sint_sbintrunc' signed_take_bit_int_eq_self)
    then show ?thesis using A_i32 d assms(3) by (simp add: CopyDecodedBytes_def add_by_tag_defs Let_def)
  qed (use d assms(3) in \<open>simp_all add: CopyDecodedBytes_def add_by_tag_defs Let_def\<close>)
qed

text \<open>A message holds a list of typed values.\<close>

definition field_holds :: "Message \<Rightarrow> MessageField \<Rightarrow> u16 \<times> field_arg \<Rightarrow> bool" where
  "field_holds m f ta \<longleftrightarrow> mf_tag f = fst ta \<and> unat (mf_value_len f) = arg_len (snd ta) \<and> encode_value (ms_storage m) f = arg_bytes (snd ta) \<and>
     (\<forall>off. mf_value f = V_bytes off \<longrightarrow> off + arg_len (snd ta) \<le> ms_storage_len m)"

definition message_holds :: "Message \<Rightarrow> (u16 \<times> field_arg) list \<Rightarrow> bool" where
  "message_holds m fs \<longleftrightarrow> list_all2 (field_holds m) (ms_fields m) fs \<and> ms_storage_len m = sum_list (map (arg_store \<circ> snd) fs) \<and>
     length (ms_storage m) = STORAGE_SIZE \<and> ms_storage_len m \<le> STORAGE_SIZE"

lemma take_drop_prefix: "take k xs = take k ys \<Longrightarrow> i + n \<le> k \<Longrightarrow> take n (drop i xs) = take n (drop i ys)"
  by (metis (no_types, lifting) drop_take min.absorb1 le_diff_conv2 add.commute take_take add_leD1)

lemma field_holds_mono:
  assumes "field_holds m f ta" "take (ms_storage_len m) (ms_storage m') = take (ms_storage_len m) (ms_storage m)" "ms_storage_len m \<le> ms_storage_len m'"
  shows "field_holds m' f ta"
proof (cases "mf_value f")
  case (V_bytes off)
  then have "take (unat (mf_value_len f)) (drop off (ms_storage m')) = take (unat (mf_value_len f)) (drop off (ms_storage m))"
    using assms(1,2) by (intro take_drop_prefix [of "ms_storage_len m"]) (auto simp: field_holds_def)
  then show ?thesis using assms(1,3) V_bytes by (auto simp: field_holds_def encode_value_def)
qed (use assms in \<open>auto simp: field_holds_def encode_value_def\<close>)

lemma add_arg_holds:
  assumes "message_holds m fs" "length fs < MAX_FIELDS" "ms_storage_len m + arg_store a \<le> STORAGE_SIZE"
  shows "\<exists>m'. add_arg tag a m = (True, m') \<and> message_holds m' (fs @ [(tag, a)]) \<and> ms_type m' = ms_type m \<and> ms_request_id m' = ms_request_id m"
proof -
  have n: "length (ms_fields m) = length fs" "list_all2 (field_holds m) (ms_fields m) fs" "ms_storage_len m = sum_list (map (arg_store \<circ> snd) fs)"
    "length (ms_storage m) = STORAGE_SIZE" "ms_storage_len m \<le> STORAGE_SIZE"
    using assms(1) by (auto simp: message_holds_def list_all2_lengthD)
  have small: "unat (of_nat (length v) :: u16) = length v" if "a = A_bytes v" for v
    using that assms(3) by (simp add: unat_of_nat STORAGE_SIZE_def)
  obtain m' f where m': "add_arg tag a m = (True, m')" "ms_fields m' = ms_fields m @ [f]" "ms_type m' = ms_type m" "ms_request_id m' = ms_request_id m"
      "take (ms_storage_len m) (ms_storage m') = take (ms_storage_len m) (ms_storage m)" "ms_storage_len m' = ms_storage_len m + arg_store a"
      "length (ms_storage m') = STORAGE_SIZE" "field_holds m' f (tag, a)"
  proof (cases a)
    case (A_bytes v)
    define m1 where "m1 = store_field_bytes (Some v) (of_nat (length v)) m"
    have st: "ms_storage m1 = take (ms_storage_len m) (ms_storage m) @ v @ [0] @ drop (ms_storage_len m + length v + 1) (ms_storage m)"
      using assms(3) n(4) A_bytes by (simp add: m1_def store_field_bytes_eq [OF small [OF A_bytes]] store_bytes_def)
    have "add_arg tag a m = (True, index_field tag (m1\<lparr>ms_fields := ms_fields m @
        [\<lparr>mf_key = map_option fd_key (FindFieldDefByTag tag), mf_tag = tag, mf_value = V_bytes (ms_storage_len m), mf_value_len = of_nat (length v)\<rparr>]\<rparr>))"
      using assms(2,3) n(1) A_bytes small [OF A_bytes] by (simp add: add_by_tag_defs Let_def m1_def store_field_bytes_eq)
    moreover have "ms_storage_len m1 = ms_storage_len m + (length v + 1)" "ms_type m1 = ms_type m" "ms_request_id m1 = ms_request_id m"
      by (simp_all add: m1_def store_field_bytes_eq [OF small [OF A_bytes]])
    ultimately show thesis
      by (elim that) (use st n(4,5) assms(3) small [OF A_bytes] A_bytes in \<open>auto simp: field_holds_def encode_value_def word_gt_0\<close>)
  qed (use that assms(2) n in \<open>simp_all add: add_by_tag_defs Let_def field_holds_def encode_value_def\<close>)
  have "list_all2 (field_holds m') (ms_fields m) fs"
    using n(2) by (rule list_all2_mono) (rule field_holds_mono [OF _ m'(5)], simp_all add: m'(6))
  then have "message_holds m' (fs @ [(tag, a)])" using m' n assms(3) by (simp add: message_holds_def list_all2_appendI)
  then show ?thesis using m' by blast
qed

lemma add_args_holds:
  "message_holds m fs \<Longrightarrow> length fs + length gs \<le> MAX_FIELDS \<Longrightarrow> ms_storage_len m + sum_list (map (arg_store \<circ> snd) gs) \<le> STORAGE_SIZE \<Longrightarrow>
     \<exists>m'. add_args gs m = (True, m') \<and> message_holds m' (fs @ gs) \<and> ms_type m' = ms_type m \<and> ms_request_id m' = ms_request_id m"
proof (induction gs arbitrary: m fs)
  case (Cons g gs)
  obtain tag a where g: "g = (tag, a)" by (cases g)
  obtain m1 where m1: "add_arg tag a m = (True, m1)" "message_holds m1 (fs @ [(tag, a)])" "ms_type m1 = ms_type m" "ms_request_id m1 = ms_request_id m"
    using add_arg_holds [OF Cons.prems(1), of a tag] Cons.prems(2,3) g by auto
  have "ms_storage_len m1 = ms_storage_len m + arg_store a" using m1(2) Cons.prems(1) by (simp add: message_holds_def)
  then show ?case using Cons.IH [OF m1(2)] Cons.prems(2,3) m1 g by simp
qed simp

subsection \<open>Encoding\<close>

lemma word_of_unat: "unat w = n \<Longrightarrow> w = of_nat n" for w :: "'a::len word"
  by (drule arg_cong [of _ _ "of_nat :: nat \<Rightarrow> 'a word"]) simp

lemma length_wire_field: "length (wire_field ta) = 4 + arg_len (snd ta)"
  by (simp add: wire_field_def length_tlv_bytes arg_len_bytes)

lemma store_append: "store_bytes (i + length xs) ys (store_bytes i xs buf) = store_bytes i (xs @ ys) buf" if "i + length xs \<le> length buf"
  using that by (simp add: store_bytes_def ac_simps)

lemma length_store_le: "i + length xs \<le> length buf \<Longrightarrow> length (store_bytes i xs buf) = length buf"
  by (simp add: store_bytes_def)

lemma encode_field_bytes:
  assumes "field_holds m f ta" "off + length (wire_field ta) \<le> length out" "arg_len (snd ta) < 2 ^ 16"
  shows "store_bytes (off + TLV_HDR_SIZE) (encode_value (ms_storage m) f)
    (store_bytes (off + 2) (PutU16Be (mf_value_len f)) (store_bytes off (PutU16Be (mf_tag f)) out)) = store_bytes off (wire_field ta) out"
proof -
  have f: "mf_tag f = fst ta" "mf_value_len f = of_nat (arg_len (snd ta))" "encode_value (ms_storage m) f = arg_bytes (snd ta)"
    using assms(1) by (auto simp: field_holds_def intro: word_of_unat)
  have l: "off + length (PutU16Be (fst ta)) \<le> length out" "off + length (PutU16Be (fst ta) @ PutU16Be (of_nat (arg_len (snd ta)))) \<le> length out"
    using assms(2) by (simp_all add: length_wire_field)
  show ?thesis
    using store_append [OF l(1), of "PutU16Be (of_nat (arg_len (snd ta)))"] store_append [OF l(2), of "arg_bytes (snd ta)"]
    by (simp add: f TLV_HDR_SIZE_def wire_field_def tlv_bytes_def arg_len_bytes)
qed

lemma encode_fields_eq:
  "list_all2 (field_holds m) flds ts \<Longrightarrow> \<forall>ta \<in> set ts. fst ta \<noteq> 0 \<and> arg_len (snd ta) < 2 ^ 16 \<Longrightarrow>
     off + length (concat (map wire_field ts)) \<le> cap \<Longrightarrow> cap \<le> length out \<Longrightarrow>
     encode_fields (ms_storage m) cap flds off out =
       Inr (off + length (concat (map wire_field ts)), store_bytes off (concat (map wire_field ts)) out)"
proof (induction flds ts arbitrary: off out rule: list_all2_induct)
  case (Cons f fs ta ts)
  have f: "mf_tag f = fst ta" "unat (mf_value_len f) = arg_len (snd ta)" using Cons.hyps(1) by (auto simp: field_holds_def)
  have l: "off + length (wire_field ta) \<le> length out" using Cons.prems(2,3) by simp
  define out1 where "out1 = store_bytes off (wire_field ta) out"
  have "encode_fields (ms_storage m) cap (f # fs) off out = encode_fields (ms_storage m) cap fs (off + length (wire_field ta)) out1"
    using Cons.prems(1,2) f encode_field_bytes [OF Cons.hyps(1) l] by (simp add: Let_def out1_def length_wire_field TLV_HDR_SIZE_def ac_simps)
  also have "\<dots> = Inr (off + length (concat (map wire_field (ta # ts))), store_bytes (off + length (wire_field ta)) (concat (map wire_field ts)) out1)"
    using Cons.IH [of "off + length (wire_field ta)" out1] Cons.prems l by (simp add: out1_def length_store_le ac_simps)
  finally show ?case using store_append [OF l, of "concat (map wire_field ts)"] by (simp add: out1_def)
qed (simp add: store_nothing)

definition frame_header :: "u8 \<Rightarrow> u32 \<Rightarrow> u32 \<Rightarrow> bytes" where
  "frame_header type rid body_len = PutU32Be FRAME_MAGIC @ [FRAME_VERSION, type] @ PutU16Be 0 @ PutU32Be rid @ PutU32Be body_len"

lemma length_frame_header [simp]: "length (frame_header t r b) = 16"
  by (simp add: frame_header_def)

lemma encode_message_eq:
  assumes "message_holds m fs" "\<forall>ta \<in> set fs. fst ta \<noteq> 0 \<and> arg_len (snd ta) < 2 ^ 16" "body = concat (map wire_field fs)"
    and "16 + length body \<le> cap" "cap \<le> length buf"
  shows "\<exists>rest. EncodeMessage m (Some buf) cap =
    (0, Some (frame_header (ms_type m) (ms_request_id m) (of_nat (length body)) @ body @ rest), Some (16 + length body))"
proof -
  have e: "encode_fields (ms_storage m) cap (ms_fields m) 16 buf = Inr (16 + length body, store_bytes 16 body buf)"
    using encode_fields_eq [of m "ms_fields m" fs 16 cap buf] assms by (simp add: message_holds_def)
  define out where "out = store_bytes 16 body buf"
  have l: "16 \<le> length out" using assms(4,5) by (simp add: out_def length_store_le)
  have "store_bytes 12 (PutU32Be bl) (store_bytes 8 (PutU32Be rid) (store_bytes 6 (PutU16Be 0) (store_bytes 5 [t] (store_bytes 4 [FRAME_VERSION]
      (store_bytes 0 (PutU32Be FRAME_MAGIC) out))))) = store_bytes 0 (frame_header t rid bl) out" for bl rid t
    using l store_append [of 0 "PutU32Be FRAME_MAGIC" out] store_append [of 0 "PutU32Be FRAME_MAGIC @ [FRAME_VERSION]" out]
      store_append [of 0 "PutU32Be FRAME_MAGIC @ [FRAME_VERSION, t]" out] store_append [of 0 "PutU32Be FRAME_MAGIC @ [FRAME_VERSION, t] @ PutU16Be 0" out]
      store_append [of 0 "PutU32Be FRAME_MAGIC @ [FRAME_VERSION, t] @ PutU16Be 0 @ PutU32Be rid" out]
    by (simp add: frame_header_def)
  moreover have "store_bytes 0 h out = h @ body @ drop (16 + length body) buf" if "length h = 16" for h
    using that assms(4,5) by (simp add: out_def store_bytes_def)
  ultimately show ?thesis
    using e assms(4) by (auto simp: EncodeMessage_def FRAME_HDR_SIZE_def out_def)
qed

subsection \<open>Decoding\<close>

lemma decode_fields_eq:
  "\<forall>ta \<in> set fs. arg_ok ta \<and> arg_len (snd ta) < 2 ^ 16 \<Longrightarrow> drop off p = concat (map wire_field fs) @ rest \<Longrightarrow> off \<le> length p \<Longrightarrow>
     e = off + length (concat (map wire_field fs)) \<Longrightarrow> add_args fs m = (True, m') \<Longrightarrow> decode_fields p e off m = (True, m')"
proof (induction fs arbitrary: off m)
  case Nil
  then show ?case by (simp add: decode_fields.simps TLV_HDR_SIZE_def)
next
  case (Cons ta fs)
  obtain tag a where ta: "ta = (tag, a)" by (cases ta)
  have ok: "arg_ok (tag, a)" "arg_len a < 2 ^ 16" using Cons.prems(1) ta by auto
  obtain d where d: "FindFieldDefByTag tag = Some d" using ok(1) by (auto simp: arg_ok_def)
  let ?r = "concat (map wire_field fs) @ rest"
  have w: "drop off p = tlv_bytes (tag, arg_bytes a) @ ?r" using Cons.prems(2) ta by (simp add: wire_field_def [of "(tag, a)"])
  have t: "tlv_ok (tag, arg_bytes a)" using ok by (simp add: tlv_ok_def arg_ok_def arg_len_bytes)
  note rd = tlv_bytes_read [OF t, of ?r, folded w, simplified]
  have len: "unat (GetU16Be (drop (off + 2) p)) = arg_len a" using rd(2) by (simp add: arg_len_bytes add.commute)
  then have lw: "GetU16Be (drop (off + 2) p) = of_nat (arg_len a)" by (rule word_of_unat)
  have v: "drop (off + 4) p = arg_bytes a @ ?r"
    using arg_cong [OF w, of "drop 4"] by (simp add: tlv_bytes_def add.commute)
  obtain m1 where m1: "add_arg tag a m = (True, m1)" "add_args fs m1 = (True, m')" using Cons.prems(5) ta by (auto split: prod.splits if_splits)
  have off: "drop (off + 4 + arg_len a) p = ?r" using arg_cong [OF v, of "drop (arg_len a)"] by (simp add: arg_len_bytes add.commute)
  have le: "off + 4 + arg_len a \<le> length p"
    using arg_cong [OF w, of length] Cons.prems(3) by (simp add: length_tlv_bytes arg_len_bytes)
  have e: "e = off + 4 + arg_len a + length (concat (map wire_field fs))" using Cons.prems(4) ta by (simp add: length_wire_field)
  have "decode_fields p e off m = decode_fields p e (off + 4 + arg_len a) m1"
    using rd(1) len lw v d m1(1) copy_is_add [OF ok d, of ?r m] e
    by (subst decode_fields.simps) (simp add: TLV_HDR_SIZE_def Let_def)
  then show ?case using Cons.IH [OF _ off le e m1(2)] Cons.prems(1) by simp
qed

lemma body_small:
  assumes "length fs \<le> MAX_FIELDS" "sum_list (map (arg_store \<circ> snd) fs) \<le> STORAGE_SIZE"
  shows "length (concat (map wire_field fs)) < 2 ^ 16" "ta \<in> set fs \<Longrightarrow> arg_len (snd ta) < 2 ^ 16"
proof -
  have a: "arg_len a \<le> 8 + arg_store a" for a by (cases a) simp_all
  have "length (concat (map wire_field gs)) \<le> 12 * length gs + sum_list (map (arg_store \<circ> snd) gs)" for gs
  proof (induction gs)
    case (Cons g gs)
    then show ?case using a [of "snd g"] by (simp add: length_wire_field)
  qed simp
  from this [of fs] show s: "length (concat (map wire_field fs)) < 2 ^ 16" using assms by (simp add: MAX_FIELDS_def STORAGE_SIZE_def)
  show "arg_len (snd ta) < 2 ^ 16" if "ta \<in> set fs"
  proof -
    have "arg_store (snd ta) \<le> sum_list (map (arg_store \<circ> snd) fs)" using that by (induction fs) auto
    then show ?thesis using a [of "snd ta"] assms(2) by (simp add: STORAGE_SIZE_def)
  qed
qed

lemma message_init_holds: "message_holds (MessageInit t r) []"
  by (simp add: message_holds_def MessageInit_def)

subsection \<open>The index\<close>

lemma last_index_snoc: "last_index tag (fs @ [f]) = (if mf_tag f = tag then int (length fs) else last_index tag fs)"
  by (simp add: last_index_def enumerate_append_eq)

lemma last_index_cases:
  "(last_index tag fs = - 1 \<and> find (\<lambda>f. mf_tag f = tag) (rev fs) = None) \<or>
   (\<exists>i < length fs. last_index tag fs = int i \<and> find (\<lambda>f. mf_tag f = tag) (rev fs) = Some (fs ! i))"
proof (induction fs rule: rev_induct)
  case Nil
  then show ?case by (simp add: last_index_def)
next
  case (snoc f fs)
  show ?case
  proof (cases "mf_tag f = tag")
    case True
    then show ?thesis by (intro disjI2 exI [where x = "length fs"]) (simp add: last_index_snoc)
  next
    case False
    then show ?thesis using snoc.IH by (auto simp: last_index_snoc nth_append)
  qed
qed

lemma find_tag_loop_find: "map_option snd (find_tag_loop tag fs i) = find (\<lambda>f. mf_tag f = tag) fs"
  by (induction fs arbitrary: i) auto

lemma FindFieldByTag_eq:
  assumes "message_wf m"
  shows "FindFieldByTag tag m = (find (\<lambda>f. mf_tag f = tag) (if unat tag < TAG_INDEX_SIZE then rev (ms_fields m) else ms_fields m), m)"
proof (cases "unat tag < TAG_INDEX_SIZE")
  case True
  then have ix: "ms_tag_index m ! unat tag = last_index tag (ms_fields m)" using assms by (simp add: message_wf_def)
  show ?thesis
    using last_index_cases [of tag "ms_fields m"]
  proof (elim disjE exE conjE)
    assume none: "last_index tag (ms_fields m) = - 1" "find (\<lambda>f. mf_tag f = tag) (rev (ms_fields m)) = None"
    then have "find_tag_loop tag (ms_fields m) 0 = None" using find_tag_loop_find [of tag "ms_fields m" 0]
      by (metis find_None_iff option.map_disc_iff set_rev)
    then show ?thesis using True ix none by (simp add: FindFieldByTag_def)
  next
    fix i assume "i < length (ms_fields m)" "last_index tag (ms_fields m) = int i" "find (\<lambda>f. mf_tag f = tag) (rev (ms_fields m)) = Some (ms_fields m ! i)"
    then show ?thesis using True ix by (simp add: FindFieldByTag_def)
  qed
next
  case False
  then show ?thesis using find_tag_loop_find [of tag "ms_fields m" 0] by (auto simp: FindFieldByTag_def split: option.splits)
qed

lemma message_init_wf: "message_wf (MessageInit t r)"
  by (simp add: message_wf_def MessageInit_def last_index_def)

text \<open>A new field, with the store grown behind what it had.\<close>

lemma new_field_wf:
  assumes "message_wf m" "length (ms_fields m) < MAX_FIELDS" "ms_tag_index m1 = ms_tag_index m" "ms_fields m1 = ms_fields m"
    and "length (ms_storage m1) = STORAGE_SIZE" "ms_storage_len m \<le> ms_storage_len m1" "ms_storage_len m1 \<le> STORAGE_SIZE"
    and "\<forall>off. mf_value f = V_bytes off \<longrightarrow> off + unat (mf_value_len f) \<le> ms_storage_len m1"
  shows "message_wf (index_field (mf_tag f) (m1\<lparr>ms_fields := ms_fields m1 @ [f]\<rparr>))"
proof -
  let ?m = "index_field (mf_tag f) (m1\<lparr>ms_fields := ms_fields m1 @ [f]\<rparr>)"
  have "ms_tag_index ?m ! unat tag = last_index tag (ms_fields ?m)" if "unat tag < TAG_INDEX_SIZE" for tag
    using that assms(1,3,4) by (auto simp: index_field_def last_index_snoc message_wf_def nth_list_update word_unat_eq_iff)
  moreover have "length (ms_tag_index ?m) = TAG_INDEX_SIZE" using assms(1,3) by (simp add: index_field_def message_wf_def)
  moreover have "\<forall>g \<in> set (ms_fields ?m). \<forall>off. mf_value g = V_bytes off \<longrightarrow> off + unat (mf_value_len g) \<le> ms_storage_len ?m"
    using assms(1,4,6,8) by (fastforce simp: message_wf_def)
  ultimately show ?thesis using assms(2,4,5,7) by (simp add: message_wf_def)
qed

lemma store_field_bytes_ok:
  assumes "length (ms_storage m) = STORAGE_SIZE" "ms_storage_len m + unat len + 1 \<le> STORAGE_SIZE" "\<forall>d. data = Some d \<longrightarrow> unat len \<le> length d"
  shows "length (ms_storage (store_field_bytes data len m)) = STORAGE_SIZE" "ms_storage_len (store_field_bytes data len m) = ms_storage_len m + (unat len + 1)"
    "ms_tag_index (store_field_bytes data len m) = ms_tag_index m" "ms_fields (store_field_bytes data len m) = ms_fields m"
  using assms by (auto simp: store_field_bytes_def store_bytes_def Let_def split: option.splits)

lemma append_value_wf:
  assumes "message_wf m" "length (ms_fields m) < MAX_FIELDS" "type = FT_BYTES \<longrightarrow> ms_storage_len m + unat len + 1 \<le> STORAGE_SIZE"
    and "\<forall>d. data = Some d \<longrightarrow> unat len \<le> length d"
  shows "message_wf (append_value key tag type data len u i m)"
proof (cases "type = FT_BYTES")
  case True
  have "length (ms_storage m) = STORAGE_SIZE" "ms_storage_len m + unat len + 1 \<le> STORAGE_SIZE" using assms(1,3) True by (auto simp: message_wf_def)
  note st = store_field_bytes_ok [OF this assms(4)]
  show ?thesis
    using new_field_wf [OF assms(1,2) st(3,4,1), of "\<lparr>mf_key = key, mf_tag = tag, mf_value = V_bytes (ms_storage_len m), mf_value_len = len\<rparr>"] True assms(3)
    by (simp add: append_value_def st(2))
next
  case False
  have "message_wf (index_field tag (m\<lparr>ms_fields := ms_fields m @ [\<lparr>mf_key = key, mf_tag = tag, mf_value = v, mf_value_len = len\<rparr>]\<rparr>))"
    if "\<forall>off. v \<noteq> V_bytes off" for v
    using new_field_wf [OF assms(1,2) refl refl, of "\<lparr>mf_key = key, mf_tag = tag, mf_value = v, mf_value_len = len\<rparr>"] that assms(1)
    by (simp add: message_wf_def)
  then show ?thesis using False by (cases type) (simp_all add: append_value_def)
qed

lemma append_wf:
  assumes "message_wf m" "\<forall>d. data = Some d \<longrightarrow> unat len \<le> length d"
  shows "message_wf (snd (AppendField key type data len u i m))" "message_wf (snd (AppendFieldByTag tag type data len u i m))"
  using assms append_value_wf [OF assms(1) _ _ assms(2)]
  by (auto simp: AppendField_def AppendFieldByTag_def split: option.splits)

lemma copy_decoded_wf:
  assumes "message_wf m" "unat len \<le> length data"
  shows "message_wf (snd (CopyDecodedBytes d data len m))"
proof (cases "length (ms_fields m) < MAX_FIELDS \<and> (fd_type d = FT_BYTES \<longrightarrow> ms_storage_len m + unat len + 1 \<le> STORAGE_SIZE)")
  case True
  have v: "message_wf (index_field (fd_tag d) (m\<lparr>ms_fields := ms_fields m @ [\<lparr>mf_key = Some (fd_key d), mf_tag = fd_tag d, mf_value = v, mf_value_len = n\<rparr>]\<rparr>))"
    if "\<forall>off. v \<noteq> V_bytes off" for v n
    using new_field_wf [OF assms(1) _ refl refl, of "\<lparr>mf_key = Some (fd_key d), mf_tag = fd_tag d, mf_value = v, mf_value_len = n\<rparr>"] that assms(1) True
    by (simp add: message_wf_def)
  show ?thesis
  proof (cases "fd_type d = FT_BYTES")
    case bytes: True
    define m1 where "m1 = m\<lparr>ms_storage := store_bytes (ms_storage_len m + unat len) [0] (store_bytes (ms_storage_len m) (take (unat len) data) (ms_storage m)),
      ms_storage_len := ms_storage_len m + (unat len + 1)\<rparr>"
    have "length (ms_storage m1) = STORAGE_SIZE" "ms_storage_len m1 = ms_storage_len m + (unat len + 1)" "ms_tag_index m1 = ms_tag_index m" "ms_fields m1 = ms_fields m"
      using assms True bytes by (simp_all add: m1_def message_wf_def store_bytes_def)
    then show ?thesis
      using new_field_wf [OF assms(1), of m1 "\<lparr>mf_key = Some (fd_key d), mf_tag = fd_tag d, mf_value = V_bytes (ms_storage_len m), mf_value_len = len\<rparr>"]
        True bytes assms(1) by (simp add: CopyDecodedBytes_def Let_def m1_def)
  next
    case False
    then show ?thesis using v assms(1) by (cases "fd_type d") (simp_all add: CopyDecodedBytes_def Let_def)
  qed
next
  case False
  then show ?thesis using assms(1) by (auto simp: CopyDecodedBytes_def Let_def)
qed

lemma decode_fields_wf:
  "message_wf m \<Longrightarrow> e \<le> length p \<Longrightarrow> message_wf (snd (decode_fields p e off m))"
proof (induction p e off m rule: decode_fields.induct)
  case (1 p e off m)
  let ?tag = "GetU16Be (drop off p)" and ?len = "GetU16Be (drop (off + 2) p)" and ?off = "off + TLV_HDR_SIZE"
  show ?case
  proof (cases "off + TLV_HDR_SIZE \<le> e \<and> \<not> e < ?off + unat ?len")
    case True
    then have c: "off + TLV_HDR_SIZE \<le> e" "\<not> e < ?off + unat ?len" by simp_all
    show ?thesis
    proof (cases "FindFieldDefByTag ?tag")
      case None
      then show ?thesis using c "1.IH"(1) [OF c(1) refl refl refl c(2) None] "1.prems" by (subst decode_fields.simps) (simp add: Let_def)
    next
      case (Some d)
      obtain ok m1 where cp: "CopyDecodedBytes d (drop ?off p) ?len m = (ok, m1)" by (metis surj_pair)
      have "unat ?len \<le> length (drop ?off p)" using c "1.prems"(2) by simp
      then have m1: "message_wf m1" using copy_decoded_wf [OF "1.prems"(1), of ?len "drop ?off p" d] cp by simp
      show ?thesis
      proof (cases ok)
        case True
        then show ?thesis using c Some cp m1 "1.IH"(2) [OF c(1) refl refl refl c(2) Some cp [symmetric] True m1 "1.prems"(2)]
          by (subst decode_fields.simps) (simp add: Let_def)
      next
        case False
        then show ?thesis using c Some cp m1 by (subst decode_fields.simps) (simp add: Let_def)
      qed
    qed
  next
    case False
    then show ?thesis using "1.prems" by (subst decode_fields.simps) (auto simp: Let_def)
  qed
qed

lemma message_wf_cong: "message_wf (m\<lparr>ms_type := t, ms_request_id := r\<rparr>) = message_wf m"
  by (simp add: message_wf_def)

lemma decode_message_wf:
  assumes "len \<le> length p"
  shows "message_wf (snd (DecodeMessage (Some p) len msg))"
proof (cases "FrameSizeFromHeader (Some p) len")
  case None
  then show ?thesis by (simp add: DecodeMessage_def message_init_wf)
next
  case (Some s)
  show ?thesis
  proof (cases "unat s > len \<or> unat s < FRAME_HDR_SIZE")
    case True
    then show ?thesis using Some by (simp add: DecodeMessage_def message_init_wf)
  next
    case False
    then have "FRAME_HDR_SIZE + unat (s - of_nat FRAME_HDR_SIZE) \<le> length p"
      using assms by (simp add: FRAME_HDR_SIZE_def unat_sub word_le_nat_alt)
    then have "message_wf (snd (decode_fields p (FRAME_HDR_SIZE + unat (s - of_nat FRAME_HDR_SIZE)) FRAME_HDR_SIZE
        ((MessageInit 0 0)\<lparr>ms_type := p ! 5, ms_request_id := GetU32Be (drop 8 p)\<rparr>)))"
      by (intro decode_fields_wf) (simp_all only: message_wf_cong message_init_wf)
    then show ?thesis using Some False by (simp add: DecodeMessage_def Let_def case_prod_beta)
  qed
qed

text \<open>The decoder uses the first \<open>len\<close> bytes of its input only.\<close>

lemma nth_of_take: "take n p = take n p' \<Longrightarrow> i < n \<Longrightarrow> p ! i = p' ! i"
  by (metis nth_take)

lemma take_drop_agree: "take n p = take n p' \<Longrightarrow> off + k \<le> n \<Longrightarrow> take k (drop off p) = take k (drop off p')"
  by (metis add_le_imp_le_diff diff_add_inverse drop_take le_add_diff_inverse min.absorb1 take_take add.commute)

lemma get_agree:
  shows "take 2 p = take 2 p' \<Longrightarrow> GetU16Be p = GetU16Be p'" "take 4 p = take 4 p' \<Longrightarrow> GetU32Be p = GetU32Be p'"
    "take 8 p = take 8 p' \<Longrightarrow> GetU64Be p = GetU64Be p'"
  by (simp_all add: GetU16Be_def GetU32Be_def GetU64Be_def nth_of_take [of 2 p p'] nth_of_take [of 4 p p'] nth_of_take [of 8 p p'])

lemma copy_decoded_agree:
  assumes "take (unat len) data = take (unat len) data'"
  shows "CopyDecodedBytes d data len m = CopyDecodedBytes d data' len m"
proof -
  have n: "len = 1 \<Longrightarrow> data ! 0 = data' ! 0" "len = 2 \<Longrightarrow> GetU16Be data = GetU16Be data'" 
    "len = 4 \<Longrightarrow> GetU32Be data = GetU32Be data'" "len = 8 \<Longrightarrow> GetU64Be data = GetU64Be data'"
    using assms nth_of_take [of 1 data data' 0] get_agree [of data data'] by simp_all
  show ?thesis using assms n by (cases "fd_type d") (simp_all add: CopyDecodedBytes_def Let_def cong: if_cong)
qed

lemma decode_fields_agree:
  "take e p = take e p' \<Longrightarrow> decode_fields p e off m = decode_fields p' e off m"
proof (induction p e off m rule: decode_fields.induct)
  case (1 p e off m)
  show ?case
  proof (cases "off + TLV_HDR_SIZE \<le> e")
    case False
    then show ?thesis by (simp add: decode_fields.simps)
  next
    case True
    have g: "GetU16Be (drop off p) = GetU16Be (drop off p')" "GetU16Be (drop (off + 2) p) = GetU16Be (drop (off + 2) p')"
      using True by (intro get_agree(1) take_drop_agree [OF 1(3)]; simp add: TLV_HDR_SIZE_def)+
    let ?l = "GetU16Be (drop (off + 2) p')"
    show ?thesis
    proof (cases "off + TLV_HDR_SIZE + unat ?l > e")
      case big: True
      then show ?thesis using True g by (simp add: decode_fields.simps [of _ e off])
    next
      case fits: False
      then have c: "CopyDecodedBytes d (drop (off + TLV_HDR_SIZE) p) ?l m = CopyDecodedBytes d (drop (off + TLV_HDR_SIZE) p') ?l m" for d
        by (intro copy_decoded_agree take_drop_agree [OF 1(3)]) simp
      show ?thesis
        unfolding decode_fields.simps [of p e off m] decode_fields.simps [of p' e off m]
        using True fits g c 1(1)[OF True refl refl refl _ _ 1(3)] 1(2)[OF True refl refl refl _ _ _ _ 1(3)]
        by (simp add: Let_def split: option.split prod.split)
    qed
  qed
qed

lemma decode_message_agree:
  assumes "take len p = take len p'"
  shows "DecodeMessage (Some p) len msg = DecodeMessage (Some p') len msg"
proof -
  have h: "FrameSizeFromHeader (Some p) len = FrameSizeFromHeader (Some p') len"
  proof (cases "len < FRAME_HDR_SIZE")
    case False
    then have "GetU32Be p = GetU32Be p'" "GetU32Be (drop 12 p) = GetU32Be (drop 12 p')" "p ! 4 = p' ! 4"
      using take_drop_agree [OF assms, of 0 4] take_drop_agree [OF assms, of 12 4] nth_of_take [OF assms, of 4]
      by (auto simp: FRAME_HDR_SIZE_def intro: get_agree(2))
    then show ?thesis by (simp add: FrameSizeFromHeader_def)
  qed (simp add: FrameSizeFromHeader_def)
  have b: "p ! 5 = p' ! 5" "GetU32Be (drop 8 p) = GetU32Be (drop 8 p')" if "FRAME_HDR_SIZE \<le> len"
    using that take_drop_agree [OF assms, of 8 4] nth_of_take [OF assms, of 5] by (auto simp: FRAME_HDR_SIZE_def intro: get_agree(2))
  have d: "decode_fields p e off m = decode_fields p' e off m" if "e \<le> len" for e off m
    by (rule decode_fields_agree) (metis assms min.absorb1 take_take that)
  show ?thesis
  proof (cases "FrameSizeFromHeader (Some p') len")
    case None
    then show ?thesis using h by (simp add: DecodeMessage_def)
  next
    case (Some s)
    show ?thesis
    proof (cases "unat s > len \<or> unat s < FRAME_HDR_SIZE")
      case True
      then show ?thesis using h Some by (simp add: DecodeMessage_def)
    next
      case False
      then have "FRAME_HDR_SIZE + unat (s - of_nat FRAME_HDR_SIZE) \<le> len" "FRAME_HDR_SIZE \<le> len"
        by (simp_all add: FRAME_HDR_SIZE_def unat_sub word_le_nat_alt)
      then show ?thesis using h Some False by (simp add: DecodeMessage_def Let_def b d)
    qed
  qed
qed

text \<open>The seven functions that read a field by its tag, as one operation.\<close>

fun get_arg :: "FieldType \<Rightarrow> u16 \<Rightarrow> Message \<Rightarrow> field_arg option \<times> Message" where
  "get_arg FT_BYTES tag m = (case MessageGetBytesByTag m tag of (v, m') \<Rightarrow> (map_option A_bytes v, m'))"
| "get_arg FT_BOOL tag m = (case MessageGetBoolByTag m tag of (v, m') \<Rightarrow> (map_option A_bool v, m'))"
| "get_arg FT_U8 tag m = (case MessageGetU8ByTag m tag of (v, m') \<Rightarrow> (map_option A_u8 v, m'))"
| "get_arg FT_U16 tag m = (case MessageGetU16ByTag m tag of (v, m') \<Rightarrow> (map_option A_u16 v, m'))"
| "get_arg FT_U32 tag m = (case MessageGetU32ByTag m tag of (v, m') \<Rightarrow> (map_option A_u32 v, m'))"
| "get_arg FT_I32 tag m = (case MessageGetI32ByTag m tag of (v, m') \<Rightarrow> (map_option A_i32 v, m'))"
| "get_arg FT_U64 tag m = (case MessageGetU64ByTag m tag of (v, m') \<Rightarrow> (map_option A_u64 v, m'))"

lemmas get_by_tag_defs = MessageGetBytesByTag_def MessageGetBoolByTag_def MessageGetU8ByTag_def MessageGetU16ByTag_def MessageGetU32ByTag_def
  MessageGetI32ByTag_def MessageGetU64ByTag_def get_bytes_def get_bool_def get_u8_def get_u16_def get_u32_def get_i32_def get_u64_def

text \<open>What adding a field changes: one more field, and the store behind what it had.\<close>

lemma add_arg_step:
  assumes "message_wf m" "add_arg tag a m = (True, m')" "arg_len a < 2 ^ 16"
  shows "message_wf m'" "\<exists>f. ms_fields m' = ms_fields m @ [f] \<and> mf_tag f = tag \<and> unat (mf_value_len f) = arg_len a \<and>
      (case a of A_bytes v \<Rightarrow> \<exists>off. mf_value f = V_bytes off \<and> take (length v) (drop off (ms_storage m')) = v
       | A_bool v \<Rightarrow> mf_value f = V_boolean (if v then 1 else 0) | A_u8 v \<Rightarrow> mf_value f = V_u8 v | A_u16 v \<Rightarrow> mf_value f = V_u16 v
       | A_u32 v \<Rightarrow> mf_value f = V_u32 v | A_i32 v \<Rightarrow> mf_value f = V_i32 v | A_u64 v \<Rightarrow> mf_value f = V_u64 v)"
    "take (ms_storage_len m) (ms_storage m') = take (ms_storage_len m) (ms_storage m)"
proof -
  have wf: "length (ms_storage m) = STORAGE_SIZE" "ms_storage_len m \<le> STORAGE_SIZE" using assms(1) by (auto simp: message_wf_def)
  have small: "unat (of_nat (length v) :: u16) = length v" if "a = A_bytes v" for v using that assms(3) by (simp add: unat_of_nat)
  have r: "message_wf m'" if "AppendFieldByTag t ty None l u i m = (True, m')" for t ty l u i
    using append_wf(2) [OF assms(1), of None l t ty u i] that by simp
  show "message_wf m'"
  proof (cases a)
    case (A_bytes v)
    then show ?thesis using append_wf(2) [OF assms(1), of "Some v" "of_nat (length v)" tag FT_BYTES 0 0] assms(2) small [OF A_bytes] by (simp add: MessageAddBytesByTag_def)
  qed (use r assms(2) in
      \<open>auto simp: MessageAddBoolByTag_def MessageAddU8ByTag_def MessageAddU16ByTag_def MessageAddU32ByTag_def MessageAddI32ByTag_def MessageAddU64ByTag_def\<close>)
  show "take (ms_storage_len m) (ms_storage m') = take (ms_storage_len m) (ms_storage m)"
    using assms(2) wf small
    by (cases a) (auto simp: add_by_tag_defs Let_def store_field_bytes_eq store_bytes_def split: if_splits)
  show "\<exists>f. ms_fields m' = ms_fields m @ [f] \<and> mf_tag f = tag \<and> unat (mf_value_len f) = arg_len a \<and>
      (case a of A_bytes v \<Rightarrow> \<exists>off. mf_value f = V_bytes off \<and> take (length v) (drop off (ms_storage m')) = v
       | A_bool v \<Rightarrow> mf_value f = V_boolean (if v then 1 else 0) | A_u8 v \<Rightarrow> mf_value f = V_u8 v | A_u16 v \<Rightarrow> mf_value f = V_u16 v
       | A_u32 v \<Rightarrow> mf_value f = V_u32 v | A_i32 v \<Rightarrow> mf_value f = V_i32 v | A_u64 v \<Rightarrow> mf_value f = V_u64 v)"
    using assms(2) wf small
    by (cases a) (auto simp: add_by_tag_defs Let_def store_field_bytes_eq store_bytes_def split: if_splits)
qed

lemma get_bytes_keep:
  assumes "message_wf m" "take (ms_storage_len m) (ms_storage m') = take (ms_storage_len m) (ms_storage m)" "\<forall>f. fo = Some f \<longrightarrow> f \<in> set (ms_fields m)"
  shows "get_bytes m' fo = get_bytes m fo"
proof (cases fo)
  case (Some f)
  show ?thesis
  proof (cases "mf_value f")
    case (V_bytes off)
    then have "off + unat (mf_value_len f) \<le> ms_storage_len m" using assms(1,3) Some by (auto simp: message_wf_def)
    then show ?thesis using take_drop_prefix [OF assms(2)] Some V_bytes by (simp add: get_bytes_def)
  qed (use Some in \<open>simp_all add: get_bytes_def\<close>)
qed (simp add: get_bytes_def)

lemma find_skip_last: "\<not> P x \<Longrightarrow> find P (xs @ [x]) = find P xs"
  by (induction xs) auto

lemma find_in_set: "find P xs = Some x \<Longrightarrow> x \<in> set xs"
  by (auto simp: find_Some_iff)

lemma get_arg_other:
  assumes "message_wf m" "message_wf m'" "ms_fields m' = ms_fields m @ [f]" "mf_tag f \<noteq> t"
    and "take (ms_storage_len m) (ms_storage m') = take (ms_storage_len m) (ms_storage m)"
  shows "get_arg ty t m' = (fst (get_arg ty t m), m')"
proof -
  define fo where "fo = find (\<lambda>f. mf_tag f = t) (if unat t < TAG_INDEX_SIZE then rev (ms_fields m) else ms_fields m)"
  have "find (\<lambda>f. mf_tag f = t) (ms_fields m @ [f]) = find (\<lambda>f. mf_tag f = t) (ms_fields m)"
    by (rule find_skip_last) (use assms(4) in simp)
  then have ff: "FindFieldByTag t m' = (fo, m')" "FindFieldByTag t m = (fo, m)"
    using assms(1-4) by (simp_all add: FindFieldByTag_eq fo_def)
  have "\<forall>f. fo = Some f \<longrightarrow> f \<in> set (ms_fields m)" unfolding fo_def by (auto dest!: find_in_set split: if_splits)
  then have "get_bytes m' fo = get_bytes m fo" by (rule get_bytes_keep [OF assms(1,5)])
  then show ?thesis
    by (cases ty) (simp_all add: ff MessageGetBytesByTag_def MessageGetBoolByTag_def MessageGetU8ByTag_def MessageGetU16ByTag_def
        MessageGetU32ByTag_def MessageGetI32ByTag_def MessageGetU64ByTag_def)
qed

lemma add_arg_get:
  assumes "message_wf m" "add_arg tag a m = (True, m')" "arg_len a < 2 ^ 16" "unat tag < TAG_INDEX_SIZE"
  shows "message_wf m' \<and> get_arg (arg_type a) tag m' = (Some a, m') \<and> (\<forall>ty t. t \<noteq> tag \<longrightarrow> get_arg ty t m' = (fst (get_arg ty t m), m'))"
proof -
  note st = add_arg_step [OF assms(1-3)]
  obtain f where f: "ms_fields m' = ms_fields m @ [f]" "mf_tag f = tag" "unat (mf_value_len f) = arg_len a"
    "case a of A_bytes v \<Rightarrow> \<exists>off. mf_value f = V_bytes off \<and> take (length v) (drop off (ms_storage m')) = v
       | A_bool v \<Rightarrow> mf_value f = V_boolean (if v then 1 else 0) | A_u8 v \<Rightarrow> mf_value f = V_u8 v | A_u16 v \<Rightarrow> mf_value f = V_u16 v
       | A_u32 v \<Rightarrow> mf_value f = V_u32 v | A_i32 v \<Rightarrow> mf_value f = V_i32 v | A_u64 v \<Rightarrow> mf_value f = V_u64 v"
    using st(2) by blast
  have "FindFieldByTag tag m' = (Some f, m')" using st(1) f(1,2) assms(4) by (simp add: FindFieldByTag_eq)
  moreover have "mf_value_len f = of_nat (arg_len a)" using f(3) by (rule word_of_unat)
  ultimately have "get_arg (arg_type a) tag m' = (Some a, m')" using f(3,4) by (cases a) (auto simp: get_by_tag_defs)
  moreover have "get_arg ty t m' = (fst (get_arg ty t m), m')" if "t \<noteq> tag" for ty t
    by (rule get_arg_other [OF assms(1) st(1) f(1) _ st(3)]) (use that f(2) in simp)
  ultimately show ?thesis using st(1) by blast
qed

text \<open>
  What a user of messages relies on: a field that was added is read back, and the other fields are as they were. It follows that a
  list of fields with different tags is read back as a whole.
\<close>

locale field_store =
  fixes inv :: "'m \<Rightarrow> bool"
    and add :: "'t \<Rightarrow> 'a \<Rightarrow> 'm \<Rightarrow> bool \<times> 'm"
    and adds :: "('t \<times> 'a) list \<Rightarrow> 'm \<Rightarrow> bool \<times> 'm"
    and get :: "'y \<Rightarrow> 't \<Rightarrow> 'm \<Rightarrow> 'a option"
    and kind :: "'a \<Rightarrow> 'y"
    and fits :: "'t \<Rightarrow> 'a \<Rightarrow> bool"
  assumes get_add: "inv m \<Longrightarrow> fits t a \<Longrightarrow> add t a m = (True, m') \<Longrightarrow>
      inv m' \<and> get (kind a) t m' = Some a \<and> (\<forall>y u. u \<noteq> t \<longrightarrow> get y u m' = get y u m)"
    and adds_Nil: "adds [] m = (True, m)"
    and adds_Cons: "adds ((t, a) # fs) m = (case add t a m of (ok, m') \<Rightarrow> if ok then adds fs m' else (False, m'))"
begin

lemma get_adds:
  assumes "inv m" "\<forall>(t, a) \<in> set fs. fits t a" "distinct (map fst fs)" "adds fs m = (True, m')"
  shows "inv m' \<and> (\<forall>(t, a) \<in> set fs. get (kind a) t m' = Some a) \<and> (\<forall>y u. u \<notin> fst ` set fs \<longrightarrow> get y u m' = get y u m)"
  using assms
proof (induction fs arbitrary: m)
  case Nil
  then show ?case by (simp add: adds_Nil)
next
  case (Cons ta fs)
  obtain t a where ta: "ta = (t, a)" by (cases ta)
  obtain m1 where m1: "add t a m = (True, m1)" "adds fs m1 = (True, m')"
    using Cons.prems(4) by (auto simp: ta adds_Cons split: prod.splits if_splits)
  have g: "inv m1" "get (kind a) t m1 = Some a" "\<forall>y u. u \<noteq> t \<longrightarrow> get y u m1 = get y u m"
    using get_add [OF Cons.prems(1) _ m1(1)] Cons.prems(2) by (auto simp: ta)
  have r: "inv m'" "\<forall>(t, a) \<in> set fs. get (kind a) t m' = Some a" "\<forall>y u. u \<notin> fst ` set fs \<longrightarrow> get y u m' = get y u m1"
    using Cons.IH [OF g(1) _ _ m1(2)] Cons.prems(2,3) by auto
  have "t \<notin> fst ` set fs" using Cons.prems(3) by (simp add: ta)
  then have "get (kind a) t m' = Some a" using r(3) g(2) by simp
  then show ?case using r g(3) by (auto simp: ta)
qed

end

interpretation message_fields: field_store message_wf add_arg add_args "\<lambda>y t m. fst (get_arg y t m)" arg_type
    "\<lambda>t a. arg_len a < 2 ^ 16 \<and> unat t < TAG_INDEX_SIZE"
proof
  fix m t a m'
  assume *: "message_wf m" "arg_len a < 2 ^ 16 \<and> unat t < TAG_INDEX_SIZE" "add_arg t a m = (True, m')"
  then show "message_wf m' \<and> fst (get_arg (arg_type a) t m') = Some a \<and> (\<forall>y u. u \<noteq> t \<longrightarrow> fst (get_arg y u m') = fst (get_arg y u m))"
    using add_arg_get [OF *(1,3)] by simp
qed simp_all

text \<open>What the fields and the store are after a list of fields was added.\<close>

lemma add_arg_fields:
  "add_arg t a m = (True, m') \<Longrightarrow> map (\<lambda>f. (mf_tag f, mf_key f)) (ms_fields m') =
     map (\<lambda>f. (mf_tag f, mf_key f)) (ms_fields m) @ [(t, map_option fd_key (FindFieldDefByTag t))]"
  by (cases a) (auto simp: add_by_tag_defs Let_def store_field_bytes_def split: if_splits)

lemma add_args_fields:
  "add_args fs m = (True, m') \<Longrightarrow> map (\<lambda>f. (mf_tag f, mf_key f)) (ms_fields m') =
     map (\<lambda>f. (mf_tag f, mf_key f)) (ms_fields m) @ map (\<lambda>(t, a). (t, map_option fd_key (FindFieldDefByTag t))) fs"
proof (induction fs arbitrary: m)
  case (Cons ta fs)
  obtain m1 where "add_arg (fst ta) (snd ta) m = (True, m1)" "add_args fs m1 = (True, m')"
    using Cons.prems by (cases ta) (auto split: prod.splits if_splits)
  then show ?case using Cons.IH [of m1] add_arg_fields [of "fst ta" "snd ta" m m1] by (simp add: case_prod_beta)
qed simp

lemma add_arg_room:
  "add_arg t a m = (True, m') \<Longrightarrow> arg_len a < 2 ^ 16 \<Longrightarrow> ms_storage_len m \<le> STORAGE_SIZE \<Longrightarrow>
     ms_storage_len m' = ms_storage_len m + arg_store a \<and> ms_storage_len m' \<le> STORAGE_SIZE"
  by (cases a) (auto simp: add_by_tag_defs Let_def store_field_bytes_def unat_of_nat split: if_splits)

lemma add_args_room:
  "add_args fs m = (True, m') \<Longrightarrow> \<forall>ta \<in> set fs. arg_len (snd ta) < 2 ^ 16 \<Longrightarrow> ms_storage_len m \<le> STORAGE_SIZE \<Longrightarrow>
     ms_storage_len m + sum_list (map (arg_store \<circ> snd) fs) \<le> STORAGE_SIZE"
proof (induction fs arbitrary: m)
  case (Cons ta fs)
  obtain m1 where "add_arg (fst ta) (snd ta) m = (True, m1)" "add_args fs m1 = (True, m')"
    using Cons.prems(1) by (cases ta) (auto split: prod.splits if_splits)
  then show ?case using Cons.IH [of m1] add_arg_room [of "fst ta" "snd ta" m m1] Cons.prems(2,3) by (simp add: algebra_simps)
qed simp

text \<open>Encoding and decoding.\<close>

lemma message_wire:
  assumes "\<forall>ta \<in> set fs. arg_ok ta" "length fs \<le> MAX_FIELDS" "sum_list (map (arg_store \<circ> snd) fs) \<le> STORAGE_SIZE" "type \<noteq> 0"
    and "16 + length (concat (map wire_field fs)) \<le> cap" "cap \<le> length buf"
  shows "\<exists>m out n. add_args fs (MessageInit type rid) = (True, m) \<and> EncodeMessage m (Some buf) cap = (0, Some out, Some n) \<and>
    n = 16 + length (concat (map wire_field fs)) \<and> FrameSizeFromHeader (Some (take n out @ rest)) (n + length rest) = Some (of_nat n) \<and>
    DecodeMessage (Some (take n out @ rest)) (n + length rest) msg = (True, m)"
proof -
  define body where "body = concat (map wire_field fs)"
  have small: "length body < 2 ^ 16" "\<forall>ta \<in> set fs. fst ta \<noteq> 0 \<and> arg_len (snd ta) < 2 ^ 16" "\<forall>ta \<in> set fs. arg_ok ta \<and> arg_len (snd ta) < 2 ^ 16"
    using body_small [OF assms(2,3)] assms(1) by (auto simp: body_def arg_ok_def)
  obtain m where m: "add_args fs (MessageInit type rid) = (True, m)" "message_holds m fs" "ms_type m = type" "ms_request_id m = rid"
    using add_args_holds [OF message_init_holds, of fs type rid] assms(2,3) by (auto simp: MessageInit_def)
  obtain r where enc: "EncodeMessage m (Some buf) cap = (0, Some (frame_header type rid (of_nat (length body)) @ body @ r), Some (16 + length body))"
    using encode_message_eq [OF m(2) small(2) body_def, of cap buf] assms(5,6) m(3,4) by (auto simp: body_def)
  define n where "n = 16 + length body"
  define p where "p = frame_header type rid (of_nat (length body)) @ body @ rest"
  have p: "GetU32Be p = FRAME_MAGIC" "p ! 4 = FRAME_VERSION" "p ! 5 = type" "GetU32Be (drop 8 p) = rid" "GetU32Be (drop 12 p) = of_nat (length body)"
    "drop 16 p = concat (map wire_field fs) @ rest" "length p = n + length rest"
    by (simp_all add: p_def n_def body_def frame_header_def nth_append)
  have "(ucast (16 + ucast (of_nat (length body) :: u32) :: u64) :: u32) = of_nat n" using small(1)
    by (simp add: n_def word_unat_eq_iff unat_of_nat unsigned_ucast_eq take_bit_nat_eq_self unat_word_ariths)
  then have size: "FrameSizeFromHeader (Some p) (n + length rest) = Some (of_nat n)" using p by (simp add: FrameSizeFromHeader_def FRAME_HDR_SIZE_def n_def)
  have "n < 2 ^ 32" "(of_nat n - 16 :: u32) = of_nat (length body)" using small(1) by (simp_all add: n_def)
  then have u: "unat (of_nat n :: u32) = n" "unat (of_nat n - 16 :: u32) = length body"
    using small(1) by (simp_all add: unat_of_nat)
  have dec: "decode_fields p (16 + length body) 16 (MessageInit type rid) = (True, m)"
    by (rule decode_fields_eq [OF small(3) p(6) _ _ m(1)]) (simp_all add: p(7) n_def body_def)
  have "(MessageInit 0 0)\<lparr>ms_type := type, ms_request_id := rid\<rparr> = MessageInit type rid" by (simp add: MessageInit_def)
  then have "DecodeMessage (Some p) (n + length rest) msg = (True, m)"
    using size u p(3,4) dec m(3) assms(4) by (simp add: DecodeMessage_def Let_def FRAME_HDR_SIZE_def n_def)
  moreover have "take n (frame_header type rid (of_nat (length body)) @ body @ r) @ rest = p" by (simp add: p_def n_def)
  ultimately show ?thesis using m(1) enc size by (auto simp: n_def body_def)
qed

section \<open>Properties\<close>

text \<open>
  C25. A message survives the wire. Any list of fields of the table with values of their types, within the limits of a message, is
  added to a new message; encoding into a buffer with room succeeds, and decoding the bytes, whatever follows them in
  the stream, gives the same message: type, request id, fields, index and store.
\<close>

theorem message_roundtrip:
  assumes "\<forall>ta \<in> set fs. arg_ok ta" "length fs \<le> MAX_FIELDS" "sum_list (map (arg_store \<circ> snd) fs) \<le> STORAGE_SIZE" "type \<noteq> 0"
    and "16 + length (concat (map wire_field fs)) \<le> cap" "cap \<le> length buf"
  shows "\<exists>m out n. add_args fs (MessageInit type rid) = (True, m) \<and> EncodeMessage m (Some buf) cap = (0, Some out, Some n) \<and>
    n = 16 + length (concat (map wire_field fs)) \<and> FrameSizeFromHeader (Some (take n out @ rest)) (n + length rest) = Some (of_nat n) \<and>
    DecodeMessage (Some (take n out @ rest)) (n + length rest) msg = (True, m)"
  using assms by (rule message_wire)

definition sample_fields :: "(u16 \<times> field_arg) list" where
  "sample_fields = [(0x10, A_bytes [112, 49]), (0x21, A_u16 9000), (0x35, A_i32 (- 5)), (0x2E, A_bool True), (0x82, A_bytes []), (0x47, A_u64 7)]"

lemma sample_fields_ok: "\<forall>ta \<in> set sample_fields. arg_ok ta"
  by code_simp

theorem message_roundtrip_witness:
  "\<exists>m out. add_args sample_fields (MessageInit 16 77) = (True, m) \<and> EncodeMessage m (Some (replicate 100 0)) 100 = (0, Some out, Some 57) \<and>
    DecodeMessage (Some (take 57 out @ [9, 9])) 59 (MessageInit 0 0) = (True, m)"
proof -
  have l: "length (concat (map wire_field sample_fields)) = 41" by (simp add: sample_fields_def length_wire_field)
  have "length sample_fields \<le> MAX_FIELDS" "sum_list (map (arg_store \<circ> snd) sample_fields) \<le> STORAGE_SIZE" "(16 :: u8) \<noteq> 0"
    "16 + length (concat (map wire_field sample_fields)) \<le> 100" "100 \<le> length (replicate 100 (0 :: u8))"
    by (simp_all only: l) (simp_all add: sample_fields_def MAX_FIELDS_def STORAGE_SIZE_def)
  from message_roundtrip [OF sample_fields_ok this, of 77 "[9, 9]" "MessageInit 0 0"] show ?thesis unfolding l by auto
qed

text \<open>
  C26. Decoding is safe on any input: whatever bytes arrive, the decoder returns; the message it leaves, complete or not, satisfies
  the invariant (the fields and the store are within their arrays, every field of bytes lies in the store, and the index is exact);
  and neither the result nor the message depends on memory behind the \<open>len\<close> bytes that were received.
\<close>

theorem decode_message_safe:
  assumes "len \<le> length p"
  shows "\<exists>ok m. DecodeMessage (Some p) len msg = (ok, m) \<and> message_wf m \<and> (\<forall>q. DecodeMessage (Some (take len p @ q)) len msg = (ok, m))"
proof -
  have "DecodeMessage (Some (take len p @ q)) len msg = DecodeMessage (Some p) len msg" for q
    by (rule decode_message_agree) (simp add: assms)
  then show ?thesis using decode_message_wf [OF assms, of msg] by (metis prod.collapse)
qed

theorem decode_message_safe_witness:
  "\<exists>ok m. DecodeMessage (Some [0x4E, 0x54, 0x52, 0x53, 1, 2, 0, 0, 0, 0, 0, 1, 0, 0, 0, 5, 0, 0x21, 0, 3, 7]) 21 (MessageInit 0 0) = (ok, m) \<and>
    message_wf m \<and>
    (\<forall>q. DecodeMessage (Some (take 21 [0x4E, 0x54, 0x52, 0x53, 1, 2, 0, 0, 0, 0, 0, 1, 0, 0, 0, 5, 0, 0x21, 0, 3, 7] @ q)) 21 (MessageInit 0 0) = (ok, m))"
  by (rule decode_message_safe) simp

text \<open>
  Repeated fields: a tag below 128 is found by its last field, a larger tag and a key by the first one.
\<close>

lemma repeated_field_lookup:
  assumes "message_wf m"
  shows "fst (FindFieldByTag tag m) = find (\<lambda>f. mf_tag f = tag) (if unat tag < TAG_INDEX_SIZE then rev (ms_fields m) else ms_fields m)"
    "FindField (Some k) m = find (\<lambda>f. mf_key f = Some k) (ms_fields m)"
  using assms by (simp_all add: FindFieldByTag_eq FindField_def)

text \<open>A string is added with its length modulo \<open>2\<^sup>1\<^sup>6\<close>: one of 65536 bytes becomes the empty string, and the result is true.\<close>

lemma long_string_truncated:
  assumes "length (ms_fields m) < MAX_FIELDS" "ms_storage_len m < STORAGE_SIZE" "length s = 2 ^ 16"
  shows "\<exists>m'. MessageAddStringByTag tag (Some s) m = (True, m') \<and> mf_value_len (last (ms_fields m')) = 0"
proof -
  have "(of_nat (length s) :: u16) = 0" using assms(3) by simp
  then show ?thesis
    using assms(1,2)
    by (auto simp: MessageAddStringByTag_def c_str_def AppendFieldByTag_def append_value_def store_field_bytes_def)
qed

end
