(* ===== verification/Ntrs_Hub.thy ===== *)
theory Ntrs_Hub
  imports Ntrs_Codec "HOL-Library.List_Lexorder"
begin

text \<open>
  The cluster state of the NTRS hub, \<^verbatim>\<open>ntrs/src/ntrs_hub_state.cpp\<close> with \<^verbatim>\<open>ntrs/src/ntrs/hub_state.h\<close>: the table of nodes that the hub builds
  from the messages of the nodes, the expiry of silent nodes, and the snapshot from which a restarted hub restores the table.

  A \<open>std::string\<close> is the list of its bytes and is ordered as such. A \<open>std::map\<close> is the list of its entries in the order of the keys.
  The results behind the two pointers \<open>event_name\<close> and \<open>event_node\<close> are the value of \<open>applyMessage\<close>; \<open>None\<close> is the result false.
  The getters of a message may enter what they find into its index; this changes no later result (\<open>find_again\<close>), so a \<open>const\<close> message
  is a value here. A node that is declared without an initializer has an indeterminate \<open>load\<close>: the argument \<open>junk\<close>.
\<close>

section \<open>The ordered map\<close>

type_synonym ('k, 'v) std_map = "('k \<times> 'v) list"

definition map_find :: "'k \<Rightarrow> ('k, 'v) std_map \<Rightarrow> 'v option" where
  "map_find k m = map_of m k"

fun map_assign :: "'k::linorder \<Rightarrow> 'v \<Rightarrow> ('k, 'v) std_map \<Rightarrow> ('k, 'v) std_map" where
  "map_assign k v [] = [(k, v)]"
| "map_assign k v ((k', v') # m) =
     (if k < k' then (k, v) # (k', v') # m else if k = k' then (k, v) # m else (k', v') # map_assign k v m)"

definition map_wf :: "('k::linorder, 'v) std_map \<Rightarrow> bool" where
  "map_wf m \<longleftrightarrow> sorted_wrt (<) (map fst m)"

section \<open>Nodes\<close>

record ClusterNodeState =
  cn_node_id :: bytes
  cn_boot_id :: bytes
  cn_status :: bytes
  cn_region :: bytes
  cn_probe_endpoint :: bytes
  cn_control_endpoint :: bytes
  cn_nat_type :: bytes
  cn_last_heartbeat :: bytes
  cn_heartbeat_interval_sec :: u32
  cn_last_seen_mono_sec :: u64
  cn_load :: int

record HubClusterState =
  hs_nodes :: "(bytes, ClusterNodeState) std_map"
  hs_cluster_version :: u64

definition hub_new :: HubClusterState where
  "hub_new = \<lparr>hs_nodes = [], hs_cluster_version = 0\<rparr>"

definition std_string :: "string \<Rightarrow> bytes" where
  "std_string s = map of_char s"

section \<open>Reading messages\<close>

definition SafeMsgStringTag :: "Message \<Rightarrow> u16 \<Rightarrow> bytes" where
  "SafeMsgStringTag msg tag = fst (MessageGetStringByTag msg tag)"

definition SafeMsgU32Tag :: "Message \<Rightarrow> u16 \<Rightarrow> u32 \<Rightarrow> u32" where
  "SafeMsgU32Tag msg tag default_value = (case fst (MessageGetU32ByTag msg tag) of None \<Rightarrow> default_value | Some value \<Rightarrow> value)"

text \<open>
  \<open>strtoull\<close> with base 10: blanks, a sign, digits; the value, \<open>ULLONG_MAX\<close> when it is too large, and the rest behind the digits. Without a digit
  the rest is the whole string.
\<close>

definition is_space :: "u8 \<Rightarrow> bool" where
  "is_space b \<longleftrightarrow> b = 32 \<or> 9 \<le> b \<and> b \<le> 13"

definition is_digit :: "u8 \<Rightarrow> bool" where
  "is_digit b \<longleftrightarrow> 48 \<le> b \<and> b \<le> 57"

definition strtoull :: "bytes \<Rightarrow> u64 \<times> bytes" where
  "strtoull s =
     (let t = dropWhile is_space s;
          neg = (t \<noteq> [] \<and> hd t = 45);
          u = (if t \<noteq> [] \<and> (hd t = 43 \<or> hd t = 45) then tl t else t);
          v = foldl (\<lambda>v b. 10 * v + (unat b - 48)) 0 (takeWhile is_digit u)
      in if takeWhile is_digit u = [] then (0, s)
         else (if v \<ge> 2 ^ 64 then - 1 else if neg then - of_nat v else of_nat v, dropWhile is_digit u))"

definition ParseBootPrefix :: "bytes \<Rightarrow> u64" where
  "ParseBootPrefix boot_id =
     (if boot_id = [] then 0
      else
        let prefix = takeWhile (\<lambda>b. b \<noteq> 45) boot_id;
            s = takeWhile (\<lambda>b. b \<noteq> 0) prefix
        in (case strtoull s of (parsed, rest) \<Rightarrow> if rest = s \<or> rest \<noteq> [] then 0 else parsed))"

section \<open>Generations\<close>

definition bootGenerationOrder :: "bytes \<Rightarrow> u64" where
  "bootGenerationOrder boot_id = ParseBootPrefix boot_id"

definition shouldReplaceGeneration :: "ClusterNodeState \<Rightarrow> bytes \<Rightarrow> bool" where
  "shouldReplaceGeneration current incoming_boot_id =
     (let current_order = bootGenerationOrder (cn_boot_id current);
          incoming_order = bootGenerationOrder incoming_boot_id
      in if incoming_order > current_order then True
         else if incoming_order < current_order then False
         else incoming_boot_id > cn_boot_id current)"

definition isCurrentGeneration :: "ClusterNodeState \<Rightarrow> bytes \<Rightarrow> bool" where
  "isCurrentGeneration current incoming_boot_id \<longleftrightarrow> cn_boot_id current = incoming_boot_id"

definition heartbeatTimeoutSec :: "ClusterNodeState \<Rightarrow> u32" where
  "heartbeatTimeoutSec node =
     (let interval = (if cn_heartbeat_interval_sec node = 0 then 5 else cn_heartbeat_interval_sec node);
          timeout = interval * 3
      in if timeout < 3 then 3 else timeout)"

definition bumpVersion :: "HubClusterState \<Rightarrow> HubClusterState" where
  "bumpVersion h = h\<lparr>hs_cluster_version := hs_cluster_version h + 1\<rparr>"

section \<open>Messages of the nodes\<close>

text \<open>A node that is seen for the first time, and the node that replaces an older generation. The latter is value-initialized.\<close>

definition created_node :: "int \<Rightarrow> bytes \<Rightarrow> u64 \<Rightarrow> bytes \<Rightarrow> ClusterNodeState" where
  "created_node junk topic_node_id now_mono_sec NowIso8601 =
     \<lparr>cn_node_id = topic_node_id, cn_boot_id = [], cn_status = std_string ''unknown'', cn_region = [], cn_probe_endpoint = [],
      cn_control_endpoint = [], cn_nat_type = [], cn_last_heartbeat = NowIso8601, cn_heartbeat_interval_sec = 5,
      cn_last_seen_mono_sec = now_mono_sec, cn_load = junk\<rparr>"

definition replaced_node :: "bytes \<Rightarrow> u64 \<Rightarrow> bytes \<Rightarrow> ClusterNodeState" where
  "replaced_node topic_node_id now_mono_sec NowIso8601 =
     \<lparr>cn_node_id = topic_node_id, cn_boot_id = [], cn_status = [], cn_region = [], cn_probe_endpoint = [],
      cn_control_endpoint = [], cn_nat_type = [], cn_last_heartbeat = NowIso8601, cn_heartbeat_interval_sec = 5,
      cn_last_seen_mono_sec = now_mono_sec, cn_load = 0\<rparr>"

definition msg_interval :: "Message \<Rightarrow> ClusterNodeState \<Rightarrow> u32" where
  "msg_interval msg node = SafeMsgU32Tag msg 0x51 (if cn_heartbeat_interval_sec node = 0 then 5 else cn_heartbeat_interval_sec node)"

definition msg_time :: "Message \<Rightarrow> bytes \<Rightarrow> bytes" where
  "msg_time msg NowIso8601 = (if SafeMsgStringTag msg 0x45 = [] then NowIso8601 else SafeMsgStringTag msg 0x45)"

text \<open>The three kinds of messages: the event and the updated node, or \<open>None\<close> when the message is refused.\<close>

definition apply_register ::
    "bool \<Rightarrow> bytes \<Rightarrow> bytes \<Rightarrow> Message \<Rightarrow> u64 \<Rightarrow> bytes \<Rightarrow> ClusterNodeState \<Rightarrow> string \<times> ClusterNodeState" where
  "apply_register created topic_node_id incoming_boot_id msg now_mono_sec NowIso8601 node =
     (if created then ''node_registered'' else ''node_generation_replaced'',
      node\<lparr>cn_node_id := topic_node_id, cn_boot_id := incoming_boot_id, cn_region := SafeMsgStringTag msg 0x42,
        cn_probe_endpoint := SafeMsgStringTag msg 0x81, cn_control_endpoint := SafeMsgStringTag msg 0x2B,
        cn_nat_type := SafeMsgStringTag msg 0x31, cn_heartbeat_interval_sec := msg_interval msg node,
        cn_last_seen_mono_sec := now_mono_sec, cn_last_heartbeat := NowIso8601, cn_status := std_string (NodeStatusCodeName 1)\<rparr>)"

definition apply_presence ::
    "bytes \<Rightarrow> bytes \<Rightarrow> Message \<Rightarrow> u64 \<Rightarrow> bytes \<Rightarrow> ClusterNodeState \<Rightarrow> (string \<times> ClusterNodeState) option" where
  "apply_presence topic_node_id incoming_boot_id msg now_mono_sec NowIso8601 node =
     (case fst (MessageGetU8ByTag msg 0x43) of
        None \<Rightarrow> None
      | Some status_code \<Rightarrow>
          if status_code = 0 then None
          else if status_code = 3 \<and> \<not> isCurrentGeneration node incoming_boot_id then None
          else
            let reason_code = (case fst (MessageGetU8ByTag msg 0x02) of None \<Rightarrow> 0 | Some r \<Rightarrow> r);
                event = (if status_code = 2 then ''node_online''
                         else if status_code = 3 then (if reason_code = 2 then ''node_abnormal_offline'' else ''node_offline'')
                         else ''node_status_changed'')
            in Some (event, node\<lparr>cn_node_id := topic_node_id, cn_boot_id := incoming_boot_id, cn_status := std_string (NodeStatusCodeName status_code),
                 cn_last_seen_mono_sec := now_mono_sec, cn_last_heartbeat := msg_time msg NowIso8601\<rparr>))"

definition apply_heartbeat ::
    "bytes \<Rightarrow> bytes \<Rightarrow> Message \<Rightarrow> u64 \<Rightarrow> bytes \<Rightarrow> ClusterNodeState \<Rightarrow> string \<times> ClusterNodeState" where
  "apply_heartbeat topic_node_id incoming_boot_id msg now_mono_sec NowIso8601 node =
     (let nat_type = SafeMsgStringTag msg 0x31
      in (''node_heartbeat'',
          node\<lparr>cn_node_id := topic_node_id, cn_boot_id := incoming_boot_id, cn_status := std_string (NodeStatusCodeName 2),
            cn_nat_type := (if nat_type \<noteq> [] then nat_type else cn_nat_type node),
            cn_load := i32_of_u32 (SafeMsgU32Tag msg 0x44 0), cn_last_seen_mono_sec := now_mono_sec,
            cn_last_heartbeat := msg_time msg NowIso8601, cn_heartbeat_interval_sec := msg_interval msg node\<rparr>))"

definition update_node ::
    "bool \<Rightarrow> bytes \<Rightarrow> bytes \<Rightarrow> Message \<Rightarrow> u64 \<Rightarrow> bytes \<Rightarrow> ClusterNodeState \<Rightarrow> (string \<times> ClusterNodeState) option" where
  "update_node created topic_node_id incoming_boot_id msg now_mono_sec NowIso8601 node =
     (if ms_type msg = 0x40 then Some (apply_register created topic_node_id incoming_boot_id msg now_mono_sec NowIso8601 node)
      else if ms_type msg = 0x41 then apply_presence topic_node_id incoming_boot_id msg now_mono_sec NowIso8601 node
      else if ms_type msg = 0x42 then Some (apply_heartbeat topic_node_id incoming_boot_id msg now_mono_sec NowIso8601 node)
      else None)"

text \<open>
  \<open>node\<close> is a reference into the map: what it was set to before a message is refused stays there.
\<close>

definition apply_to_node ::
    "bool \<Rightarrow> bytes \<Rightarrow> bytes \<Rightarrow> Message \<Rightarrow> u64 \<Rightarrow> bytes \<Rightarrow> ClusterNodeState \<Rightarrow> HubClusterState \<Rightarrow>
     (string \<times> ClusterNodeState) option \<times> HubClusterState" where
  "apply_to_node created topic_node_id incoming_boot_id msg now_mono_sec NowIso8601 node h =
     (case update_node created topic_node_id incoming_boot_id msg now_mono_sec NowIso8601 node of
        None \<Rightarrow> (None, h\<lparr>hs_nodes := map_assign topic_node_id node (hs_nodes h)\<rparr>)
      | Some (event, node') \<Rightarrow> (Some (event, node'), bumpVersion (h\<lparr>hs_nodes := map_assign topic_node_id node' (hs_nodes h)\<rparr>)))"

definition applyMessage ::
    "int \<Rightarrow> bytes \<Rightarrow> Message \<Rightarrow> u64 \<Rightarrow> bytes \<Rightarrow> HubClusterState \<Rightarrow> (string \<times> ClusterNodeState) option \<times> HubClusterState" where
  "applyMessage junk topic_node_id msg now_mono_sec NowIso8601 h =
     (let field_node_id = SafeMsgStringTag msg 0x40;
          incoming_boot_id = SafeMsgStringTag msg 0x41
      in if topic_node_id = [] then (None, h)
         else if field_node_id \<noteq> [] \<and> field_node_id \<noteq> topic_node_id then (None, h)
         else if incoming_boot_id = [] then (None, h)
         else (case map_find topic_node_id (hs_nodes h) of
                 None \<Rightarrow>
                   if ms_type msg = 0x41 \<and> fst (MessageGetU8ByTag msg 0x43) = Some 3 then (None, h)
                   else apply_to_node True topic_node_id incoming_boot_id msg now_mono_sec NowIso8601
                          (created_node junk topic_node_id now_mono_sec NowIso8601) h
               | Some node \<Rightarrow>
                   if \<not> isCurrentGeneration node incoming_boot_id then
                     if \<not> shouldReplaceGeneration node incoming_boot_id then (None, h)
                     else apply_to_node False topic_node_id incoming_boot_id msg now_mono_sec NowIso8601
                            (replaced_node topic_node_id now_mono_sec NowIso8601) h
                   else apply_to_node False topic_node_id incoming_boot_id msg now_mono_sec NowIso8601 node h))"

section \<open>Expiry\<close>

definition node_kept :: "u64 \<Rightarrow> ClusterNodeState \<Rightarrow> bool" where
  "node_kept now_mono_sec node \<longleftrightarrow> cn_last_seen_mono_sec node = 0 \<or> now_mono_sec < cn_last_seen_mono_sec node \<or>
     now_mono_sec - cn_last_seen_mono_sec node \<le> ucast (heartbeatTimeoutSec node)"

text \<open>The loop over the map: what stays in it, what was evicted in order, and whether anything was.\<close>

fun sweep_loop :: "u64 \<Rightarrow> (bytes, ClusterNodeState) std_map \<Rightarrow> (bytes, ClusterNodeState) std_map \<times> ClusterNodeState list \<times> bool" where
  "sweep_loop now_mono_sec [] = ([], [], False)"
| "sweep_loop now_mono_sec ((k, node) # rest) =
     (case sweep_loop now_mono_sec rest of (kept, evicted, changed) \<Rightarrow>
        if node_kept now_mono_sec node then ((k, node) # kept, evicted, changed) else (kept, node # evicted, True))"

definition sweepExpired :: "u64 \<Rightarrow> HubClusterState \<Rightarrow> bool \<times> ClusterNodeState list \<times> HubClusterState" where
  "sweepExpired now_mono_sec h =
     (case sweep_loop now_mono_sec (hs_nodes h) of (kept, evicted, changed) \<Rightarrow>
        (changed, evicted, if changed then bumpVersion (h\<lparr>hs_nodes := kept\<rparr>) else h\<lparr>hs_nodes := kept\<rparr>))"

section \<open>Snapshots\<close>

text \<open>Integers in network byte order, with the expressions of \<open>Ntrs_Frame\<close>.\<close>

definition AppendU16 :: "bytes \<Rightarrow> u16 \<Rightarrow> bytes" where
  "AppendU16 out value = out @ PutU16Be value"

definition AppendU32 :: "bytes \<Rightarrow> u32 \<Rightarrow> bytes" where
  "AppendU32 out value = out @ PutU32Be value"

definition AppendU64 :: "bytes \<Rightarrow> u64 \<Rightarrow> bytes" where
  "AppendU64 out value = out @ PutU64Be value"

definition ReadU16 :: "bytes \<Rightarrow> u16" where
  "ReadU16 data = GetU16Be data"

definition ReadU32 :: "bytes \<Rightarrow> u32" where
  "ReadU32 data = GetU32Be data"

definition ReadU64 :: "bytes \<Rightarrow> u64" where
  "ReadU64 data = GetU64Be data"

definition AppendString :: "bytes \<Rightarrow> bytes \<Rightarrow> bool \<times> bytes" where
  "AppendString out value = (if length value > 0xFFFF then (False, out) else (True, AppendU16 out (of_nat (length value)) @ value))"

text \<open>The eight calls of \<open>AppendString\<close> and of \<open>ReadString\<close> in a row, until one fails.\<close>

fun append_strings :: "bytes list \<Rightarrow> bytes \<Rightarrow> bool \<times> bytes" where
  "append_strings [] out = (True, out)"
| "append_strings (v # vs) out = (case AppendString out v of (ok, out') \<Rightarrow> if ok then append_strings vs out' else (False, out'))"

definition node_strings :: "ClusterNodeState \<Rightarrow> bytes list" where
  "node_strings node = [cn_node_id node, cn_boot_id node, cn_status node, cn_region node, cn_probe_endpoint node, cn_control_endpoint node,
     cn_nat_type node, cn_last_heartbeat node]"

definition AppendNode :: "bytes \<Rightarrow> ClusterNodeState \<Rightarrow> bool \<times> bytes" where
  "AppendNode out node =
     (case append_strings (node_strings node) out of (ok, out') \<Rightarrow>
        if ok then (True, AppendU32 (AppendU64 (AppendU32 out' (cn_heartbeat_interval_sec node)) (cn_last_seen_mono_sec node)) (word_of_int (cn_load node)))
        else (False, out'))"

text \<open>A reader gives its result and the offset behind it, or fails.\<close>

definition ReadString :: "bytes \<Rightarrow> nat \<Rightarrow> nat \<Rightarrow> (bytes \<times> nat) option" where
  "ReadString data len offset =
     (if offset + 2 > len then None
      else
        let field_len = unat (ReadU16 (drop offset data));
            offset' = offset + 2
        in if offset' + field_len > len then None else Some (take field_len (drop offset' data), offset' + field_len))"

fun read_strings :: "nat \<Rightarrow> bytes \<Rightarrow> nat \<Rightarrow> nat \<Rightarrow> (bytes list \<times> nat) option" where
  "read_strings 0 data len offset = Some ([], offset)"
| "read_strings (Suc k) data len offset =
     (case ReadString data len offset of
        None \<Rightarrow> None
      | Some (s, offset') \<Rightarrow> (case read_strings k data len offset' of None \<Rightarrow> None | Some (ss, e) \<Rightarrow> Some (s # ss, e)))"

definition ReadNode :: "bytes \<Rightarrow> nat \<Rightarrow> nat \<Rightarrow> (ClusterNodeState \<times> nat) option" where
  "ReadNode data len offset =
     (case read_strings 8 data len offset of
        Some ([node_id, boot_id, status, region, probe_endpoint, control_endpoint, nat_type, last_heartbeat], off) \<Rightarrow>
          if off + 16 > len then None
          else
            let node = \<lparr>cn_node_id = node_id, cn_boot_id = boot_id, cn_status = status, cn_region = region, cn_probe_endpoint = probe_endpoint,
                  cn_control_endpoint = control_endpoint, cn_nat_type = nat_type, cn_last_heartbeat = last_heartbeat,
                  cn_heartbeat_interval_sec = ReadU32 (drop off data), cn_last_seen_mono_sec = ReadU64 (drop (off + 4) data),
                  cn_load = i32_of_u32 (ReadU32 (drop (off + 12) data))\<rparr>
            in if node_id \<noteq> [] then Some (node, off + 16) else None
      | _ \<Rightarrow> None)"

fun append_nodes :: "(bytes, ClusterNodeState) std_map \<Rightarrow> bytes \<Rightarrow> bool \<times> bytes" where
  "append_nodes [] out = (True, out)"
| "append_nodes ((k, node) # rest) out = (case AppendNode out node of (ok, out') \<Rightarrow> if ok then append_nodes rest out' else (False, []))"

definition EncodeClusterSnapshotNodes :: "(bytes, ClusterNodeState) std_map \<Rightarrow> bool \<times> bytes" where
  "EncodeClusterSnapshotNodes nodes =
     (if length nodes > 0xFFFF then (False, []) else append_nodes nodes (AppendU16 [1] (of_nat (length nodes))))"

fun read_nodes :: "nat \<Rightarrow> bytes \<Rightarrow> nat \<Rightarrow> nat \<Rightarrow> (ClusterNodeState list \<times> nat) option" where
  "read_nodes 0 data len offset = Some ([], offset)"
| "read_nodes (Suc k) data len offset =
     (case ReadNode data len offset of
        None \<Rightarrow> None
      | Some (node, offset') \<Rightarrow> (case read_nodes k data len offset' of None \<Rightarrow> None | Some (ns, e) \<Rightarrow> Some (node # ns, e)))"

text \<open>The vector of the caller is cleared by every failure behind the check of the version byte.\<close>

definition DecodeClusterSnapshotNodes :: "bytes option \<Rightarrow> nat \<Rightarrow> ClusterNodeState list \<Rightarrow> bool \<times> ClusterNodeState list" where
  "DecodeClusterSnapshotNodes data len nodes =
     (case data of
        None \<Rightarrow> (False, nodes)
      | Some p \<Rightarrow>
          if len < 3 then (False, nodes)
          else if p ! 0 \<noteq> 1 then (False, nodes)
          else (case read_nodes (unat (ReadU16 (drop 1 p))) p len 3 of
                  None \<Rightarrow> (False, [])
                | Some (ns, offset) \<Rightarrow> if offset \<noteq> len then (False, []) else (True, ns)))"

text \<open>The length of the encoded nodes is cast to 16 bits. The time is passed as a C string.\<close>

definition BuildClusterSnapshotMessage :: "(bytes, ClusterNodeState) std_map \<Rightarrow> u64 \<Rightarrow> bytes \<Rightarrow> Message \<Rightarrow> bool \<times> Message" where
  "BuildClusterSnapshotMessage nodes clusterVersion ts msg =
     (case EncodeClusterSnapshotNodes nodes of (ok, encoded_nodes) \<Rightarrow>
        if \<not> ok then (False, msg)
        else
          let m0 = MessageInit 0x43 (ucast clusterVersion);
              (ok1, m1) = MessageAddU64ByTag 0x47 clusterVersion m0
          in if \<not> ok1 then (False, m1)
             else (case MessageAddU32ByTag 0x48 (of_nat (length nodes)) m1 of (ok2, m2) \<Rightarrow>
               if \<not> ok2 then (False, m2)
               else (case MessageAddBytesByTag 0x49 (Some encoded_nodes) (of_nat (length encoded_nodes)) m2 of (ok3, m3) \<Rightarrow>
                 if \<not> ok3 then (False, m3)
                 else MessageAddStringByTag 0x45 (Some (takeWhile (\<lambda>b. b \<noteq> 0) ts)) m3)))"

text \<open>The result, the version and the vector of the caller.\<close>

definition ParseClusterSnapshotMessage ::
    "Message \<Rightarrow> u64 \<Rightarrow> ClusterNodeState list \<Rightarrow> bool \<times> u64 \<times> ClusterNodeState list" where
  "ParseClusterSnapshotMessage msg clusterVersion nodes =
     (if ms_type msg \<noteq> 0x43 then (False, clusterVersion, nodes)
      else (case (MessageGetU64 msg (Some ''clusterVersion''), fst (MessageGetU32ByTag msg 0x48), fst (MessageGetBytesByTag msg 0x49)) of
              (Some parsed_cluster_version, Some node_count, Some encoded_nodes) \<Rightarrow>
                (case DecodeClusterSnapshotNodes (Some encoded_nodes) (length encoded_nodes) nodes of (ok, ns) \<Rightarrow>
                   if \<not> ok then (False, clusterVersion, ns)
                   else if length ns \<noteq> unat node_count then (False, clusterVersion, [])
                   else (True, parsed_cluster_version, ns))
            | _ \<Rightarrow> (False, clusterVersion, nodes)))"

fun restore_loop :: "ClusterNodeState list \<Rightarrow> (bytes, ClusterNodeState) std_map \<Rightarrow> (bytes, ClusterNodeState) std_map option" where
  "restore_loop [] m = Some m"
| "restore_loop (node # ns) m =
     (if cn_node_id node = [] \<or> map_find (cn_node_id node) m \<noteq> None then None
      else restore_loop ns (map_assign (cn_node_id node) node m))"

definition restoreFromNodes :: "u64 \<Rightarrow> ClusterNodeState list \<Rightarrow> HubClusterState \<Rightarrow> bool \<times> HubClusterState" where
  "restoreFromNodes cluster_version nodes h =
     (if hs_nodes h \<noteq> [] \<or> hs_cluster_version h \<noteq> 0 then (False, h)
      else (case restore_loop nodes (hs_nodes h) of
              None \<Rightarrow> (False, h\<lparr>hs_nodes := [], hs_cluster_version := 0\<rparr>)
            | Some m \<Rightarrow> (True, h\<lparr>hs_nodes := m, hs_cluster_version := cluster_version\<rparr>)))"

definition restoreFromSnapshot :: "Message \<Rightarrow> HubClusterState \<Rightarrow> bool \<times> HubClusterState" where
  "restoreFromSnapshot msg h =
     (if hs_nodes h \<noteq> [] \<or> hs_cluster_version h \<noteq> 0 then (False, h)
      else (case ParseClusterSnapshotMessage msg 0 [] of (ok, clusterVersion, nodes) \<Rightarrow>
              if ok then restoreFromNodes clusterVersion nodes h else (False, h)))"

section \<open>Lemmas on the map\<close>

lemma map_assign_keys: "set (map fst (map_assign k v m)) = insert k (set (map fst m))"
  by (induction k v m rule: map_assign.induct) auto

lemma map_assign_wf: "map_wf m \<Longrightarrow> map_wf (map_assign k v m)"
proof (induction m)
  case (Cons kv m)
  have "set (map fst (map_assign k v m)) = insert k (set (map fst m))" by (rule map_assign_keys)
  then show ?case using Cons by (cases kv) (auto simp: map_wf_def)
qed (simp add: map_wf_def)

lemma map_find_assign: "map_wf m \<Longrightarrow> map_find k' (map_assign k v m) = (if k' = k then Some v else map_find k' m)"
proof (induction m)
  case (Cons kv m)
  have "map_of m k = None" if "k < fst kv" using Cons.prems that
    by (auto simp: map_wf_def map_of_eq_None_iff dest: less_trans)
  then show ?case using Cons by (cases kv) (auto simp: map_wf_def map_find_def)
qed (simp add: map_find_def)

lemma map_wf_distinct: "map_wf m \<Longrightarrow> distinct (map fst m)"
  by (simp add: map_wf_def strict_sorted_iff)

lemma map_ext:
  assumes "map_wf m" "map_wf m'" "\<And>k. map_find k m = map_find k m'"
  shows "m = m'"
proof -
  have d: "distinct (map fst m)" "distinct (map fst m')" using assms map_wf_distinct by auto
  have same: "map_of m = map_of m'" using assms(3) by (auto simp: map_find_def)
  then have "set m = set m'" by (metis d map_of_inject_set)
  then have k: "set (map fst m) = set (map fst m')" by simp
  have "map fst m = map fst m'" by (rule strict_sorted_equal) (use assms k in \<open>simp_all add: map_wf_def\<close>)
  moreover have "map (\<lambda>k. (k, the (map_of n k))) (map fst n) = n" if "distinct (map fst n)" for n :: "('a, 'b) std_map"
    using that by (auto intro!: map_idI)
  ultimately show ?thesis using d same by metis
qed

text \<open>What the hub relies on in an ordered map. A map is rebuilt by assigning its entries, in any order.\<close>

locale keyed_map =
  fixes empty_map :: 'm
    and inv :: "'m \<Rightarrow> bool"
    and lookup :: "'k \<Rightarrow> 'm \<Rightarrow> 'v option"
    and assign :: "'k \<Rightarrow> 'v \<Rightarrow> 'm \<Rightarrow> 'm"
  assumes inv_empty: "inv empty_map"
    and inv_assign: "inv m \<Longrightarrow> inv (assign k v m)"
    and lookup_empty: "lookup k empty_map = None"
    and lookup_assign: "inv m \<Longrightarrow> lookup k' (assign k v m) = (if k' = k then Some v else lookup k' m)"
    and ext: "inv m \<Longrightarrow> inv m' \<Longrightarrow> (\<And>k. lookup k m = lookup k m') \<Longrightarrow> m = m'"
begin

lemma assign_same: "inv m \<Longrightarrow> lookup k m = Some v \<Longrightarrow> assign k v m = m"
  by (rule ext) (simp_all add: inv_assign lookup_assign)

lemma inv_assign_all: "inv m \<Longrightarrow> inv (foldl (\<lambda>m (k, v). assign k v m) m kvs)"
  by (induction kvs arbitrary: m) (auto simp: inv_assign)

lemma lookup_assign_all:
  "inv m \<Longrightarrow> distinct (map fst kvs) \<Longrightarrow>
     lookup k (foldl (\<lambda>m (k, v). assign k v m) m kvs) = (case map_of kvs k of Some v \<Rightarrow> Some v | None \<Rightarrow> lookup k m)"
proof (induction kvs arbitrary: m)
  case (Cons kv kvs)
  then have "map_of kvs (fst kv) = None" by (simp add: map_of_eq_None_iff)
  then show ?case using Cons.IH [OF inv_assign [OF Cons.prems(1)], of "fst kv" "snd kv"] Cons.prems
    by (cases kv) (auto simp: lookup_assign split: option.split)
qed simp

lemma rebuild:
  assumes "inv m" "distinct (map fst kvs)" "\<And>k. map_of kvs k = lookup k m"
  shows "foldl (\<lambda>m (k, v). assign k v m) empty_map kvs = m"
  by (rule ext) (use assms in \<open>simp_all add: inv_assign_all inv_empty lookup_assign_all lookup_empty split: option.split\<close>)

end

interpretation node_map: keyed_map "[]" map_wf map_find map_assign
  by unfold_locales (auto simp: map_wf_def [of "[]"] map_assign_wf map_find_assign map_ext, simp add: map_find_def)

text \<open>A search by tag does not change what a later one finds.\<close>

lemma find_tag_loop_nth: "find_tag_loop tag fs i = Some (j, f) \<Longrightarrow> i \<le> j \<and> j < i + length fs \<and> f = fs ! (j - i)"
proof (induction fs arbitrary: i)
  case (Cons g fs)
  show ?case
  proof (cases "mf_tag g = tag")
    case False
    then have "i + 1 \<le> j \<and> j < i + 1 + length fs \<and> f = fs ! (j - (i + 1))" using Cons.IH [of "i + 1"] Cons.prems by simp
    then show ?thesis by (auto simp: nth_Cons')
  qed (use Cons.prems in auto)
qed simp

lemma find_by_tag_cases:
  obtains (same) "snd (FindFieldByTag t m) = m"
    | (entered) i f where "find_tag_loop t (ms_fields m) 0 = Some (i, f)" "unat t < TAG_INDEX_SIZE"
        "snd (FindFieldByTag t m) = m\<lparr>ms_tag_index := (ms_tag_index m)[unat t := int i]\<rparr>" "fst (FindFieldByTag t m) = Some f"
proof (cases "find_tag_loop t (ms_fields m) 0")
  case None
  then show ?thesis by (intro same) (simp add: FindFieldByTag_def Let_def)
next
  case (Some jf)
  define ix where "ix = (if unat t < TAG_INDEX_SIZE then ms_tag_index m ! unat t else - 1)"
  have "snd (FindFieldByTag t m) = m \<or> unat t < TAG_INDEX_SIZE \<and> fst (FindFieldByTag t m) = Some (snd jf) \<and>
      snd (FindFieldByTag t m) = m\<lparr>ms_tag_index := (ms_tag_index m)[unat t := int (fst jf)]\<rparr>"
    unfolding FindFieldByTag_def Let_def ix_def [symmetric] by (cases jf) (simp add: Some)
  then show ?thesis using same entered [of "fst jf" "snd jf"] Some by auto
qed

lemma find_again:
  assumes "length (ms_tag_index m) = TAG_INDEX_SIZE"
  shows "fst (FindFieldByTag u (snd (FindFieldByTag t m))) = fst (FindFieldByTag u m)"
proof (cases t m rule: find_by_tag_cases)
  case (entered i f)
  have i: "i < length (ms_fields m)" "f = ms_fields m ! i" using find_tag_loop_nth [OF entered(1)] by auto
  show ?thesis
  proof (cases "u = t")
    case True
    then show ?thesis using entered i assms by (simp add: FindFieldByTag_def [of t "m\<lparr>ms_tag_index := _\<rparr>"])
  next
    case False
    then have "unat t \<noteq> unat u" by (simp add: word_unat_eq_iff)
    then show ?thesis using entered(3) by (simp add: FindFieldByTag_def Let_def split: option.split)
  qed
qed simp

section \<open>The invariant of the hub\<close>

text \<open>The entries are in order, every node is stored under its own id, which is not empty, and \<open>load\<close> is an \<open>int32_t\<close>.\<close>

definition load_ok :: "ClusterNodeState \<Rightarrow> bool" where
  "load_ok node \<longleftrightarrow> - (2 ^ 31) \<le> cn_load node \<and> cn_load node < 2 ^ 31"

definition hub_wf :: "HubClusterState \<Rightarrow> bool" where
  "hub_wf h \<longleftrightarrow> map_wf (hs_nodes h) \<and> (\<forall>k node. map_find k (hs_nodes h) = Some node \<longrightarrow> k \<noteq> [] \<and> cn_node_id node = k \<and> load_ok node)"

text \<open>The order of the generations: the number before the dash, then the whole id.\<close>

definition gen_less :: "bytes \<Rightarrow> bytes \<Rightarrow> bool" where
  "gen_less a b \<longleftrightarrow> bootGenerationOrder a < bootGenerationOrder b \<or> bootGenerationOrder a = bootGenerationOrder b \<and> a < b"

lemma replace_iff_newer: "shouldReplaceGeneration node b \<longleftrightarrow> gen_less (cn_boot_id node) b"
  by (auto simp: shouldReplaceGeneration_def gen_less_def Let_def)

lemma gen_less_order: "\<not> gen_less a a" "gen_less a b \<Longrightarrow> gen_less b c \<Longrightarrow> gen_less a c" "a = b \<or> gen_less a b \<or> gen_less b a"
  by (auto simp: gen_less_def)

lemma gen_less_empty: "b \<noteq> [] \<Longrightarrow> gen_less [] b"
  by (cases b) (auto simp: gen_less_def bootGenerationOrder_def ParseBootPrefix_def word_neq_0_conv)

lemma load_ok_i32: "- (2 ^ 31) \<le> i32_of_u32 w" "i32_of_u32 w < 2 ^ 31"
  using sint_range_size [of w] by (simp_all add: i32_of_u32_def word_size)

lemma update_node_ok:
  assumes "update_node c k b msg now ts node = Some (ev, node')" "load_ok node"
  shows "cn_node_id node' = k \<and> cn_boot_id node' = b \<and> cn_last_seen_mono_sec node' = now \<and> load_ok node'"
  using assms load_ok_i32
  by (auto simp: update_node_def apply_register_def apply_presence_def apply_heartbeat_def load_ok_def Let_def split: if_splits option.splits)

lemma apply_to_node_cases:
  obtains (refused) "apply_to_node c k b msg now ts node h = (None, h\<lparr>hs_nodes := map_assign k node (hs_nodes h)\<rparr>)"
      "update_node c k b msg now ts node = None"
  | (accepted) ev node' where "update_node c k b msg now ts node = Some (ev, node')"
      "apply_to_node c k b msg now ts node h = (Some (ev, node'), bumpVersion (h\<lparr>hs_nodes := map_assign k node' (hs_nodes h)\<rparr>))"
proof (cases "update_node c k b msg now ts node")
  case None
  then show ?thesis by (intro refused) (simp_all add: apply_to_node_def)
next
  case (Some en)
  then show ?thesis by (cases en) (auto intro: accepted simp: apply_to_node_def)
qed

lemma hub_assign_wf:
  "hub_wf h \<Longrightarrow> k \<noteq> [] \<Longrightarrow> cn_node_id node = k \<Longrightarrow> load_ok node \<Longrightarrow> hub_wf (h\<lparr>hs_nodes := map_assign k node (hs_nodes h)\<rparr>)"
  by (simp add: hub_wf_def map_assign_wf map_find_assign)

lemma bump_version [simp]: "hs_nodes (bumpVersion h) = hs_nodes h" "hs_cluster_version (bumpVersion h) = hs_cluster_version h + 1" "hub_wf (bumpVersion h) = hub_wf h"
  by (simp_all add: bumpVersion_def hub_wf_def)

lemma apply_to_node_wf:
  assumes "hub_wf h" "k \<noteq> []" "cn_node_id node = k" "load_ok node"
  shows "hub_wf (snd (apply_to_node c k b msg now ts node h))"
proof (cases rule: apply_to_node_cases [where c = c and k = k and b = b and msg = msg and now = now and ts = ts and node = node and h = h])
  case refused
  then show ?thesis using hub_assign_wf [OF assms] by simp
next
  case (accepted ev node')
  then show ?thesis using update_node_ok [OF accepted(1) assms(4)] hub_assign_wf [OF assms(1,2), of node'] by simp
qed

text \<open>What a message comes to: it has no effect, or the node it is for is entered, kept or replaced, and updated.\<close>

lemma applyMessage_cases:
  obtains (ignored) "applyMessage junk k msg now ts h = (None, h)"
  | (entered) c node where "k \<noteq> []" "SafeMsgStringTag msg 0x41 \<noteq> []"
      "applyMessage junk k msg now ts h = apply_to_node c k (SafeMsgStringTag msg 0x41) msg now ts node h"
      "c \<and> map_find k (hs_nodes h) = None \<and> node = created_node junk k now ts \<or>
       \<not> c \<and> map_find k (hs_nodes h) = Some node \<and> cn_boot_id node = SafeMsgStringTag msg 0x41 \<or>
       \<not> c \<and> (\<exists>old. map_find k (hs_nodes h) = Some old \<and> gen_less (cn_boot_id old) (SafeMsgStringTag msg 0x41)) \<and> node = replaced_node k now ts"
proof (cases "k = [] \<or> SafeMsgStringTag msg 0x40 \<noteq> [] \<and> SafeMsgStringTag msg 0x40 \<noteq> k \<or> SafeMsgStringTag msg 0x41 = []")
  case True
  then show ?thesis by (intro ignored) (auto simp: applyMessage_def Let_def)
next
  case live: False
  show ?thesis
  proof (cases "map_find k (hs_nodes h)")
    case None
    show ?thesis
    proof (cases "ms_type msg = 0x41 \<and> fst (MessageGetU8ByTag msg 0x43) = Some 3")
      case True
      then show ?thesis using None by (intro ignored) (simp add: applyMessage_def Let_def)
    next
      case False
      show ?thesis by (rule entered [of True "created_node junk k now ts"]) (use live None False in \<open>auto simp: applyMessage_def Let_def\<close>)
    qed
  next
    case (Some old)
    show ?thesis
    proof (cases "isCurrentGeneration old (SafeMsgStringTag msg 0x41)")
      case True
      show ?thesis
        by (rule entered [of False old]) (use live Some True in \<open>auto simp: applyMessage_def Let_def isCurrentGeneration_def\<close>)
    next
      case new: False
      show ?thesis
      proof (cases "shouldReplaceGeneration old (SafeMsgStringTag msg 0x41)")
        case True
        show ?thesis
          by (rule entered [of False "replaced_node k now ts"])
            (use live Some True new in \<open>auto simp: applyMessage_def Let_def replace_iff_newer\<close>)
      next
        case False
        then show ?thesis using live Some new by (intro ignored) (simp add: applyMessage_def Let_def)
      qed
    qed
  qed
qed

lemma apply_message_wf:
  assumes "hub_wf h" "- (2 ^ 31) \<le> junk" "junk < 2 ^ 31"
  shows "hub_wf (snd (applyMessage junk k msg now ts h))"
proof (cases rule: applyMessage_cases [where junk = junk and k = k and msg = msg and now = now and ts = ts and h = h])
  case ignored
  then show ?thesis using assms by simp
next
  case (entered c node)
  have "cn_node_id node = k \<and> load_ok node"
    using entered(4) assms by (auto simp: created_node_def replaced_node_def load_ok_def hub_wf_def)
  then show ?thesis using apply_to_node_wf [OF assms(1) entered(1)] entered(3) by simp
qed

subsection \<open>Expiry\<close>

lemma sweep_loop_eq:
  "sweep_loop now m = (filter (\<lambda>(k, n). node_kept now n) m, map snd (filter (\<lambda>(k, n). \<not> node_kept now n) m), \<exists>(k, n) \<in> set m. \<not> node_kept now n)"
  by (induction now m rule: sweep_loop.induct) auto

lemma map_find_filter:
  "map_wf m \<Longrightarrow> map_find k (filter (\<lambda>(k, n). P n) m) = (case map_find k m of Some n \<Rightarrow> if P n then Some n else None | None \<Rightarrow> None)"
proof (induction m)
  case (Cons kn m)
  have "map_of (filter (\<lambda>(k, n). P n) m) (fst kn) = None" using Cons.prems
    by (auto simp: map_wf_def map_of_eq_None_iff)
  then show ?case using Cons by (cases kn) (auto simp: map_wf_def map_find_def split: option.splits)
qed (simp add: map_find_def)

lemma map_wf_filter: "map_wf m \<Longrightarrow> map_wf (filter P m)"
  by (induction m) (auto simp: map_wf_def)

lemma sweep_nodes: "hs_nodes (snd (snd (sweepExpired now h))) = filter (\<lambda>(k, n). node_kept now n) (hs_nodes h)"
  by (simp add: sweepExpired_def sweep_loop_eq)

lemma sweep_wf: "hub_wf h \<Longrightarrow> hub_wf (snd (snd (sweepExpired now h)))"
  unfolding hub_wf_def sweep_nodes by (auto simp: map_wf_filter map_find_filter split: option.splits if_splits)

subsection \<open>Restoring\<close>

lemma restore_loop_wf:
  "restore_loop ns m = Some m' \<Longrightarrow> \<forall>n \<in> set ns. load_ok n \<Longrightarrow> hub_wf \<lparr>hs_nodes = m, hs_cluster_version = v\<rparr> \<Longrightarrow>
     hub_wf \<lparr>hs_nodes = m', hs_cluster_version = v'\<rparr>"
proof (induction ns arbitrary: m)
  case (Cons n ns)
  have "hub_wf \<lparr>hs_nodes = map_assign (cn_node_id n) n m, hs_cluster_version = v\<rparr>"
    using hub_assign_wf [OF Cons.prems(3), of "cn_node_id n" n] Cons.prems(1,2) by (auto split: if_splits)
  then show ?case using Cons.IH Cons.prems(1,2) by (auto split: if_splits)
qed (simp add: hub_wf_def)

lemma restore_nodes_wf:
  assumes "hub_wf h" "\<forall>n \<in> set ns. load_ok n"
  shows "hub_wf (snd (restoreFromNodes v ns h))"
proof (cases "restore_loop ns (hs_nodes h)")
  case None
  have "hub_wf (h\<lparr>hs_nodes := [], hs_cluster_version := 0\<rparr>)" by (simp add: hub_wf_def map_wf_def map_find_def)
  then show ?thesis using assms(1) None by (auto simp: restoreFromNodes_def)
next
  case (Some m)
  have "hub_wf \<lparr>hs_nodes = hs_nodes h, hs_cluster_version = 0\<rparr>" using assms(1) by (simp add: hub_wf_def)
  then have "hub_wf \<lparr>hs_nodes = m, hs_cluster_version = v\<rparr>" using restore_loop_wf [OF Some assms(2)] by blast
  then have "hub_wf (h\<lparr>hs_nodes := m, hs_cluster_version := v\<rparr>)" by (simp add: hub_wf_def)
  then show ?thesis using Some assms(1) by (auto simp: restoreFromNodes_def)
qed

lemma restore_loop_fold:
  "distinct (map cn_node_id ns) \<Longrightarrow> \<forall>n \<in> set ns. cn_node_id n \<noteq> [] \<and> map_find (cn_node_id n) m = None \<Longrightarrow> map_wf m \<Longrightarrow>
     restore_loop ns m = Some (foldl (\<lambda>m (k, n). map_assign k n m) m (map (\<lambda>n. (cn_node_id n, n)) ns))"
proof (induction ns arbitrary: m)
  case (Cons n ns)
  have "\<forall>n' \<in> set ns. cn_node_id n' \<noteq> [] \<and> map_find (cn_node_id n') (map_assign (cn_node_id n) n m) = None"
    using Cons.prems by (auto simp: map_find_assign image_iff)
  then show ?case using Cons.IH [of "map_assign (cn_node_id n) n m"] Cons.prems by (simp add: map_assign_wf)
qed simp

lemma hub_wf_entries:
  assumes "hub_wf h"
  shows "map (\<lambda>n. (cn_node_id n, n)) (map snd (hs_nodes h)) = hs_nodes h" "\<forall>n \<in> set (map snd (hs_nodes h)). cn_node_id n \<noteq> [] \<and> load_ok n"
proof -
  have "k \<noteq> [] \<and> cn_node_id n = k \<and> load_ok n" if "(k, n) \<in> set (hs_nodes h)" for k n
    using that assms map_wf_distinct [of "hs_nodes h"] by (auto simp: hub_wf_def map_find_def)
  then show "map (\<lambda>n. (cn_node_id n, n)) (map snd (hs_nodes h)) = hs_nodes h" "\<forall>n \<in> set (map snd (hs_nodes h)). cn_node_id n \<noteq> [] \<and> load_ok n"
    by (auto intro!: map_idI)
qed

lemma restore_nodes_same:
  assumes "hub_wf h"
  shows "restoreFromNodes (hs_cluster_version h) (map snd (hs_nodes h)) hub_new = (True, h)"
proof -
  let ?ns = "map snd (hs_nodes h)"
  have e: "map (\<lambda>n. (cn_node_id n, n)) ?ns = hs_nodes h" "\<forall>n \<in> set ?ns. cn_node_id n \<noteq> [] \<and> load_ok n" using hub_wf_entries [OF assms] by auto
  have wf: "map_wf (hs_nodes h)" using assms by (simp add: hub_wf_def)
  have "map cn_node_id ?ns = map fst (hs_nodes h)" using arg_cong [OF e(1), of "map fst"] by (simp add: comp_def)
  then have "distinct (map cn_node_id ?ns)" using map_wf_distinct [OF wf] by (simp only:)
  then have "restore_loop ?ns [] = Some (foldl (\<lambda>m (k, n). map_assign k n m) [] (hs_nodes h))"
    using restore_loop_fold [of ?ns "[]"] e by (simp add: map_find_def map_wf_def del: map_map)
  also have "\<dots> = Some (hs_nodes h)"
    using node_map.rebuild [OF wf map_wf_distinct [OF wf]] by (simp add: map_find_def)
  finally show ?thesis by (simp add: restoreFromNodes_def hub_new_def)
qed

subsection \<open>The bytes of a snapshot\<close>

definition string_wire :: "bytes \<Rightarrow> bytes" where
  "string_wire s = PutU16Be (of_nat (length s)) @ s"

definition node_wire :: "ClusterNodeState \<Rightarrow> bytes" where
  "node_wire n = concat (map string_wire (node_strings n)) @ PutU32Be (cn_heartbeat_interval_sec n) @ PutU64Be (cn_last_seen_mono_sec n) @
     PutU32Be (word_of_int (cn_load n))"

lemma append_strings_eq:
  "append_strings vs out = (True, out') \<Longrightarrow> (\<forall>v \<in> set vs. length v < 2 ^ 16) \<and> out' = out @ concat (map string_wire vs)"
  by (induction vs out rule: append_strings.induct) (auto simp: AppendString_def AppendU16_def string_wire_def split: if_splits)

lemma append_node_eq:
  "AppendNode out n = (True, out') \<Longrightarrow> (\<forall>v \<in> set (node_strings n). length v < 2 ^ 16) \<and> out' = out @ node_wire n"
  by (auto simp: AppendNode_def AppendU32_def AppendU64_def node_wire_def dest!: append_strings_eq split: prod.splits if_splits)

lemma append_nodes_eq:
  "append_nodes m out = (True, out') \<Longrightarrow> (\<forall>(k, n) \<in> set m. \<forall>v \<in> set (node_strings n). length v < 2 ^ 16) \<and> out' = out @ concat (map (node_wire \<circ> snd) m)"
proof (induction m arbitrary: out)
  case (Cons kn m)
  obtain o1 where "AppendNode out (snd kn) = (True, o1)" "append_nodes m o1 = (True, out')"
    using Cons.prems by (cases kn) (auto split: prod.splits if_splits)
  then show ?case using Cons.IH [of o1] append_node_eq [of out "snd kn" o1] by (simp add: case_prod_beta)
qed simp

lemma read_string_eq:
  assumes "drop off data = string_wire s @ rest" "length s < 2 ^ 16" "off + length (string_wire s) \<le> len"
  shows "ReadString data len off = Some (s, off + length (string_wire s))" "drop (off + length (string_wire s)) data = rest"
proof -
  have "drop (off + 2) data = drop 2 (drop off data)" by (simp add: add.commute)
  then have "drop (off + 2) data = s @ rest" using assms(1) by (simp add: string_wire_def)
  then show "ReadString data len off = Some (s, off + length (string_wire s))"
    using assms by (simp add: ReadString_def ReadU16_def string_wire_def unat_of_nat Let_def)
  have "drop (off + length (string_wire s)) data = drop (length (string_wire s)) (drop off data)" by (simp add: add.commute)
  then show "drop (off + length (string_wire s)) data = rest" using assms(1) by simp
qed

lemma read_strings_eq:
  "drop off data = concat (map string_wire ss) @ rest \<Longrightarrow> \<forall>s \<in> set ss. length s < 2 ^ 16 \<Longrightarrow> off + length (concat (map string_wire ss)) \<le> len \<Longrightarrow>
     read_strings (length ss) data len off = Some (ss, off + length (concat (map string_wire ss)))"
proof (induction ss arbitrary: off)
  case (Cons s ss)
  have r: "ReadString data len off = Some (s, off + length (string_wire s))"
    "drop (off + length (string_wire s)) data = concat (map string_wire ss) @ rest"
    using read_string_eq [of off data s "concat (map string_wire ss) @ rest" len] Cons.prems by simp_all
  show ?case using Cons.IH [OF r(2)] Cons.prems(2,3) r(1) by simp
qed simp

lemma read_node_eq:
  assumes "drop off data = node_wire n @ rest" "\<forall>v \<in> set (node_strings n). length v < 2 ^ 16" "off + length (node_wire n) \<le> len"
    and "cn_node_id n \<noteq> []" "load_ok n"
  shows "ReadNode data len off = Some (n, off + length (node_wire n))" "drop (off + length (node_wire n)) data = rest"
proof -
  define e where "e = off + length (concat (map string_wire (node_strings n)))"
  have s: "read_strings 8 data len off = Some (node_strings n, e)"
  proof -
    have "length (node_strings n) = 8" by (simp add: node_strings_def)
    then show ?thesis
      using read_strings_eq [of off data "node_strings n" _ len] assms(1-3) unfolding e_def node_wire_def by (metis append.assoc add.assoc add_leD1 length_append)
  qed
  have "drop e data = drop (length (concat (map string_wire (node_strings n)))) (drop off data)" by (simp add: e_def add.commute)
  then have d: "drop e data = PutU32Be (cn_heartbeat_interval_sec n) @ PutU64Be (cn_last_seen_mono_sec n) @ PutU32Be (word_of_int (cn_load n)) @ rest"
    using assms(1) by (simp add: node_wire_def)
  have "drop (e + 4) data = drop 4 (drop e data)" "drop (e + 12) data = drop 12 (drop e data)" by (simp_all add: add.commute)
  then have d': "drop (e + 4) data = PutU64Be (cn_last_seen_mono_sec n) @ PutU32Be (word_of_int (cn_load n)) @ rest"
    "drop (e + 12) data = PutU32Be (word_of_int (cn_load n)) @ rest" using d by simp_all
  have "i32_of_u32 (word_of_int (cn_load n)) = cn_load n" using assms(5) by (simp add: i32_of_u32_def load_ok_def signed_of_int signed_take_bit_int_eq_self)
  moreover have "e + 16 = off + length (node_wire n)" by (simp add: e_def node_wire_def)
  ultimately show "ReadNode data len off = Some (n, off + length (node_wire n))"
    using s d d' assms(3,4) by (simp add: ReadNode_def node_strings_def ReadU32_def ReadU64_def Let_def)
  have "drop (off + length (node_wire n)) data = drop (length (node_wire n)) (drop off data)" by (simp add: add.commute)
  then show "drop (off + length (node_wire n)) data = rest" using assms(1) by simp
qed

lemma read_nodes_eq:
  "drop off data = concat (map node_wire ns) @ rest \<Longrightarrow> \<forall>n \<in> set ns. cn_node_id n \<noteq> [] \<and> load_ok n \<and> (\<forall>v \<in> set (node_strings n). length v < 2 ^ 16) \<Longrightarrow>
     off + length (concat (map node_wire ns)) \<le> len \<Longrightarrow> read_nodes (length ns) data len off = Some (ns, off + length (concat (map node_wire ns)))"
proof (induction ns arbitrary: off)
  case (Cons n ns)
  have r: "ReadNode data len off = Some (n, off + length (node_wire n))" "drop (off + length (node_wire n)) data = concat (map node_wire ns) @ rest"
    using read_node_eq [of off data n "concat (map node_wire ns) @ rest" len] Cons.prems by simp_all
  show ?case using Cons.IH [OF r(2)] Cons.prems(2,3) r(1) by simp
qed simp

lemma decode_encode_nodes:
  assumes "hub_wf h" "EncodeClusterSnapshotNodes (hs_nodes h) = (True, enc)"
  shows "DecodeClusterSnapshotNodes (Some enc) (length enc) ns = (True, map snd (hs_nodes h)) \<and> length (hs_nodes h) < 2 ^ 16"
proof -
  have l: "length (hs_nodes h) < 2 ^ 16" using assms(2) by (auto simp: EncodeClusterSnapshotNodes_def split: if_splits)
  then have e: "\<forall>(k, n) \<in> set (hs_nodes h). \<forall>v \<in> set (node_strings n). length v < 2 ^ 16"
    "enc = 1 # PutU16Be (of_nat (length (hs_nodes h))) @ concat (map node_wire (map snd (hs_nodes h)))"
    using append_nodes_eq [of "hs_nodes h" "AppendU16 [1] (of_nat (length (hs_nodes h)))" enc] assms(2)
    by (auto simp: EncodeClusterSnapshotNodes_def AppendU16_def comp_def split: if_splits)
  have "\<forall>n \<in> set (map snd (hs_nodes h)). cn_node_id n \<noteq> [] \<and> load_ok n \<and> (\<forall>v \<in> set (node_strings n). length v < 2 ^ 16)"
    using hub_wf_entries(2) [OF assms(1)] e(1) by fastforce
  then have "read_nodes (length (map snd (hs_nodes h))) enc (length enc) 3 =
      Some (map snd (hs_nodes h), 3 + length (concat (map node_wire (map snd (hs_nodes h)))))"
    by (intro read_nodes_eq [where rest = "[]"]) (simp_all add: e(2))
  then show ?thesis using l
    by (simp add: DecodeClusterSnapshotNodes_def e(2) ReadU16_def unat_of_nat)
qed

lemma add_arg_type: "add_arg t a m = (True, m') \<Longrightarrow> ms_type m' = ms_type m"
  by (cases a) (auto simp: add_by_tag_defs Let_def store_field_bytes_def split: if_splits)

lemma add_args_type: "add_args fs m = (True, m') \<Longrightarrow> ms_type m' = ms_type m"
proof (induction fs arbitrary: m)
  case (Cons ta fs)
  obtain m1 where "add_arg (fst ta) (snd ta) m = (True, m1)" "add_args fs m1 = (True, m')"
    using Cons.prems by (cases ta) (auto split: prod.splits if_splits)
  then show ?case using Cons.IH [of m1] add_arg_type by metis
qed simp

lemma read_node_load: "ReadNode data len off = Some (n, e) \<Longrightarrow> load_ok n"
  using load_ok_i32 by (auto simp: ReadNode_def Let_def load_ok_def split: option.splits prod.splits list.splits if_splits)

lemma read_nodes_load: "read_nodes k data len off = Some (ns, e) \<Longrightarrow> \<forall>n \<in> set ns. load_ok n"
proof (induction k arbitrary: off ns)
  case (Suc k)
  obtain n o1 ms where "ReadNode data len off = Some (n, o1)" "read_nodes k data len o1 = Some (ms, e)" "ns = n # ms"
    using Suc.prems by (auto split: option.splits)
  then show ?case using Suc.IH [of o1 ms] read_node_load by auto
qed simp

lemma parse_snapshot_load: "ParseClusterSnapshotMessage msg v [] = (ok, v', ns) \<Longrightarrow> \<forall>n \<in> set ns. load_ok n"
  by (auto simp: ParseClusterSnapshotMessage_def DecodeClusterSnapshotNodes_def dest: read_nodes_load split: if_splits option.splits prod.splits)

lemma restore_snapshot_wf: "hub_wf h \<Longrightarrow> hub_wf (snd (restoreFromSnapshot msg h))"
  by (auto simp: restoreFromSnapshot_def dest: parse_snapshot_load intro: restore_nodes_wf split: prod.split)

subsection \<open>The states of a hub\<close>

inductive hub_step :: "HubClusterState \<Rightarrow> HubClusterState \<Rightarrow> bool" where
  step_message: "- (2 ^ 31) \<le> junk \<Longrightarrow> junk < 2 ^ 31 \<Longrightarrow> hub_step h (snd (applyMessage junk k msg now ts h))"
| step_sweep: "hub_step h (snd (snd (sweepExpired now h)))"
| step_nodes: "\<forall>n \<in> set ns. load_ok n \<Longrightarrow> hub_step h (snd (restoreFromNodes v ns h))"
| step_snapshot: "hub_step h (snd (restoreFromSnapshot msg h))"

inductive hub_reachable :: "HubClusterState \<Rightarrow> bool" where
  reach_new: "hub_reachable hub_new"
| reach_step: "hub_reachable h \<Longrightarrow> hub_step h h' \<Longrightarrow> hub_reachable h'"

lemma hub_step_wf: "hub_step h h' \<Longrightarrow> hub_wf h \<Longrightarrow> hub_wf h'"
  by (induction rule: hub_step.induct) (auto intro: apply_message_wf sweep_wf restore_nodes_wf restore_snapshot_wf)

lemma hub_reachable_wf: "hub_reachable h \<Longrightarrow> hub_wf h"
proof (induction rule: hub_reachable.induct)
  case reach_new
  then show ?case by (simp add: hub_wf_def hub_new_def map_wf_def map_find_def)
qed (rule hub_step_wf)

subsection \<open>The snapshot message\<close>

definition snapshot_fields :: "HubClusterState \<Rightarrow> bytes \<Rightarrow> bytes \<Rightarrow> (u16 \<times> field_arg) list" where
  "snapshot_fields h enc ts = [(0x47, A_u64 (hs_cluster_version h)), (0x48, A_u32 (of_nat (length (hs_nodes h)))), (0x49, A_bytes enc), (0x45, A_bytes ts)]"

lemma snapshot_defs:
  "FindFieldDefByTag 0x47 = Some \<lparr>fd_key = ''clusterVersion'', fd_tag = 0x47, fd_type = FT_U64\<rparr>"
  "FindFieldDefByTag 0x48 = Some \<lparr>fd_key = ''node_count'', fd_tag = 0x48, fd_type = FT_U32\<rparr>"
  "FindFieldDefByTag 0x49 = Some \<lparr>fd_key = ''nodes'', fd_tag = 0x49, fd_type = FT_BYTES\<rparr>"
  "FindFieldDefByTag 0x45 = Some \<lparr>fd_key = ''ts'', fd_tag = 0x45, fd_type = FT_BYTES\<rparr>"
  by (code_simp)+

lemma build_snapshot_eq:
  assumes "EncodeClusterSnapshotNodes (hs_nodes h) = (True, enc)"
  shows "BuildClusterSnapshotMessage (hs_nodes h) (hs_cluster_version h) ts msg =
    add_args (snapshot_fields h enc (takeWhile (\<lambda>b. b \<noteq> 0) ts)) (MessageInit 0x43 (ucast (hs_cluster_version h)))"
  using assms
  by (auto simp: BuildClusterSnapshotMessage_def snapshot_fields_def Let_def MessageAddStringByTag_def MessageAddBytesByTag_def c_str_def split: prod.split)

lemma parse_snapshot_eq:
  assumes "hub_wf h" "EncodeClusterSnapshotNodes (hs_nodes h) = (True, enc)" "length enc < 2 ^ 16" "length ts < 2 ^ 16"
    and "add_args (snapshot_fields h enc ts) (MessageInit 0x43 rid) = (True, m)" "ms_type m = 0x43"
  shows "restoreFromSnapshot m hub_new = (True, h)"
proof -
  have g: "message_wf m \<and> (\<forall>(t, a) \<in> set (snapshot_fields h enc ts). fst (get_arg (arg_type a) t m) = Some a) \<and>
      (\<forall>y u. u \<notin> fst ` set (snapshot_fields h enc ts) \<longrightarrow> fst (get_arg y u m) = fst (get_arg y u (MessageInit 0x43 rid)))"
    by (rule message_fields.get_adds [OF message_init_wf _ _ assms(5)]) (use assms(3,4) in \<open>simp_all add: snapshot_fields_def TAG_INDEX_SIZE_def\<close>)
  then have wf: "message_wf m" and b: "fst (get_arg FT_U64 0x47 m) = Some (A_u64 (hs_cluster_version h))"
    "fst (get_arg FT_U32 0x48 m) = Some (A_u32 (of_nat (length (hs_nodes h))))" "fst (get_arg FT_BYTES 0x49 m) = Some (A_bytes enc)"
    by (simp_all add: snapshot_fields_def del: get_arg.simps)
  have t: "fst (MessageGetU32ByTag m 0x48) = Some (of_nat (length (hs_nodes h)))" "fst (MessageGetBytesByTag m 0x49) = Some enc"
    "fst (MessageGetU64ByTag m 0x47) = Some (hs_cluster_version h)"
    using b by (auto simp: case_prod_beta)
  obtain f0 f1 f2 f3 where f: "ms_fields m = [f0, f1, f2, f3]" "mf_tag f0 = 0x47" "mf_key f0 = Some ''clusterVersion''"
      "mf_tag f1 = 0x48" "mf_tag f2 = 0x49" "mf_tag f3 = 0x45"
    using add_args_fields [OF assms(5)] by (auto simp: snapshot_fields_def MessageInit_def snapshot_defs map_eq_Cons_conv)
  have "FindFieldByTag 0x47 m = (Some f0, m)" using wf f by (simp add: FindFieldByTag_eq)
  moreover have "FindField (Some ''clusterVersion'') m = Some f0" using f by (simp add: FindField_def)
  ultimately have k: "MessageGetU64 m (Some ''clusterVersion'') = Some (hs_cluster_version h)"
    using t(3) by (auto simp: MessageGetU64_def MessageGetU64ByTag_def split: if_splits)
  have d: "DecodeClusterSnapshotNodes (Some enc) (length enc) [] = (True, map snd (hs_nodes h))" "length (hs_nodes h) < 2 ^ 16"
    using decode_encode_nodes [OF assms(1,2)] by auto
  have "ParseClusterSnapshotMessage m 0 [] = (True, hs_cluster_version h, map snd (hs_nodes h))"
    using assms(6) k t d by (simp add: ParseClusterSnapshotMessage_def unat_of_nat)
  then show ?thesis using restore_nodes_same [OF assms(1)] by (simp add: restoreFromSnapshot_def hub_new_def)
qed

text \<open>The silence after which a node is evicted, over the numbers.\<close>

definition node_silent :: "u64 \<Rightarrow> ClusterNodeState \<Rightarrow> bool" where
  "node_silent now n \<longleftrightarrow> cn_last_seen_mono_sec n \<noteq> 0 \<and>
     unat now > unat (cn_last_seen_mono_sec n) + 3 * (if cn_heartbeat_interval_sec n = 0 then 5 else unat (cn_heartbeat_interval_sec n))"

lemma timeout_exact:
  assumes "3 * unat (cn_heartbeat_interval_sec n) < 2 ^ 32"
  shows "unat (heartbeatTimeoutSec n) = 3 * (if cn_heartbeat_interval_sec n = 0 then 5 else unat (cn_heartbeat_interval_sec n))"
proof (cases "cn_heartbeat_interval_sec n = 0")
  case False
  then have "unat (cn_heartbeat_interval_sec n) \<ge> 1" by (simp add: Suc_leI unat_gt_0)
  moreover have "unat (cn_heartbeat_interval_sec n * 3) = 3 * unat (cn_heartbeat_interval_sec n)"
    using assms by (simp add: unat_word_ariths)
  ultimately show ?thesis using False by (simp add: heartbeatTimeoutSec_def Let_def word_less_nat_alt)
qed (simp add: heartbeatTimeoutSec_def)

lemma kept_iff_not_silent:
  assumes "3 * unat (cn_heartbeat_interval_sec n) < 2 ^ 32"
  shows "node_kept now n \<longleftrightarrow> \<not> node_silent now n"
proof -
  have u: "unat (ucast (heartbeatTimeoutSec n) :: u64) = unat (heartbeatTimeoutSec n)" by (simp add: unsigned_ucast_eq take_bit_nat_eq_self)
  show ?thesis
  proof (cases "unat now < unat (cn_last_seen_mono_sec n)")
    case True
    then show ?thesis by (simp add: node_kept_def node_silent_def word_less_nat_alt)
  next
    case False
    then have "unat (now - cn_last_seen_mono_sec n) = unat now - unat (cn_last_seen_mono_sec n)" by (simp add: unat_sub word_le_nat_alt)
    then show ?thesis using False timeout_exact [OF assms] u
      by (auto simp: node_kept_def node_silent_def word_less_nat_alt word_le_nat_alt)
  qed
qed

lemma gen_less_nonempty: "gen_less a b \<Longrightarrow> b \<noteq> []"
  by (auto simp: gen_less_def bootGenerationOrder_def ParseBootPrefix_def)

section \<open>Samples\<close>

definition sample_node :: ClusterNodeState where
  "sample_node = \<lparr>cn_node_id = [110, 49], cn_boot_id = [49, 48, 45, 97], cn_status = std_string ''online'', cn_region = [], cn_probe_endpoint = [],
     cn_control_endpoint = [], cn_nat_type = [], cn_last_heartbeat = [], cn_heartbeat_interval_sec = 5, cn_last_seen_mono_sec = 100, cn_load = - 7\<rparr>"

definition sample_hub :: HubClusterState where
  "sample_hub = \<lparr>hs_nodes = [([110, 49], sample_node)], hs_cluster_version = 4\<rparr>"

lemma sample_hub_reachable: "hub_reachable sample_hub"
proof -
  have "hub_reachable (snd (restoreFromNodes 4 [sample_node] hub_new))"
    by (intro reach_step [OF reach_new] step_nodes) (simp add: load_ok_def sample_node_def)
  moreover have "snd (restoreFromNodes 4 [sample_node] hub_new) = sample_hub" by code_simp
  ultimately show ?thesis by simp
qed

lemma sample_hub_encoded: "fst (EncodeClusterSnapshotNodes (hs_nodes sample_hub)) \<and> length (snd (EncodeClusterSnapshotNodes (hs_nodes sample_hub))) = 47"
  by (simp add: EncodeClusterSnapshotNodes_def sample_hub_def AppendNode_def node_strings_def AppendString_def sample_node_def AppendU16_def AppendU32_def
      AppendU64_def std_string_def)

text \<open>A message of a node with a boot id and a status.\<close>

definition sample_message :: "u8 \<Rightarrow> bytes \<Rightarrow> u8 \<Rightarrow> Message" where
  "sample_message type boot_id status =
     \<lparr>ms_type = type, ms_request_id = 1,
      ms_fields = [\<lparr>mf_key = Some ''boot_id'', mf_tag = 0x41, mf_value = V_bytes 0, mf_value_len = of_nat (length boot_id)\<rparr>,
                   \<lparr>mf_key = Some ''status'', mf_tag = 0x43, mf_value = V_u8 status, mf_value_len = 1\<rparr>],
      ms_tag_index = (replicate TAG_INDEX_SIZE (- 1))[0x41 := 0, 0x43 := 1],
      ms_storage = boot_id @ replicate (STORAGE_SIZE - length boot_id) 0, ms_storage_len = length boot_id + 1\<rparr>"

lemma sample_message_reads:
  assumes "0 \<notin> set b" "length b < 8"
  shows "SafeMsgStringTag (sample_message t b s) 0x41 = b" "SafeMsgStringTag (sample_message t b s) 0x40 = []"
    "fst (MessageGetU8ByTag (sample_message t b s) 0x43) = Some s" "ms_type (sample_message t b s) = t"
proof -
  have "takeWhile (\<lambda>b. b \<noteq> 0) (b @ replicate n 0) = b" for n using assms(1) by (cases n) (auto simp: takeWhile_append takeWhile_eq_all_conv)
  then show "SafeMsgStringTag (sample_message t b s) 0x41 = b"
    by (simp add: sample_message_def SafeMsgStringTag_def MessageGetStringByTag_def FindFieldByTag_def TAG_INDEX_SIZE_def get_string_def)
qed (simp_all add: sample_message_def SafeMsgStringTag_def MessageGetStringByTag_def MessageGetU8ByTag_def FindFieldByTag_def TAG_INDEX_SIZE_def
    get_string_def get_u8_def)

lemma sample_generations:
  "gen_less [49, 48, 45, 97] [49, 49, 45, 97]" "gen_less [57, 45, 97] [49, 48, 45, 97]"
  by (simp_all add: gen_less_def bootGenerationOrder_def ParseBootPrefix_def strtoull_def is_space_def is_digit_def Let_def)

section \<open>Properties\<close>

text \<open>
  C21. A restarted hub restores its table. For every state that a hub reaches by messages, expiry and restoring, the snapshot message that
  the hub builds of it is encoded into a buffer of 8300 bytes, decoded on the other side, and a new hub that restores from the decoded message has the
  same nodes and the same version. The encoded nodes and the time must be shorter than 65536 bytes.
\<close>

theorem snapshot_restores:
  assumes "hub_reachable h" "BuildClusterSnapshotMessage (hs_nodes h) (hs_cluster_version h) ts msg = (True, m)"
    and "length (snd (EncodeClusterSnapshotNodes (hs_nodes h))) < 2 ^ 16" "length ts < 2 ^ 16" "8300 \<le> cap" "cap \<le> length buf"
  shows "\<exists>out n m'. EncodeMessage m (Some buf) cap = (0, Some out, Some n) \<and> DecodeMessage (Some (take n out)) n msg' = (True, m') \<and>
    restoreFromSnapshot m' hub_new = (True, h)"
proof -
  obtain enc where enc: "EncodeClusterSnapshotNodes (hs_nodes h) = (True, enc)"
    using assms(2) by (cases "EncodeClusterSnapshotNodes (hs_nodes h)") (auto simp: BuildClusterSnapshotMessage_def split: if_splits)
  define t where "t = takeWhile (\<lambda>b. b \<noteq> 0) ts"
  define fs where "fs = snapshot_fields h enc t"
  have len: "length enc < 2 ^ 16" "length t < 2 ^ 16"
    using assms(3,4) enc length_takeWhile_le [of "\<lambda>b. b \<noteq> 0" ts] by (simp_all add: t_def)
  have add: "add_args fs (MessageInit 0x43 (ucast (hs_cluster_version h))) = (True, m)"
    using assms(2) build_snapshot_eq [OF enc] by (simp add: fs_def t_def)
  have room: "sum_list (map (arg_store \<circ> snd) fs) \<le> STORAGE_SIZE"
    using add_args_room [OF add] len by (simp add: fs_def snapshot_fields_def MessageInit_def)
  have ok: "\<forall>ta \<in> set fs. arg_ok ta" by (simp add: fs_def snapshot_fields_def arg_ok_def snapshot_defs)
  have small: "16 + length (concat (map wire_field fs)) \<le> cap"
    using room assms(5) by (simp add: fs_def snapshot_fields_def length_wire_field STORAGE_SIZE_def)
  have "length fs \<le> MAX_FIELDS" by (simp add: fs_def snapshot_fields_def MAX_FIELDS_def)
  then obtain m1 out n where w: "add_args fs (MessageInit 0x43 (ucast (hs_cluster_version h))) = (True, m1)" "EncodeMessage m1 (Some buf) cap = (0, Some out, Some n)"
      "DecodeMessage (Some (take n out @ [])) (n + length []) msg' = (True, m1)"
    using message_wire [OF ok _ room _ small assms(6), where rest = "[]" and type = "0x43" and rid = "ucast (hs_cluster_version h)" and msg = msg'] by auto
  have "ms_type m = 0x43" using add_args_type [OF add] by (simp add: MessageInit_def)
  then have "restoreFromSnapshot m hub_new = (True, h)"
    using parse_snapshot_eq [OF hub_reachable_wf [OF assms(1)] enc len] add by (simp add: fs_def)
  then show ?thesis using w add by auto
qed

theorem snapshot_restores_witness:
  "\<exists>m out n m'. BuildClusterSnapshotMessage (hs_nodes sample_hub) (hs_cluster_version sample_hub) [] (MessageInit 0 0) = (True, m) \<and>
    EncodeMessage m (Some (replicate 8300 0)) 8300 = (0, Some out, Some n) \<and> DecodeMessage (Some (take n out)) n (MessageInit 0 0) = (True, m') \<and>
    restoreFromSnapshot m' hub_new = (True, sample_hub)"
proof -
  obtain enc where enc: "EncodeClusterSnapshotNodes (hs_nodes sample_hub) = (True, enc)" "length enc = 47"
    using sample_hub_encoded by (cases "EncodeClusterSnapshotNodes (hs_nodes sample_hub)") auto
  obtain m where "add_args (snapshot_fields sample_hub enc []) (MessageInit 0x43 (ucast (hs_cluster_version sample_hub))) = (True, m)"
    using add_args_holds [OF message_init_holds, of "snapshot_fields sample_hub enc []"] enc(2)
    by (auto simp: snapshot_fields_def arg_ok_def snapshot_defs MAX_FIELDS_def STORAGE_SIZE_def MessageInit_def)
  then have m: "BuildClusterSnapshotMessage (hs_nodes sample_hub) (hs_cluster_version sample_hub) [] (MessageInit 0 0) = (True, m)"
    using build_snapshot_eq [OF enc(1), of "[]"] by simp
  then show ?thesis
    using snapshot_restores [OF sample_hub_reachable m, of 8300 "replicate 8300 0"] enc by auto
qed

text \<open>
  C22. An accepted message updates exactly its node: the node it reports is the one in the table, under the id of the topic, with the boot id of the message
  and the time of arrival; the other nodes are unchanged and the version grows by one. The generation never goes back: the boot id that was stored
  is that of the message or one of an older generation.
\<close>

theorem accepted_message_updates:
  assumes "hub_reachable h" "- (2 ^ 31) \<le> junk" "junk < 2 ^ 31" "applyMessage junk k msg now ts h = (Some (event, node), h')"
  shows "(\<forall>k'. map_find k' (hs_nodes h') = (if k' = k then Some node else map_find k' (hs_nodes h))) \<and> hs_cluster_version h' = hs_cluster_version h + 1 \<and>
    cn_node_id node = k \<and> cn_boot_id node = SafeMsgStringTag msg 0x41 \<and> cn_boot_id node \<noteq> [] \<and> cn_last_seen_mono_sec node = now \<and>
    (case map_find k (hs_nodes h) of None \<Rightarrow> True | Some old \<Rightarrow> cn_boot_id old = cn_boot_id node \<or> gen_less (cn_boot_id old) (cn_boot_id node))"
proof -
  have wf: "hub_wf h" by (rule hub_reachable_wf [OF assms(1)])
  show ?thesis
  proof (cases rule: applyMessage_cases [where junk = junk and k = k and msg = msg and now = now and ts = ts and h = h])
    case ignored
    then show ?thesis using assms(4) by simp
  next
    case (entered c node0)
    have "load_ok node0" using entered(4) assms(2,3) wf by (auto simp: created_node_def replaced_node_def load_ok_def hub_wf_def)
    then have u: "cn_node_id node = k \<and> cn_boot_id node = SafeMsgStringTag msg 0x41 \<and> cn_last_seen_mono_sec node = now"
        "h' = bumpVersion (h\<lparr>hs_nodes := map_assign k node (hs_nodes h)\<rparr>)"
      using entered(3) assms(4) update_node_ok [of c k "SafeMsgStringTag msg 0x41" msg now ts node0 event node]
      by (auto simp: apply_to_node_def split: option.splits prod.splits)
    have "map_wf (hs_nodes h)" using wf by (simp add: hub_wf_def)
    then show ?thesis using u entered(2,4) by (auto simp: map_find_assign split: option.split)
  qed
qed

theorem accepted_message_updates_witness:
  "\<exists>event node h'. applyMessage 0 [110, 49] (sample_message 0x42 [49, 49, 45, 97] 2) 200 [] sample_hub = (Some (event, node), h') \<and>
    map_find [110, 49] (hs_nodes h') = Some node \<and> hs_cluster_version h' = hs_cluster_version sample_hub + 1 \<and> cn_boot_id node = [49, 49, 45, 97] \<and>
    gen_less (cn_boot_id sample_node) (cn_boot_id node)"
proof -
  note r = sample_message_reads [of "[49, 49, 45, 97]"]
  have "\<exists>event node h'. applyMessage 0 [110, 49] (sample_message 0x42 [49, 49, 45, 97] 2) 200 [] sample_hub = (Some (event, node), h')"
    using r sample_generations(1)
    by (auto simp: applyMessage_def sample_hub_def map_find_def sample_node_def isCurrentGeneration_def replace_iff_newer apply_to_node_def
        update_node_def apply_heartbeat_def Let_def)
  then obtain event node h' where a: "applyMessage 0 [110, 49] (sample_message 0x42 [49, 49, 45, 97] 2) 200 [] sample_hub = (Some (event, node), h')"
    by blast
  have "(- (2 ^ 31) :: int) \<le> 0" "(0 :: int) < 2 ^ 31" by simp_all
  note accepted_message_updates [OF sample_hub_reachable this a]
  then show ?thesis using a r(1) sample_generations(1) by (auto simp: sample_node_def)
qed

text \<open>
  C24. A refused message can make the hub forget the generation of a node. The hub knows a node and refuses the late heartbeat of an older generation. An
  offline message of a newer generation is refused too and reported as without effect, and the version stays, but the node was already replaced by
  an empty one: now the same late heartbeat is accepted and its old boot id stored.
\<close>

theorem refused_message_forgets_generation:
  assumes "hub_reachable h" "map_find k (hs_nodes h) = Some old"
    and "ms_type offline = 0x41" "fst (MessageGetU8ByTag offline 0x43) = Some 3" "SafeMsgStringTag offline 0x40 \<in> {[], k}"
      "gen_less (cn_boot_id old) (SafeMsgStringTag offline 0x41)"
    and "ms_type late = 0x42" "SafeMsgStringTag late 0x40 \<in> {[], k}" "SafeMsgStringTag late 0x41 \<noteq> []"
      "gen_less (SafeMsgStringTag late 0x41) (cn_boot_id old)"
  shows "applyMessage junk k late now' ts' h = (None, h) \<and>
    (\<exists>h1 node h2. applyMessage junk k offline now ts h = (None, h1) \<and> hs_cluster_version h1 = hs_cluster_version h \<and>
       applyMessage junk k late now' ts' h1 = (Some (''node_heartbeat'', node), h2) \<and> cn_boot_id node = SafeMsgStringTag late 0x41)"
proof -
  have wf: "map_wf (hs_nodes h)" "k \<noteq> []" using hub_reachable_wf [OF assms(1)] assms(2) by (auto simp: hub_wf_def)
  define h1 where "h1 = h\<lparr>hs_nodes := map_assign k (replaced_node k now ts) (hs_nodes h)\<rparr>"
  have "SafeMsgStringTag late 0x41 \<noteq> cn_boot_id old" "\<not> gen_less (cn_boot_id old) (SafeMsgStringTag late 0x41)"
    using assms(10) gen_less_order by metis+
  then have "applyMessage junk k late now' ts' h = (None, h)"
    using wf assms(2,8,9) by (auto simp: applyMessage_def Let_def isCurrentGeneration_def replace_iff_newer)
  moreover have "applyMessage junk k offline now ts h = (None, h1)"
    using wf assms(2-6) gen_less_nonempty [OF assms(6)] gen_less_order(1)
    by (auto simp: applyMessage_def Let_def isCurrentGeneration_def replace_iff_newer apply_to_node_def update_node_def apply_presence_def
        replaced_node_def h1_def)
  moreover have "map_find k (hs_nodes h1) = Some (replaced_node k now ts)" using wf by (simp add: h1_def map_find_assign)
  then have "applyMessage junk k late now' ts' h1 =
      apply_to_node False k (SafeMsgStringTag late 0x41) late now' ts' (replaced_node k now' ts') h1"
    using wf assms(8,9) gen_less_empty [OF assms(9)]
    by (auto simp: applyMessage_def Let_def isCurrentGeneration_def replace_iff_newer replaced_node_def)
  then have "\<exists>node h2. applyMessage junk k late now' ts' h1 = (Some (''node_heartbeat'', node), h2) \<and> cn_boot_id node = SafeMsgStringTag late 0x41"
    using assms(7) by (auto simp: apply_to_node_def update_node_def apply_heartbeat_def Let_def)
  ultimately show ?thesis by (auto simp: h1_def)
qed

theorem refused_message_forgets_generation_witness:
  "applyMessage 0 [110, 49] (sample_message 0x42 [57, 45, 97] 2) 201 [] sample_hub = (None, sample_hub) \<and>
    (\<exists>h1 node h2. applyMessage 0 [110, 49] (sample_message 0x41 [49, 49, 45, 97] 3) 200 [] sample_hub = (None, h1) \<and>
       hs_cluster_version h1 = hs_cluster_version sample_hub \<and>
       applyMessage 0 [110, 49] (sample_message 0x42 [57, 45, 97] 2) 201 [] h1 = (Some (''node_heartbeat'', node), h2) \<and> cn_boot_id node = [57, 45, 97])"
proof -
  note r = sample_message_reads [of "[49, 49, 45, 97]"] sample_message_reads [of "[57, 45, 97]"]
  have "map_find [110, 49] (hs_nodes sample_hub) = Some sample_node" "cn_boot_id sample_node = [49, 48, 45, 97]"
    by (simp_all add: sample_hub_def map_find_def sample_node_def)
  then show ?thesis
    using refused_message_forgets_generation [OF sample_hub_reachable, of "[110, 49]" sample_node "sample_message 0x41 [49, 49, 45, 97] 3"
        "sample_message 0x42 [57, 45, 97] 2" 0 201 "[]" 200 "[]"] r sample_generations by simp
qed

text \<open>
  C23. Expiry evicts exactly the silent nodes. When no interval is so large that three times it wraps around, the nodes that were not heard of for
  more than three intervals (of 5 seconds, when none is known) are evicted and returned in the order of their ids, the others stay, and the version grows when anything was evicted.
\<close>

theorem sweep_evicts_silent:
  assumes "\<forall>(k, n) \<in> set (hs_nodes h). 3 * unat (cn_heartbeat_interval_sec n) < 2 ^ 32"
  shows "sweepExpired now h =
    (let silent = filter (\<lambda>(k, n). node_silent now n) (hs_nodes h)
     in (silent \<noteq> [], map snd silent,
         h\<lparr>hs_nodes := filter (\<lambda>(k, n). \<not> node_silent now n) (hs_nodes h), hs_cluster_version := hs_cluster_version h + (if silent = [] then 0 else 1)\<rparr>))"
proof -
  have k: "filter (\<lambda>(k, n). node_kept now n) (hs_nodes h) = filter (\<lambda>(k, n). \<not> node_silent now n) (hs_nodes h)"
    "filter (\<lambda>(k, n). \<not> node_kept now n) (hs_nodes h) = filter (\<lambda>(k, n). node_silent now n) (hs_nodes h)"
    using assms kept_iff_not_silent by (auto intro!: filter_cong)
  have "(\<exists>(k, n) \<in> set (hs_nodes h). \<not> node_kept now n) \<longleftrightarrow> filter (\<lambda>(k, n). \<not> node_kept now n) (hs_nodes h) \<noteq> []"
    by (auto simp: filter_empty_conv)
  then show ?thesis by (simp add: sweepExpired_def sweep_loop_eq k bumpVersion_def Let_def)
qed

theorem sweep_evicts_silent_witness:
  "sweepExpired 200 sample_hub = (True, [sample_node], \<lparr>hs_nodes = [], hs_cluster_version = 5\<rparr>)"
  using sweep_evicts_silent [of sample_hub 200]
  by (simp add: sample_hub_def sample_node_def node_silent_def Let_def)

text \<open>The timeout is computed with 32 bits: an interval of 1431655766 seconds gives a timeout of 3 seconds.\<close>

lemma heartbeat_timeout_wraps: "cn_heartbeat_interval_sec n = 0x55555556 \<Longrightarrow> heartbeatTimeoutSec n = 3"
  by (simp add: heartbeatTimeoutSec_def)

end
